(* ===== verification/Bytes.thy ===== *)
theory Bytes
  imports Main "HOL-Library.Word"
begin

text \<open>
  The prelude of the development: the machine types of the C code (LP64: \<open>size_t\<close> and
  \<open>crypto_word_t\<close> have 64 bits, \<open>unsigned\<close> has 32), the big-endian and little-endian readings
  of byte lists that the bytestring parser, the DER encoder and the protocol buffer codec share,
  and the generic facts about words and lists that the component theories use.
\<close>

unbundle bit_operations_syntax

type_synonym u8 = "8 word"
type_synonym u16 = "16 word"
type_synonym u32 = "32 word"
type_synonym u64 = "64 word"
type_synonym size_t = "64 word"
type_synonym bytes = "8 word list"

named_theorems bytes_simps
  "rewrite rules for byte lists, their integer readings and fixed-width words"

section \<open>Words\<close>

lemma or_eq_plus_push [bytes_simps]:
  fixes a b :: "'a::len word"
  assumes "take_bit n b = b"
  shows "push_bit n a OR b = push_bit n a + b"
proof -
  have "\<not> bit b i" if "n \<le> i" for i
    using assms that by (metis bit_take_bit_iff not_less)
  then have "\<not> bit (push_bit n a) i \<or> \<not> bit b i" for i
    by (auto simp: bit_push_bit_iff)
  then show ?thesis
    by (simp add: disjunctive_add)
qed

lemma unat_less_256 [simp]: "unat (b :: u8) < 256"
  using unsigned_less [of b] by simp

lemma take_bit_ucast_u8: "take_bit 8 (ucast (b :: u8) :: 'a::len word) = ucast b"
  by (rule bit_word_eqI) (auto simp: bit_take_bit_iff bit_ucast_iff dest: bit_imp_le_length)

lemma word_of_unat: "of_nat (unat w) = w"
  by simp

lemma unat_of_nat_less:
  "n < 2 ^ LENGTH('a) \<Longrightarrow> unat (of_nat n :: 'a::len word) = n"
  by (simp add: unsigned_of_nat take_bit_nat_eq_self)

lemma unat_less_64: "unat (v :: u64) < 2 ^ 64"
  using unsigned_less [of v] by simp

lemma unat_of_nat_u8: "n < 256 \<Longrightarrow> unat (of_nat n :: u8) = n"
  by (simp add: unat_of_nat_less)

lemma unat_less_32: "unat (t :: u32) < 2 ^ 32"
  using unsigned_less [of t] by simp

text \<open>Reading a 64-bit word as a signed integer.\<close>

lemma shift_mod:
  assumes "0 \<le> u" "u < 2 * n"
  shows "(u + n) mod (2 * n) = (if u < n then u + n else u - (n :: int))"
proof (cases "u < n")
  case False
  have "(u + n) mod (2 * n) = (u - n + 2 * n) mod (2 * n)"
    by (simp add: algebra_simps)
  also have "\<dots> = u - n"
    using False assms by (simp only: mod_add_self2) (simp add: mod_pos_pos_trivial)
  finally show ?thesis using False by simp
qed (use assms in \<open>simp add: mod_pos_pos_trivial\<close>)

lemma sint_u64: "sint (w :: u64) = (if unat w < 2 ^ 63 then int (unat w) else int (unat w) - 2 ^ 64)"
proof -
  have "sint w = (int (unat w) + 2 ^ 63) mod 2 ^ 64 - 2 ^ 63"
    by (simp add: sint_uint signed_take_bit_eq_take_bit_shift take_bit_eq_mod)
  moreover have "int (unat w) < int (2 ^ 64)"
    unfolding of_nat_less_iff by (rule unat_less_64)
  then have "(int (unat w) + 2 ^ 63) mod 2 ^ 64 =
      (if int (unat w) < int (2 ^ 63) then int (unat w) + 2 ^ 63 else int (unat w) - 2 ^ 63)"
    using shift_mod [of "int (unat w)" "2 ^ 63"] by simp
  ultimately show ?thesis unfolding of_nat_less_iff by simp
qed

text \<open>The high bit of a byte and its other seven bits, in which base-128 integers come.\<close>

lemma unat_and_7f: "unat (b AND 0x7f :: u8) = unat b mod 128"
proof -
  have "b AND 0x7f = take_bit 7 b"
    by (simp add: take_bit_eq_mask mask_numeral)
  then show ?thesis by (simp add: take_bit_eq_mod unat_mod_distrib)
qed

lemma and_80: "b AND 0x80 = 0 \<longleftrightarrow> unat (b :: u8) < 128"
proof -
  have "b AND 0x80 = push_bit 7 (drop_bit 7 b)"
  proof (rule bit_word_eqI)
    fix n
    assume "n < LENGTH(8)"
    then have "n \<in> {0,1,2,3,4,5,6,7}" by auto
    then show "bit (b AND 0x80) n = bit (push_bit 7 (drop_bit 7 b)) n"
      by (auto simp: bit_simps)
  qed
  moreover have "unat (push_bit 7 (drop_bit 7 b)) = unat b div 128 * 128"
  proof -
    have "unat b div 128 * 128 < 256"
      using unat_less_256 [of b] by linarith
    then show ?thesis
      by (simp add: push_bit_eq_mult unat_word_ariths drop_bit_eq_div unat_div_distrib)
  qed
  ultimately have "b AND 0x80 = 0 \<longleftrightarrow> unat b div 128 = 0"
    by (simp add: word_unat_eq_iff)
  then show ?thesis by (simp add: div_eq_0_iff)
qed

lemma mod_128: "128 \<le> unat b \<Longrightarrow> unat (b :: u8) mod 128 = unat b - 128"
proof -
  assume "128 \<le> unat b"
  moreover have "unat b - 128 < 128"
    using unat_less_256 [of b] by linarith
  ultimately show ?thesis by (simp add: le_mod_geq)
qed

section \<open>Big-endian integers\<close>

text \<open>The loop \<open>result <<= 8; result |= data[i]\<close> that reads a big-endian integer.\<close>

definition be_step :: "u64 \<Rightarrow> u8 \<Rightarrow> u64" where
  "be_step r b = push_bit 8 r OR ucast b"

definition be_read :: "bytes \<Rightarrow> u64" where
  "be_read bs = foldl be_step 0 bs"

text \<open>The unbounded value of a big-endian byte string, and its bytes.\<close>

definition be_nat :: "bytes \<Rightarrow> nat" where
  "be_nat bs = foldl (\<lambda>a b. a * 256 + unat b) 0 bs"

fun be_bytes :: "nat \<Rightarrow> nat \<Rightarrow> bytes" where
  "be_bytes 0 v = []"
| "be_bytes (Suc n) v = be_bytes n (v div 256) @ [of_nat (v mod 256)]"

lemma length_be_bytes [simp]: "length (be_bytes n v) = n"
  by (induction n arbitrary: v) auto

lemma be_nat_Nil [simp]: "be_nat [] = 0"
  by (simp add: be_nat_def)

lemma be_nat_snoc [simp]: "be_nat (bs @ [b]) = be_nat bs * 256 + unat b"
  by (simp add: be_nat_def)

lemma be_nat_bound: "be_nat bs < 256 ^ length bs"
proof (induction bs rule: rev_induct)
  case Nil
  show ?case by simp
next
  case (snoc b bs)
  have "be_nat bs + 1 \<le> 256 ^ length bs"
    using snoc.IH by simp
  then have "(be_nat bs + 1) * 256 \<le> 256 ^ length bs * 256"
    by (rule mult_le_mono1)
  moreover have "unat b < 256"
    by (rule unat_less_256)
  ultimately have "be_nat bs * 256 + unat b < 256 ^ length bs * 256"
    unfolding distrib_right by linarith
  then show ?case by (simp add: mult.commute)
qed

lemma be_nat_be_bytes [simp]: "be_nat (be_bytes n v) = v mod 256 ^ n"
proof (induction n arbitrary: v)
  case 0
  show ?case by simp
next
  case (Suc n)
  have "unat (of_nat (v mod 256) :: u8) = v mod 256"
    by (rule unat_of_nat_less) simp
  with Suc.IH [of "v div 256"] show ?case
    by (simp add: mod_mult2_eq mult.commute)
qed

lemma be_bytes_be_nat [simp]: "be_bytes (length bs) (be_nat bs) = bs"
  by (induction bs rule: rev_induct) (simp_all add: unsigned_less)

lemma len64: "LENGTH(64) = 64"
  by simp

lemma be_read_snoc: "be_read (bs @ [b]) = be_step (be_read bs) b"
  by (simp add: be_read_def)

lemma unat_be_read:
  "length bs \<le> 8 \<Longrightarrow> unat (be_read bs) = be_nat bs"
proof (induction bs rule: rev_induct)
  case Nil
  show ?case by (simp add: be_read_def)
next
  case (snoc b bs)
  have IH: "unat (be_read bs) = be_nat bs" and len: "length bs \<le> 7"
    using snoc by simp_all
  have "be_nat (bs @ [b]) < 256 ^ length (bs @ [b])"
    by (rule be_nat_bound)
  also have "256 ^ length (bs @ [b]) \<le> (256::nat) ^ 8"
    using len by (intro power_increasing) auto
  finally have small: "be_nat bs * 256 + unat b < 2 ^ 64"
    by simp
  have "be_step (be_read bs) b = push_bit 8 (be_read bs) + ucast b"
    unfolding be_step_def by (rule or_eq_plus_push) (rule take_bit_ucast_u8)
  also have "\<dots> = of_nat (be_nat bs * 256 + unat b)"
    by (simp add: push_bit_eq_mult flip: IH)
  finally have "be_read (bs @ [b]) = of_nat (be_nat bs * 256 + unat b)"
    by (simp only: be_read_snoc)
  with small show ?case
    by (simp only: unat_of_nat_less be_nat_snoc len64)
qed

section \<open>Memory\<close>

text \<open>\<open>OPENSSL_memcpy\<close> of \<open>src\<close> into \<open>dst\<close> at offset \<open>i\<close>.\<close>

definition blit :: "bytes \<Rightarrow> nat \<Rightarrow> bytes \<Rightarrow> bytes" where
  "blit dst i src = take i dst @ src @ drop (i + length src) dst"

lemma length_blit: "i + length src \<le> length dst \<Longrightarrow> length (blit dst i src) = length dst"
  by (simp add: blit_def)

lemma take_blit:
  "i + length src \<le> length dst \<Longrightarrow> take (i + length src) (blit dst i src) = take i dst @ src"
  by (simp add: blit_def)

end
