(* ===== verification/Const_Time.thy ===== *)
theory Const_Time
  imports Bytes
begin

text \<open>
  The constant-time selection primitives of BoringSSL's \<open>crypto/internal.h\<close>: masks of all ones
  for true and zero for false, computed without branches. \<open>crypto_word_t\<close> is the 64-bit word of
  the targets the app is built for; \<open>value_barrier_w\<close> is the identity on values. The lemmas say
  that each mask is the comparison it stands for and that a select is an \<open>if\<close>.
\<close>

type_synonym crypto_word_t = "64 word"

named_theorems consttime "the meaning of the constant-time masks"

definition CONSTTIME_TRUE_W :: crypto_word_t where
  "CONSTTIME_TRUE_W = NOT 0"

definition CONSTTIME_FALSE_W :: crypto_word_t where
  "CONSTTIME_FALSE_W = 0"

definition value_barrier_w :: "crypto_word_t \<Rightarrow> crypto_word_t" where
  "value_barrier_w a = a"

definition constant_time_msb_w :: "crypto_word_t \<Rightarrow> crypto_word_t" where
  "constant_time_msb_w a = 0 - drop_bit 63 a"

definition constant_time_lt_w :: "crypto_word_t \<Rightarrow> crypto_word_t \<Rightarrow> crypto_word_t" where
  "constant_time_lt_w a b = constant_time_msb_w (a XOR ((a XOR b) OR ((a - b) XOR a)))"

definition constant_time_lt_8 :: "crypto_word_t \<Rightarrow> crypto_word_t \<Rightarrow> u8" where
  "constant_time_lt_8 a b = ucast (constant_time_lt_w a b)"

definition constant_time_ge_w :: "crypto_word_t \<Rightarrow> crypto_word_t \<Rightarrow> crypto_word_t" where
  "constant_time_ge_w a b = NOT (constant_time_lt_w a b)"

definition constant_time_ge_8 :: "crypto_word_t \<Rightarrow> crypto_word_t \<Rightarrow> u8" where
  "constant_time_ge_8 a b = ucast (constant_time_ge_w a b)"

definition constant_time_is_zero_w :: "crypto_word_t \<Rightarrow> crypto_word_t" where
  "constant_time_is_zero_w a = constant_time_msb_w (NOT a AND (a - 1))"

definition constant_time_is_zero_8 :: "crypto_word_t \<Rightarrow> u8" where
  "constant_time_is_zero_8 a = ucast (constant_time_is_zero_w a)"

definition constant_time_eq_w :: "crypto_word_t \<Rightarrow> crypto_word_t \<Rightarrow> crypto_word_t" where
  "constant_time_eq_w a b = constant_time_is_zero_w (a XOR b)"

definition constant_time_eq_8 :: "crypto_word_t \<Rightarrow> crypto_word_t \<Rightarrow> u8" where
  "constant_time_eq_8 a b = ucast (constant_time_eq_w a b)"

definition constant_time_select_w ::
    "crypto_word_t \<Rightarrow> crypto_word_t \<Rightarrow> crypto_word_t \<Rightarrow> crypto_word_t" where
  "constant_time_select_w msk a b =
     (value_barrier_w msk AND a) OR (value_barrier_w (NOT msk) AND b)"

definition constant_time_select_8 :: "u8 \<Rightarrow> u8 \<Rightarrow> u8 \<Rightarrow> u8" where
  "constant_time_select_8 msk a b = ucast (constant_time_select_w (ucast msk) (ucast a) (ucast b))"

section \<open>Masks\<close>

lemma drop_bit_63: "drop_bit 63 (a :: crypto_word_t) = of_bool (bit a 63)"
proof (rule bit_word_eqI)
  fix n
  assume "n < LENGTH(64)"
  show "bit (drop_bit 63 a) n = bit (of_bool (bit a 63) :: crypto_word_t) n"
  proof (cases n)
    case 0
    then show ?thesis by (simp add: bit_simps)
  next
    case (Suc m)
    then show ?thesis
      using bit_imp_le_length [of a "63 + n"] by (auto simp: bit_simps)
  qed
qed

lemma constant_time_msb_w_eq [consttime]:
  "constant_time_msb_w a = (if bit a 63 then CONSTTIME_TRUE_W else CONSTTIME_FALSE_W)"
  by (simp add: constant_time_msb_w_def drop_bit_63 CONSTTIME_TRUE_W_def CONSTTIME_FALSE_W_def)

lemma uint_bounds_64: "0 \<le> uint (a :: crypto_word_t)" "uint (a :: crypto_word_t) < 2 ^ 64"
proof -
  show "0 \<le> uint a" by simp
  have "uint a < 2 ^ LENGTH(64)" by (rule unsigned_less)
  then show "uint a < 2 ^ 64" by simp
qed

lemma bit_63_iff: "bit (a :: crypto_word_t) 63 \<longleftrightarrow> 2 ^ 63 \<le> uint a"
proof -
  have "bit a 63 \<longleftrightarrow> bit (uint a) 63"
    by (simp add: bit_uint_iff)
  also have "\<dots> \<longleftrightarrow> odd (uint a div 2 ^ 63)"
    by (rule bit_iff_odd)
  finally have odd: "bit a 63 \<longleftrightarrow> odd (uint a div 2 ^ 63)" .
  note ge = uint_bounds_64(1) [of a] and lt = uint_bounds_64(2) [of a]
  show ?thesis
  proof (cases "2 ^ 63 \<le> uint a")
    case True
    with lt have "uint a div 2 ^ 63 = 1" by simp
    with True odd show ?thesis by simp
  next
    case False
    with ge have "uint a div 2 ^ 63 = 0" by simp
    with False odd show ?thesis by simp
  qed
qed

lemma uint_sub_64:
  "uint (a - b :: crypto_word_t) =
     (if uint b \<le> uint a then uint a - uint b else uint a - uint b + 2 ^ 64)"
  using uint_sub_if' [of a b] by simp

lemma borrow_iff_less:
  "0 \<le> x \<Longrightarrow> x < 2 ^ 64 \<Longrightarrow> 0 \<le> y \<Longrightarrow> y < 2 ^ 64 \<Longrightarrow>
   (if (2 ^ 63 \<le> x) = (2 ^ 63 \<le> y) then 2 ^ 63 \<le> (if y \<le> x then x - y else x - y + 2 ^ 64)
    else 2 ^ 63 \<le> y) \<longleftrightarrow> x < (y :: int)"
  by auto

lemma borrow_iff_zero:
  "0 \<le> x \<Longrightarrow> x < 2 ^ 64 \<Longrightarrow>
   \<not> 2 ^ 63 \<le> x \<and> 2 ^ 63 \<le> (if 1 \<le> x then x - 1 else x - 1 + 2 ^ 64) \<longleftrightarrow> x = (0 :: int)"
  by auto

lemma constant_time_lt_w_eq [consttime]:
  "constant_time_lt_w a b = (if a < b then CONSTTIME_TRUE_W else CONSTTIME_FALSE_W)"
proof -
  have "bit (a XOR ((a XOR b) OR ((a - b) XOR a))) 63 \<longleftrightarrow>
      (if bit a 63 = bit b 63 then bit (a - b) 63 else bit b 63)"
    by (simp add: bit_simps) blast
  also have "\<dots> \<longleftrightarrow> uint a < uint b"
    unfolding bit_63_iff uint_sub_64
    by (rule borrow_iff_less) (rule uint_bounds_64)+
  finally show ?thesis
    by (simp add: constant_time_lt_w_def constant_time_msb_w_eq word_less_def)
qed

lemma constant_time_is_zero_w_eq [consttime]:
  "constant_time_is_zero_w a = (if a = 0 then CONSTTIME_TRUE_W else CONSTTIME_FALSE_W)"
proof -
  have "bit (NOT a AND (a - 1)) 63 \<longleftrightarrow> \<not> bit a 63 \<and> bit (a - 1) 63"
    by (simp add: bit_simps)
  also have "\<dots> \<longleftrightarrow> uint a = 0"
    unfolding bit_63_iff uint_sub_64 uint_1
    by (rule borrow_iff_zero) (rule uint_bounds_64)+
  also have "\<dots> \<longleftrightarrow> a = 0"
    by (simp add: uint_0_iff)
  finally show ?thesis
    by (simp add: constant_time_is_zero_w_def constant_time_msb_w_eq)
qed

lemma constant_time_eq_w_eq [consttime]:
  "constant_time_eq_w a b = (if a = b then CONSTTIME_TRUE_W else CONSTTIME_FALSE_W)"
proof -
  have "a XOR b = 0 \<longleftrightarrow> a = b"
    by (simp add: bit_eq_iff bit_simps)
  then show ?thesis
    by (simp add: constant_time_eq_w_def constant_time_is_zero_w_eq)
qed

lemma ucast_TRUE_W [consttime]: "ucast CONSTTIME_TRUE_W = (0xff :: u8)"
  unfolding CONSTTIME_TRUE_W_def by code_simp

lemma ucast_FALSE_W [consttime]: "ucast CONSTTIME_FALSE_W = (0 :: u8)"
  by (simp add: CONSTTIME_FALSE_W_def)

lemma is_up_u8: "is_up (ucast :: u8 \<Rightarrow> crypto_word_t)"
  by (simp add: is_up)

lemma ucast_u8_inject: "(ucast (a :: u8) :: crypto_word_t) = ucast b \<longleftrightarrow> a = b"
  by (metis ucast_up_ucast_id [where 'a = 8 and 'b = 64] is_up_u8)

lemma constant_time_eq_8_eq [consttime]:
  "constant_time_eq_8 (ucast (a :: u8)) (ucast b) = (if a = b then 0xff else 0)"
  by (simp add: constant_time_eq_8_def constant_time_eq_w_eq ucast_TRUE_W ucast_FALSE_W
      ucast_u8_inject)

lemma ff_u8: "(0xff :: u8) = - 1"
  by simp

lemma constant_time_select_8_true [consttime]: "constant_time_select_8 0xff a b = a"
  unfolding ff_u8
  by (rule bit_word_eqI)
    (auto simp: constant_time_select_8_def constant_time_select_w_def value_barrier_w_def bit_simps)

lemma constant_time_select_8_false [consttime]: "constant_time_select_8 0 a b = b"
  by (rule bit_word_eqI)
    (auto simp: constant_time_select_8_def constant_time_select_w_def value_barrier_w_def bit_simps)

end
