(* ===== verification/Base64.thy ===== *)
theory Base64
  imports Const_Time
begin

text \<open>
  BoringSSL's base64 codec (\<open>crypto/base64/base64.c\<close>), which carries certificates and keys in
  PEM form. Characters are \<open>u8\<close> codes (43 is plus, 47 slash, 61 equals, 65 A, 97 a, 48 zero). A
  destination pointer that only moves forward is the list of bytes written through it; an
  \<open>EVP_ENCODE_CTX\<close> is a record of its fields, with \<open>data\<close> a list of 48 bytes.
\<close>

section \<open>Character classes\<close>

definition constant_time_lt_args_8 :: "u8 \<Rightarrow> u8 \<Rightarrow> u8" where
  "constant_time_lt_args_8 a b =
     (let aw = ucast a :: crypto_word_t;
          bw = ucast b :: crypto_word_t
      in ucast (constant_time_msb_w (aw - bw)))"

definition constant_time_in_range_8 :: "u8 \<Rightarrow> u8 \<Rightarrow> u8 \<Rightarrow> u8" where
  "constant_time_in_range_8 a lo hi =
     (let a' = a - lo in constant_time_lt_args_8 a' (hi - lo + 1))"

definition conv_bin2ascii :: "u8 \<Rightarrow> u8" where
  "conv_bin2ascii a0 =
     (let a = a0 AND 0x3f;
          ret = constant_time_select_8 (constant_time_eq_8 (ucast a) 62) 43 47;
          ret = constant_time_select_8 (constant_time_lt_args_8 a 62) (a - 52 + 48) ret;
          ret = constant_time_select_8 (constant_time_lt_args_8 a 52) (a - 26 + 97) ret;
          ret = constant_time_select_8 (constant_time_lt_args_8 a 26) (a + 65) ret
      in ret)"

definition base64_ascii_to_bin :: "u8 \<Rightarrow> u8" where
  "base64_ascii_to_bin a =
     (let is_upper = constant_time_in_range_8 a 65 90;
          is_lower = constant_time_in_range_8 a 97 122;
          is_digit = constant_time_in_range_8 a 48 57;
          is_plus = constant_time_eq_8 (ucast a) 43;
          is_slash = constant_time_eq_8 (ucast a) 47;
          is_equals = constant_time_eq_8 (ucast a) 61;
          ret = 0xff;
          ret = constant_time_select_8 is_upper (a - 65) ret;
          ret = constant_time_select_8 is_lower (a - 97 + 26) ret;
          ret = constant_time_select_8 is_digit (a - 48 + 52) ret;
          ret = constant_time_select_8 is_plus 62 ret;
          ret = constant_time_select_8 is_slash 63 ret;
          ret = constant_time_select_8 is_equals 0 ret
      in ret)"

section \<open>Encoding\<close>

text \<open>\<open>EVP_EncodedLength\<close>: \<open>None\<close> is the error return, taken when \<open>size_t\<close> would overflow.\<close>

definition EVP_EncodedLength :: "size_t \<Rightarrow> size_t option" where
  "EVP_EncodedLength len0 =
     (if len0 + 2 < len0 then None
      else let len = (len0 + 2) div 3
           in if drop_bit 2 (push_bit 2 len) \<noteq> len then None
              else let len = push_bit 2 len
                   in if len + 1 < len then None else Some (len + 1))"

text \<open>
  The loop of \<open>EVP_EncodeBlock\<close> over the remaining source bytes. The last one or two bytes take
  the branch with padding.
\<close>

definition encode_rest :: "bytes \<Rightarrow> bytes" where
  "encode_rest src =
     (let remaining = length src;
          l = push_bit 16 (ucast (src ! 0)) :: u32;
          l = (if remaining = 2 then l OR push_bit 8 (ucast (src ! 1)) else l)
      in [conv_bin2ascii (ucast (drop_bit 18 l)),
          conv_bin2ascii (ucast (drop_bit 12 l)),
          (if remaining = 1 then 61 else conv_bin2ascii (ucast (drop_bit 6 l))),
          61])"

fun encode_quads :: "bytes \<Rightarrow> bytes" where
  "encode_quads [] = []"
| "encode_quads (s0 # s1 # s2 # src) =
     (let l = push_bit 16 (ucast s0) OR push_bit 8 (ucast s1) OR ucast s2 :: u32
      in [conv_bin2ascii (ucast (drop_bit 18 l)),
          conv_bin2ascii (ucast (drop_bit 12 l)),
          conv_bin2ascii (ucast (drop_bit 6 l)),
          conv_bin2ascii (ucast l)] @ encode_quads src)"
| "encode_quads src = encode_rest src"

text \<open>\<open>EVP_EncodeBlock\<close>: the bytes written to \<open>dst\<close>, with the final NUL, and the return value.\<close>

definition EVP_EncodeBlock :: "bytes \<Rightarrow> bytes \<times> size_t" where
  "EVP_EncodeBlock src =
     (let q = encode_quads src in (q @ [0], of_nat (length q)))"

record EVP_ENCODE_CTX =
  data_used :: u32
  ctx_data :: bytes
  eof_seen :: bool
  error_encountered :: bool

definition EVP_EncodeInit :: EVP_ENCODE_CTX where
  "EVP_EncodeInit =
     \<lparr>data_used = 0, ctx_data = replicate 48 0, eof_seen = False, error_encountered = False\<rparr>"

definition INT_MAX :: size_t where
  "INT_MAX = 0x7fffffff"

text \<open>
  The loop of \<open>EVP_EncodeUpdate\<close> over whole lines: the bytes written to \<open>out\<close> before the pointer
  (the NUL at the pointer is overwritten by the next write), \<open>total\<close>, and the input left. \<open>Inl\<close>
  is the early return on overflow of \<open>total\<close>, with the bytes written until then.
\<close>

function encode_lines :: "bytes \<Rightarrow> bytes \<Rightarrow> size_t \<Rightarrow> bytes + bytes \<times> bytes \<times> size_t" where
  "encode_lines inp out tot =
     (if 48 \<le> length inp then
        let (written, encoded) = EVP_EncodeBlock (take 48 inp);
            out' = out @ take (unat encoded) written @ [10]
        in if tot + encoded + 1 < tot then Inl out'
           else encode_lines (drop 48 inp) out' (tot + encoded + 1)
      else Inr (inp, out, tot))"
  by pat_completeness auto
termination
  by (relation "measure (\<lambda>(inp, out, tot). length inp)") auto

declare encode_lines.simps [simp del]

text \<open>
  \<open>EVP_EncodeUpdate\<close>: \<open>encode_fill\<close> is its first step, which completes and writes a buffered line.
  The result is the new context, the bytes written to \<open>out\<close> (without the NUL that follows
  them) and \<open>*out_len\<close>. \<open>in_len\<close> is the length of the input list.
\<close>

definition encode_fill :: "EVP_ENCODE_CTX \<Rightarrow> bytes \<Rightarrow> EVP_ENCODE_CTX \<times> bytes \<times> bytes \<times> size_t" where
  "encode_fill ctx inp =
     (if data_used ctx \<noteq> 0 then
        let todo = 48 - unat (data_used ctx);
            dat = blit (ctx_data ctx) (unat (data_used ctx)) (take todo inp);
            (written, encoded) = EVP_EncodeBlock (take 48 dat)
        in (ctx\<lparr>ctx_data := dat, data_used := 0\<rparr>, drop todo inp,
            take (unat encoded) written @ [10], encoded + 1)
      else (ctx, inp, [], 0))"

definition EVP_EncodeUpdate :: "EVP_ENCODE_CTX \<Rightarrow> bytes \<Rightarrow> EVP_ENCODE_CTX \<times> bytes \<times> size_t" where
  "EVP_EncodeUpdate ctx inp =
     (if inp = [] then (ctx, [], 0)
      else if length inp < 48 - unat (data_used ctx) then
        (ctx\<lparr>ctx_data := blit (ctx_data ctx) (unat (data_used ctx)) inp,
             data_used := data_used ctx + of_nat (length inp)\<rparr>, [], 0)
      else
        let (ctx, inp, out, tot) = encode_fill ctx inp
        in case encode_lines inp out tot of
             Inl out \<Rightarrow> (ctx, out, 0)
           | Inr (inp, out, tot) \<Rightarrow>
               (ctx\<lparr>ctx_data := (if inp \<noteq> [] then blit (ctx_data ctx) 0 inp else ctx_data ctx),
                    data_used := of_nat (length inp)\<rparr>,
                out, (if INT_MAX < tot then 0 else tot)))"

definition EVP_EncodeFinal :: "EVP_ENCODE_CTX \<Rightarrow> EVP_ENCODE_CTX \<times> bytes \<times> size_t" where
  "EVP_EncodeFinal ctx =
     (if data_used ctx = 0 then (ctx, [], 0)
      else let (written, encoded) = EVP_EncodeBlock (take (unat (data_used ctx)) (ctx_data ctx))
           in (ctx\<lparr>data_used := 0\<rparr>, take (unat encoded) written @ [10], encoded + 1))"

section \<open>Decoding\<close>

definition EVP_DecodedLength :: "size_t \<Rightarrow> size_t option" where
  "EVP_DecodedLength len = (if len mod 4 \<noteq> 0 then None else Some (len div 4 * 3))"

definition EVP_DecodeInit :: EVP_ENCODE_CTX where
  "EVP_DecodeInit =
     \<lparr>data_used = 0, ctx_data = replicate 48 0, eof_seen = False, error_encountered = False\<rparr>"

text \<open>\<open>base64_decode_quad\<close>: \<open>None\<close> is the error return; the bytes written to \<open>out\<close> otherwise.\<close>

definition base64_decode_quad :: "bytes \<Rightarrow> bytes option" where
  "base64_decode_quad inp =
     (let a = base64_ascii_to_bin (inp ! 0);
          b = base64_ascii_to_bin (inp ! 1);
          c = base64_ascii_to_bin (inp ! 2);
          d = base64_ascii_to_bin (inp ! 3)
      in if a = 0xff \<or> b = 0xff \<or> c = 0xff \<or> d = 0xff then None
         else
           let v = push_bit 18 (ucast a) OR push_bit 12 (ucast b) OR push_bit 6 (ucast c) OR
                     ucast d :: u32;
               padding_pattern =
                 push_bit 3 (of_bool (inp ! 0 = 61)) OR push_bit 2 (of_bool (inp ! 1 = 61)) OR
                 push_bit 1 (of_bool (inp ! 2 = 61)) OR of_bool (inp ! 3 = 61) :: u32
           in if padding_pattern = 0 then
                Some [ucast (drop_bit 16 v), ucast (drop_bit 8 v), ucast v]
              else if padding_pattern = 1 then
                Some [ucast (drop_bit 16 v), ucast (drop_bit 8 v)]
              else if padding_pattern = 3 then Some [ucast (drop_bit 16 v)]
              else None)"

text \<open>
  \<open>EVP_DecodeUpdate\<close>: the loop returns the context, the bytes written to \<open>out\<close> and whether it
  ran to the end (\<open>False\<close> is the early \<open>return -1\<close>).
\<close>

definition is_b64_space :: "u8 \<Rightarrow> bool" where
  "is_b64_space c \<longleftrightarrow> c = 32 \<or> c = 9 \<or> c = 13 \<or> c = 10"

fun decode_update_loop :: "EVP_ENCODE_CTX \<Rightarrow> bytes \<Rightarrow> bytes \<Rightarrow> EVP_ENCODE_CTX \<times> bytes \<times> bool" where
  "decode_update_loop ctx out [] = (ctx, out, True)"
| "decode_update_loop ctx out (c # inp) =
     (if is_b64_space c then decode_update_loop ctx out inp
      else if eof_seen ctx then (ctx\<lparr>error_encountered := True\<rparr>, out, False)
      else
        let ctx = ctx\<lparr>ctx_data := (ctx_data ctx)[unat (data_used ctx) := c],
                      data_used := data_used ctx + 1\<rparr>
        in if data_used ctx = 4 then
             (case base64_decode_quad (take 4 (ctx_data ctx)) of
                None \<Rightarrow> (ctx\<lparr>error_encountered := True\<rparr>, out, False)
              | Some bs \<Rightarrow>
                  decode_update_loop
                    (ctx\<lparr>data_used := 0, eof_seen := eof_seen ctx \<or> length bs < 3\<rparr>) (out @ bs) inp)
           else decode_update_loop ctx out inp)"

text \<open>The new context, the bytes written to \<open>out\<close>, \<open>*out_len\<close>, and the return value.\<close>

definition EVP_DecodeUpdate :: "EVP_ENCODE_CTX \<Rightarrow> bytes \<Rightarrow> EVP_ENCODE_CTX \<times> bytes \<times> nat \<times> int" where
  "EVP_DecodeUpdate ctx inp =
     (if error_encountered ctx then (ctx, [], 0, -1)
      else
        let (ctx, out, done_loop) = decode_update_loop ctx [] inp
        in if \<not> done_loop then (ctx, out, 0, -1)
           else if unat INT_MAX < length out then (ctx\<lparr>error_encountered := True\<rparr>, out, 0, -1)
           else (ctx, out, length out, if eof_seen ctx then 0 else 1))"

definition EVP_DecodeFinal :: "EVP_ENCODE_CTX \<Rightarrow> int" where
  "EVP_DecodeFinal ctx = (if error_encountered ctx \<or> data_used ctx \<noteq> 0 then -1 else 1)"

text \<open>The loop of \<open>EVP_DecodeBase64\<close>, one quad at a time; only the last may be padded.\<close>

fun decode_quads :: "bytes \<Rightarrow> bytes option" where
  "decode_quads (a # b # c # d # rest) =
     (case base64_decode_quad [a, b, c, d] of
        None \<Rightarrow> None
      | Some out \<Rightarrow>
          if length out \<noteq> 3 \<and> rest \<noteq> [] then None
          else (case decode_quads rest of None \<Rightarrow> None | Some r \<Rightarrow> Some (out @ r)))"
| "decode_quads _ = Some []"

definition EVP_DecodeBase64 :: "size_t \<Rightarrow> bytes \<Rightarrow> bytes option" where
  "EVP_DecodeBase64 max_out inp =
     (if length inp mod 4 \<noteq> 0 then None
      else case EVP_DecodedLength (of_nat (length inp)) of
             None \<Rightarrow> None
           | Some max_len \<Rightarrow> if max_out < max_len then None else decode_quads inp)"

text \<open>\<open>EVP_DecodeBlock\<close>: the bytes written to \<open>dst\<close> and the return value, which counts them.\<close>

definition trim_front :: "bytes \<Rightarrow> bytes" where
  "trim_front src = dropWhile (\<lambda>c. c = 32 \<or> c = 9) src"

definition trim_back :: "bytes \<Rightarrow> bytes" where
  "trim_back src = rev (dropWhile is_b64_space (rev src))"

definition EVP_DecodeBlock :: "bytes \<Rightarrow> bytes option" where
  "EVP_DecodeBlock src0 =
     (let src = trim_back (trim_front src0)
      in case EVP_DecodedLength (of_nat (length src)) of
           None \<Rightarrow> None
         | Some dst_len \<Rightarrow>
             if INT_MAX < dst_len then None
             else case EVP_DecodeBase64 dst_len src of
                    None \<Rightarrow> None
                  | Some dst \<Rightarrow> Some (dst @ replicate ((3 - length dst mod 3) mod 3) 0))"

section \<open>The alphabet\<close>

lemma uint_bounds_8: "0 \<le> uint (a :: u8)" "uint (a :: u8) < 256"
proof -
  show "0 \<le> uint a" by simp
  have "uint a < 2 ^ LENGTH(8)" by (rule unsigned_less)
  then show "uint a < 256" by simp
qed

lemma uint_sub_8:
  "uint (a - b :: u8) = (if uint b \<le> uint a then uint a - uint b else uint a - uint b + 256)"
  using uint_sub_if' [of a b] by simp

lemma borrow_small:
  "0 \<le> x \<Longrightarrow> x < 256 \<Longrightarrow> 0 \<le> y \<Longrightarrow> y < 256 \<Longrightarrow>
   2 ^ 63 \<le> (if y \<le> x then x - y else x - y + 2 ^ 64) \<longleftrightarrow> x < (y :: int)"
  by auto

lemma lt_args_8_eq [consttime]:
  "constant_time_lt_args_8 a b = (if a < b then 0xff else 0)"
proof -
  have "uint (ucast a :: crypto_word_t) = uint a" "uint (ucast b :: crypto_word_t) = uint b"
    by (simp_all add: uint_up_ucast is_up)
  moreover have "0 \<le> uint a" "uint a < 256" "0 \<le> uint b" "uint b < 256"
    by (rule uint_bounds_8)+
  ultimately have "bit (ucast a - ucast b :: crypto_word_t) 63 \<longleftrightarrow> a < b"
    unfolding bit_63_iff uint_sub_64 word_less_def by (simp only: borrow_small)
  then show ?thesis
    by (simp add: constant_time_lt_args_8_def Let_def consttime)
qed

lemma in_range_8_eq [consttime]:
  assumes "lo \<le> hi" and "hi - lo < 255"
  shows "constant_time_in_range_8 a lo hi = (if lo \<le> a \<and> a \<le> hi then 0xff else 0)"
proof -
  have "a - lo < hi - lo + 1 \<longleftrightarrow> lo \<le> a \<and> a \<le> hi"
  proof -
    have "uint (hi - lo) = uint hi - uint lo"
      using assms(1) by (simp add: uint_sub_8 word_le_def)
    moreover have "uint (hi - lo) < 255"
      using assms(2) by (simp add: word_less_def)
    moreover have "uint (hi - lo + 1) = uint (hi - lo) + 1"
      using calculation(2) uint_plus_if' [of "hi - lo" 1] by simp
    ultimately show ?thesis
      using uint_bounds_8 [of a] uint_bounds_8 [of lo] uint_bounds_8 [of hi]
      unfolding word_less_def word_le_def uint_sub_8 by (simp split: if_splits; arith)
  qed
  then show ?thesis
    by (simp add: constant_time_in_range_8_def Let_def consttime)
qed

lemma conv_bin2ascii_if [code]:
  "conv_bin2ascii a0 =
     (let a = a0 AND 63
      in if a < 26 then a + 65 else if a < 52 then a + 71 else if a < 62 then a - 4
         else if a = 62 then 43 else 47)"
  using constant_time_eq_8_eq [of "a0 AND 63" 62]
  by (simp add: conv_bin2ascii_def Let_def consttime)

lemma base64_ascii_to_bin_if [code]:
  "base64_ascii_to_bin a =
     (if a = 61 then 0 else if a = 47 then 63 else if a = 43 then 62
      else if 48 \<le> a \<and> a \<le> 57 then a + 4
      else if 97 \<le> a \<and> a \<le> 122 then a - 71
      else if 65 \<le> a \<and> a \<le> 90 then a - 65 else 0xff)"
  using constant_time_eq_8_eq [of a 43] constant_time_eq_8_eq [of a 47]
    constant_time_eq_8_eq [of a 61]
  by (simp add: base64_ascii_to_bin_def Let_def consttime)

definition base64_alphabet :: bytes where
  "base64_alphabet = map of_char
     ''ABCDEFGHIJKLMNOPQRSTUVWXYZabcdefghijklmnopqrstuvwxyz0123456789+/''"

lemma all_u8:
  assumes "list_all (\<lambda>n. P (of_nat n)) [0..<256]"
  shows "P (c :: u8)"
proof -
  have "unat c \<in> set [0..<256]" by simp
  with assms have "P (of_nat (unat c))"
    unfolding list_all_iff by blast
  then show ?thesis by simp
qed

lemma base64_alphabet_code: "base64_alphabet =
  [65, 66, 67, 68, 69, 70, 71, 72, 73, 74, 75, 76, 77, 78, 79, 80, 81, 82, 83, 84, 85, 86, 87, 88,
   89, 90, 97, 98, 99, 100, 101, 102, 103, 104, 105, 106, 107, 108, 109, 110, 111, 112, 113, 114,
   115, 116, 117, 118, 119, 120, 121, 122, 48, 49, 50, 51, 52, 53, 54, 55, 56, 57, 43, 47]"
  by (simp add: base64_alphabet_def)

lemma length_alphabet: "length base64_alphabet = 64"
  by (simp add: base64_alphabet_def)

lemma alphabet_not_pad: "61 \<notin> set base64_alphabet"
  unfolding base64_alphabet_code by simp

lemma mask_6_u8: "(63 :: u8) = mask 6"
  by (simp add: mask_eq_exp_minus_1)

lemma and_63_u8: "(a :: u8) AND 63 = of_nat (unat a mod 64)" "unat (a AND 63 :: u8) = unat a mod 64"
proof -
  have "unat (a AND 63) = unat (take_bit 6 a)"
    by (simp only: take_bit_eq_mask mask_6_u8)
  also have "\<dots> = unat a mod 64"
    by (simp add: take_bit_eq_mod unat_mod)
  finally show "unat (a AND 63) = unat a mod 64" .
  then show "a AND 63 = of_nat (unat a mod 64)"
    by (metis word_of_unat)
qed

text \<open>The branch-free translation tables are the alphabet and its inverse.\<close>

lemma sextet_table:
  "list_all (\<lambda>n. (let a = of_nat n :: u8
      in if a < 26 then a + 65 else if a < 52 then a + 71 else if a < 62 then a - 4
         else if a = 62 then 43 else 47) = base64_alphabet ! n) [0..<64]"
  unfolding base64_alphabet_code by code_simp

lemma conv_bin2ascii_alphabet: "conv_bin2ascii a = base64_alphabet ! (unat a mod 64)"
proof -
  have "unat a mod 64 \<in> set [0..<64]" by simp
  with sextet_table show ?thesis
    unfolding list_all_iff conv_bin2ascii_if and_63_u8(1) by blast
qed

lemma ascii_to_bin_table:
  "list_all (\<lambda>n. base64_ascii_to_bin (base64_alphabet ! n) = of_nat n) [0..<64]"
  unfolding base64_alphabet_code by code_simp

lemma ascii_to_bin_alphabet: "n < 64 \<Longrightarrow> base64_ascii_to_bin (base64_alphabet ! n) = of_nat n"
  using ascii_to_bin_table by (simp add: list_all_iff)

lemma ascii_to_bin_conv: "base64_ascii_to_bin (conv_bin2ascii a) = a AND 63"
  by (simp add: conv_bin2ascii_alphabet ascii_to_bin_alphabet and_63_u8(1))

lemma ascii_to_bin_pad: "base64_ascii_to_bin 61 = 0"
  by (simp add: base64_ascii_to_bin_if)

lemma ascii_to_bin_valid_table:
  "list_all (\<lambda>n. let b = base64_ascii_to_bin (of_nat n)
     in b = 0xff \<or> n = 61 \<or> base64_alphabet ! unat b = of_nat n \<and> b < 64) [0..<256]"
  unfolding base64_alphabet_code by code_simp

lemma unat_64_u8: "unat (64 :: u8) = 64"
  by simp

lemma ascii_to_bin_valid:
  assumes "base64_ascii_to_bin c \<noteq> 0xff" and "c \<noteq> 61"
  shows "base64_alphabet ! unat (base64_ascii_to_bin c) = c" and "base64_ascii_to_bin c < 64"
proof -
  have "\<forall>n \<in> set [0..<256]. base64_ascii_to_bin (of_nat n) = 0xff \<or> n = 61 \<or>
      base64_alphabet ! unat (base64_ascii_to_bin (of_nat n)) = of_nat n \<and>
      base64_ascii_to_bin (of_nat n) < 64"
    using ascii_to_bin_valid_table by (simp only: list_all_iff Let_def)
  moreover have "unat c \<in> set [0..<256]" by simp
  moreover have "unat c \<noteq> 61"
    using assms(2) by (metis of_nat_numeral word_of_unat)
  ultimately have "base64_alphabet ! unat (base64_ascii_to_bin c) = c \<and> base64_ascii_to_bin c < 64"
    using assms(1) by (metis word_of_unat)
  then show "base64_alphabet ! unat (base64_ascii_to_bin c) = c" and "base64_ascii_to_bin c < 64"
    by simp_all
qed

lemma conv_ascii_to_bin:
  "base64_ascii_to_bin c \<noteq> 0xff \<Longrightarrow> c \<noteq> 61 \<Longrightarrow> conv_bin2ascii (base64_ascii_to_bin c) = c"
  using ascii_to_bin_valid [of c] by (simp add: conv_bin2ascii_alphabet word_less_nat_alt)

lemma ascii_to_bin_invalid: "base64_ascii_to_bin c = 0xff \<longleftrightarrow> c \<notin> set base64_alphabet \<and> c \<noteq> 61"
proof -
  have "base64_ascii_to_bin c \<noteq> 0xff" if c: "c \<in> set base64_alphabet"
  proof -
    obtain n where "n < 64" and "base64_alphabet ! n = c"
      using c unfolding in_set_conv_nth length_alphabet by blast
    then have "unat (base64_ascii_to_bin c) = n"
      using ascii_to_bin_alphabet [of n] by (auto simp: unat_of_nat_less)
    with \<open>n < 64\<close> show ?thesis by auto
  qed
  moreover have "c \<in> set base64_alphabet" if "base64_ascii_to_bin c \<noteq> 0xff" and "c \<noteq> 61"
    using ascii_to_bin_valid [OF that] by (metis length_alphabet nth_mem word_less_nat_alt unat_64_u8)
  moreover have "base64_ascii_to_bin 61 \<noteq> 0xff"
    by (simp add: ascii_to_bin_pad)
  ultimately show ?thesis by blast
qed

lemma conv_in_alphabet: "conv_bin2ascii a \<in> set base64_alphabet"
  by (simp add: conv_bin2ascii_alphabet length_alphabet)

lemma bit_sextet:
  fixes l :: u32
  shows "bit (push_bit k (ucast (ucast (drop_bit k l) AND 63 :: u8)) :: u32) n \<longleftrightarrow>
    k \<le> n \<and> n < k + 6 \<and> bit l n"
  unfolding mask_6_u8 by (auto simp: bit_simps dest: bit_imp_le_length)

lemma bit_sextet_0:
  fixes l :: u32
  shows "bit (ucast (ucast l AND 63 :: u8) :: u32) n \<longleftrightarrow> n < 6 \<and> bit l n"
  using bit_sextet [of 0 l n] by simp

lemma sextets_join:
  fixes l :: u32
  assumes "\<And>n. bit l n \<Longrightarrow> n < 24"
  shows "push_bit 18 (ucast (ucast (drop_bit 18 l) AND 63 :: u8)) OR
     push_bit 12 (ucast (ucast (drop_bit 12 l) AND 63 :: u8)) OR
     push_bit 6 (ucast (ucast (drop_bit 6 l) AND 63 :: u8)) OR
     ucast (ucast l AND 63 :: u8) = l"
  by (rule bit_word_eqI) (unfold bit_or_iff bit_sextet bit_sextet_0, use assms in auto)

lemma bytes3_bits:
  fixes s0 s1 s2 :: u8
  shows "bit (push_bit 16 (ucast s0) OR push_bit 8 (ucast s1) OR ucast s2 :: u32) n \<longleftrightarrow>
    n < 8 \<and> bit s2 n \<or> 8 \<le> n \<and> n < 16 \<and> bit s1 (n - 8) \<or> 16 \<le> n \<and> n < 24 \<and> bit s0 (n - 16)"
  by (auto simp: bit_simps dest: bit_imp_le_length)

lemma bytes3_split:
  fixes s0 s1 s2 :: u8 and l :: u32
  assumes "l = push_bit 16 (ucast s0) OR push_bit 8 (ucast s1) OR ucast s2"
  shows "ucast (drop_bit 16 l) = s0" and "ucast (drop_bit 8 l) = s1" and "ucast l = s2"
    and "bit l n \<Longrightarrow> n < 24"
proof -
  show "ucast (drop_bit 16 l) = s0"
    by (rule bit_word_eqI) (unfold assms bit_ucast_iff bit_drop_bit_eq comp_def bytes3_bits, auto)
  show "ucast (drop_bit 8 l) = s1"
    by (rule bit_word_eqI) (unfold assms bit_ucast_iff bit_drop_bit_eq comp_def bytes3_bits, auto)
  show "ucast l = s2"
    by (rule bit_word_eqI) (unfold assms bit_ucast_iff bytes3_bits, auto)
  show "bit l n \<Longrightarrow> n < 24"
    unfolding assms bytes3_bits by auto
qed

lemma conv_sextet [simp]:
  "base64_ascii_to_bin (conv_bin2ascii a) = a AND 63"
  "conv_bin2ascii a \<noteq> 61"
  "a AND 63 \<noteq> (255 :: u8)"
proof -
  show "base64_ascii_to_bin (conv_bin2ascii a) = a AND 63"
    by (rule ascii_to_bin_conv)
  show "conv_bin2ascii a \<noteq> 61"
    using conv_in_alphabet [of a] alphabet_not_pad by metis
  have "unat (a AND 63) < 64"
    by (simp add: and_63_u8(2))
  then show "a AND 63 \<noteq> 255"
    by auto
qed

lemma decode_quad_full:
  fixes s0 s1 s2 :: u8 and l :: u32
  assumes l: "l = push_bit 16 (ucast s0) OR push_bit 8 (ucast s1) OR ucast s2"
  shows "base64_decode_quad
     [conv_bin2ascii (ucast (drop_bit 18 l)), conv_bin2ascii (ucast (drop_bit 12 l)),
      conv_bin2ascii (ucast (drop_bit 6 l)), conv_bin2ascii (ucast l)] = Some [s0, s1, s2]"
  using bytes3_split [OF l] sextets_join [of l]
  by (simp add: base64_decode_quad_def)

lemma decode_quad_two:
  fixes s0 s1 :: u8 and l :: u32
  assumes l: "l = push_bit 16 (ucast s0) OR push_bit 8 (ucast s1)"
  shows "base64_decode_quad
     [conv_bin2ascii (ucast (drop_bit 18 l)), conv_bin2ascii (ucast (drop_bit 12 l)),
      conv_bin2ascii (ucast (drop_bit 6 l)), 61] = Some [s0, s1]"
proof -
  have l': "l = push_bit 16 (ucast s0) OR push_bit 8 (ucast s1) OR ucast (0 :: u8)"
    by (simp add: l)
  have "ucast (ucast l AND 63 :: u8) = (0 :: u32)"
    using bytes3_split(3) [OF l'] by simp
  with sextets_join [of l] bytes3_split [OF l'] show ?thesis
    by (simp add: base64_decode_quad_def ascii_to_bin_pad)
qed

lemma decode_quad_one:
  fixes s0 :: u8 and l :: u32
  assumes l: "l = push_bit 16 (ucast s0)"
  shows "base64_decode_quad
     [conv_bin2ascii (ucast (drop_bit 18 l)), conv_bin2ascii (ucast (drop_bit 12 l)), 61, 61] =
     Some [s0]"
proof -
  have l': "l = push_bit 16 (ucast s0) OR push_bit 8 (ucast (0 :: u8)) OR ucast (0 :: u8)"
    by (simp add: l)
  have 1: "ucast (ucast l AND 63 :: u8) = (0 :: u32)"
    using bytes3_split(3) [OF l'] by simp
  have 2: "push_bit 6 (ucast (ucast (drop_bit 6 l) AND 63 :: u8)) = (0 :: u32)"
    by (rule bit_word_eqI) (unfold bit_sextet l' bytes3_bits, auto)
  from 1 2 sextets_join [of l] bytes3_split [OF l'] show ?thesis
    by (simp add: base64_decode_quad_def ascii_to_bin_pad)
qed

lemma length_encode_quads: "length (encode_quads src) = (length src + 2) div 3 * 4"
  by (induction src rule: encode_quads.induct) (auto simp: encode_rest_def Let_def, presburger)

lemma decode_encode_quads: "decode_quads (encode_quads src) = Some src"
proof (induction src rule: encode_quads.induct [case_names Nil Three One Two])
  case Nil
  show ?case by simp
next
  case (Three s0 s1 s2 src)
  then show ?case
    by (simp add: Let_def decode_quad_full del: drop_bit_or)
next
  case (One v)
  show ?case
    by (simp add: encode_rest_def Let_def decode_quad_one)
next
  case (Two v w)
  show ?case
    by (simp add: encode_rest_def Let_def decode_quad_two del: drop_bit_or)
qed

section \<open>Lengths\<close>

lemma unat_push_bit_2: "unat (push_bit 2 (w :: size_t)) = unat w * 4 mod 2 ^ 64"
  by (simp add: push_bit_eq_mult unat_word_ariths)

lemma encoded_length_ge: "1 \<le> n \<Longrightarrow> n + 2 \<le> (n + 2) div 3 * 4 + (1 :: nat)"
  by presburger

lemma shift2_lossless: "q * 4 mod 2 ^ 64 div 4 = q \<longleftrightarrow> q * 4 < (2 :: nat) ^ 64"
proof (cases "q * 4 < (2 :: nat) ^ 64")
  case False
  have "q * 4 mod 2 ^ 64 < (2 :: nat) ^ 64" by simp
  then have "q * 4 mod 2 ^ 64 div 4 < (2 :: nat) ^ 62" by simp
  with False show ?thesis by simp
qed simp

lemma mult4_Suc: "q * 4 < (2 :: nat) ^ 64 \<Longrightarrow> q * 4 + 1 < 2 ^ 64"
proof -
  assume "q * 4 < (2 :: nat) ^ 64"
  then show ?thesis by simp
qed

lemma EVP_EncodedLength_exact:
  assumes "n < 2 ^ 64"
  shows "EVP_EncodedLength (of_nat n) =
    (let m = (n + 2) div 3 * 4 + 1 in if m < 2 ^ 64 then Some (of_nat m) else None)"
proof -
  have n: "unat (of_nat n :: size_t) = n"
    using assms by (simp add: unat_of_nat_less)
  have two: "unat (of_nat n + 2 :: size_t) = (n + 2) mod 2 ^ 64"
    using n by (simp add: unat_word_ariths)
  show ?thesis
  proof (cases "n + 2 < 2 ^ 64")
    case False
    with assms have "n = 2 ^ 64 - 2 \<or> n = 2 ^ 64 - 1"
      by arith
    then have "of_nat n + 2 < (of_nat n :: size_t)"
      by auto
    moreover have "\<not> (n + 2) div 3 * 4 + 1 < 2 ^ 64"
      using False encoded_length_ge [of n] by simp
    ultimately show ?thesis
      by (simp add: EVP_EncodedLength_def Let_def)
  next
    case True
    let ?l = "(of_nat n + 2) div 3 :: size_t"
    have l: "unat ?l = (n + 2) div 3"
      using True two by (simp add: unat_div)
    have "\<not> of_nat n + 2 < (of_nat n :: size_t)"
      using True by (simp add: word_less_nat_alt two n)
    moreover have "drop_bit 2 (push_bit 2 ?l) = ?l \<longleftrightarrow> (n + 2) div 3 * 4 < 2 ^ 64"
    proof -
      have "drop_bit 2 (push_bit 2 ?l) = ?l \<longleftrightarrow> unat (push_bit 2 ?l) div 4 = unat ?l"
        by (simp add: word_eq_iff_unsigned [where ?'a = nat] unat_drop_bit_eq drop_bit_eq_div unat_div)
      also have "\<dots> \<longleftrightarrow> (n + 2) div 3 * 4 < 2 ^ 64"
        unfolding unat_push_bit_2 l by (rule shift2_lossless)
      finally show ?thesis .
    qed
    moreover have "\<not> push_bit 2 ?l + 1 < push_bit 2 ?l"
      and "push_bit 2 ?l + 1 = of_nat ((n + 2) div 3 * 4 + 1)"
      if "(n + 2) div 3 * 4 < 2 ^ 64"
    proof -
      have p: "unat (push_bit 2 ?l) = (n + 2) div 3 * 4"
        using that by (simp add: unat_push_bit_2 l)
      then have p1: "unat (push_bit 2 ?l + 1) = (n + 2) div 3 * 4 + 1"
        using mult4_Suc [OF that] by (simp add: unat_word_ariths)
      with p show "\<not> push_bit 2 ?l + 1 < push_bit 2 ?l"
        by (simp add: word_less_nat_alt)
      from p1 show "push_bit 2 ?l + 1 = of_nat ((n + 2) div 3 * 4 + 1)"
        by (metis word_of_unat)
    qed
    moreover have "(n + 2) div 3 * 4 + 1 < 2 ^ 64 \<longleftrightarrow> (n + 2) div 3 * 4 < (2 ^ 64 :: nat)"
      using mult4_Suc by auto
    ultimately show ?thesis
      unfolding EVP_EncodedLength_def Let_def
      by (cases "(n + 2) div 3 * 4 < 2 ^ 64")
        (simp_all only: if_True if_False not_True_eq_False not_False_eq_True)
  qed
qed

lemma EVP_DecodedLength_exact:
  assumes "n < 2 ^ 64"
  shows "EVP_DecodedLength (of_nat n) = (if n mod 4 = 0 then Some (of_nat (n div 4 * 3)) else None)"
proof -
  have n: "unat (of_nat n :: size_t) = n"
    using assms by (simp add: unat_of_nat_less)
  have "of_nat n mod (4 :: size_t) = 0 \<longleftrightarrow> n mod 4 = 0"
    using n by (simp add: word_eq_iff_unsigned [where ?'a = nat] unat_mod)
  moreover have "of_nat n div (4 :: size_t) = of_nat (n div 4)"
    using n by (simp add: word_arith_nat_div)
  ultimately show ?thesis
    by (simp add: EVP_DecodedLength_def)
qed

text \<open>
  Decoding inverts encoding. Whatever \<open>EVP_EncodeBlock\<close> writes before its NUL, \<open>EVP_DecodeBase64\<close>
  reads back as the original bytes, for every source length and every output bound that covers it.
\<close>

theorem base64_block_roundtrip:
  assumes "EVP_EncodeBlock src = (written, n)" and "length src < 2 ^ 62"
    and "length src + 2 \<le> unat max_out"
  shows "EVP_DecodeBase64 max_out (take (unat n) written) = Some src"
proof -
  have q: "unat n = length (encode_quads src)" "take (unat n) written = encode_quads src"
  proof -
    have "n = of_nat (length (encode_quads src))" and w: "written = encode_quads src @ [0]"
      using assms(1) by (simp_all add: EVP_EncodeBlock_def Let_def)
    moreover have "length (encode_quads src) < 2 ^ 64"
      unfolding length_encode_quads using assms(2) by simp
    ultimately show "unat n = length (encode_quads src)"
      by (simp add: unat_of_nat_less)
    then show "take (unat n) written = encode_quads src"
      by (simp add: w)
  qed
  have len: "length (encode_quads src) < 2 ^ 64"
    unfolding length_encode_quads using assms(2) by simp
  have "(length src + 2) div 3 * 3 < 2 ^ 64"
    using assms(2) by simp
  then have "unat (of_nat ((length src + 2) div 3 * 3) :: size_t) = (length src + 2) div 3 * 3"
    by (simp only: unat_of_nat_less len64)
  also have "\<dots> \<le> unat max_out"
    using assms(3) by (meson div_times_less_eq_dividend order_trans)
  finally have "\<not> max_out < of_nat ((length src + 2) div 3 * 3)"
    unfolding word_less_nat_alt by (simp only: not_less)
  then show ?thesis
    unfolding q(2) EVP_DecodeBase64_def EVP_DecodedLength_exact [OF len]
    by (simp add: length_encode_quads decode_encode_quads)
qed

section \<open>Accepted inputs\<close>

text \<open>
  The specification of the accepted text: characters of the alphabet, then at most two signs of
  padding.
\<close>

definition b64_wf :: "bytes \<Rightarrow> bool" where
  "b64_wf inp \<longleftrightarrow>
     (let body = takeWhile (\<lambda>c. c \<noteq> 61) inp; pad = dropWhile (\<lambda>c. c \<noteq> 61) inp
      in list_all (\<lambda>c. c \<in> set base64_alphabet) body \<and> length pad \<le> 2 \<and>
         list_all (\<lambda>c. c = 61) pad)"

lemma b64_wf_simps [simp]:
  "b64_wf []"
  "c \<noteq> 61 \<Longrightarrow> b64_wf (c # cs) \<longleftrightarrow> c \<in> set base64_alphabet \<and> b64_wf cs"
  "b64_wf (61 # cs) \<longleftrightarrow> cs = [] \<or> cs = [61]"
proof -
  show "b64_wf []" by (simp add: b64_wf_def)
  show "c \<noteq> 61 \<Longrightarrow> b64_wf (c # cs) \<longleftrightarrow> c \<in> set base64_alphabet \<and> b64_wf cs"
    by (simp add: b64_wf_def Let_def)
  show "b64_wf (61 # cs) \<longleftrightarrow> cs = [] \<or> cs = [61]"
    by (cases cs) (auto simp: b64_wf_def Let_def)
qed

lemma quad_length:
  "map_option length (base64_decode_quad [a, b, c, d]) =
     (if a \<in> set base64_alphabet \<and> b \<in> set base64_alphabet then
        if c \<in> set base64_alphabet then
          if d \<in> set base64_alphabet then Some 3 else if d = 61 then Some 2 else None
        else if c = 61 \<and> d = 61 then Some 1 else None
      else None)"
proof -
  have inv: "base64_ascii_to_bin x = 255 \<longleftrightarrow> \<not> (x \<in> set base64_alphabet \<or> x = 61)" for x
    using ascii_to_bin_invalid [of x] by simp
  have pad: "61 \<notin> set base64_alphabet"
    by (rule alphabet_not_pad)
  show ?thesis
    by (cases "a = 61"; cases "b = 61"; cases "c = 61"; cases "d = 61")
      (simp_all add: base64_decode_quad_def Let_def inv pad)
qed

lemma b64_wf_quad:
  assumes "rest \<noteq> [61]"
  shows "b64_wf (a # b # c # d # rest) \<longleftrightarrow>
    (case map_option length (base64_decode_quad [a, b, c, d]) of
       None \<Rightarrow> False | Some n \<Rightarrow> if n = 3 then b64_wf rest else rest = [])"
  unfolding quad_length using assms alphabet_not_pad
  by (cases "a = 61"; cases "b = 61"; cases "c = 61"; cases "d = 61"; simp?; blast?)

lemma decode_quads_accepts:
  "length inp mod 4 = 0 \<Longrightarrow> decode_quads inp \<noteq> None \<longleftrightarrow> b64_wf inp"
proof (induction inp rule: decode_quads.induct)
  case (1 a b c d rest)
  have rest: "rest \<noteq> [61]"
    using "1.prems" by auto
  show ?case
  proof (cases "base64_decode_quad [a, b, c, d]")
    case None
    then show ?thesis
      by (simp only: b64_wf_quad [OF rest] decode_quads.simps) simp
  next
    case (Some out)
    have "decode_quads rest \<noteq> None \<longleftrightarrow> b64_wf rest" if "length out = 3 \<or> rest = []"
      using "1.IH" [OF Some] "1.prems" that by auto
    then show ?thesis
      unfolding b64_wf_quad [OF rest] using Some by (auto split: option.splits)
  qed
qed simp_all

text \<open>
  C4: the decoder accepts exactly the well-formed texts: a multiple of four characters, of the
  alphabet and then at most two signs of padding, whose decoded length fits the output.
\<close>

theorem base64_decode_accepts:
  assumes "length inp < 2 ^ 64"
  shows "EVP_DecodeBase64 max_out inp \<noteq> None \<longleftrightarrow>
    length inp mod 4 = 0 \<and> length inp div 4 * 3 \<le> unat max_out \<and> b64_wf inp"
proof -
  have "length inp div 4 * 3 < 2 ^ 64"
    using assms by linarith
  then have "max_out < of_nat (length inp div 4 * 3) \<longleftrightarrow> \<not> length inp div 4 * 3 \<le> unat max_out"
    unfolding word_less_nat_alt by (simp only: unat_of_nat_less len64 not_le)
  then show ?thesis
    using decode_quads_accepts [of inp]
    unfolding EVP_DecodeBase64_def EVP_DecodedLength_exact [OF assms]
    by (cases "length inp mod 4 = 0") auto
qed

theorem base64_decode_accepts_witness:
  "EVP_DecodeBase64 3 [81, 87, 73, 61] \<noteq> None \<longleftrightarrow> b64_wf [81, 87, 73, 61]"
  using base64_decode_accepts [of "[81, 87, 73, 61]" 3] by simp

section \<open>Streaming decode\<close>

text \<open>A caller feeds the text in chunks and stops at the first error.\<close>

fun decode_chunks :: "EVP_ENCODE_CTX \<Rightarrow> bytes list \<Rightarrow> (EVP_ENCODE_CTX \<times> bytes) option" where
  "decode_chunks ctx [] = Some (ctx, [])"
| "decode_chunks ctx (c # cs) =
     (let (ctx', out, out_len, ret) = EVP_DecodeUpdate ctx c
      in if ret < 0 then None
         else map_option (\<lambda>(ctx'', rest). (ctx'', out @ rest)) (decode_chunks ctx' cs))"

definition decode_stream :: "bytes list \<Rightarrow> bytes option" where
  "decode_stream cs =
     (case decode_chunks EVP_DecodeInit cs of
        None \<Rightarrow> None
      | Some (ctx, out) \<Rightarrow> if EVP_DecodeFinal ctx = 1 then Some out else None)"

definition strip_ws :: "bytes \<Rightarrow> bytes" where
  "strip_ws bs = filter (\<lambda>c. \<not> is_b64_space c) bs"

text \<open>
  The abstract decoder: the characters of an incomplete quad and whether padding was seen.
  \<open>None\<close> is the error state.
\<close>

fun abs_decode :: "bytes \<Rightarrow> bool \<Rightarrow> bytes \<Rightarrow> (bytes \<times> bool \<times> bytes) option" where
  "abs_decode p e [] = Some (p, e, [])"
| "abs_decode p e (c # cs) =
     (if is_b64_space c then abs_decode p e cs
      else if e then None
      else if length p = 3 then
        (case base64_decode_quad (p @ [c]) of
           None \<Rightarrow> None
         | Some bs \<Rightarrow> map_option (\<lambda>(p', e', out). (p', e', bs @ out)) (abs_decode [] (length bs < 3) cs))
      else abs_decode (p @ [c]) e cs)"

definition decode_rel :: "EVP_ENCODE_CTX \<Rightarrow> bytes \<Rightarrow> bool \<Rightarrow> bool" where
  "decode_rel ctx p e \<longleftrightarrow>
     unat (data_used ctx) = length p \<and> length p < 4 \<and> length (ctx_data ctx) = 48 \<and>
     take (length p) (ctx_data ctx) = p \<and> eof_seen ctx = e \<and> \<not> error_encountered ctx"

lemma take_update_snoc:
  "n < length xs \<Longrightarrow> take n xs = p \<Longrightarrow> take (Suc n) (xs[n := x]) = p @ [x]"
  by (simp add: take_Suc_conv_app_nth)

lemma decode_loop_refines:
  "decode_rel ctx p e \<Longrightarrow>
     (case abs_decode p e inp of
        None \<Rightarrow> \<exists>ctx' out'. decode_update_loop ctx out inp = (ctx', out', False) \<and> error_encountered ctx'
      | Some (p', e', o') \<Rightarrow>
          \<exists>ctx'. decode_update_loop ctx out inp = (ctx', out @ o', True) \<and> decode_rel ctx' p' e')"
proof (induction p e inp arbitrary: ctx out rule: abs_decode.induct)
  case (1 p e)
  then show ?case by simp
next
  case (2 p e c cs)
  let ?ctx = "ctx\<lparr>ctx_data := (ctx_data ctx)[unat (data_used ctx) := c],
    data_used := data_used ctx + 1\<rparr>"
  have used: "unat (data_used ctx) = length p" and p: "length p < 4"
    and take: "take (length p) (ctx_data ctx) = p" and len: "length (ctx_data ctx) = 48"
    and eof: "eof_seen ctx = e" and err: "\<not> error_encountered ctx"
    using "2.prems" by (auto simp: decode_rel_def)
  have used': "unat (data_used ?ctx) = Suc (length p)"
    using used p by (simp add: unat_word_ariths)
  have take': "take (Suc (length p)) (ctx_data ?ctx) = p @ [c]"
    using take_update_snoc [of "length p" "ctx_data ctx" p c] take p len used by simp
  show ?case
  proof (cases "is_b64_space c \<or> e")
    case True
    with "2.IH"(1) "2.prems" eof show ?thesis
      by (cases "is_b64_space c") (auto split: option.splits)
  next
    case False
    show ?thesis
    proof (cases "length p = 3")
      case True
      then have "Suc (length p) = 4" by simp
      with used' take' have "unat (data_used ?ctx) = 4" and quad: "take 4 (ctx_data ?ctx) = p @ [c]"
        by simp_all
      then have four: "data_used ?ctx = 4"
        by (metis of_nat_numeral word_of_unat)
      show ?thesis
      proof (cases "base64_decode_quad (p @ [c])")
        case None
        with False True four quad eof show ?thesis
          by simp
      next
        case (Some bs)
        let ?ctx' = "?ctx\<lparr>data_used := 0, eof_seen := eof_seen ?ctx \<or> length bs < 3\<rparr>"
        have "decode_rel ?ctx' [] (length bs < 3)"
          using False len eof err by (simp add: decode_rel_def)
        from "2.IH"(2) [OF _ _ True Some this, of "out @ bs"] False
        show ?thesis
          using False True Some four quad eof by (auto split: option.splits)
      qed
    next
      case not3: False
      then have "data_used ?ctx \<noteq> 4"
        using used' by auto
      moreover have "decode_rel ?ctx (p @ [c]) e"
        using used' take' p not3 len eof err by (auto simp: decode_rel_def)
      ultimately show ?thesis
        using "2.IH"(3) [of ?ctx out] False not3 eof by (auto split: option.splits)
    qed
  qed
qed


lemma abs_decode_append:
  "abs_decode p e (a @ b) =
     (case abs_decode p e a of
        None \<Rightarrow> None
      | Some (p', e', o1) \<Rightarrow> map_option (\<lambda>(p'', e'', o2). (p'', e'', o1 @ o2)) (abs_decode p' e' b))"
  by (induction p e a rule: abs_decode.induct)
    (auto simp: option.map_comp comp_def split_def option.map_ident split: option.splits)

lemma abs_decode_strip_ws: "abs_decode p e (strip_ws inp) = abs_decode p e inp"
  by (induction p e inp rule: abs_decode.induct) (auto simp: strip_ws_def split: option.splits)

lemma abs_decode_pending: "abs_decode p e inp = Some (p', e', o1) \<Longrightarrow> length p < 4 \<Longrightarrow> length p' < 4"
  by (induction p e inp arbitrary: o1 rule: abs_decode.induct) (auto split: if_splits option.splits)

lemma quad_no_ws:
  "is_b64_space c \<Longrightarrow> c \<notin> set base64_alphabet"
  by (auto simp: is_b64_space_def base64_alphabet_code)

lemma abs_decode_eof_stuck: "\<not> is_b64_space c \<Longrightarrow> abs_decode p True (c # cs) = None"
  by simp

lemma length_quad_le: "base64_decode_quad q = Some bs \<Longrightarrow> length bs \<le> 3 \<and> 0 < length bs"
  by (auto simp: base64_decode_quad_def Let_def split: if_splits)

text \<open>The abstract decoder on a text without white space is the one-shot decoder.\<close>

lemma abs_decode_quads:
  assumes "list_all (\<lambda>c. \<not> is_b64_space c) inp"
  shows "(\<exists>e. abs_decode [] False inp = Some ([], e, o1)) \<longleftrightarrow>
    length inp mod 4 = 0 \<and> decode_quads inp = Some o1"
  using assms
proof (induction inp arbitrary: o1 rule: decode_quads.induct)
  case (1 a b c d rest)
  show ?case
  proof (cases "base64_decode_quad [a, b, c, d]")
    case None
    with "1.prems" show ?thesis by simp
  next
    case (Some bs)
    note le = length_quad_le [OF Some]
    show ?thesis
    proof (cases "length bs < 3 \<and> rest \<noteq> []")
      case True
      then obtain x xs where "rest = x # xs" by (cases rest) auto
      with True Some "1.prems" show ?thesis by auto
    next
      case False
      with le have ok: "\<not> (length bs \<noteq> 3 \<and> rest \<noteq> [])" by auto
      have "(\<exists>e. abs_decode [] (length bs < 3) rest = Some ([], e, o2)) \<longleftrightarrow>
          length rest mod 4 = 0 \<and> decode_quads rest = Some o2" for o2
        using "1.IH" [OF Some ok] "1.prems" False by (cases "rest = []") auto
      with Some ok "1.prems" show ?thesis
        by (auto split: option.splits) metis
    qed
  qed
qed (auto)

lemma abs_decode_length:
  "abs_decode p e inp = Some (p', e', out) \<Longrightarrow> length out + length p' \<le> length p + length inp"
  by (induction p e inp arbitrary: out rule: abs_decode.induct)
    (force split: if_splits option.splits dest: length_quad_le)+

lemma EVP_DecodeBase64_fits:
  assumes "length inp < 2 ^ 64" and "length inp div 4 * 3 \<le> unat max_out"
  shows "EVP_DecodeBase64 max_out inp = (if length inp mod 4 = 0 then decode_quads inp else None)"
proof -
  have "length inp div 4 * 3 < 2 ^ 64"
    using assms(1) by linarith
  then have "\<not> max_out < of_nat (length inp div 4 * 3)"
    using assms(2) unfolding word_less_nat_alt by (simp only: unat_of_nat_less len64 not_less)
  then show ?thesis
    by (simp add: EVP_DecodeBase64_def EVP_DecodedLength_exact [OF assms(1)])
qed

lemma decode_update_refines:
  assumes "decode_rel ctx p e" and "length inp < 2 ^ 30"
  shows "case abs_decode p e inp of
      None \<Rightarrow> (\<exists>ctx' out n. EVP_DecodeUpdate ctx inp = (ctx', out, n, -1) \<and> error_encountered ctx')
    | Some (p', e', out) \<Rightarrow>
        (\<exists>ctx'. EVP_DecodeUpdate ctx inp = (ctx', out, length out, if e' then 0 else 1) \<and>
           decode_rel ctx' p' e')"
proof -
  have ok: "\<not> error_encountered ctx"
    using assms(1) by (simp add: decode_rel_def)
  note loop = decode_loop_refines [OF assms(1), where inp = inp and out = "[]"]
  show ?thesis
  proof (cases "abs_decode p e inp")
    case None
    with loop obtain ctx' out' where "decode_update_loop ctx [] inp = (ctx', out', False)"
      and "error_encountered ctx'" by auto
    with None ok show ?thesis
      by (simp add: EVP_DecodeUpdate_def)
  next
    case (Some r)
    obtain p' e' o1 where r: "r = (p', e', o1)" by (cases r)
    with Some loop obtain ctx' where l: "decode_update_loop ctx [] inp = (ctx', o1, True)"
      and rel: "decode_rel ctx' p' e'" by auto
    have "length p < 4" using assms(1) by (simp add: decode_rel_def)
    then have "\<not> unat INT_MAX < length o1"
      using abs_decode_length [OF Some [unfolded r]] assms(2) by (simp add: INT_MAX_def)
    moreover have "eof_seen ctx' = e'"
      using rel by (simp add: decode_rel_def)
    ultimately show ?thesis
      using Some r ok l rel by (simp add: EVP_DecodeUpdate_def)
  qed
qed

lemma decode_chunks_refines:
  assumes "decode_rel ctx p e" and "list_all (\<lambda>c. length c < 2 ^ 30) cs"
  shows "case abs_decode p e (concat cs) of
      None \<Rightarrow> decode_chunks ctx cs = None
    | Some (p', e', out) \<Rightarrow> \<exists>ctx'. decode_chunks ctx cs = Some (ctx', out) \<and> decode_rel ctx' p' e'"
  using assms
proof (induction cs arbitrary: ctx p e)
  case Nil
  then show ?case by simp
next
  case (Cons c cs)
  have len: "length c < 2 ^ 30" using Cons.prems(2) by simp
  note step = decode_update_refines [OF Cons.prems(1) len]
  show ?case
  proof (cases "abs_decode p e c")
    case None
    with step show ?thesis
      by (auto simp: abs_decode_append)
  next
    case (Some r)
    obtain p' e' o1 where r: "r = (p', e', o1)" by (cases r)
    with Some step obtain ctx' where
      upd: "EVP_DecodeUpdate ctx c = (ctx', o1, length o1, if e' then 0 else 1)"
      and rel: "decode_rel ctx' p' e'" by auto
    have "list_all (\<lambda>c. length c < 2 ^ 30) cs" using Cons.prems(2) by simp
    from Cons.IH [OF rel this] show ?thesis
      by (auto simp: abs_decode_append Some r upd split: option.splits)
  qed
qed

text \<open>A stream decodes to what the specification machine, fed the text without white space, ends on.\<close>

lemma decode_stream_abs:
  assumes "list_all (\<lambda>c. length c < 2 ^ 30) cs"
  shows "decode_stream cs = Some out \<longleftrightarrow>
    (\<exists>e. abs_decode [] False (strip_ws (concat cs)) = Some ([], e, out))"
proof -
  have init: "decode_rel EVP_DecodeInit [] False"
    by (simp add: decode_rel_def EVP_DecodeInit_def)
  have final: "EVP_DecodeFinal ctx = 1 \<longleftrightarrow> p = []" if "decode_rel ctx p e" for ctx p e
    using that by (auto simp: EVP_DecodeFinal_def decode_rel_def unsigned_eq_0_iff)
  show ?thesis
    using decode_chunks_refines [OF init assms] final
    by (auto simp: decode_stream_def abs_decode_strip_ws split: option.splits)
qed

lemma strip_ws_no_space: "list_all (\<lambda>c. \<not> is_b64_space c) (strip_ws cs)"
  by (simp add: strip_ws_def list_all_iff)

text \<open>
  C1: streaming decode is one-shot decode. However a text is cut into chunks, feeding the chunks to
  \<open>EVP_DecodeUpdate\<close> and closing with \<open>EVP_DecodeFinal\<close> succeeds exactly when \<open>EVP_DecodeBase64\<close>
  accepts the text without its white space, and then yields the same bytes.
\<close>

theorem base64_stream_decode_eq:
  assumes "list_all (\<lambda>c. length c < 2 ^ 30) cs" and "length (concat cs) < 2 ^ 64"
    and "length (concat cs) \<le> unat max_out"
  shows "decode_stream cs = EVP_DecodeBase64 max_out (strip_ws (concat cs))"
proof -
  let ?inp = "strip_ws (concat cs)"
  have "length ?inp \<le> length (concat cs)"
    by (simp add: strip_ws_def)
  with assms(2,3) have inp: "length ?inp < 2 ^ 64" and fits: "length ?inp div 4 * 3 \<le> unat max_out"
    by linarith+
  have "decode_stream cs = Some out \<longleftrightarrow> EVP_DecodeBase64 max_out ?inp = Some out" for out
    unfolding decode_stream_abs [OF assms(1)] abs_decode_quads [OF strip_ws_no_space]
      EVP_DecodeBase64_fits [OF inp fits] by auto
  then show ?thesis
    by (metis not_Some_eq)
qed

theorem base64_stream_decode_eq_witness:
  "decode_stream [[81, 87], [10, 73, 61, 10]] = EVP_DecodeBase64 100 [81, 87, 73, 61]"
  using base64_stream_decode_eq [of "[[81, 87], [10, 73, 61, 10]]" 100]
  by (simp add: strip_ws_def is_b64_space_def)

section \<open>Streaming encode\<close>

text \<open>The specification: whole lines of 48 bytes, and the bytes left over.\<close>

function pem_lines :: "bytes \<Rightarrow> bytes \<times> bytes" where
  "pem_lines inp =
     (if 48 \<le> length inp then
        let (o1, r) = pem_lines (drop 48 inp) in (encode_quads (take 48 inp) @ [10] @ o1, r)
      else ([], inp))"
  by pat_completeness auto
termination
  by (relation "measure length") auto

declare pem_lines.simps [simp del]

definition pem_text :: "bytes \<Rightarrow> bytes" where
  "pem_text d =
     (let (o1, r) = pem_lines d in o1 @ (if r = [] then [] else encode_quads r @ [10]))"

text \<open>A caller encodes the chunks of its data and then closes the stream.\<close>

fun encode_chunks :: "EVP_ENCODE_CTX \<Rightarrow> bytes list \<Rightarrow> bytes" where
  "encode_chunks ctx [] = (let (ctx', out, n) = EVP_EncodeFinal ctx in take (unat n) out)"
| "encode_chunks ctx (c # cs) =
     (let (ctx', out, n) = EVP_EncodeUpdate ctx c in take (unat n) out @ encode_chunks ctx' cs)"

definition encode_stream :: "bytes list \<Rightarrow> bytes" where
  "encode_stream cs = encode_chunks EVP_EncodeInit cs"

lemma pem_lines_short: "length inp < 48 \<Longrightarrow> pem_lines inp = ([], inp)"
  by (simp add: pem_lines.simps)

lemma pem_lines_long:
  "48 \<le> length inp \<Longrightarrow> pem_lines inp =
     (let (o1, r) = pem_lines (drop 48 inp) in (encode_quads (take 48 inp) @ [10] @ o1, r))"
  by (simp add: pem_lines.simps [of inp])

lemma pem_lines_append:
  "pem_lines (a @ b) =
     (let (o1, r) = pem_lines a; (o2, r') = pem_lines (r @ b) in (o1 @ o2, r'))"
proof (induction a rule: pem_lines.induct)
  case (1 a)
  show ?case
  proof (cases "48 \<le> length a")
    case True
    with 1 show ?thesis
      by (simp add: pem_lines_long [of a] pem_lines_long [of "a @ b"] split_def Let_def)
  next
    case False
    then show ?thesis by (simp add: pem_lines_short [of a])
  qed
qed

lemma pem_lines_rest: "length (snd (pem_lines inp)) < 48"
proof (induction inp rule: pem_lines.induct)
  case (1 inp)
  then show ?case
    by (cases "48 \<le> length inp")
      (auto simp: pem_lines_long [of inp] pem_lines_short split_def Let_def)
qed

lemma pem_lines_length: "length (fst (pem_lines inp)) \<le> 2 * length inp"
proof (induction inp rule: pem_lines.induct)
  case (1 inp)
  then show ?case
    by (cases "48 \<le> length inp")
      (auto simp: pem_lines_long [of inp] pem_lines_short split_def Let_def length_encode_quads)
qed

lemma EVP_EncodeBlock_take:
  assumes "length src \<le> 48" and "EVP_EncodeBlock src = (written, n)"
  shows "take (unat n) written = encode_quads src" and "unat n = length (encode_quads src)"
proof -
  have "length (encode_quads src) < 2 ^ 64"
    using assms(1) unfolding length_encode_quads by simp
  with assms(2) show "unat n = length (encode_quads src)"
    by (auto simp: EVP_EncodeBlock_def Let_def unat_of_nat_less)
  with assms(2) show "take (unat n) written = encode_quads src"
    by (auto simp: EVP_EncodeBlock_def Let_def)
qed

lemma encode_lines_pem:
  "unat tot + 2 * length inp < 2 ^ 62 \<Longrightarrow>
   encode_lines inp out tot =
     Inr (snd (pem_lines inp), out @ fst (pem_lines inp), tot + of_nat (length (fst (pem_lines inp))))"
proof (induction inp out tot rule: encode_lines.induct)
  case (1 inp out tot)
  show ?case
  proof (cases "48 \<le> length inp")
    case False
    then show ?thesis
      by (simp add: pem_lines_short encode_lines.simps [of inp])
  next
    case True
    obtain w n where w: "EVP_EncodeBlock (take 48 inp) = (w, n)"
      by (metis surj_pair)
    have len: "length (take 48 inp) \<le> 48" by simp
    note q = EVP_EncodeBlock_take [OF len w]
    have n: "unat n = 64"
      using q(2) True by (simp add: length_encode_quads)
    have "2 ^ 62 < (2::nat) ^ 64" by simp
    then have tot: "unat (tot + n + 1) = unat tot + 65"
      using "1.prems" n True by (simp add: unat_word_ariths)
    then have no: "\<not> tot + n + 1 < tot"
      by (simp add: word_less_nat_alt)
    have small: "unat (tot + n + 1) + 2 * length (drop 48 inp) < 2 ^ 62"
      using "1.prems" True unfolding tot by simp
    have nn: "n = 64"
      using n by (metis of_nat_numeral word_of_unat)
    show ?thesis
      using "1.IH" [OF True w [symmetric] refl refl no small] True w no q(1) nn
      by (simp add: encode_lines.simps [of inp] pem_lines_long [of inp] split_def Let_def length_encode_quads ac_simps)
  qed
qed

definition encode_rel :: "EVP_ENCODE_CTX \<Rightarrow> bytes \<Rightarrow> bool" where
  "encode_rel ctx p \<longleftrightarrow>
     unat (data_used ctx) = length p \<and> length p < 48 \<and> length (ctx_data ctx) = 48 \<and>
     take (length p) (ctx_data ctx) = p"

lemma data_used_eq: "unat (u :: u32) = 0 \<longleftrightarrow> u = 0"
  by (simp add: unsigned_eq_0_iff)

lemma INT_MAX_fits: "n \<le> 0x7fffffff \<Longrightarrow> \<not> INT_MAX < of_nat n"
  by (simp add: INT_MAX_def word_less_nat_alt unat_of_nat_less)

lemma encode_update_refines:
  assumes rel: "encode_rel ctx p" and small: "length inp < 2 ^ 29"
  shows "\<exists>ctx'. EVP_EncodeUpdate ctx inp =
      (ctx', fst (pem_lines (p @ inp)), of_nat (length (fst (pem_lines (p @ inp))))) \<and>
    encode_rel ctx' (snd (pem_lines (p @ inp)))"
proof -
  have used: "unat (data_used ctx) = length p" and p: "length p < 48"
    and dat: "length (ctx_data ctx) = 48" and take: "take (length p) (ctx_data ctx) = p"
    using rel by (simp_all add: encode_rel_def)
  consider (empty) "inp = []" | (buffer) "inp \<noteq> []" "length p + length inp < 48"
    | (emit) "inp \<noteq> []" "48 \<le> length p + length inp"
    by linarith
  then show ?thesis
  proof cases
    case empty
    with rel p show ?thesis
      by (simp add: EVP_EncodeUpdate_def pem_lines_short)
  next
    case buffer
    let ?ctx = "ctx\<lparr>ctx_data := blit (ctx_data ctx) (unat (data_used ctx)) inp,
      data_used := data_used ctx + of_nat (length inp)\<rparr>"
    have "unat (data_used ?ctx) = length p + length inp"
      using buffer(2) used by (simp add: unat_word_ariths unat_of_nat_less)
    then have "encode_rel ?ctx (p @ inp)"
      using buffer(2) used dat take by (simp add: encode_rel_def length_blit take_blit)
    moreover have "length inp < 48 - unat (data_used ctx)"
      using buffer(2) used by simp
    then have "EVP_EncodeUpdate ctx inp = (?ctx, [], 0)"
      using buffer(1) by (simp add: EVP_EncodeUpdate_def)
    ultimately show ?thesis
      using buffer(2) by (simp add: pem_lines_short)
  next
    case emit
    define todo where "todo = 48 - length p"
    define pre where "pre = (if p = [] then [] else encode_quads (p @ take todo inp) @ [10])"
    define inp' where "inp' = (if p = [] then inp else drop todo inp)"
    have todo: "length p + todo = 48" "todo \<le> length inp"
      using p emit(2) by (simp_all add: todo_def)
    have lines: "pem_lines (p @ inp) =
        (pre @ fst (pem_lines inp'), snd (pem_lines inp'))"
    proof (cases "p = []")
      case True
      then show ?thesis by (simp add: pre_def inp'_def)
    next
      case False
      have "take 48 (p @ inp) = p @ take todo inp" "drop 48 (p @ inp) = drop todo inp"
        using p by (simp_all add: todo_def)
      with False emit(2) show ?thesis
        by (simp add: pem_lines_long [of "p @ inp"] pre_def inp'_def split_def Let_def)
    qed
    have len_pre: "length pre \<le> 65"
      using todo by (simp add: pre_def length_encode_quads)
    have "length inp' \<le> length inp" by (simp add: inp'_def)
    then have bound: "unat (of_nat (length pre) :: size_t) + 2 * length inp' < 2 ^ 31"
      using small len_pre by (simp add: unat_of_nat_less)
    have first: "encode_fill ctx inp =
      (ctx\<lparr>ctx_data := (if p = [] then ctx_data ctx else blit (ctx_data ctx) (length p) (take todo inp)),
           data_used := 0\<rparr>, inp', pre, of_nat (length pre))"
    proof (cases "p = []")
      case True
      then have "data_used ctx = 0" using used data_used_eq by simp
      with True show ?thesis
        by (simp add: encode_fill_def inp'_def pre_def)
    next
      case False
      then have nz: "data_used ctx \<noteq> 0" using used by auto
      let ?dat = "blit (ctx_data ctx) (length p) (take todo inp)"
      have "take 48 ?dat = p @ take todo inp"
        using take_blit [of "length p" "take todo inp" "ctx_data ctx"] todo dat take by simp
      moreover obtain w n where w: "EVP_EncodeBlock (p @ take todo inp) = (w, n)"
        by (metis surj_pair)
      moreover have "length (p @ take todo inp) \<le> 48" using todo by simp
      note EVP_EncodeBlock_take [OF this w]
      moreover from this(2) have "n = of_nat (length (encode_quads (p @ take todo inp)))"
        by (metis word_of_unat)
      ultimately show ?thesis
        using False nz used by (simp add: encode_fill_def inp'_def pre_def todo_def Let_def)
    qed
    let ?ctx = "ctx\<lparr>ctx_data := (if p = [] then ctx_data ctx
      else blit (ctx_data ctx) (length p) (take todo inp)), data_used := 0\<rparr>"
    have dat': "length (ctx_data ?ctx) = 48"
      using todo dat by (simp add: length_blit)
    have enc: "encode_lines inp' pre (of_nat (length pre)) =
        Inr (snd (pem_lines inp'), pre @ fst (pem_lines inp'),
          of_nat (length (pre @ fst (pem_lines inp'))))"
    proof -
      have "unat (of_nat (length pre) :: size_t) + 2 * length inp' < 2 ^ 62"
        using bound by (rule less_trans) simp
      then show ?thesis
        by (subst encode_lines_pem) simp_all
    qed
    have "length (pre @ fst (pem_lines inp')) \<le> 0x7fffffff"
      using pem_lines_length [of inp'] bound len_pre small \<open>length inp' \<le> length inp\<close> by simp
    then have max: "\<not> INT_MAX < of_nat (length (pre @ fst (pem_lines inp')))"
      by (rule INT_MAX_fits)
    let ?r = "snd (pem_lines inp')"
    have r: "length ?r < 48" by (rule pem_lines_rest)
    let ?ctx' = "?ctx\<lparr>ctx_data := (if ?r \<noteq> [] then blit (ctx_data ?ctx) 0 ?r else ctx_data ?ctx),
      data_used := of_nat (length ?r)\<rparr>"
    have "\<not> length inp < 48 - unat (data_used ctx)"
      using emit(2) used by simp
    then have "EVP_EncodeUpdate ctx inp = (?ctx', pre @ fst (pem_lines inp'),
        of_nat (length (pre @ fst (pem_lines inp'))))"
      using emit used max by (simp add: EVP_EncodeUpdate_def first enc del: of_nat_add)
    moreover have "encode_rel ?ctx' ?r"
      using r dat' take_blit [of 0 ?r "ctx_data ?ctx"]
      by (simp add: encode_rel_def length_blit unat_of_nat_less)
    ultimately show ?thesis
      unfolding lines by (simp del: of_nat_add)
  qed
qed

lemma encode_chunks_refines:
  assumes "encode_rel ctx p" and "list_all (\<lambda>c. length c < 2 ^ 29) cs"
  shows "encode_chunks ctx cs = pem_text (p @ concat cs)"
  using assms
proof (induction cs arbitrary: ctx p)
  case Nil
  then have used: "unat (data_used ctx) = length p" and p: "length p < 48"
    and take: "take (length p) (ctx_data ctx) = p"
    by (simp_all add: encode_rel_def)
  show ?case
  proof (cases "p = []")
    case True
    with used have "data_used ctx = 0" by (simp add: data_used_eq)
    with True show ?thesis
      by (simp add: EVP_EncodeFinal_def pem_text_def pem_lines_short)
  next
    case False
    then have nz: "data_used ctx \<noteq> 0" using used by auto
    obtain w n where w: "EVP_EncodeBlock p = (w, n)" by (metis surj_pair)
    have "length p \<le> 48" using p by simp
    note q = EVP_EncodeBlock_take [OF this w]
    have "unat n \<le> 64" using q(2) p by (simp add: length_encode_quads)
    then have "unat (n + 1) = Suc (unat n)" by (simp add: unat_word_ariths)
    with False nz used take w q p show ?thesis
      by (simp add: EVP_EncodeFinal_def pem_text_def pem_lines_short)
  qed
next
  case (Cons c cs)
  have len: "length c < 2 ^ 29" and cs: "list_all (\<lambda>c. length c < 2 ^ 29) cs"
    using Cons.prems(2) by simp_all
  have p: "length p < 48" using Cons.prems(1) by (simp add: encode_rel_def)
  obtain o1 r where pl: "pem_lines (p @ c) = (o1, r)" by (metis surj_pair)
  with encode_update_refines [OF Cons.prems(1) len] obtain ctx' where
    upd: "EVP_EncodeUpdate ctx c = (ctx', o1, of_nat (length o1))" and rel: "encode_rel ctx' r"
    by auto
  have "length o1 \<le> 2 * length (p @ c)"
    using pem_lines_length [of "p @ c"] pl by simp
  then have "length o1 < 2 ^ 64" using len p by simp
  then have "unat (of_nat (length o1) :: size_t) = length o1"
    by (simp only: unat_of_nat_less len64)
  then show ?case
    using Cons.IH [OF rel cs] pem_lines_append [of "p @ c" "concat cs"]
    by (simp add: upd pl pem_text_def split_def Let_def)
qed

lemma encode_stream_pem:
  "list_all (\<lambda>c. length c < 2 ^ 29) cs \<Longrightarrow> encode_stream cs = pem_text (concat cs)"
  unfolding encode_stream_def
  by (subst encode_chunks_refines [of _ "[]"]) (simp_all add: encode_rel_def EVP_EncodeInit_def)

lemma encode_quads_append:
  "length a mod 3 = 0 \<Longrightarrow> encode_quads (a @ b) = encode_quads a @ encode_quads b"
  by (induction a rule: encode_quads.induct) (auto simp: Let_def)

lemma set_encode_quads: "set (encode_quads src) \<subseteq> insert 61 (set base64_alphabet)"
  by (induction src rule: encode_quads.induct)
    (auto simp: encode_rest_def Let_def conv_in_alphabet simp del: drop_bit_or)

lemma strip_ws_quads: "strip_ws (encode_quads src) = encode_quads src"
proof -
  have "\<not> is_b64_space c" if "c \<in> set (encode_quads src)" for c
    using that set_encode_quads [of src] quad_no_ws [of c] by (auto simp: is_b64_space_def)
  then show ?thesis by (simp add: strip_ws_def)
qed

lemma strip_ws_append: "strip_ws (a @ b) = strip_ws a @ strip_ws b"
  by (simp add: strip_ws_def)

lemma strip_pem_lines:
  "strip_ws (fst (pem_lines d)) @ encode_quads (snd (pem_lines d)) = encode_quads d"
proof (induction d rule: pem_lines.induct)
  case (1 d)
  show ?case
  proof (cases "48 \<le> length d")
    case True
    have "encode_quads d = encode_quads (take 48 d) @ encode_quads (drop 48 d)"
      using encode_quads_append [of "take 48 d" "drop 48 d"] True by (simp add: min_absorb2)
    with 1 [OF True] show ?thesis
      by (simp add: pem_lines_long [OF True] split_def Let_def strip_ws_append strip_ws_quads)
        (simp add: strip_ws_def is_b64_space_def)
  next
    case False
    then show ?thesis by (simp add: pem_lines_short strip_ws_def)
  qed
qed

lemma strip_pem_text: "strip_ws (pem_text d) = encode_quads d"
  using strip_pem_lines [of d]
  by (auto simp: pem_text_def split_def Let_def strip_ws_append strip_ws_quads)
    (simp_all add: strip_ws_def is_b64_space_def)

text \<open>
  C2: the streaming encoder does not depend on how its input is cut. Two ways of cutting the same
  data into chunks give the same text, the lines of 64 characters (48 bytes each) that encode the
  data, the last one shorter; and that text without its newlines is what \<open>EVP_EncodeBlock\<close> writes
  for the whole data.
\<close>

theorem base64_stream_encode_eq:
  assumes "list_all (\<lambda>c. length c < 2 ^ 29) cs"
  shows "encode_stream cs = pem_text (concat cs) \<and>
    strip_ws (encode_stream cs) @ [0] = fst (EVP_EncodeBlock (concat cs))"
  by (simp add: encode_stream_pem [OF assms] strip_pem_text EVP_EncodeBlock_def Let_def)

theorem base64_stream_encode_eq_witness:
  "encode_stream [[77, 97], [110]] = pem_text [77, 97, 110] \<and>
    strip_ws (encode_stream [[77, 97], [110]]) @ [0] = fst (EVP_EncodeBlock [77, 97, 110])"
proof -
  have "list_all (\<lambda>c :: bytes. length c < 2 ^ 29) [[77, 97], [110]]" by simp
  from base64_stream_encode_eq [OF this] show ?thesis
    unfolding concat.simps append.simps .
qed

text \<open>
  C3: a stream survives the round trip: encode data in any chunks, cut the text anywhere, decode
  the pieces, and the data comes back.
\<close>

theorem base64_stream_roundtrip:
  assumes "list_all (\<lambda>c. length c < 2 ^ 29) cs" and "list_all (\<lambda>t. length t < 2 ^ 30) ts"
    and "concat ts = encode_stream cs"
  shows "decode_stream ts = Some (concat cs)"
proof -
  have strip: "strip_ws (concat ts) = encode_quads (concat cs)"
    by (simp only: assms(3) encode_stream_pem [OF assms(1)] strip_pem_text)
  have "(\<exists>e. abs_decode [] False (strip_ws (concat ts)) = Some ([], e, concat cs))"
    unfolding abs_decode_quads [OF strip_ws_no_space]
    by (simp add: strip decode_encode_quads length_encode_quads)
  then show ?thesis
    by (simp only: decode_stream_abs [OF assms(2)])
qed

theorem base64_stream_roundtrip_witness:
  "decode_stream [[84, 87], [70, 117, 10]] = Some [77, 97, 110]"
proof -
  have "encode_stream [[77, 97], [110]] = [84, 87, 70, 117, 10]"
    by (simp add: encode_stream_pem pem_text_def pem_lines_short conv_bin2ascii_if Let_def)
  then show ?thesis
    using base64_stream_roundtrip [of "[[77, 97], [110]]" "[[84, 87], [70, 117, 10]]"] by simp
qed

end
