(* ===== verification/Mem.thy ===== *)
theory Mem
  imports Bytes
begin

text \<open>
  The allocation wrappers and the portable C library replacements of BoringSSL's \<open>crypto/mem.c\<close>.
  The allocator itself is outside the repository: \<open>malloc\<close> is an argument of the definitions, a
  function from the requested size to the memory it hands out, or \<open>None\<close> for a null pointer. A
  block holds the size that \<open>OPENSSL_malloc\<close> stores in front of the memory it returns. A C string
  is the memory from its pointer on; its text ends before the first zero byte.
\<close>

type_synonym allocator = "size_t \<Rightarrow> bytes option"

record heap_block =
  blk_size :: size_t
  blk_data :: bytes

definition OPENSSL_MALLOC_PREFIX :: size_t where
  "OPENSSL_MALLOC_PREFIX = 8"

definition OPENSSL_malloc :: "allocator \<Rightarrow> size_t \<Rightarrow> heap_block option" where
  "OPENSSL_malloc malloc n =
     (case malloc (n + OPENSSL_MALLOC_PREFIX) of
        None \<Rightarrow> None
      | Some raw \<Rightarrow>
          Some \<lparr>blk_size = n, blk_data = drop (unat OPENSSL_MALLOC_PREFIX) raw\<rparr>)"

definition OPENSSL_cleanse :: "bytes \<Rightarrow> size_t \<Rightarrow> bytes" where
  "OPENSSL_cleanse p n = replicate (unat n) 0 @ drop (unat n) p"

text \<open>
  \<open>OPENSSL_free\<close> reads the stored size, overwrites prefix and memory with zeros and hands both to
  the allocator: the result is what \<open>sdallocx\<close> receives, the raw memory and its size. \<open>prefix\<close>
  is the eight bytes in front of the block.
\<close>

definition OPENSSL_free :: "bytes \<Rightarrow> heap_block option \<Rightarrow> (bytes \<times> size_t) option" where
  "OPENSSL_free prefix orig =
     (case orig of
        None \<Rightarrow> None
      | Some b \<Rightarrow>
          let total = blk_size b + OPENSSL_MALLOC_PREFIX in
          Some (OPENSSL_cleanse (prefix @ blk_data b) total, total))"

text \<open>
  \<open>OPENSSL_realloc\<close> gives the new block and what \<open>orig_ptr\<close> still designates: on failure the
  original block survives, on success it has been freed.
\<close>

definition OPENSSL_realloc ::
    "allocator \<Rightarrow> heap_block option \<Rightarrow> size_t \<Rightarrow> heap_block option \<times> heap_block option" where
  "OPENSSL_realloc malloc orig new_size =
     (case orig of
        None \<Rightarrow> (OPENSSL_malloc malloc new_size, None)
      | Some b \<Rightarrow>
          (case OPENSSL_malloc malloc new_size of
             None \<Rightarrow> (None, Some b)
           | Some r \<Rightarrow>
               let to_copy = (if blk_size b < new_size then blk_size b else new_size) in
               (Some (r\<lparr>blk_data := take (unat to_copy) (blk_data b)
                   @ drop (unat to_copy) (blk_data r)\<rparr>), None)))"

fun memcmp_loop :: "u8 \<Rightarrow> bytes \<Rightarrow> bytes \<Rightarrow> u8" where
  "memcmp_loop x (a # as) (b # bs) = memcmp_loop (x OR (a XOR b)) as bs"
| "memcmp_loop x _ _ = x"

definition CRYPTO_memcmp :: "bytes \<Rightarrow> bytes \<Rightarrow> size_t \<Rightarrow> u8" where
  "CRYPTO_memcmp a b n = memcmp_loop 0 (take (unat n) a) (take (unat n) b)"

definition OPENSSL_hash32 :: "bytes \<Rightarrow> size_t \<Rightarrow> u32" where
  "OPENSSL_hash32 p n =
     foldl (\<lambda>h b. (h XOR ucast b) * 16777619) 2166136261 (take (unat n) p)"

text \<open>\<open>strnlen_loop s i n\<close> scans from index \<open>i\<close>; \<open>s\<close> is the memory from there on.\<close>

fun strnlen_loop :: "bytes \<Rightarrow> size_t \<Rightarrow> size_t \<Rightarrow> size_t" where
  "strnlen_loop [] i n = n"
| "strnlen_loop (c # s) i n = (if i < n then if c = 0 then i else strnlen_loop s (i + 1) n else n)"

definition OPENSSL_strnlen :: "bytes \<Rightarrow> size_t \<Rightarrow> size_t" where
  "OPENSSL_strnlen s n = strnlen_loop s 0 n"

text \<open>The C library's \<open>strlen\<close>.\<close>

definition strlen :: "bytes \<Rightarrow> size_t" where
  "strlen s = of_nat (length (takeWhile (\<lambda>c. c \<noteq> 0) s))"

definition OPENSSL_strdup :: "allocator \<Rightarrow> bytes option \<Rightarrow> heap_block option" where
  "OPENSSL_strdup malloc s =
     (case s of
        None \<Rightarrow> None
      | Some s \<Rightarrow>
          let n = strlen s + 1 in
          (case OPENSSL_malloc malloc n of
             None \<Rightarrow> None
           | Some b \<Rightarrow> Some (b\<lparr>blk_data := take (unat n) s @ drop (unat n) (blk_data b)\<rparr>)))"

definition OPENSSL_tolower :: "int \<Rightarrow> int" where
  "OPENSSL_tolower c = (if c \<ge> 65 \<and> c \<le> 90 then c + (97 - 65) else c)"

text \<open>
  \<open>char\<close> is signed on the targets, so a byte is read with \<open>sint\<close>. Comparing past the end of the
  memory of a string cannot happen: both strings hold a zero byte.
\<close>

fun OPENSSL_strcasecmp :: "bytes \<Rightarrow> bytes \<Rightarrow> int" where
  "OPENSSL_strcasecmp (a # as) (b # bs) =
     (let aa = OPENSSL_tolower (sint a); bb = OPENSSL_tolower (sint b) in
      if aa < bb then - 1 else if bb < aa then 1 else if aa = 0 then 0
      else OPENSSL_strcasecmp as bs)"
| "OPENSSL_strcasecmp _ _ = 0"

fun OPENSSL_strncasecmp_loop :: "bytes \<Rightarrow> bytes \<Rightarrow> nat \<Rightarrow> int" where
  "OPENSSL_strncasecmp_loop (a # as) (b # bs) (Suc n) =
     (let aa = OPENSSL_tolower (sint a); bb = OPENSSL_tolower (sint b) in
      if aa < bb then - 1 else if bb < aa then 1 else if aa = 0 then 0
      else OPENSSL_strncasecmp_loop as bs n)"
| "OPENSSL_strncasecmp_loop _ _ _ = 0"

definition OPENSSL_strncasecmp :: "bytes \<Rightarrow> bytes \<Rightarrow> size_t \<Rightarrow> int" where
  "OPENSSL_strncasecmp a b n = OPENSSL_strncasecmp_loop a b (unat n)"

definition OPENSSL_strndup :: "allocator \<Rightarrow> bytes option \<Rightarrow> size_t \<Rightarrow> heap_block option" where
  "OPENSSL_strndup malloc str n =
     (case str of
        None \<Rightarrow> None
      | Some s \<Rightarrow>
          let len = OPENSSL_strnlen s n; alloc_size = len + 1 in
          if alloc_size < len then None
          else
            (case OPENSSL_malloc malloc alloc_size of
               None \<Rightarrow> None
             | Some b \<Rightarrow>
                 Some (b\<lparr>blk_data :=
                   (take (unat len) s @ drop (unat len) (blk_data b))[unat len := 0]\<rparr>)))"

fun strlcpy_loop :: "bytes \<Rightarrow> bytes \<Rightarrow> size_t \<Rightarrow> size_t \<Rightarrow> bytes \<times> size_t" where
  "strlcpy_loop dst (c # src) dst_size l =
     (if 1 < dst_size \<and> c \<noteq> 0 then
        let (d, r) = strlcpy_loop (tl dst) src (dst_size - 1) (l + 1) in (c # d, r)
      else (if dst_size \<noteq> 0 then 0 # tl dst else dst, l + strlen (c # src)))"
| "strlcpy_loop dst [] dst_size l = (if dst_size \<noteq> 0 then 0 # tl dst else dst, l + strlen [])"

definition OPENSSL_strlcpy :: "bytes \<Rightarrow> bytes \<Rightarrow> size_t \<Rightarrow> bytes \<times> size_t" where
  "OPENSSL_strlcpy dst src dst_size = strlcpy_loop dst src dst_size 0"

fun strlcat_loop :: "bytes \<Rightarrow> bytes \<Rightarrow> size_t \<Rightarrow> size_t \<Rightarrow> bytes \<times> size_t" where
  "strlcat_loop (d # dst) src dst_size l =
     (if 0 < dst_size \<and> d \<noteq> 0 then
        let (d', r) = strlcat_loop dst src (dst_size - 1) (l + 1) in (d # d', r)
      else let (d', r) = OPENSSL_strlcpy (d # dst) src dst_size in (d', l + r))"
| "strlcat_loop [] src dst_size l =
     (let (d', r) = OPENSSL_strlcpy [] src dst_size in (d', l + r))"

definition OPENSSL_strlcat :: "bytes \<Rightarrow> bytes \<Rightarrow> size_t \<Rightarrow> bytes \<times> size_t" where
  "OPENSSL_strlcat dst src dst_size = strlcat_loop dst src dst_size 0"

definition OPENSSL_memdup :: "allocator \<Rightarrow> bytes \<Rightarrow> size_t \<Rightarrow> heap_block option" where
  "OPENSSL_memdup malloc p n =
     (if n = 0 then None
      else
        (case OPENSSL_malloc malloc n of
           None \<Rightarrow> None
         | Some b \<Rightarrow> Some (b\<lparr>blk_data := take (unat n) p @ drop (unat n) (blk_data b)\<rparr>)))"

section \<open>Allocation\<close>

text \<open>What the code relies on of the C library: an allocation has the size asked for.\<close>

definition malloc_sound :: "allocator \<Rightarrow> bool" where
  "malloc_sound malloc \<longleftrightarrow> (\<forall>n raw. malloc n = Some raw \<longrightarrow> length raw = unat n)"

text \<open>A block as the code sees it: the stored size is the size of its memory.\<close>

definition block_ok :: "heap_block \<Rightarrow> bool" where
  "block_ok b \<longleftrightarrow> length (blk_data b) = unat (blk_size b)"

definition no_wrap :: "size_t \<Rightarrow> bool" where
  "no_wrap n \<longleftrightarrow> unat n + 8 < 2 ^ 64"

lemma OPENSSL_malloc_ok:
  "malloc_sound malloc \<Longrightarrow> no_wrap n \<Longrightarrow> OPENSSL_malloc malloc n = Some b \<Longrightarrow>
     block_ok b \<and> blk_size b = n"
  by (auto simp: OPENSSL_malloc_def block_ok_def malloc_sound_def no_wrap_def
      OPENSSL_MALLOC_PREFIX_def unat_word_ariths split: option.splits)

lemma OPENSSL_memdup_ok:
  assumes "malloc_sound malloc" and "no_wrap n" and "unat n \<le> length p"
    and "OPENSSL_memdup malloc p n = Some b"
  shows "block_ok b \<and> blk_data b = take (unat n) p"
proof -
  obtain b' where b': "OPENSSL_malloc malloc n = Some b'"
    and b: "b = b'\<lparr>blk_data := take (unat n) p @ drop (unat n) (blk_data b')\<rparr>"
    using assms(4) by (auto simp: OPENSSL_memdup_def split: if_splits option.splits)
  show ?thesis
    using OPENSSL_malloc_ok [OF assms(1,2) b'] assms(3) by (simp add: b block_ok_def)
qed

section \<open>Comparison\<close>

lemma or_eq_0_word: "(a :: 'a::len word) OR b = 0 \<longleftrightarrow> a = 0 \<and> b = 0"
  by (auto simp: bit_eq_iff bit_simps)

lemma xor_eq_0_word: "(a :: 'a::len word) XOR b = 0 \<longleftrightarrow> a = b"
  by (auto simp: bit_eq_iff bit_simps)

lemma memcmp_loop_zero:
  "length a = length b \<Longrightarrow> memcmp_loop x a b = 0 \<longleftrightarrow> x = 0 \<and> a = b"
  by (induction x a b rule: memcmp_loop.induct) (auto simp: or_eq_0_word xor_eq_0_word)

lemma CRYPTO_memcmp_zero:
  "unat n \<le> length a \<Longrightarrow> unat n \<le> length b \<Longrightarrow>
     CRYPTO_memcmp a b n = 0 \<longleftrightarrow> take (unat n) a = take (unat n) b"
  by (simp add: CRYPTO_memcmp_def memcmp_loop_zero)

section \<open>Properties\<close>

text \<open>
  C5: \<open>OPENSSL_malloc\<close> does not check that adding its prefix to the size overflows. For the eight
  largest sizes the request wraps around to less than the prefix, so an allocator that grants it
  makes \<open>OPENSSL_malloc\<close> return a block that claims the full size and has no memory at all.
\<close>

theorem malloc_prefix_overflow:
  assumes "malloc_sound malloc" and "2 ^ 64 - 8 \<le> unat n" and "OPENSSL_malloc malloc n = Some b"
  shows "blk_size b = n \<and> blk_data b = [] \<and> \<not> block_ok b"
proof -
  obtain raw where raw: "malloc (n + 8) = Some raw"
    and b: "b = \<lparr>blk_size = n, blk_data = drop 8 raw\<rparr>"
    using assms(3) by (auto simp: OPENSSL_malloc_def OPENSSL_MALLOC_PREFIX_def split: option.splits)
  have "unat n < 2 ^ 64"
    using unsigned_less [of n] by simp
  then have "unat (n + 8) < 8"
    using assms(2) by (auto simp: unat_word_ariths mod_if)
  then have "length raw < 8"
    using assms(1) raw by (simp add: malloc_sound_def)
  then show ?thesis
    using assms(2) by (simp add: b block_ok_def)
qed

theorem malloc_prefix_overflow_witness:
  "OPENSSL_malloc (\<lambda>n. if n < 100 then Some (replicate (unat n) 0) else None) (- 1)
     = Some \<lparr>blk_size = - 1, blk_data = []\<rparr> \<and>
   \<not> block_ok \<lparr>blk_size = - 1, blk_data = []\<rparr>"
proof -
  let ?m = "\<lambda>n :: size_t. if n < 100 then Some (replicate (unat n) 0) else None"
  let ?b = "\<lparr>blk_size = - 1, blk_data = []\<rparr>"
  have "malloc_sound ?m" by (simp add: malloc_sound_def)
  moreover have "2 ^ 64 - 8 \<le> unat (- 1 :: size_t)"
    by (simp add: unsigned_minus_1_eq_mask mask_eq_exp_minus_1)
  moreover have m: "OPENSSL_malloc ?m (- 1) = Some ?b"
    by (simp add: OPENSSL_malloc_def OPENSSL_MALLOC_PREFIX_def)
  ultimately show ?thesis
    using malloc_prefix_overflow [of ?m "- 1" ?b] by blast
qed

text \<open>
  \<open>OPENSSL_realloc\<close> loses nothing. If it fails the original block is untouched; otherwise the
  new block has the new size, keeps the old contents up to the smaller of the two sizes, and the
  old block is gone.
\<close>

theorem realloc_preserves:
  assumes "malloc_sound malloc" and "no_wrap new_size" and "block_ok b"
    and "OPENSSL_realloc malloc (Some b) new_size = (ret, orig)"
  shows "case ret of None \<Rightarrow> orig = Some b
    | Some r \<Rightarrow> orig = None \<and> block_ok r \<and> blk_size r = new_size \<and>
        take (min (unat (blk_size b)) (unat new_size)) (blk_data r) =
        take (unat new_size) (blk_data b)"
proof (cases "OPENSSL_malloc malloc new_size")
  case None
  with assms(4) show ?thesis by (auto simp: OPENSSL_realloc_def)
next
  case (Some r)
  note ok = OPENSSL_malloc_ok [OF assms(1,2) Some]
  from Some assms(3,4) ok show ?thesis
    by (auto simp: OPENSSL_realloc_def block_ok_def Let_def word_less_nat_alt min_def)
qed

theorem realloc_preserves_witness:
  "OPENSSL_realloc (\<lambda>n. Some (replicate (unat n) 7)) (Some \<lparr>blk_size = 2, blk_data = [1, 2]\<rparr>) 3
     = (Some \<lparr>blk_size = 3, blk_data = [1, 2, 7]\<rparr>, None) \<and>
   block_ok \<lparr>blk_size = 3, blk_data = [1, 2, 7]\<rparr>"
proof -
  have "OPENSSL_realloc (\<lambda>n. Some (replicate (unat n) 7)) (Some \<lparr>blk_size = 2, blk_data = [1, 2]\<rparr>) 3
     = (Some \<lparr>blk_size = 3, blk_data = [1, 2, 7]\<rparr>, None)"
    by code_simp
  from realloc_preserves [OF _ _ _ this] this show ?thesis
    by (simp add: malloc_sound_def no_wrap_def block_ok_def)
qed

lemma strlcpy_loop_spec:
  assumes "0 \<in> set src" and "unat n \<le> length dst"
  shows "strlcpy_loop dst src n l =
    (let t = takeWhile (\<lambda>c. c \<noteq> 0) src; k = min (length t) (unat n - 1) in
     (if n = 0 then dst else take k t @ 0 # drop (Suc k) dst, l + of_nat (length t)))"
  using assms
proof (induction dst src n l rule: strlcpy_loop.induct)
  case (1 dst c src n l)
  show ?case
  proof (cases "1 < n \<and> c \<noteq> 0")
    case True
    then have "n \<noteq> 0" "1 < unat n"
      by (auto simp: word_less_nat_alt)
    moreover from this(1) have "unat (n - 1) = unat n - 1"
      by (rule unat_minus_one)
    moreover from this \<open>1 < unat n\<close> have "n - 1 \<noteq> 0"
      by auto
    ultimately have n: "unat (n - 1) = unat n - 1" "n \<noteq> 0" "n - 1 \<noteq> 0" "1 < unat n"
      by simp_all
    obtain m where m: "unat n = Suc (Suc m)"
      using n(4) by (metis Suc_lessE add_0 add_Suc less_imp_Suc_add plus_nat.add_0 One_nat_def)
    have "0 \<in> set src" "unat (n - 1) \<le> length (tl dst)"
      using True "1.prems" n by auto
    from "1.IH" [OF True this] True n m show ?thesis
      by (simp add: Let_def min_def drop_Suc)
  next
    case False
    then have "c = 0 \<or> unat n = 0 \<or> unat n = 1"
      by (auto simp: word_less_nat_alt)
    then have "c = 0 \<or> n = 0 \<or> n = 1"
      by (simp add: word_unat_eq_iff)
    then show ?thesis
      using False by (auto simp: strlen_def Let_def drop_Suc)
  qed
qed simp

text \<open>
  \<open>OPENSSL_strlcpy\<close> never writes past \<open>dst_size\<close>, always leaves a terminated string when
  there is room for the terminator, copies the longest part of the source that fits, and returns
  the length of the whole source.
\<close>

theorem strlcpy_truncates:
  assumes "0 \<in> set src" and "unat n \<le> length dst"
  shows "OPENSSL_strlcpy dst src n =
    (let t = takeWhile (\<lambda>c. c \<noteq> 0) src; k = min (length t) (unat n - 1) in
     (if n = 0 then dst else take k t @ 0 # drop (Suc k) dst, strlen src))"
  by (simp add: OPENSSL_strlcpy_def strlcpy_loop_spec [OF assms] strlen_def Let_def)

theorem strlcpy_truncates_witness:
  "OPENSSL_strlcpy [9, 9, 9, 9] [65, 66, 67, 0] 3 = ([65, 66, 0, 9], 3)"
  using strlcpy_truncates [of "[65, 66, 67, 0]" 3 "[9, 9, 9, 9]"]
  by (simp add: Let_def strlen_def take_Cons' drop_Cons')

text \<open>
  \<open>OPENSSL_strcasecmp\<close> returns zero exactly when the two C strings are equal once every
  capital ASCII letter is made small.
\<close>

theorem strcasecmp_zero:
  assumes "0 \<in> set a" and "0 \<in> set b"
  shows "OPENSSL_strcasecmp a b = 0 \<longleftrightarrow>
    map (OPENSSL_tolower \<circ> sint) (takeWhile (\<lambda>c. c \<noteq> 0) a) =
    map (OPENSSL_tolower \<circ> sint) (takeWhile (\<lambda>c. c \<noteq> 0) b)"
  using assms
proof (induction a b rule: OPENSSL_strcasecmp.induct)
  case (1 a as b bs)
  have z: "OPENSSL_tolower (sint c) = 0 \<longleftrightarrow> c = 0" for c :: u8
    by (auto simp: OPENSSL_tolower_def signed_eq_0_iff)
  show ?case
    using 1 z [of a] z [of b] by (cases "a = 0"; cases "b = 0") (auto simp: Let_def)
qed auto

end
