(* ===== verification/Codec.thy ===== *)
theory Codec
  imports Bytes
begin

text \<open>
  The contract of a self-delimiting byte codec: a decoder that reads one value off the front of a
  byte string and hands the rest back, and an encoder it inverts. Varints, protocol buffer keys,
  base-128 integers, DER elements, fixed-width integers and UTF-8 characters are all of this
  form, so the facts about sequences of encoded values are proved once here. \<open>canonical_codec\<close>
  adds the converse: the decoder accepts nothing but encodings.
\<close>

type_synonym 'a decoder = "bytes \<Rightarrow> ('a \<times> bytes) option"

text \<open>Reading \<open>n\<close> values one after another.\<close>

fun decode_seq :: "'a decoder \<Rightarrow> nat \<Rightarrow> bytes \<Rightarrow> ('a list \<times> bytes) option" where
  "decode_seq d 0 bs = Some ([], bs)"
| "decode_seq d (Suc n) bs =
     (case d bs of
        None \<Rightarrow> None
      | Some (x, bs') \<Rightarrow>
          (case decode_seq d n bs' of
             None \<Rightarrow> None
           | Some (xs, rest) \<Rightarrow> Some (x # xs, rest)))"

locale prefix_codec =
  fixes enc :: "'a \<Rightarrow> bytes"
    and dec :: "'a decoder"
    and ok :: "'a \<Rightarrow> bool"
  assumes dec_enc: "ok x \<Longrightarrow> dec (enc x @ rest) = Some (x, rest)"
begin

lemma dec_enc_whole: "ok x \<Longrightarrow> dec (enc x) = Some (x, [])"
  by (metis dec_enc append_Nil2)

lemma enc_append_inject:
  assumes "ok x" and "ok y" and "enc x @ r = enc y @ s"
  shows "x = y \<and> r = s"
proof -
  have "Some (x, r) = dec (enc x @ r)"
    by (simp only: dec_enc [OF \<open>ok x\<close>])
  also have "\<dots> = Some (y, s)"
    unfolding assms(3) by (rule dec_enc [OF \<open>ok y\<close>])
  finally show ?thesis by simp
qed

lemma enc_inject: "ok x \<Longrightarrow> ok y \<Longrightarrow> enc x = enc y \<longleftrightarrow> x = y"
  using enc_append_inject [of x y "[]" "[]"] by blast

lemma enc_prefix_free: "ok x \<Longrightarrow> ok y \<Longrightarrow> enc x = enc y @ s \<Longrightarrow> s = []"
  using enc_append_inject [of x y "[]" s] by (metis append_Nil2)

lemma decode_seq_enc:
  "list_all ok xs \<Longrightarrow> decode_seq dec (length xs) (concat (map enc xs) @ rest) = Some (xs, rest)"
  by (induction xs) (simp_all add: dec_enc)

lemma concat_enc_inject:
  assumes "list_all ok xs" and "list_all ok ys" and "length xs = length ys"
    and "concat (map enc xs) @ r = concat (map enc ys) @ s"
  shows "xs = ys \<and> r = s"
proof -
  have "Some (xs, r) = decode_seq dec (length xs) (concat (map enc xs) @ r)"
    by (simp only: decode_seq_enc [OF assms(1)])
  also have "\<dots> = Some (ys, s)"
    unfolding assms(3,4) by (rule decode_seq_enc [OF assms(2)])
  finally show ?thesis by simp
qed

end

locale canonical_codec = prefix_codec +
  assumes dec_canonical: "dec bs = Some (x, rest) \<Longrightarrow> ok x \<and> bs = enc x @ rest"
begin

lemma dec_iff: "dec bs = Some (x, rest) \<longleftrightarrow> ok x \<and> bs = enc x @ rest"
  using dec_canonical dec_enc by blast

lemma dec_inject_input:
  "dec bs = Some (x, rest) \<Longrightarrow> dec cs = Some (x, rest) \<Longrightarrow> bs = cs"
  by (simp add: dec_iff)

lemma decode_seq_canonical:
  "decode_seq dec n bs = Some (xs, rest) \<Longrightarrow>
     length xs = n \<and> list_all ok xs \<and> bs = concat (map enc xs) @ rest"
proof (induction n arbitrary: bs xs)
  case 0
  then show ?case by simp
next
  case (Suc n)
  then obtain x bs' ys where d: "dec bs = Some (x, bs')"
    and s: "decode_seq dec n bs' = Some (ys, rest)" and xs: "xs = x # ys"
    by (auto split: option.splits prod.splits)
  from Suc.IH [OF s] dec_canonical [OF d] show ?case
    by (simp add: xs)
qed

end

text \<open>Fixed-width big-endian integers are a canonical codec at every width.\<close>

definition be_dec :: "nat \<Rightarrow> nat decoder" where
  "be_dec n bs = (if length bs < n then None else Some (be_nat (take n bs), drop n bs))"

interpretation be_codec: canonical_codec "be_bytes n" "be_dec n" "\<lambda>v. v < 256 ^ n" for n
proof unfold_locales
  fix v :: nat and rest :: bytes
  assume "v < 256 ^ n"
  then show "be_dec n (be_bytes n v @ rest) = Some (v, rest)"
    by (simp add: be_dec_def)
next
  fix bs v and rest :: bytes
  assume "be_dec n bs = Some (v, rest)"
  then have v: "v = be_nat (take n bs)" and rest: "rest = drop n bs" and n: "n \<le> length bs"
    by (auto simp: be_dec_def split: if_splits)
  have "be_bytes n v = take n bs"
    using be_bytes_be_nat [of "take n bs"] n by (simp add: v min_absorb2)
  moreover have "v < 256 ^ n"
    using be_nat_bound [of "take n bs"] n by (simp add: v min_absorb2)
  ultimately show "v < 256 ^ n \<and> bs = be_bytes n v @ rest"
    by (simp add: rest)
qed

end
