(* ===== verification/Der.thy ===== *)
theory Der
  imports Codec
begin

text \<open>
  What the parser and the builder of \<open>crypto/bytestring\<close> promise about DER, independent of the C
  code: base-128 integers, identifiers, definite lengths and elements as canonical codecs. Each
  decoder accepts exactly the encodings, so every value has one encoding only. The tag of an
  element is the in-memory form of the library: class and constructed bit on top of a 29-bit tag
  number.
\<close>

section \<open>Base-128 integers\<close>

text \<open>The bytes in front of the last one, each with its high bit set.\<close>

fun b128_prefix :: "nat \<Rightarrow> bytes" where
  "b128_prefix v =
     (if v = 0 then [] else b128_prefix (v div 128) @ [of_nat (128 + v mod 128)])"

declare b128_prefix.simps [simp del]

definition b128_enc :: "nat \<Rightarrow> bytes" where
  "b128_enc v = b128_prefix (v div 128) @ [of_nat (v mod 128)]"

fun b128_loop :: "nat \<Rightarrow> nat decoder" where
  "b128_loop v [] = None"
| "b128_loop v (b # bs) =
     (if 2 ^ 57 \<le> v then None
      else if v = 0 \<and> unat b = 128 then None
      else if unat b < 128 then Some (v * 128 + unat b, bs)
      else b128_loop (v * 128 + (unat b - 128)) bs)"

definition b128_dec :: "nat decoder" where
  "b128_dec = b128_loop 0"

lemma b128_prefix_0: "b128_prefix 0 = []"
  by (simp add: b128_prefix.simps)

lemma b128_prefix_pos:
  "0 < v \<Longrightarrow> b128_prefix v = b128_prefix (v div 128) @ [of_nat (128 + v mod 128)]"
  by (simp add: b128_prefix.simps [of v])

lemma b128_loop_prefix:
  "v < 2 ^ 64 \<Longrightarrow> b128_loop 0 (b128_prefix v @ bs) = b128_loop v bs"
proof (induction v arbitrary: bs rule: b128_prefix.induct)
  case (1 v)
  show ?case
  proof (cases "v = 0")
    case True
    then show ?thesis by (simp add: b128_prefix_0)
  next
    case False
    have "v div 128 < 2 ^ 64" "\<not> 2 ^ 57 \<le> v div 128"
      using "1.prems" by simp_all
    moreover have "unat (of_nat (128 + v mod 128) :: u8) = 128 + v mod 128"
      by (rule unat_of_nat_u8) simp
    moreover have "v div 128 \<noteq> 0 \<or> v mod 128 \<noteq> 0"
      using False by (metis div_mult_mod_eq add_is_0 mult_zero_left)
    moreover have "v div 128 * 128 + v mod 128 = v"
      by simp
    ultimately show ?thesis
      using "1.IH" [OF False, of "of_nat (128 + v mod 128) # bs"] False
      by (auto simp: b128_prefix_pos [of v] simp del: of_nat_add)
  qed
qed

lemma b128_loop_sound:
  "b128_loop a bs = Some (v, rest) \<Longrightarrow> a < 2 ^ 64 \<Longrightarrow>
     v < 2 ^ 64 \<and> (\<exists>pre. bs = pre @ rest \<and> b128_prefix a @ pre = b128_enc v)"
proof (induction a bs rule: b128_loop.induct)
  case (1 a)
  then show ?case by simp
next
  case (2 a b bs)
  have small: "a < 2 ^ 57" and nz: "\<not> (a = 0 \<and> unat b = 128)"
    using "2.prems"(1) by (auto split: if_splits)
  show ?case
  proof (cases "unat b < 128")
    case True
    then have v: "v = a * 128 + unat b" and rest: "rest = bs"
      using "2.prems"(1) small nz by (auto split: if_splits)
    from True have "v div 128 = a" "v mod 128 = unat b"
      by (simp_all add: v)
    then have "b128_prefix a @ [b] = b128_enc v"
      by (simp add: b128_enc_def word_of_unat)
    moreover have "v < 2 ^ 64"
      using small True by (simp add: v)
    ultimately show ?thesis
      using rest by auto
  next
    case False
    let ?a = "a * 128 + (unat b - 128)"
    have lt: "unat b - 128 < 128"
      using unat_less_256 [of b] False by linarith
    then have dm: "?a div 128 = a" "?a mod 128 = unat b - 128"
      by simp_all
    have "0 < ?a" using nz False by auto
    from b128_prefix_pos [OF this] have pre: "b128_prefix ?a = b128_prefix a @ [b]"
      using False unfolding dm by (simp add: word_of_unat)
    have "?a < 2 ^ 64" using small lt False by simp
    moreover have "b128_loop ?a bs = Some (v, rest)"
      using "2.prems"(1) small nz False by (auto split: if_splits)
    moreover have "\<not> 2 ^ 57 \<le> a" using small by simp
    ultimately have "v < 2 ^ 64 \<and> (\<exists>pre. bs = pre @ rest \<and> b128_prefix ?a @ pre = b128_enc v)"
      using "2.IH" nz False by blast
    then show ?thesis
      unfolding pre by (metis append.assoc append_Cons append_Nil)
  qed
qed

interpretation b128_codec: canonical_codec b128_enc b128_dec "\<lambda>v. v < 2 ^ 64"
proof unfold_locales
  fix v :: nat and rest
  assume v: "v < 2 ^ 64"
  have "unat (of_nat (v mod 128) :: u8) = v mod 128"
    by (rule unat_of_nat_u8) (rule less_trans [of _ 128], simp_all)
  moreover have "\<not> 2 ^ 57 \<le> v div 128" "v div 128 < 2 ^ 64"
    using v by simp_all
  moreover have "v mod 128 < 128" "v mod 128 \<noteq> 128" by simp_all
  ultimately show "b128_dec (b128_enc v @ rest) = Some (v, rest)"
    by (simp add: b128_dec_def b128_enc_def b128_loop_prefix)
next
  fix bs v and rest :: bytes
  assume "b128_dec bs = Some (v, rest)"
  from b128_loop_sound [OF this [unfolded b128_dec_def]]
  show "v < 2 ^ 64 \<and> bs = b128_enc v @ rest"
    by (auto simp: b128_prefix_0)
qed

section \<open>Identifiers\<close>

definition tag_class_byte :: "u32 \<Rightarrow> u8" where
  "tag_class_byte tag = ucast (drop_bit 24 tag) AND 0xe0"

definition tag_number :: "u32 \<Rightarrow> nat" where
  "tag_number tag = unat tag mod 2 ^ 29"

definition tag_enc :: "u32 \<Rightarrow> bytes" where
  "tag_enc tag =
     (if tag_number tag < 31 then [tag_class_byte tag OR of_nat (tag_number tag)]
      else (tag_class_byte tag OR 0x1f) # b128_enc (tag_number tag))"

definition tag_of :: "u8 \<Rightarrow> nat \<Rightarrow> u32" where
  "tag_of b n = push_bit 24 (ucast (b AND 0xe0)) OR of_nat n"

definition tag_dec :: "u32 decoder" where
  "tag_dec bs =
     (case bs of
        [] \<Rightarrow> None
      | b # r \<Rightarrow>
          if b AND 0x1f = 0x1f then
            (case b128_dec r of
               None \<Rightarrow> None
             | Some (v, r') \<Rightarrow> if 2 ^ 29 \<le> v \<or> v < 31 then None else Some (tag_of b v, r'))
          else Some (tag_of b (unat (b AND 0x1f)), r))"

lemma and_1f: "unat (b AND 0x1f :: u8) = unat b mod 32"
proof -
  have "b AND 0x1f = take_bit 5 b"
    by (simp add: take_bit_eq_mask mask_numeral)
  then show ?thesis by (simp add: take_bit_eq_mod unat_mod_distrib)
qed

lemma and_e0: "(b AND 0xe0 :: u8) = push_bit 5 (drop_bit 5 b)"
proof (rule bit_word_eqI)
  fix n
  assume "n < LENGTH(8)"
  then have "n \<in> {0,1,2,3,4,5,6,7}" by auto
  then show "bit (b AND 0xe0) n = bit (push_bit 5 (drop_bit 5 b)) n"
    by (auto simp: bit_simps)
qed

lemma unat_drop_5: "unat (drop_bit 5 b :: u8) = unat b div 32"
  by (simp add: drop_bit_eq_div unat_div_distrib)

lemma unat_and_e0: "unat (b AND 0xe0 :: u8) = unat b div 32 * 32"
proof -
  have "unat b div 32 * 32 < 256"
    using unat_less_256 [of b] by linarith
  then show ?thesis
    by (simp add: and_e0 push_bit_eq_mult unat_word_ariths unat_drop_5)
qed

lemma unat_tag_of:
  assumes "n < 2 ^ 29"
  shows "unat (tag_of b n) = unat b div 32 * 2 ^ 29 + n"
proof -
  have "push_bit 24 (ucast (b AND 0xe0) :: u32) = push_bit 29 (ucast (drop_bit 5 b))"
    unfolding and_e0 by (rule bit_word_eqI) (auto simp: bit_simps)
  moreover have "take_bit 29 (of_nat n :: u32) = of_nat n"
    using assms by (simp add: take_bit_of_nat take_bit_nat_eq_self)
  ultimately have "tag_of b n = push_bit 29 (ucast (drop_bit 5 b)) + of_nat n"
    unfolding tag_of_def by (simp only: or_eq_plus_push)
  also have "\<dots> = of_nat (unat b div 32 * 2 ^ 29 + n)"
    unfolding unat_drop_5 [symmetric] by (simp add: push_bit_eq_mult mult.commute)
  finally have eq: "tag_of b n = of_nat (unat b div 32 * 2 ^ 29 + n)" .
  have "unat b div 32 < 8"
    by (rule less_mult_imp_div_less) simp
  then have "unat b div 32 * 2 ^ 29 + n < 2 ^ 32"
    using assms by simp
  then show ?thesis
    unfolding eq by (simp add: unat_of_nat_less del: of_nat_add)
qed

lemma unat_tag_class_byte: "unat (tag_class_byte t) = unat t div 2 ^ 29 * 32"
proof -
  have "unat t div 2 ^ 24 < 2 ^ 8"
    using unat_less_32 [of t] by simp
  then have "unat (ucast (drop_bit 24 t) :: u8) = unat t div 2 ^ 24"
    by (simp add: unsigned_ucast_eq drop_bit_eq_div unat_div_distrib take_bit_nat_eq_self)
  then have "unat (tag_class_byte t) = unat t div 2 ^ 24 div 32 * 32"
    unfolding tag_class_byte_def unat_and_e0 by simp
  then show ?thesis by (simp only: div_mult2_eq [symmetric]) simp
qed

lemma unat_class_or:
  assumes "k < 32"
  shows "unat (tag_class_byte t OR of_nat k) = unat t div 2 ^ 29 * 32 + k"
proof -
  have "tag_class_byte t = push_bit 5 (drop_bit 5 (ucast (drop_bit 24 t)))"
    unfolding tag_class_byte_def and_e0 ..
  moreover have "take_bit 5 (of_nat k :: u8) = of_nat k"
    using assms by (simp add: take_bit_of_nat take_bit_nat_eq_self)
  ultimately have "tag_class_byte t OR of_nat k = tag_class_byte t + of_nat k"
    by (simp only: or_eq_plus_push)
  moreover have "unat t div 2 ^ 29 < 8"
    using unat_less_32 [of t] by simp
  ultimately show ?thesis
    using assms by (simp add: unat_word_ariths unat_tag_class_byte unat_of_nat_u8)
qed

lemma tag_of_class:
  assumes "k < 32"
  shows "tag_of (tag_class_byte t OR of_nat k) (tag_number t) = t"
proof -
  have "unat (tag_of (tag_class_byte t OR of_nat k) (tag_number t)) = unat t"
    using assms by (simp add: unat_tag_of tag_number_def unat_class_or)
  then show ?thesis by (simp add: word_unat_eq_iff)
qed

lemma tag_number_of: "n < 2 ^ 29 \<Longrightarrow> tag_number (tag_of b n) = n"
  by (simp add: tag_number_def unat_tag_of)

lemma class_of_tag:
  assumes "n < 2 ^ 29"
  shows "tag_class_byte (tag_of b n) OR of_nat (unat b mod 32) = b"
proof -
  have "unat (tag_class_byte (tag_of b n) OR of_nat (unat b mod 32)) = unat b"
    using assms by (simp add: unat_class_or unat_tag_of)
  then show ?thesis by (simp add: word_unat_eq_iff)
qed

lemma and_1f_eq: "(b AND 0x1f :: u8) = 0x1f \<longleftrightarrow> unat b mod 32 = 31"
  by (simp add: word_unat_eq_iff and_1f)

interpretation tag_codec: canonical_codec tag_enc tag_dec "\<lambda>_. True"
proof unfold_locales
  fix t :: u32 and rest
  have num: "tag_number t < 2 ^ 29" by (simp add: tag_number_def)
  show "tag_dec (tag_enc t @ rest) = Some (t, rest)"
  proof (cases "tag_number t < 31")
    case True
    then have "unat (tag_class_byte t OR of_nat (tag_number t)) mod 32 = tag_number t"
      by (simp add: unat_class_or)
    with True tag_of_class [of "tag_number t" t] show ?thesis
      by (simp add: tag_enc_def tag_dec_def and_1f_eq and_1f)
  next
    case False
    have b: "unat (tag_class_byte t OR 0x1f) mod 32 = 31"
      using unat_class_or [of 31 t] by simp
    have "tag_number t < 2 ^ 64" using num by (rule less_trans) simp
    with b False num tag_of_class [of 31 t] show ?thesis
      by (simp add: tag_enc_def tag_dec_def and_1f_eq b128_codec.dec_enc)
  qed
next
  fix bs t and rest :: bytes
  assume "tag_dec bs = Some (t, rest)"
  then obtain b r where bs: "bs = b # r" and dec: "tag_dec (b # r) = Some (t, rest)"
    by (cases bs) (auto simp: tag_dec_def)
  show "True \<and> bs = tag_enc t @ rest"
  proof (cases "b AND 0x1f = 0x1f")
    case True
    then obtain v where v: "b128_dec r = Some (v, rest)" "31 \<le> v" "v < 2 ^ 29" and t: "t = tag_of b v"
      using dec by (auto simp: tag_dec_def split: option.splits if_splits)
    from b128_codec.dec_canonical [OF v(1)] have "r = b128_enc v @ rest" by simp
    moreover have "tag_class_byte t OR 0x1f = b"
      using class_of_tag [OF v(3), of b] True by (simp add: t and_1f_eq)
    ultimately show ?thesis
      using v(2,3) by (simp add: bs tag_enc_def t tag_number_of)
  next
    case False
    then have t: "t = tag_of b (unat b mod 32)" and rest: "rest = r"
      using dec by (auto simp: tag_dec_def and_1f)
    have small: "unat b mod 32 < 31"
      using False mod_less_divisor [of 32 "unat b"] by (auto simp: and_1f_eq)
    then have num: "tag_number t = unat b mod 32"
      by (simp add: t tag_number_of)
    have "tag_class_byte t OR of_nat (unat b mod 32) = b"
      unfolding t by (rule class_of_tag) (use small in simp)
    with small show ?thesis
      by (simp add: bs rest tag_enc_def num)
  qed
qed

section \<open>Definite lengths and elements\<close>

text \<open>The length octets: one byte below 128, else the number of bytes and the shortest form.\<close>

definition len_size :: "nat \<Rightarrow> nat" where
  "len_size n = (if n < 2 ^ 8 then 1 else if n < 2 ^ 16 then 2 else if n < 2 ^ 24 then 3 else 4)"

definition len_enc :: "nat \<Rightarrow> bytes" where
  "len_enc n =
     (if n < 128 then [of_nat n] else of_nat (128 + len_size n) # be_bytes (len_size n) n)"

definition len_dec :: "nat decoder" where
  "len_dec bs =
     (case bs of
        [] \<Rightarrow> None
      | b # r \<Rightarrow>
          if unat b < 128 then Some (unat b, r)
          else
            let k = unat b - 128 in
            if k = 0 \<or> 4 < k then None
            else
              (case be_dec k r of
                 None \<Rightarrow> None
               | Some (n, r') \<Rightarrow> if n < 128 \<or> n < 256 ^ (k - 1) then None else Some (n, r')))"

lemma len_size_bounds: "n < 2 ^ 32 \<Longrightarrow> 1 \<le> len_size n \<and> len_size n \<le> 4 \<and> n < 256 ^ len_size n"
  by (auto simp: len_size_def)

lemma len_size_minimal: "128 \<le> n \<Longrightarrow> 256 ^ (len_size n - 1) \<le> n"
  by (auto simp: len_size_def)

lemma len_size_unique:
  assumes "1 \<le> k" "k \<le> 4" "128 \<le> n" "256 ^ (k - 1) \<le> n" "n < 256 ^ k"
  shows "len_size n = k"
proof -
  have "k = 1 \<or> k = 2 \<or> k = 3 \<or> k = 4" using assms(1,2) by linarith
  then show ?thesis using assms by (auto simp: len_size_def)
qed

interpretation len_codec: canonical_codec len_enc len_dec "\<lambda>n. n < 2 ^ 32"
proof unfold_locales
  fix n :: nat and rest
  assume n: "n < 2 ^ 32"
  note b = len_size_bounds [OF n]
  show "len_dec (len_enc n @ rest) = Some (n, rest)"
  proof (cases "n < 128")
    case True
    then show ?thesis by (simp add: len_enc_def len_dec_def unat_of_nat_u8)
  next
    case False
    have "unat (of_nat (128 + len_size n) :: u8) = 128 + len_size n"
      using b by (intro unat_of_nat_u8) linarith
    moreover have "be_dec (len_size n) (be_bytes (len_size n) n @ rest) = Some (n, rest)"
      using b by (simp only: be_codec.dec_enc)
    moreover have "\<not> n < 256 ^ (len_size n - 1)"
      using len_size_minimal [of n] False by simp
    ultimately show ?thesis
      using False b by (simp add: len_enc_def len_dec_def Let_def del: of_nat_add)
  qed
next
  fix bs n and rest :: bytes
  assume "len_dec bs = Some (n, rest)"
  then obtain b r where bs: "bs = b # r" and dec: "len_dec (b # r) = Some (n, rest)"
    by (cases bs) (auto simp: len_dec_def)
  show "n < 2 ^ 32 \<and> bs = len_enc n @ rest"
  proof (cases "unat b < 128")
    case True
    with dec show ?thesis by (auto simp: bs len_dec_def len_enc_def word_of_unat)
  next
    case False
    define k where "k = unat b - 128"
    have k: "1 \<le> k" "k \<le> 4" and be: "be_dec k r = Some (n, rest)"
      and n: "128 \<le> n" "256 ^ (k - 1) \<le> n"
      using dec False by (auto simp: len_dec_def k_def Let_def split: if_splits option.splits)
    from be_codec.dec_canonical [OF be] have small: "n < 256 ^ k" and r: "r = be_bytes k n @ rest"
      by simp_all
    have size: "len_size n = k"
      by (rule len_size_unique [OF k n small])
    have "128 + k = unat b" using False by (simp add: k_def)
    then have "of_nat (128 + k) = b" by (simp only: word_of_unat)
    moreover have "n < 2 ^ 32"
      using small power_increasing [OF k(2), of "256 :: nat"] by simp
    ultimately show ?thesis
      using n(1) by (simp add: bs r len_enc_def size del: of_nat_add)
  qed
qed

text \<open>An element is its identifier, its length and its contents.\<close>

definition der_enc :: "u32 \<times> bytes \<Rightarrow> bytes" where
  "der_enc e = tag_enc (fst e) @ len_enc (length (snd e)) @ snd e"

definition der_dec :: "(u32 \<times> bytes) decoder" where
  "der_dec bs =
     (case tag_dec bs of
        None \<Rightarrow> None
      | Some (t, r) \<Rightarrow>
          (case len_dec r of
             None \<Rightarrow> None
           | Some (n, r') \<Rightarrow> if length r' < n then None else Some ((t, take n r'), drop n r')))"

interpretation der_codec: canonical_codec der_enc der_dec "\<lambda>e. length (snd e) < 2 ^ 32"
proof unfold_locales
  fix e :: "u32 \<times> bytes" and rest
  assume "length (snd e) < 2 ^ 32"
  then show "der_dec (der_enc e @ rest) = Some (e, rest)"
    by (simp add: der_dec_def der_enc_def tag_codec.dec_enc len_codec.dec_enc)
next
  fix bs e and rest :: bytes
  assume "der_dec bs = Some (e, rest)"
  then obtain t r n r' where t: "tag_dec bs = Some (t, r)" and n: "len_dec r = Some (n, r')"
    and le: "n \<le> length r'" and e: "e = (t, take n r')" and rest: "rest = drop n r'"
    by (auto simp: der_dec_def split: option.splits if_splits)
  from tag_codec.dec_canonical [OF t] len_codec.dec_canonical [OF n] le
  show "length (snd e) < 2 ^ 32 \<and> bs = der_enc e @ rest"
    by (simp add: e rest der_enc_def min_absorb2)
qed

end
