(* ===== verification/Cbs.thy ===== *)
theory Cbs
  imports Codec Mem Der "HOL-Library.Code_Target_Nat"
begin

text \<open>
  The bytestring parser of \<open>crypto/bytestring/cbs.c\<close>. A \<open>CBS\<close> is a pointer and a length: here the
  memory from the pointer to the end of its allocation, and the length field. \<open>valid\<close> says that the
  length stays inside the allocation. An operation returns what it stored through its out pointers,
  or \<open>None\<close> for a zero return, and the \<open>CBS\<close> it leaves behind, after a failure too; what an out
  pointer holds after a failure is not modelled. The contract \<open>cbs_parser\<close> says that an operation is
  a parser of the bytes in its window that never looks outside it; every operation is shown
  to meet it.
\<close>

record cbs =
  cbs_data :: bytes
  cbs_len :: size_t

type_synonym 'a cbs_op = "cbs \<Rightarrow> 'a option \<times> cbs"

text \<open>\<open>if (!op(cbs, &x)) return 0;\<close> followed by the rest of the function.\<close>

definition and_then :: "'a cbs_op \<Rightarrow> ('a \<Rightarrow> 'b cbs_op) \<Rightarrow> 'b cbs_op" where
  "and_then m f c = (case m c of (None, c') \<Rightarrow> (None, c') | (Some x, c') \<Rightarrow> f x c')"

definition cbs_fail :: "'a cbs_op" where
  "cbs_fail c = (None, c)"

definition cbs_return :: "'a \<Rightarrow> 'a cbs_op" where
  "cbs_return x c = (Some x, c)"

section \<open>Reading bytes and integers\<close>

definition CBS_init :: "bytes \<Rightarrow> size_t \<Rightarrow> cbs" where
  "CBS_init p n = \<lparr>cbs_data = p, cbs_len = n\<rparr>"

definition cbs_get :: "size_t \<Rightarrow> bytes cbs_op" where
  "cbs_get n c =
     (if cbs_len c < n then (None, c)
      else (Some (cbs_data c),
        c\<lparr>cbs_data := drop (unat n) (cbs_data c), cbs_len := cbs_len c - n\<rparr>))"

definition CBS_skip :: "size_t \<Rightarrow> unit cbs_op" where
  "CBS_skip n = and_then (cbs_get n) (\<lambda>_. cbs_return ())"

definition CBS_data :: "cbs \<Rightarrow> bytes" where
  "CBS_data c = cbs_data c"

definition CBS_len :: "cbs \<Rightarrow> size_t" where
  "CBS_len c = cbs_len c"

text \<open>The copy and its length, with the return value; the old \<open>*out_ptr\<close> has been freed.\<close>

definition CBS_stow :: "allocator \<Rightarrow> cbs \<Rightarrow> heap_block option \<times> size_t \<times> int" where
  "CBS_stow malloc c =
     (if cbs_len c = 0 then (None, 0, 1)
      else
        (case OPENSSL_memdup malloc (cbs_data c) (cbs_len c) of
           None \<Rightarrow> (None, 0, 0)
         | Some b \<Rightarrow> (Some b, cbs_len c, 1)))"

text \<open>
  The pointer of a \<open>CBS\<close> is to its memory, so never null. A \<open>CBS\<close> that was zeroed, whose pointer is null,
  is outside this model of \<open>CBS_strdup\<close>: \<open>OPENSSL_strndup\<close> (theory \<open>Mem\<close>) returns null for it.
\<close>

definition CBS_strdup :: "allocator \<Rightarrow> cbs \<Rightarrow> heap_block option" where
  "CBS_strdup malloc c = OPENSSL_strndup malloc (Some (cbs_data c)) (cbs_len c)"

definition CBS_contains_zero_byte :: "cbs \<Rightarrow> bool" where
  "CBS_contains_zero_byte c \<longleftrightarrow> List.member (take (unat (cbs_len c)) (cbs_data c)) 0"

definition CBS_mem_equal :: "cbs \<Rightarrow> bytes \<Rightarrow> size_t \<Rightarrow> bool" where
  "CBS_mem_equal c p n =
     (if n \<noteq> cbs_len c then False else CRYPTO_memcmp (cbs_data c) p n = 0)"

definition cbs_get_u :: "size_t \<Rightarrow> u64 cbs_op" where
  "cbs_get_u n = and_then (cbs_get n) (\<lambda>p. cbs_return (be_read (take (unat n) p)))"

definition CBS_get_u8 :: "u8 cbs_op" where
  "CBS_get_u8 = and_then (cbs_get 1) (\<lambda>p. cbs_return (p ! 0))"

definition CBS_get_u16 :: "u16 cbs_op" where
  "CBS_get_u16 = and_then (cbs_get_u 2) (\<lambda>v. cbs_return (ucast v))"

definition CRYPTO_bswap2 :: "u16 \<Rightarrow> u16" where
  "CRYPTO_bswap2 x = drop_bit 8 x OR push_bit 8 x"

definition CRYPTO_bswap4 :: "u32 \<Rightarrow> u32" where
  "CRYPTO_bswap4 x =
     (let x = drop_bit 16 x OR push_bit 16 x
      in drop_bit 8 (x AND 0xff00ff00) OR push_bit 8 (x AND 0x00ff00ff))"

definition CRYPTO_bswap8 :: "u64 \<Rightarrow> u64" where
  "CRYPTO_bswap8 x =
     ucast (CRYPTO_bswap4 (ucast (drop_bit 32 x))) OR push_bit 32 (ucast (CRYPTO_bswap4 (ucast x)))"

definition CBS_get_u16le :: "u16 cbs_op" where
  "CBS_get_u16le = and_then CBS_get_u16 (\<lambda>v. cbs_return (CRYPTO_bswap2 v))"

definition CBS_get_u24 :: "u32 cbs_op" where
  "CBS_get_u24 = and_then (cbs_get_u 3) (\<lambda>v. cbs_return (ucast v))"

definition CBS_get_u32 :: "u32 cbs_op" where
  "CBS_get_u32 = and_then (cbs_get_u 4) (\<lambda>v. cbs_return (ucast v))"

definition CBS_get_u32le :: "u32 cbs_op" where
  "CBS_get_u32le = and_then CBS_get_u32 (\<lambda>v. cbs_return (CRYPTO_bswap4 v))"

definition CBS_get_u64 :: "u64 cbs_op" where
  "CBS_get_u64 = cbs_get_u 8"

definition CBS_get_u64le :: "u64 cbs_op" where
  "CBS_get_u64le = and_then (cbs_get_u 8) (\<lambda>v. cbs_return (CRYPTO_bswap8 v))"

definition CBS_get_last_u8 :: "u8 cbs_op" where
  "CBS_get_last_u8 c =
     (if cbs_len c = 0 then (None, c)
      else (Some (cbs_data c ! unat (cbs_len c - 1)), c\<lparr>cbs_len := cbs_len c - 1\<rparr>))"

definition CBS_get_bytes :: "size_t \<Rightarrow> cbs cbs_op" where
  "CBS_get_bytes n = and_then (cbs_get n) (\<lambda>p. cbs_return (CBS_init p n))"

definition CBS_copy_bytes :: "size_t \<Rightarrow> bytes cbs_op" where
  "CBS_copy_bytes n = and_then (cbs_get n) (\<lambda>p. cbs_return (take (unat n) p))"

definition cbs_get_length_prefixed :: "size_t \<Rightarrow> cbs cbs_op" where
  "cbs_get_length_prefixed len_len = and_then (cbs_get_u len_len) (\<lambda>n. CBS_get_bytes n)"

definition CBS_get_u8_length_prefixed :: "cbs cbs_op" where
  "CBS_get_u8_length_prefixed = cbs_get_length_prefixed 1"

definition CBS_get_u16_length_prefixed :: "cbs cbs_op" where
  "CBS_get_u16_length_prefixed = cbs_get_length_prefixed 2"

definition CBS_get_u24_length_prefixed :: "cbs cbs_op" where
  "CBS_get_u24_length_prefixed = cbs_get_length_prefixed 3"

section \<open>ASN.1 elements\<close>

definition CBS_ASN1_TAG_SHIFT :: nat where
  "CBS_ASN1_TAG_SHIFT = 24"

definition CBS_ASN1_CONSTRUCTED :: u32 where
  "CBS_ASN1_CONSTRUCTED = push_bit CBS_ASN1_TAG_SHIFT 0x20"

definition CBS_ASN1_TAG_NUMBER_MASK :: u32 where
  "CBS_ASN1_TAG_NUMBER_MASK = push_bit (5 + CBS_ASN1_TAG_SHIFT) 1 - 1"

definition CBS_ASN1_BOOLEAN :: u32 where "CBS_ASN1_BOOLEAN = 1"
definition CBS_ASN1_INTEGER :: u32 where "CBS_ASN1_INTEGER = 2"
definition CBS_ASN1_OCTETSTRING :: u32 where "CBS_ASN1_OCTETSTRING = 4"

lemma unat_sub_less: "n \<noteq> 0 \<Longrightarrow> \<not> l < n \<Longrightarrow> unat (l - n) < unat l"
  using unat_gt_0 [of n] unat_sub_if_size [of l n] by (simp add: word_less_nat_alt)

lemma cbs_get_shorter:
  "cbs_get n c = (Some p, c') \<Longrightarrow> n \<noteq> 0 \<Longrightarrow> unat (cbs_len c') < unat (cbs_len c)"
  by (auto simp: cbs_get_def unat_sub_less split: if_splits)

lemma CBS_get_u8_shorter:
  "CBS_get_u8 c = (Some b, c') \<Longrightarrow> unat (cbs_len c') < unat (cbs_len c)"
  by (auto simp: CBS_get_u8_def and_then_def cbs_return_def dest: cbs_get_shorter
      split: prod.splits option.splits)

function base128_loop :: "u64 \<Rightarrow> u64 cbs_op" where
  "base128_loop v c =
     (case CBS_get_u8 c of
        (None, c') \<Rightarrow> (None, c')
      | (Some b, c') \<Rightarrow>
          if drop_bit (64 - 7) v \<noteq> 0 then (None, c')
          else if v = 0 \<and> b = 0x80 then (None, c')
          else
            let v' = push_bit 7 v OR ucast (b AND 0x7f)
            in if b AND 0x80 \<noteq> 0 then base128_loop v' c' else (Some v', c'))"
  by pat_completeness auto
termination
  by (relation "measure (\<lambda>(v, c). unat (cbs_len c))") (auto dest: sym CBS_get_u8_shorter)

declare base128_loop.simps [simp del]

definition parse_base128_integer :: "u64 cbs_op" where
  "parse_base128_integer = base128_loop 0"

definition parse_asn1_tag :: "u32 cbs_op" where
  "parse_asn1_tag =
     and_then CBS_get_u8 (\<lambda>tag_byte.
       let tag = push_bit CBS_ASN1_TAG_SHIFT (ucast tag_byte AND 0xe0);
           tag_number = ucast (tag_byte AND 0x1f)
       in if tag_number = 0x1f then
            and_then parse_base128_integer (\<lambda>v.
              if ucast CBS_ASN1_TAG_NUMBER_MASK < v \<or> v < 0x1f then cbs_fail
              else cbs_return (tag OR ucast v))
          else cbs_return (tag OR tag_number))"

text \<open>
  The \<open>header\<close> of the code is a copy of \<open>*cbs\<close> that reads tag and length; the element is then
  taken from \<open>*cbs\<close> itself. A failure on the copy leaves \<open>*cbs\<close> alone. The results are the
  element, its tag and the length of its header.
\<close>

definition cbs_get_any_asn1_element :: "bool \<Rightarrow> (cbs \<times> u32 \<times> size_t) cbs_op" where
  "cbs_get_any_asn1_element ber_ok c =
     (case and_then parse_asn1_tag (\<lambda>tag. and_then CBS_get_u8 (\<lambda>b. cbs_return (tag, b))) c of
        (None, _) \<Rightarrow> (None, c)
      | (Some (tag, length_byte), header) \<Rightarrow>
          let header_len = CBS_len c - CBS_len header in
          if length_byte AND 0x80 = 0 then
            and_then (CBS_get_bytes (ucast length_byte + header_len))
              (\<lambda>out. cbs_return (out, tag, header_len)) c
          else
            let num_bytes = ucast (length_byte AND 0x7f) in
            if ber_ok \<and> tag AND CBS_ASN1_CONSTRUCTED \<noteq> 0 \<and> num_bytes = 0 then
              and_then (CBS_get_bytes header_len) (\<lambda>out. cbs_return (out, tag, header_len)) c
            else if num_bytes = 0 \<or> 4 < num_bytes then (None, c)
            else
              (case cbs_get_u num_bytes header of
                 (None, _) \<Rightarrow> (None, c)
               | (Some len, _) \<Rightarrow>
                   if len < 128 then (None, c)
                   else if drop_bit (unat ((num_bytes - 1) * 8)) len = 0 then (None, c)
                   else if len + header_len + num_bytes < len then (None, c)
                   else
                     and_then (CBS_get_bytes (len + (header_len + num_bytes)))
                       (\<lambda>out. cbs_return (out, tag, header_len + num_bytes)) c))"

definition CBS_get_any_asn1_element :: "(cbs \<times> u32 \<times> size_t) cbs_op" where
  "CBS_get_any_asn1_element = cbs_get_any_asn1_element False"

definition CBS_get_any_ber_asn1_element :: "(cbs \<times> u32 \<times> size_t) cbs_op" where
  "CBS_get_any_ber_asn1_element = cbs_get_any_asn1_element True"

text \<open>\<open>CBS_skip(out, header_len)\<close> on the element just read.\<close>

definition CBS_get_any_asn1 :: "(cbs \<times> u32) cbs_op" where
  "CBS_get_any_asn1 =
     and_then CBS_get_any_asn1_element (\<lambda>(out, tag, header_len).
       case CBS_skip header_len out of
         (None, _) \<Rightarrow> cbs_fail
       | (Some _, out') \<Rightarrow> cbs_return (out', tag))"

definition cbs_get_asn1 :: "u32 \<Rightarrow> bool \<Rightarrow> cbs cbs_op" where
  "cbs_get_asn1 tag_value skip_header =
     and_then CBS_get_any_asn1_element (\<lambda>(out, tag, header_len).
       if tag \<noteq> tag_value then cbs_fail
       else if skip_header then
         (case CBS_skip header_len out of
            (None, _) \<Rightarrow> cbs_fail
          | (Some _, out') \<Rightarrow> cbs_return out')
       else cbs_return out)"

definition CBS_get_asn1 :: "u32 \<Rightarrow> cbs cbs_op" where
  "CBS_get_asn1 tag_value = cbs_get_asn1 tag_value True"

definition CBS_get_asn1_element :: "u32 \<Rightarrow> cbs cbs_op" where
  "CBS_get_asn1_element tag_value = cbs_get_asn1 tag_value False"

definition CBS_peek_asn1_tag :: "cbs \<Rightarrow> u32 \<Rightarrow> bool" where
  "CBS_peek_asn1_tag c tag_value =
     (if CBS_len c < 1 then False
      else
        (case parse_asn1_tag c of
           (None, _) \<Rightarrow> False
         | (Some actual_tag, _) \<Rightarrow> tag_value = actual_tag))"

section \<open>ASN.1 values\<close>

fun asn1_uint64_loop :: "u64 \<Rightarrow> bytes \<Rightarrow> u64 option" where
  "asn1_uint64_loop v [] = Some v"
| "asn1_uint64_loop v (b # bs) =
     (if drop_bit 56 v \<noteq> 0 then None else asn1_uint64_loop (push_bit 8 v OR ucast b) bs)"

definition CBS_get_asn1_uint64 :: "u64 cbs_op" where
  "CBS_get_asn1_uint64 =
     and_then (CBS_get_asn1 CBS_ASN1_INTEGER) (\<lambda>bytes.
       let data = CBS_data bytes; len = CBS_len bytes in
       if len = 0 then cbs_fail
       else if data ! 0 AND 0x80 \<noteq> 0 then cbs_fail
       else if data ! 0 = 0 \<and> 1 < len \<and> data ! 1 AND 0x80 = 0 then cbs_fail
       else
         (case asn1_uint64_loop 0 (take (unat len) data) of
            None \<Rightarrow> cbs_fail
          | Some v \<Rightarrow> cbs_return v))"

text \<open>
  The union of an \<open>int64_t\<close> and its eight bytes, on the little-endian targets: the bytes of the
  value are reversed into the front of the sign extension.
\<close>

definition CBS_get_asn1_int64 :: "int cbs_op" where
  "CBS_get_asn1_int64 =
     and_then (CBS_get_asn1 CBS_ASN1_INTEGER) (\<lambda>bytes.
       let data = CBS_data bytes; len = CBS_len bytes in
       if len = 0 \<or> 8 < len then cbs_fail
       else if 1 < len \<and> data ! 0 = 0 \<and> data ! 1 AND 0x80 = 0 then cbs_fail
       else if 1 < len \<and> data ! 0 = 0xff \<and> data ! 1 AND 0x80 \<noteq> 0 then cbs_fail
       else
         let fill = (if data ! 0 AND 0x80 \<noteq> 0 then 0xff else 0);
             u = rev (take (unat len) data) @ replicate (8 - unat len) fill
         in cbs_return (sint (be_read (rev u))))"

definition CBS_get_asn1_bool :: "int cbs_op" where
  "CBS_get_asn1_bool =
     and_then (CBS_get_asn1 CBS_ASN1_BOOLEAN) (\<lambda>bytes.
       if CBS_len bytes \<noteq> 1 then cbs_fail
       else
         let v = CBS_data bytes ! 0 in
         if v \<noteq> 0 \<and> v \<noteq> 0xff then cbs_fail else cbs_return (if v \<noteq> 0 then 1 else 0))"

text \<open>\<open>*out_present\<close> and \<open>out\<close>: the element's contents when it is present.\<close>

definition CBS_get_optional_asn1 :: "u32 \<Rightarrow> cbs option cbs_op" where
  "CBS_get_optional_asn1 tag c =
     (if CBS_peek_asn1_tag c tag then
        and_then (CBS_get_asn1 tag) (\<lambda>out. cbs_return (Some out)) c
      else (Some None, c))"

definition CBS_get_optional_asn1_octet_string :: "u32 \<Rightarrow> (cbs \<times> bool) cbs_op" where
  "CBS_get_optional_asn1_octet_string tag =
     and_then (CBS_get_optional_asn1 tag) (\<lambda>present.
       case present of
         None \<Rightarrow> cbs_return (CBS_init [] 0, False)
       | Some child \<Rightarrow>
           (case CBS_get_asn1 CBS_ASN1_OCTETSTRING child of
              (None, _) \<Rightarrow> cbs_fail
            | (Some out, child') \<Rightarrow>
                if CBS_len child' \<noteq> 0 then cbs_fail else cbs_return (out, True)))"

definition CBS_get_optional_asn1_uint64 :: "u32 \<Rightarrow> u64 \<Rightarrow> u64 cbs_op" where
  "CBS_get_optional_asn1_uint64 tag default_value =
     and_then (CBS_get_optional_asn1 tag) (\<lambda>present.
       case present of
         None \<Rightarrow> cbs_return default_value
       | Some child \<Rightarrow>
           (case CBS_get_asn1_uint64 child of
              (None, _) \<Rightarrow> cbs_fail
            | (Some v, child') \<Rightarrow> if CBS_len child' \<noteq> 0 then cbs_fail else cbs_return v))"

definition CBS_get_optional_asn1_bool :: "u32 \<Rightarrow> int \<Rightarrow> int cbs_op" where
  "CBS_get_optional_asn1_bool tag default_value =
     and_then (CBS_get_optional_asn1 tag) (\<lambda>present.
       case present of
         None \<Rightarrow> cbs_return default_value
       | Some child \<Rightarrow>
           (case CBS_get_asn1 CBS_ASN1_BOOLEAN child of
              (None, _) \<Rightarrow> cbs_fail
            | (Some child2, child') \<Rightarrow>
                if CBS_len child2 \<noteq> 1 \<or> CBS_len child' \<noteq> 0 then cbs_fail
                else if CBS_data child2 ! 0 = 0 then cbs_return 0
                else if CBS_data child2 ! 0 = 0xff then cbs_return 1
                else cbs_fail))"

definition CBS_is_valid_asn1_bitstring :: "cbs \<Rightarrow> bool" where
  "CBS_is_valid_asn1_bitstring c =
     (case CBS_get_u8 c of
        (None, _) \<Rightarrow> False
      | (Some num_unused_bits, rest) \<Rightarrow>
          if 7 < num_unused_bits then False
          else if num_unused_bits = 0 then True
          else
            (case CBS_get_last_u8 rest of
               (None, _) \<Rightarrow> False
             | (Some b, _) \<Rightarrow>
                 (ucast b :: u32) AND (push_bit (unat num_unused_bits) 1 - 1) = 0))"

definition CBS_asn1_bitstring_has_bit :: "cbs \<Rightarrow> u32 \<Rightarrow> bool" where
  "CBS_asn1_bitstring_has_bit c n =
     (if \<not> CBS_is_valid_asn1_bitstring c then False
      else
        let byte_num = drop_bit 3 n + 1; bit_num = 7 - (n AND 7) in
        ucast byte_num < CBS_len c \<and>
        (ucast (CBS_data c ! unat byte_num) :: u32) AND push_bit (unat bit_num) 1 \<noteq> 0)"

section \<open>The contract of a parser\<close>

text \<open>A valid \<open>CBS\<close> stays inside its allocation; \<open>cbs_bytes\<close> is what it lets a reader see.\<close>

definition valid :: "cbs \<Rightarrow> bool" where
  "valid c \<longleftrightarrow> unat (cbs_len c) \<le> length (cbs_data c)"

definition cbs_bytes :: "cbs \<Rightarrow> bytes" where
  "cbs_bytes c = take (unat (cbs_len c)) (cbs_data c)"

text \<open>\<open>c'\<close> designates a part of what \<open>c\<close> designates.\<close>

definition window :: "cbs \<Rightarrow> cbs \<Rightarrow> bool" where
  "window c' c \<longleftrightarrow>
     (\<exists>k. cbs_data c' = drop k (cbs_data c) \<and> k + unat (cbs_len c') \<le> unat (cbs_len c))"

lemma window_refl [simp]: "window c c"
  unfolding window_def by (rule exI [of _ 0]) simp

lemma window_trans: "window a b \<Longrightarrow> window b c \<Longrightarrow> window a c"
  unfolding window_def
proof clarify
  fix k l
  assume "cbs_data a = drop k (cbs_data b)" "k + unat (cbs_len a) \<le> unat (cbs_len b)"
    and "cbs_data b = drop l (cbs_data c)" "l + unat (cbs_len b) \<le> unat (cbs_len c)"
  then show "\<exists>m. cbs_data a = drop m (cbs_data c) \<and> m + unat (cbs_len a) \<le> unat (cbs_len c)"
    by (intro exI [of _ "k + l"]) simp
qed

lemma window_valid: "window a c \<Longrightarrow> valid c \<Longrightarrow> valid a"
  by (auto simp: window_def valid_def)

lemma length_cbs_bytes: "valid c \<Longrightarrow> length (cbs_bytes c) = unat (cbs_len c)"
  by (simp add: valid_def cbs_bytes_def)

lemma length_cbs_bytes_64: "length (cbs_bytes c) < 2 ^ 64"
proof -
  have "length (cbs_bytes c) \<le> unat (cbs_len c)" by (simp add: cbs_bytes_def)
  also have "\<dots> < 2 ^ 64" using unsigned_less [of "cbs_len c"] by simp
  finally show ?thesis .
qed

lemma nth_cbs_data: "i < length (cbs_bytes c) \<Longrightarrow> cbs_data c ! i = cbs_bytes c ! i"
  by (simp add: cbs_bytes_def)

lemma valid_init: "length p < 2 ^ 64 \<Longrightarrow> valid (CBS_init p (of_nat (length p)))"
  by (simp add: valid_def CBS_init_def unsigned_of_nat take_bit_nat_eq_self)

lemma cbs_bytes_init: "length p < 2 ^ 64 \<Longrightarrow> cbs_bytes (CBS_init p (of_nat (length p))) = p"
  by (simp add: cbs_bytes_def CBS_init_def unsigned_of_nat take_bit_nat_eq_self)

text \<open>
  \<open>refines_at out m p c\<close>: run on \<open>c\<close>, the operation \<open>m\<close> does on \<open>c\<close>'s bytes what the abstract
  parser \<open>p\<close> does; \<open>out\<close> relates what it stores to what the parser returns.
\<close>

definition refines_at ::
    "(cbs \<Rightarrow> 'a \<Rightarrow> 'b \<Rightarrow> bool) \<Rightarrow> 'a cbs_op \<Rightarrow> 'b decoder \<Rightarrow> cbs \<Rightarrow> bool" where
  "refines_at out m p c \<longleftrightarrow>
     window (snd (m c)) c \<and>
     (case fst (m c) of
        None \<Rightarrow> p (cbs_bytes c) = None
      | Some x \<Rightarrow> (\<exists>y. out c x y \<and> p (cbs_bytes c) = Some (y, cbs_bytes (snd (m c)))))"

definition p_then :: "'a decoder \<Rightarrow> ('a \<Rightarrow> 'b decoder) \<Rightarrow> 'b decoder" where
  "p_then p f bs = (case p bs of None \<Rightarrow> None | Some (x, r) \<Rightarrow> f x r)"

definition p_return :: "'a \<Rightarrow> 'a decoder" where
  "p_return x bs = Some (x, bs)"

definition p_fail :: "'a decoder" where
  "p_fail bs = None"

text \<open>The relations between results: the value of a word, a sub-window, equality.\<close>

definition out_nat :: "cbs \<Rightarrow> 'a::len word \<Rightarrow> nat \<Rightarrow> bool" where
  "out_nat c x y \<longleftrightarrow> unat x = y"

definition out_eq :: "cbs \<Rightarrow> 'a \<Rightarrow> 'a \<Rightarrow> bool" where
  "out_eq c x y \<longleftrightarrow> x = y"

definition out_cbs :: "cbs \<Rightarrow> cbs \<Rightarrow> bytes \<Rightarrow> bool" where
  "out_cbs c x y \<longleftrightarrow> window x c \<and> cbs_bytes x = y"

locale cbs_parser =
  fixes get :: "'a cbs_op"
    and spec :: "'b decoder"
    and out :: "cbs \<Rightarrow> 'a \<Rightarrow> 'b \<Rightarrow> bool"
  assumes refines: "valid c \<Longrightarrow> refines_at out get spec c"
    and out_mono: "window c' c \<Longrightarrow> out c' x y \<Longrightarrow> out c x y"
begin

lemma window_after: "valid c \<Longrightarrow> window (snd (get c)) c"
  using refines [of c] by (simp add: refines_at_def)

lemma valid_after: "valid c \<Longrightarrow> valid (snd (get c))"
  using window_after window_valid by blast

lemma get_Some:
  assumes "valid c" and "get c = (Some x, c')"
  obtains y where "out c x y" and "spec (cbs_bytes c) = Some (y, cbs_bytes c')"
  using refines [OF assms(1)] assms(2) by (auto simp: refines_at_def)

lemma get_None: "valid c \<Longrightarrow> get c = (None, c') \<Longrightarrow> spec (cbs_bytes c) = None"
  using refines [of c] by (simp add: refines_at_def)

lemma spec_Some:
  assumes "valid c" and "spec (cbs_bytes c) = Some (y, rest)"
  obtains x c' where "get c = (Some x, c')" and "out c x y" and "cbs_bytes c' = rest"
    and "valid c'"
proof (cases "get c")
  case (Pair r c')
  then show ?thesis
    using refines [OF assms(1)] assms(2) that valid_after [OF assms(1)]
    by (cases r) (auto simp: refines_at_def)
qed

lemma accepts_iff: "valid c \<Longrightarrow> fst (get c) \<noteq> None \<longleftrightarrow> spec (cbs_bytes c) \<noteq> None"
  using refines [of c] by (auto simp: refines_at_def split: option.splits)

text \<open>What is outside the window has no influence.\<close>

lemma no_overread:
  assumes "valid c" and "valid d" and "cbs_bytes c = cbs_bytes d"
    and "get c = (Some x, c')"
  shows "\<exists>x' d' y. get d = (Some x', d') \<and> out c x y \<and> out d x' y \<and> cbs_bytes c' = cbs_bytes d'"
proof -
  obtain y where y: "out c x y" "spec (cbs_bytes c) = Some (y, cbs_bytes c')"
    using get_Some [OF assms(1,4)] .
  then obtain x' d' where "get d = (Some x', d')" "out d x' y" "cbs_bytes d' = cbs_bytes c'"
    using spec_Some [OF assms(2)] assms(3) by metis
  with y show ?thesis by fastforce
qed

end

text \<open>A parser whose abstract counterpart is the decoder of a canonical codec.\<close>

locale cbs_codec = cbs_parser get spec out + canonical_codec enc spec ok
  for get :: "'a cbs_op" and spec :: "'b decoder" and out and enc :: "'b \<Rightarrow> bytes" and ok
begin

lemma get_sound:
  assumes "valid c" and "get c = (Some x, c')"
  shows "\<exists>y. ok y \<and> out c x y \<and> cbs_bytes c = enc y @ cbs_bytes c'"
  using get_Some [OF assms] dec_canonical by metis

lemma get_complete:
  assumes "valid c" and "ok y" and "cbs_bytes c = enc y @ rest"
  shows "\<exists>x c'. get c = (Some x, c') \<and> out c x y \<and> cbs_bytes c' = rest \<and> valid c'"
  using spec_Some [OF assms(1)] dec_enc [OF assms(2)] assms(3) by metis

end

section \<open>The operations meet the contract\<close>

lemma refines_and_then:
  assumes "valid c" and m: "refines_at out1 m p c"
    and f: "\<And>x y c'. m c = (Some x, c') \<Longrightarrow> window c' c \<Longrightarrow> valid c' \<Longrightarrow> out1 c x y \<Longrightarrow>
      refines_at out2 (f x) (q y) c'"
    and mono: "\<And>c c' x y. window c' c \<Longrightarrow> out2 c' x y \<Longrightarrow> out2 c x y"
  shows "refines_at out2 (and_then m f) (p_then p q) c"
proof (cases "m c")
  case (Pair r c')
  show ?thesis
  proof (cases r)
    case None
    with Pair m show ?thesis
      by (simp add: refines_at_def and_then_def p_then_def)
  next
    case (Some x)
    with Pair m obtain y where y: "out1 c x y" "p (cbs_bytes c) = Some (y, cbs_bytes c')"
      and w: "window c' c"
      by (auto simp: refines_at_def)
    have "refines_at out2 (f x) (q y) c'"
      using f Pair Some w y(1) window_valid [OF w assms(1)] by blast
    then show ?thesis
      using Pair Some y(2) w
      by (auto simp: refines_at_def and_then_def p_then_def intro: window_trans mono
          split: option.splits)
  qed
qed

lemma refines_return: "out c x y \<Longrightarrow> refines_at out (cbs_return x) (p_return y) c"
  by (auto simp: refines_at_def cbs_return_def p_return_def)

lemma refines_fail: "refines_at out cbs_fail p_fail c"
  by (simp add: refines_at_def cbs_fail_def p_fail_def)

lemma refines_out:
  "refines_at out m p c \<Longrightarrow> (\<And>x y. out c x y \<Longrightarrow> out' c x y) \<Longrightarrow> refines_at out' m p c"
  by (auto simp: refines_at_def split: option.splits)

lemma out_nat_mono: "out_nat c' x y \<Longrightarrow> out_nat c x y"
  by (simp add: out_nat_def)

lemma out_eq_mono: "out_eq c' x y \<Longrightarrow> out_eq c x y"
  by (simp add: out_eq_def)

lemma out_cbs_mono: "window c' c \<Longrightarrow> out_cbs c' x y \<Longrightarrow> out_cbs c x y"
  by (auto simp: out_cbs_def intro: window_trans)

lemmas out_monos = out_nat_mono out_eq_mono out_cbs_mono

definition take_dec :: "nat \<Rightarrow> bytes decoder" where
  "take_dec n bs = (if length bs < n then None else Some (take n bs, drop n bs))"

lemma cbs_get_cases:
  assumes "valid c"
  obtains (short) "length (cbs_bytes c) < unat n" "cbs_get n c = (None, c)"
  | (ok) c' where "unat n \<le> length (cbs_bytes c)" "cbs_get n c = (Some (cbs_data c), c')"
    "window c' c" "cbs_bytes c' = drop (unat n) (cbs_bytes c)"
    "take (unat n) (cbs_data c) = take (unat n) (cbs_bytes c)"
proof (cases "cbs_len c < n")
  case True
  then show ?thesis
    using short assms by (simp add: cbs_get_def length_cbs_bytes word_less_nat_alt)
next
  case False
  let ?c = "c\<lparr>cbs_data := drop (unat n) (cbs_data c), cbs_len := cbs_len c - n\<rparr>"
  have le: "unat n \<le> unat (cbs_len c)"
    using False by (simp add: word_less_nat_alt)
  have sub: "unat (cbs_len c - n) = unat (cbs_len c) - unat n"
    using le by (simp add: unat_sub_if_size)
  show ?thesis
  proof (rule ok)
    show "unat n \<le> length (cbs_bytes c)"
      using le assms by (simp add: length_cbs_bytes)
    show "cbs_get n c = (Some (cbs_data c), ?c)"
      using False by (simp add: cbs_get_def)
    show "window ?c c"
      unfolding window_def using le sub by (intro exI [of _ "unat n"]) simp
    show "cbs_bytes ?c = drop (unat n) (cbs_bytes c)"
      using le sub by (simp add: cbs_bytes_def drop_take)
    show "take (unat n) (cbs_data c) = take (unat n) (cbs_bytes c)"
      using le by (simp add: cbs_bytes_def min_absorb1)
  qed
qed

text \<open>\<open>cbs_get\<close> returns a pointer: what matters is the memory behind it up to \<open>n\<close>.\<close>

definition out_ptr :: "nat \<Rightarrow> cbs \<Rightarrow> bytes \<Rightarrow> bytes \<Rightarrow> bool" where
  "out_ptr n c x y \<longleftrightarrow> x = cbs_data c \<and> y = take n x \<and> length y = n \<and> n \<le> unat (cbs_len c)"

lemma refines_cbs_get: "valid c \<Longrightarrow> refines_at (out_ptr (unat n)) (cbs_get n) (take_dec (unat n)) c"
  by (rule cbs_get_cases [of c n])
    (auto simp: refines_at_def take_dec_def out_ptr_def cbs_bytes_def)

lemma p_then_return: "p_then p p_return = p"
  by (rule ext) (simp add: p_then_def p_return_def split: option.splits prod.splits)

lemma be_dec_then: "be_dec n = p_then (take_dec n) (\<lambda>b. p_return (be_nat b))"
  by (rule ext) (simp add: be_dec_def p_then_def take_dec_def p_return_def)

lemma refines_cbs_get_u:
  assumes "valid c" and "unat n \<le> 8"
  shows "refines_at out_nat (cbs_get_u n) (be_dec (unat n)) c"
  unfolding cbs_get_u_def be_dec_then
  by (rule refines_and_then [OF assms(1) refines_cbs_get [OF assms(1)]])
    (use assms(2) in \<open>auto intro!: refines_return simp: out_ptr_def out_nat_def unat_be_read\<close>)

lemma refines_cbs_get_uint:
  assumes "valid c" and "unat n \<le> 8" and "8 * unat n \<le> LENGTH('a)"
  shows "refines_at out_nat (and_then (cbs_get_u n) (\<lambda>v. cbs_return (ucast v :: 'a::len word)))
    (be_dec (unat n)) c"
proof -
  have "refines_at out_nat (and_then (cbs_get_u n) (\<lambda>v. cbs_return (ucast v :: 'a word)))
    (p_then (be_dec (unat n)) p_return) c"
  proof (rule refines_and_then [where ?out1.0 = "\<lambda>c v y. out_nat c v y \<and> y < 256 ^ unat n"])
    show "refines_at (\<lambda>c v y. out_nat c v y \<and> y < 256 ^ unat n) (cbs_get_u n) (be_dec (unat n)) c"
      using refines_cbs_get_u [OF assms(1,2)] be_codec.dec_canonical [of "unat n" "cbs_bytes c"]
      by (auto simp: refines_at_def split: option.splits)
  next
    fix v :: u64 and y c'
    assume v: "out_nat c v y \<and> y < 256 ^ unat n"
    have "(256::nat) ^ unat n = 2 ^ (8 * unat n)"
      by (simp add: power_mult)
    also have "\<dots> \<le> 2 ^ LENGTH('a)"
      using assms(3) by (intro power_increasing) auto
    finally have "unat v < 2 ^ LENGTH('a)"
      using v by (simp add: out_nat_def)
    then have "unat (ucast v :: 'a word) = unat v"
      by (simp add: unsigned_ucast_eq take_bit_nat_eq_self)
    then show "refines_at out_nat (cbs_return (ucast v :: 'a word)) (p_return y) c'"
      using v by (intro refines_return) (simp add: out_nat_def)
  qed (use assms(1) out_nat_mono in auto)
  then show ?thesis by (simp only: p_then_return)
qed

lemma be_nat_1: "be_nat [b] = unat b"
  using be_nat_snoc [of "[]" b] by simp

lemma take_1: "min (length p) (Suc 0) = Suc 0 \<Longrightarrow> be_nat (take (Suc 0) p) = unat (p ! 0)"
  by (cases p) (auto simp: be_nat_1)

lemma refines_get_u8: "valid c \<Longrightarrow> refines_at out_nat CBS_get_u8 (be_dec 1) c"
  unfolding CBS_get_u8_def be_dec_then
  by (rule refines_and_then [where ?out1.0 = "out_ptr (unat 1)"])
    (use refines_cbs_get [of c 1] in \<open>auto intro!: refines_return simp: out_ptr_def out_nat_def take_1\<close>)

interpretation get_u8: cbs_codec CBS_get_u8 "be_dec 1" out_nat "be_bytes 1" "\<lambda>v. v < 256 ^ 1"
  by unfold_locales (auto intro: refines_get_u8 [unfolded One_nat_def] out_nat_mono)

interpretation get_u16: cbs_codec CBS_get_u16 "be_dec 2" out_nat "be_bytes 2" "\<lambda>v. v < 256 ^ 2"
  by unfold_locales
    (use refines_cbs_get_uint [of _ 2, where 'a = 16] in
      \<open>auto simp: CBS_get_u16_def intro: out_nat_mono\<close>)

interpretation get_u24: cbs_codec CBS_get_u24 "be_dec 3" out_nat "be_bytes 3" "\<lambda>v. v < 256 ^ 3"
  by unfold_locales
    (use refines_cbs_get_uint [of _ 3, where 'a = 32] in
      \<open>auto simp: CBS_get_u24_def intro: out_nat_mono\<close>)

interpretation get_u32: cbs_codec CBS_get_u32 "be_dec 4" out_nat "be_bytes 4" "\<lambda>v. v < 256 ^ 4"
  by unfold_locales
    (use refines_cbs_get_uint [of _ 4, where 'a = 32] in
      \<open>auto simp: CBS_get_u32_def intro: out_nat_mono\<close>)

interpretation get_u64: cbs_codec CBS_get_u64 "be_dec 8" out_nat "be_bytes 8" "\<lambda>v. v < 256 ^ 8"
  by unfold_locales
    (use refines_cbs_get_u [of _ 8] in \<open>auto simp: CBS_get_u64_def intro: out_nat_mono\<close>)

text \<open>The little-endian readers swap what the big-endian ones read.\<close>

definition le_dec :: "nat \<Rightarrow> nat decoder" where
  "le_dec n bs = (if length bs < n then None else Some (be_nat (rev (take n bs)), drop n bs))"

definition le_bytes :: "nat \<Rightarrow> nat \<Rightarrow> bytes" where
  "le_bytes n v = rev (be_bytes n v)"

interpretation le_codec: canonical_codec "le_bytes n" "le_dec n" "\<lambda>v. v < 256 ^ n" for n
proof unfold_locales
  fix v :: nat and rest :: bytes
  assume "v < 256 ^ n"
  then show "le_dec n (le_bytes n v @ rest) = Some (v, rest)"
    by (simp add: le_dec_def le_bytes_def)
next
  fix bs v and rest :: bytes
  assume "le_dec n bs = Some (v, rest)"
  then have v: "v = be_nat (rev (take n bs))" and rest: "rest = drop n bs" and n: "n \<le> length bs"
    by (auto simp: le_dec_def split: if_splits)
  have len: "length (rev (take n bs)) = n" using n by simp
  have "be_bytes n v = rev (take n bs)"
    using be_bytes_be_nat [of "rev (take n bs)"] unfolding len v .
  moreover have "v < 256 ^ n"
    using be_nat_bound [of "rev (take n bs)"] unfolding len v .
  ultimately show "v < 256 ^ n \<and> bs = le_bytes n v @ rest"
    by (simp add: rest le_bytes_def)
qed

lemma bswap2_read:
  "CRYPTO_bswap2 (ucast (be_step (be_step 0 a) b)) = ucast (be_step (be_step 0 b) a)"
proof (rule bit_word_eqI)
  fix n
  assume "n < LENGTH(16)"
  then have "n \<in> set [0..<16]" by simp
  then show "bit (CRYPTO_bswap2 (ucast (be_step (be_step 0 a) b))) n \<longleftrightarrow>
      bit (ucast (be_step (be_step 0 b) a) :: u16) n"
    by (auto simp: upt_rec_numeral CRYPTO_bswap2_def be_step_def bit_simps dest: bit_imp_le_length)
qed

lemma bit_u8_high: "8 \<le> n \<Longrightarrow> \<not> bit (a :: u8) n"
  by (auto dest: bit_imp_le_length)

lemma bit_bswap4:
  assumes "n < 32"
  shows "bit (CRYPTO_bswap4 x) n \<longleftrightarrow>
    (if n < 8 then bit x (n + 24) else if n < 16 then bit x (n + 8)
     else if n < 24 then bit x (n - 8) else bit x (n - 24))"
proof -
  have "[0..<32] = [0, 1, 2, 3, 4, 5, 6, 7, 8, 9, 10, 11, 12, 13, 14, 15, 16, 17, 18, 19, 20, 21, 22, 23, 24, 25, 26, 27, 28, 29, 30, 31]"
    by code_simp
  moreover have "n \<in> set [0..<32]"
    using assms by simp
  ultimately have "n \<in> set [0, 1, 2, 3, 4, 5, 6, 7, 8, 9, 10, 11, 12, 13, 14, 15, 16, 17, 18, 19, 20, 21, 22, 23, 24, 25, 26, 27, 28, 29, 30, 31]"
    by (simp only:)
  then show ?thesis
    unfolding CRYPTO_bswap4_def Let_def bit_or_iff bit_and_iff bit_drop_bit_eq bit_push_bit_iff o_def
    by (simp only: list.set insert_iff empty_iff) (elim disjE; auto dest: bit_imp_le_length)
qed

lemma bit_be_read_4:
  "bit (be_step (be_step (be_step (be_step 0 a) b) c) d) n \<longleftrightarrow>
     (if n < 8 then bit d n else if n < 16 then bit c (n - 8)
      else if n < 24 then bit b (n - 16) else n < 32 \<and> bit a (n - 24))"
proof -
  have "8 \<le> n \<longrightarrow> \<not> bit d n" "16 \<le> n \<longrightarrow> \<not> bit c (n - 8)" "24 \<le> n \<longrightarrow> \<not> bit b (n - 16)"
    "32 \<le> n \<longrightarrow> \<not> bit a (n - 24)"
    by (auto simp: bit_u8_high)
  then show ?thesis
    by (auto simp: be_step_def bit_or_iff bit_push_bit_iff bit_ucast_iff not_less)
qed

lemma bswap4_read:
  "CRYPTO_bswap4 (ucast (be_step (be_step (be_step (be_step 0 a) b) c) d)) =
   ucast (be_step (be_step (be_step (be_step 0 d) c) b) a)"
  by (rule bit_word_eqI) (auto simp: bit_bswap4 bit_ucast_iff bit_be_read_4)

lemma be_read_append: "be_read (xs @ ys) = push_bit (8 * length ys) (be_read xs) OR be_read ys"
proof (induction ys rule: rev_induct)
  case Nil
  show ?case by (simp add: be_read_def)
next
  case (snoc y ys)
  show ?case
    unfolding append_assoc [symmetric] be_read_snoc snoc.IH
    by (rule bit_word_eqI) (auto simp: be_step_def bit_simps ac_simps)
qed

lemma list_4: "length xs = 4 \<Longrightarrow> \<exists>a b c d. xs = [a, b, c, d]"
  by (auto simp: numeral_eq_Suc length_Suc_conv)

lemma bswap4_be_read:
  "length xs = 4 \<Longrightarrow> CRYPTO_bswap4 (ucast (be_read xs)) = ucast (be_read (rev xs))"
  using list_4 [of xs] by (auto simp: be_read_def bswap4_read)

lemma ucast_be_read_4:
  assumes "length xs = 4"
  shows "ucast (ucast (be_read xs) :: u32) = be_read xs"
proof -
  have "be_nat xs < 2 ^ 32"
    using be_nat_bound [of xs] assms by simp
  then show ?thesis
    using assms
    by (simp add: word_unat_eq_iff unat_be_read unsigned_ucast_eq unsigned_take_bit_eq
        take_bit_nat_eq_self)
qed

lemma bswap8_be_read:
  assumes "length xs = 4" "length ys = 4"
  shows "CRYPTO_bswap8 (be_read (xs @ ys)) = be_read (rev ys @ rev xs)"
proof -
  have hi: "(ucast (drop_bit 32 (be_read (xs @ ys))) :: u32) = ucast (be_read xs)"
    and lo: "(ucast (be_read (xs @ ys)) :: u32) = ucast (be_read ys)"
  proof -
    have "\<not> bit (be_read ys) (32 + n)" for n
      by (subst ucast_be_read_4 [OF assms(2), symmetric]) (simp add: bit_simps)
    then show "(ucast (drop_bit 32 (be_read (xs @ ys))) :: u32) = ucast (be_read xs)"
      by (intro bit_word_eqI) (simp add: be_read_append assms bit_simps)
    show "(ucast (be_read (xs @ ys)) :: u32) = ucast (be_read ys)"
      by (rule bit_word_eqI) (simp add: be_read_append assms bit_simps)
  qed
  have "(ucast (ucast (be_read (rev xs)) :: u32) :: u64) = be_read (rev xs)"
    "(ucast (ucast (be_read (rev ys)) :: u32) :: u64) = be_read (rev ys)"
    using assms by (simp_all add: ucast_be_read_4)
  then show ?thesis
    using assms
    unfolding CRYPTO_bswap8_def hi lo by (simp add: bswap4_be_read be_read_append ac_simps)
qed

lemma and_then_assoc: "and_then (and_then m f) g = and_then m (\<lambda>x. and_then (f x) g)"
  by (rule ext) (simp add: and_then_def split: option.splits prod.splits)

lemma and_then_return: "and_then (cbs_return x) f = f x"
  by (rule ext) (simp add: and_then_def cbs_return_def)

lemma le_dec_then: "le_dec n = p_then (take_dec n) (\<lambda>b. p_return (be_nat (rev b)))"
  by (rule ext) (simp add: le_dec_def p_then_def take_dec_def p_return_def)

lemma list_2: "length xs = 2 \<Longrightarrow> \<exists>a b. xs = [a, b]"
  by (auto simp: numeral_eq_Suc length_Suc_conv)

text \<open>A swap that turns the big-endian word of \<open>n\<close> bytes into that of the reversed bytes.\<close>

lemma refines_cbs_get_le:
  assumes "valid c" and "unat n \<le> 8" and "8 * unat n = LENGTH('a)"
    and swap: "\<And>b. length b = unat n \<Longrightarrow> swap (ucast (be_read b)) = (ucast (be_read (rev b)) :: 'a::len word)"
  shows "refines_at out_nat (and_then (cbs_get_u n) (\<lambda>v. cbs_return (swap (ucast v))))
    (le_dec (unat n)) c"
proof -
  have word: "unat (swap (ucast (be_read b))) = be_nat (rev b)" if "length b = unat n" for b
  proof -
    have "be_nat (rev b) < 2 ^ LENGTH('a)"
      using be_nat_bound [of "rev b"] that by (simp add: power_mult flip: assms(3))
    then show ?thesis
      using assms(2) that
      by (simp add: swap unsigned_ucast_eq take_bit_nat_eq_self unat_be_read)
  qed
  have "refines_at out_nat (and_then (cbs_get n) (\<lambda>p. cbs_return (swap (ucast (be_read (take (unat n) p))))))
    (le_dec (unat n)) c"
    unfolding le_dec_then
    by (rule refines_and_then [OF assms(1) refines_cbs_get [OF assms(1)]])
      (auto intro!: refines_return simp: out_ptr_def out_nat_def word)
  moreover have "and_then (cbs_get n) (\<lambda>p. cbs_return (swap (ucast (be_read (take (unat n) p))))) =
      and_then (cbs_get_u n) (\<lambda>v. cbs_return (swap (ucast v)))"
    by (simp add: cbs_get_u_def and_then_assoc and_then_return)
  ultimately show ?thesis by simp
qed

lemma bswap2_be_read:
  "length b = 2 \<Longrightarrow> CRYPTO_bswap2 (ucast (be_read b)) = ucast (be_read (rev b))"
  using list_2 [of b] by (auto simp: be_read_def bswap2_read)

lemma bswap8_whole:
  "length b = 8 \<Longrightarrow> CRYPTO_bswap8 (be_read b) = be_read (rev b)"
  using bswap8_be_read [of "take 4 b" "drop 4 b"] by (simp flip: rev_append)

interpretation get_u16le: cbs_codec CBS_get_u16le "le_dec 2" out_nat "le_bytes 2" "\<lambda>v. v < 256 ^ 2"
  by unfold_locales
    (use refines_cbs_get_le [of _ 2 CRYPTO_bswap2] in
      \<open>auto simp: CBS_get_u16le_def CBS_get_u16_def and_then_assoc and_then_return bswap2_be_read
        intro: out_nat_mono\<close>)

interpretation get_u32le: cbs_codec CBS_get_u32le "le_dec 4" out_nat "le_bytes 4" "\<lambda>v. v < 256 ^ 4"
  by unfold_locales
    (use refines_cbs_get_le [of _ 4 CRYPTO_bswap4] in
      \<open>auto simp: CBS_get_u32le_def CBS_get_u32_def and_then_assoc and_then_return bswap4_be_read
        intro: out_nat_mono\<close>)

interpretation get_u64le: cbs_codec CBS_get_u64le "le_dec 8" out_nat "le_bytes 8" "\<lambda>v. v < 256 ^ 8"
  by unfold_locales
    (use refines_cbs_get_le [of _ 8 CRYPTO_bswap8] in
      \<open>auto simp: CBS_get_u64le_def bswap8_whole intro: out_nat_mono\<close>)

lemma refines_get_bytes:
  "valid c \<Longrightarrow> refines_at out_cbs (CBS_get_bytes n) (take_dec (unat n)) c"
proof (rule cbs_get_cases [of c n], assumption)
  assume "valid c" and "length (cbs_bytes c) < unat n" and "cbs_get n c = (None, c)"
  then show ?thesis
    by (simp add: refines_at_def CBS_get_bytes_def and_then_def take_dec_def)
next
  fix c'
  assume v: "valid c" and le: "unat n \<le> length (cbs_bytes c)"
    and get: "cbs_get n c = (Some (cbs_data c), c')" and w: "window c' c"
    and rest: "cbs_bytes c' = drop (unat n) (cbs_bytes c)"
    and take: "take (unat n) (cbs_data c) = take (unat n) (cbs_bytes c)"
  have "window (CBS_init (cbs_data c) n) c"
    unfolding window_def using le v
    by (intro exI [of _ 0]) (simp add: CBS_init_def length_cbs_bytes)
  with le get w rest take show ?thesis
    by (simp add: refines_at_def CBS_get_bytes_def and_then_def take_dec_def cbs_return_def out_cbs_def)
      (simp add: cbs_bytes_def CBS_init_def)
qed

text \<open>The little codec of a string of known length.\<close>

interpretation take_codec: canonical_codec "\<lambda>b. b" "take_dec n" "\<lambda>b. length b = n" for n
  by unfold_locales (auto simp: take_dec_def split: if_splits)

interpretation get_bytes:
  cbs_codec "CBS_get_bytes n" "take_dec (unat n)" out_cbs "\<lambda>b. b" "\<lambda>b. length b = unat n" for n
  by unfold_locales (auto intro: refines_get_bytes out_cbs_mono)

lemma take_dec_then: "p_then (take_dec n) p_return = take_dec n"
  by (rule p_then_return)

interpretation copy_bytes:
  cbs_codec "CBS_copy_bytes n" "take_dec (unat n)" out_eq "\<lambda>b. b" "\<lambda>b. length b = unat n" for n
proof unfold_locales
  fix c
  assume v: "valid c"
  have "refines_at out_eq (CBS_copy_bytes n) (p_then (take_dec (unat n)) p_return) c"
    unfolding CBS_copy_bytes_def
    by (rule refines_and_then [OF v refines_cbs_get [OF v]])
      (auto intro!: refines_return simp: out_ptr_def out_eq_def)
  then show "refines_at out_eq (CBS_copy_bytes n) (take_dec (unat n)) c"
    by (simp only: take_dec_then)
qed (rule out_eq_mono)

interpretation skip: cbs_parser "CBS_skip n" "p_then (take_dec (unat n)) (\<lambda>_. p_return ())" out_eq for n
proof unfold_locales
  fix c
  assume v: "valid c"
  show "refines_at out_eq (CBS_skip n) (p_then (take_dec (unat n)) (\<lambda>_. p_return ())) c"
    unfolding CBS_skip_def
    by (rule refines_and_then [OF v refines_cbs_get [OF v]]) (auto intro!: refines_return simp: out_eq_def)
qed (rule out_eq_mono)

section \<open>Length-prefixed strings\<close>

definition lp_enc :: "nat \<Rightarrow> bytes \<Rightarrow> bytes" where
  "lp_enc k b = be_bytes k (length b) @ b"

definition lp_dec :: "nat \<Rightarrow> bytes decoder" where
  "lp_dec k = p_then (be_dec k) take_dec"

interpretation lp_codec: canonical_codec "lp_enc k" "lp_dec k" "\<lambda>b. length b < 256 ^ k" for k
proof unfold_locales
  fix b rest :: bytes
  assume "length b < 256 ^ k"
  then show "lp_dec k (lp_enc k b @ rest) = Some (b, rest)"
    by (simp add: lp_dec_def lp_enc_def p_then_def be_codec.dec_enc take_codec.dec_enc)
next
  fix bs b rest :: bytes
  assume "lp_dec k bs = Some (b, rest)"
  then obtain n r where n: "be_dec k bs = Some (n, r)" and b: "take_dec n r = Some (b, rest)"
    by (auto simp: lp_dec_def p_then_def split: option.splits)
  from be_codec.dec_canonical [OF n] take_codec.dec_canonical [OF b]
  show "length b < 256 ^ k \<and> bs = lp_enc k b @ rest"
    by (simp add: lp_enc_def)
qed

lemma refines_length_prefixed:
  assumes v: "valid c" and "unat k \<le> 8"
  shows "refines_at out_cbs (cbs_get_length_prefixed k) (lp_dec (unat k)) c"
  unfolding cbs_get_length_prefixed_def lp_dec_def
  by (rule refines_and_then [OF v refines_cbs_get_u [OF v assms(2)]])
    (auto simp: out_nat_def intro: refines_get_bytes out_cbs_mono)

interpretation u8_prefixed: cbs_codec CBS_get_u8_length_prefixed "lp_dec 1" out_cbs "lp_enc 1"
  "\<lambda>b. length b < 256 ^ 1"
  by unfold_locales
    (use refines_length_prefixed [of _ 1] in
      \<open>auto simp: CBS_get_u8_length_prefixed_def intro: out_cbs_mono\<close>)

interpretation u16_prefixed: cbs_codec CBS_get_u16_length_prefixed "lp_dec 2" out_cbs "lp_enc 2"
  "\<lambda>b. length b < 256 ^ 2"
  by unfold_locales
    (use refines_length_prefixed [of _ 2] in
      \<open>auto simp: CBS_get_u16_length_prefixed_def intro: out_cbs_mono\<close>)

interpretation u24_prefixed: cbs_codec CBS_get_u24_length_prefixed "lp_dec 3" out_cbs "lp_enc 3"
  "\<lambda>b. length b < 256 ^ 3"
  by unfold_locales
    (use refines_length_prefixed [of _ 3] in
      \<open>auto simp: CBS_get_u24_length_prefixed_def intro: out_cbs_mono\<close>)

text \<open>What is left to do after a prefix of both sides has been run.\<close>

lemma refines_after:
  assumes "refines_at out m' p' c'" and "window c' c" and "\<And>x y. out c' x y \<Longrightarrow> out c x y"
    and "m c = m' c'" and "p (cbs_bytes c) = p' (cbs_bytes c')"
  shows "refines_at out m p c"
  using assms by (auto simp: refines_at_def intro: window_trans split: option.splits)

section \<open>Base-128 integers and identifiers\<close>

lemma get_u8_cases:
  assumes "valid c"
  obtains (empty) "cbs_bytes c = []" "CBS_get_u8 c = (None, c)"
  | (byte) b c' where "CBS_get_u8 c = (Some b, c')" "cbs_bytes c = b # cbs_bytes c'"
    "window c' c" "valid c'"
proof (rule cbs_get_cases [OF assms, of 1])
  assume "length (cbs_bytes c) < unat (1 :: size_t)" "cbs_get 1 c = (None, c)"
  then show ?thesis by (intro empty) (simp_all add: CBS_get_u8_def and_then_def)
next
  fix c'
  assume le: "unat (1 :: size_t) \<le> length (cbs_bytes c)"
    and get: "cbs_get 1 c = (Some (cbs_data c), c')" and w: "window c' c"
    and rest: "cbs_bytes c' = drop (unat (1 :: size_t)) (cbs_bytes c)"
  have "cbs_bytes c = cbs_data c ! 0 # cbs_bytes c'"
    using le rest nth_cbs_data [of 0 c] by (cases "cbs_bytes c") auto
  then show ?thesis
    using get w window_valid [OF w assms]
    by (intro byte) (simp_all add: CBS_get_u8_def and_then_def cbs_return_def)
qed

lemma drop_bit_eq_0_u64: "drop_bit k (v :: u64) = 0 \<longleftrightarrow> unat v < 2 ^ k"
proof -
  have "take_bit LENGTH(64) (unat v) = unat v"
    using unat_less_64 [of v] by (simp add: take_bit_nat_eq_self)
  then have "unat (drop_bit k v) = unat v div 2 ^ k"
    unfolding unsigned_drop_bit_eq by (simp add: drop_bit_eq_div)
  moreover have "drop_bit k v = 0 \<longleftrightarrow> unat (drop_bit k v) = 0"
    by (simp only: unsigned_eq_0_iff)
  ultimately have "drop_bit k v = 0 \<longleftrightarrow> unat v < 2 ^ k"
    by (simp add: div_eq_0_iff)
  then show ?thesis .
qed

lemma base128_step:
  assumes "unat (v :: u64) < 2 ^ 57"
  shows "unat (push_bit 7 v OR ucast (b AND 0x7f :: u8)) = unat v * 128 + unat b mod 128"
proof -
  have "take_bit 7 (ucast (b AND 0x7f) :: u64) = ucast (b AND 0x7f)"
  proof -
    have "b AND 0x7f = take_bit 7 b"
      by (simp add: take_bit_eq_mask mask_numeral)
    then show ?thesis
      by (intro bit_word_eqI) (auto simp: bit_take_bit_iff bit_ucast_iff)
  qed
  then have "push_bit 7 v OR ucast (b AND 0x7f) = push_bit 7 v + ucast (b AND 0x7f)"
    by (rule or_eq_plus_push)
  also have "\<dots> = of_nat (unat v * 128 + unat b mod 128)"
    by (simp add: push_bit_eq_mult mult.commute flip: unat_and_7f)
  finally have eq: "push_bit 7 v OR ucast (b AND 0x7f) = of_nat (unat v * 128 + unat b mod 128)" .
  have "unat b mod 128 < 128" by simp
  then have "unat v * 128 + unat b mod 128 < 2 ^ 64"
    using assms by simp
  then show ?thesis
    unfolding eq by (simp only: unat_of_nat_less len64)
qed

lemma refines_base128_loop:
  "valid c \<Longrightarrow> refines_at out_nat (base128_loop v) (b128_loop (unat v)) c"
proof (induction v c rule: base128_loop.induct)
  case (1 v c)
  show ?case
  proof (rule get_u8_cases [OF "1.prems"])
    assume "cbs_bytes c = []" "CBS_get_u8 c = (None, c)"
    then show ?thesis
      by (simp add: refines_at_def base128_loop.simps)
  next
    fix b c'
    assume get: "CBS_get_u8 c = (Some b, c')" and bytes: "cbs_bytes c = b # cbs_bytes c'"
      and w: "window c' c" and v': "valid c'"
    have big: "drop_bit (64 - 7) v = 0 \<longleftrightarrow> unat v < 2 ^ 57"
      using drop_bit_eq_0_u64 [of 57 v] by simp
    have zero: "v = 0 \<longleftrightarrow> unat v = 0" "b = 0x80 \<longleftrightarrow> unat b = 128"
      by (simp_all add: word_unat_eq_iff)
    consider (reject) "2 ^ 57 \<le> unat v \<or> unat v = 0 \<and> unat b = 128"
      | (last) "unat v < 2 ^ 57" "\<not> (unat v = 0 \<and> unat b = 128)" "unat b < 128"
      | (more) "unat v < 2 ^ 57" "\<not> (unat v = 0 \<and> unat b = 128)" "128 \<le> unat b"
      by linarith
    then show ?thesis
    proof cases
      case reject
      then show ?thesis
        using get bytes w big zero
        by (auto simp: refines_at_def base128_loop.simps [of v c])
    next
      case last
      then show ?thesis
        using get bytes w big zero base128_step [OF last(1), of b]
        by (auto simp: refines_at_def base128_loop.simps [of v c] and_80 out_nat_def Let_def)
    next
      case more
      let ?v = "push_bit 7 v OR ucast (b AND 0x7f)"
      have step: "unat ?v = unat v * 128 + (unat b - 128)"
        using base128_step [OF more(1), of b] mod_128 [OF more(3)] by simp
      have not_small: "b AND 0x80 \<noteq> 0" "drop_bit (64 - 7) v = 0" "\<not> (v = 0 \<and> b = 0x80)"
        using more big zero by (auto simp: and_80)
      then have "base128_loop v c = base128_loop ?v c'"
        using get by (auto simp: base128_loop.simps [of v c] Let_def)
      moreover have "b128_loop (unat v) (cbs_bytes c) = b128_loop (unat ?v) (cbs_bytes c')"
        unfolding step using more by (auto simp: bytes)
      moreover have "refines_at out_nat (base128_loop ?v) (b128_loop (unat ?v)) c'"
        using get not_small v' by (intro "1.IH") auto
      ultimately show ?thesis
        by (intro refines_after [where out = out_nat, OF _ w]) (simp_all add: out_nat_def)
    qed
  qed
qed

interpretation base128: cbs_codec parse_base128_integer b128_dec out_nat b128_enc "\<lambda>v. v < 2 ^ 64"
  by unfold_locales
    (use refines_base128_loop [of _ 0] in
      \<open>auto simp: parse_base128_integer_def b128_dec_def intro: out_nat_mono\<close>)

text \<open>The identifier octets, and the constants of the in-memory tag.\<close>

lemma tag_mask: "ucast CBS_ASN1_TAG_NUMBER_MASK = (2 ^ 29 - 1 :: u64)"
  unfolding CBS_ASN1_TAG_NUMBER_MASK_def CBS_ASN1_TAG_SHIFT_def by code_simp

lemma ucast_and_u8: "ucast (a AND b :: u8) = (ucast a AND ucast b :: 'a::len word)"
  by (rule bit_word_eqI) (auto simp: bit_simps)

lemma tag_of_parts:
  "push_bit CBS_ASN1_TAG_SHIFT (ucast b AND 0xe0) OR ucast (b AND 0x1f) = tag_of b (unat (b AND 0x1f))"
  "v < 2 ^ 29 \<Longrightarrow> unat w = v \<Longrightarrow>
    push_bit CBS_ASN1_TAG_SHIFT (ucast b AND 0xe0) OR ucast (w :: u64) = tag_of b v"
  by (auto simp: tag_of_def CBS_ASN1_TAG_SHIFT_def ucast_and_u8)

definition p_tag_rest :: "u8 \<Rightarrow> u32 decoder" where
  "p_tag_rest b =
     (if b AND 0x1f = 0x1f then
        p_then b128_dec (\<lambda>v. if 2 ^ 29 \<le> v \<or> v < 31 then p_fail else p_return (tag_of b v))
      else p_return (tag_of b (unat (b AND 0x1f))))"

lemma tag_dec_Cons: "tag_dec (b # r) = p_tag_rest b r"
  by (simp add: tag_dec_def p_tag_rest_def p_then_def p_fail_def p_return_def split: option.splits)

lemma refines_tag: 
  assumes v: "valid c"
  shows "refines_at out_eq parse_asn1_tag tag_dec c"
proof (rule get_u8_cases [OF v])
  assume "cbs_bytes c = []" "CBS_get_u8 c = (None, c)"
  then show ?thesis
    by (simp add: refines_at_def parse_asn1_tag_def and_then_def tag_dec_def)
next
  fix b c'
  assume get: "CBS_get_u8 c = (Some b, c')" and bytes: "cbs_bytes c = b # cbs_bytes c'"
    and w: "window c' c" and v': "valid c'"
  have long: "(ucast (b AND 0x1f) :: u32) = 0x1f \<longleftrightarrow> b AND 0x1f = 0x1f"
    by (simp add: word_unat_eq_iff unsigned_ucast_eq and_1f take_bit_nat_eq_self)
  have small: "ucast CBS_ASN1_TAG_NUMBER_MASK < w \<or> w < 0x1f \<longleftrightarrow> 2 ^ 29 \<le> unat w \<or> unat w < 31"
    for w :: u64
    unfolding tag_mask by (auto simp: word_less_nat_alt)
  have "refines_at out_eq
     (if (ucast (b AND 0x1f) :: u32) = 0x1f then
        and_then parse_base128_integer (\<lambda>v.
          if ucast CBS_ASN1_TAG_NUMBER_MASK < v \<or> v < 0x1f then cbs_fail
          else cbs_return (push_bit CBS_ASN1_TAG_SHIFT (ucast b AND 0xe0) OR ucast v))
      else cbs_return (push_bit CBS_ASN1_TAG_SHIFT (ucast b AND 0xe0) OR ucast (b AND 0x1f)))
     (p_tag_rest b) c'"
    unfolding p_tag_rest_def long
    by (auto simp: small out_nat_def tag_of_parts out_eq_def simp del: push_bit_and
        intro!: refines_and_then [OF v' base128.refines [OF v']] refines_return refines_fail)
  then show ?thesis
    by (rule refines_after [OF _ w out_eq_mono])
      (simp_all add: parse_asn1_tag_def and_then_def get bytes tag_dec_Cons Let_def del: push_bit_and)
qed

interpretation asn1_tag: cbs_codec parse_asn1_tag tag_dec out_eq tag_enc "\<lambda>_. True"
  by unfold_locales (auto intro: refines_tag out_eq_mono)

end
