(* ===== verification/Cbs_Asn1.thy ===== *)
theory Cbs_Asn1
  imports Cbs
begin

text \<open>
  The ASN.1 side of the parser of \<open>crypto/bytestring/cbs.c\<close>, whose operations are defined in
  theory \<open>Cbs\<close>: elements, elements with an expected tag, integers, booleans, bit strings and
  optional elements are shown to meet the contract of a parser, each against the decoder of a
  canonical codec where DER has one, and the properties of the parser are stated.
\<close>

section \<open>Elements\<close>

text \<open>
  An element of BER as the library reads it: contents of definite length, or, where \<open>ber_ok\<close>
  allows it, the header of a constructed element of indefinite length, \<open>None\<close>.
\<close>

type_synonym elem = "u32 \<times> bytes option"

definition constructed :: "u32 \<Rightarrow> bool" where
  "constructed t \<longleftrightarrow> t AND CBS_ASN1_CONSTRUCTED \<noteq> 0"

definition elem_header :: "elem \<Rightarrow> bytes" where
  "elem_header e =
     tag_enc (fst e) @ (case snd e of None \<Rightarrow> [0x80] | Some b \<Rightarrow> len_enc (length b))"

definition elem_body :: "elem \<Rightarrow> bytes" where
  "elem_body e = (case snd e of None \<Rightarrow> [] | Some b \<Rightarrow> b)"

definition elem_enc :: "elem \<Rightarrow> bytes" where
  "elem_enc e = elem_header e @ elem_body e"

definition elem_ok :: "bool \<Rightarrow> elem \<Rightarrow> bool" where
  "elem_ok ber_ok e =
     (case snd e of None \<Rightarrow> ber_ok \<and> constructed (fst e) | Some b \<Rightarrow> length b < 2 ^ 32)"

definition elem_rest :: "bool \<Rightarrow> u32 \<Rightarrow> elem decoder" where
  "elem_rest ber_ok t r =
     (if ber_ok \<and> constructed t \<and> (\<exists>r'. r = 0x80 # r') then Some ((t, None), tl r)
      else
        (case len_dec r of
           None \<Rightarrow> None
         | Some (n, r') \<Rightarrow>
             if length r' < n then None else Some ((t, Some (take n r')), drop n r')))"

definition elem_dec :: "bool \<Rightarrow> elem decoder" where
  "elem_dec ber_ok = p_then tag_dec (elem_rest ber_ok)"

lemma len_dec_80: "len_dec (0x80 # r) = None"
  by (simp add: len_dec_def)

lemma len_enc_not_80: "n < 2 ^ 32 \<Longrightarrow> len_enc n @ r \<noteq> 0x80 # r'"
  using len_codec.dec_enc [of n r] len_dec_80 [of r'] by auto

interpretation elem_codec: canonical_codec elem_enc "elem_dec ber_ok" "elem_ok ber_ok" for ber_ok
proof unfold_locales
  fix e rest
  assume ok: "elem_ok ber_ok e"
  obtain t b where e: "e = (t, b)" by (cases e)
  show "elem_dec ber_ok (elem_enc e @ rest) = Some (e, rest)"
  proof (cases b)
    case None
    with ok show ?thesis
      by (simp add: e elem_dec_def elem_enc_def elem_header_def elem_body_def elem_ok_def
          elem_rest_def p_then_def tag_codec.dec_enc)
  next
    case (Some x)
    with ok have "length x < 2 ^ 32" by (simp add: e elem_ok_def)
    with Some len_enc_not_80 [OF this] show ?thesis
      by (simp add: e elem_dec_def elem_enc_def elem_header_def elem_body_def
          elem_rest_def p_then_def tag_codec.dec_enc len_codec.dec_enc)
  qed
next
  fix bs e rest
  assume "elem_dec ber_ok bs = Some (e, rest)"
  then obtain t r where t: "tag_dec bs = Some (t, r)" and r: "elem_rest ber_ok t r = Some (e, rest)"
    by (auto simp: elem_dec_def p_then_def split: option.splits)
  from tag_codec.dec_canonical [OF t] have bs: "bs = tag_enc t @ r" by simp
  show "elem_ok ber_ok e \<and> bs = elem_enc e @ rest"
  proof (cases "ber_ok \<and> constructed t \<and> (\<exists>r'. r = 0x80 # r')")
    case True
    with r show ?thesis
      by (auto simp: bs elem_rest_def elem_ok_def elem_enc_def elem_header_def elem_body_def)
  next
    case False
    then obtain n r' where n: "len_dec r = Some (n, r')" and le: "n \<le> length r'"
      and e: "e = (t, Some (take n r'))" and rest: "rest = drop n r'"
      using r by (auto simp: elem_rest_def split: option.splits if_splits)
    from len_codec.dec_canonical [OF n] le show ?thesis
      by (simp add: bs e rest elem_ok_def elem_enc_def elem_header_def elem_body_def min_absorb2)
  qed
qed

definition out_elem :: "cbs \<Rightarrow> cbs \<times> u32 \<times> size_t \<Rightarrow> elem \<Rightarrow> bool" where
  "out_elem c x e \<longleftrightarrow>
     (case x of (elt, tag, header_len) \<Rightarrow>
        tag = fst e \<and> window elt c \<and> cbs_bytes elt = elem_enc e \<and>
        unat header_len = length (elem_header e))"

lemma out_elem_mono: "window c' c \<Longrightarrow> out_elem c' x y \<Longrightarrow> out_elem c x y"
  by (auto simp: out_elem_def intro: window_trans)

lemma length_b128_prefix: "v < 128 ^ k \<Longrightarrow> length (b128_prefix v) \<le> k"
proof (induction k arbitrary: v)
  case 0
  then show ?case by (simp add: b128_prefix_0)
next
  case (Suc k)
  then have "v div 128 < 128 ^ k"
    by (intro less_mult_imp_div_less) (simp add: mult.commute)
  with Suc.IH show ?case
    by (cases "v = 0") (simp_all add: b128_prefix_0 b128_prefix_pos [of v])
qed

lemma length_tag_enc: "length (tag_enc t) \<le> 6"
proof -
  have "tag_number t < 2 ^ 29" by (simp add: tag_number_def)
  then have "tag_number t div 128 < 128 ^ 4" by simp
  from length_b128_prefix [OF this] show ?thesis
    by (simp add: tag_enc_def b128_enc_def)
qed

text \<open>Taking the element, header \<open>h\<close> and \<open>n\<close> bytes of contents, from the front.\<close>

lemma take_element:
  assumes v: "valid c" and bytes: "cbs_bytes c = h @ r" and tot: "unat tot = length h + n"
  shows "length r < n \<and> CBS_get_bytes tot c = (None, c) \<or>
    n \<le> length r \<and> (\<exists>elt c'. CBS_get_bytes tot c = (Some elt, c') \<and> window elt c \<and>
      cbs_bytes elt = h @ take n r \<and> window c' c \<and> cbs_bytes c' = drop n r)"
proof (rule cbs_get_cases [OF v, of tot])
  assume "length (cbs_bytes c) < unat tot" "cbs_get tot c = (None, c)"
  then show ?thesis
    by (simp add: bytes tot CBS_get_bytes_def and_then_def)
next
  fix c'
  assume le: "unat tot \<le> length (cbs_bytes c)"
    and get: "cbs_get tot c = (Some (cbs_data c), c')" and w: "window c' c"
    and rest: "cbs_bytes c' = drop (unat tot) (cbs_bytes c)"
    and take: "take (unat tot) (cbs_data c) = take (unat tot) (cbs_bytes c)"
  have "window (CBS_init (cbs_data c) tot) c"
    unfolding window_def using le v
    by (intro exI [of _ 0]) (simp add: CBS_init_def length_cbs_bytes)
  moreover have "cbs_bytes (CBS_init (cbs_data c) tot) = h @ take n r"
  proof -
    have "cbs_bytes (CBS_init (cbs_data c) tot) = take (unat tot) (cbs_data c)"
      by (simp add: cbs_bytes_def CBS_init_def)
    also have "\<dots> = h @ take n r"
      using take by (simp add: bytes tot)
    finally show ?thesis .
  qed
  ultimately show ?thesis
    using le get w rest by (simp add: bytes tot CBS_get_bytes_def and_then_def cbs_return_def)
qed

lemma window_len: "window c' c \<Longrightarrow> unat (cbs_len c') \<le> unat (cbs_len c)"
  by (auto simp: window_def)

text \<open>Reading identifier and first length octet.\<close>

abbreviation read_header :: "(u32 \<times> u8) cbs_op" where
  "read_header \<equiv> and_then parse_asn1_tag (\<lambda>tag. and_then CBS_get_u8 (\<lambda>b. cbs_return (tag, b)))"

lemma read_header_cases:
  assumes v: "valid c"
  obtains (tag) header where "read_header c = (None, header)" "tag_dec (cbs_bytes c) = None"
  | (empty) header t where "read_header c = (None, header)" "tag_dec (cbs_bytes c) = Some (t, [])"
  | (ok) t b header where "read_header c = (Some (t, b), header)" "valid header"
    "tag_dec (cbs_bytes c) = Some (t, b # cbs_bytes header)"
    "cbs_bytes c = tag_enc t @ b # cbs_bytes header"
    "unat (CBS_len c - CBS_len header) = length (tag_enc t) + 1"
proof (cases "parse_asn1_tag c")
  case (Pair x c1)
  show ?thesis
  proof (cases x)
    case None
    with Pair asn1_tag.get_None [OF v] show ?thesis
      by (intro tag [of c1]) (simp_all add: and_then_def)
  next
    case (Some t)
    with Pair have p: "parse_asn1_tag c = (Some t, c1)" by simp
    from asn1_tag.get_Some [OF v p] have d: "tag_dec (cbs_bytes c) = Some (t, cbs_bytes c1)"
      by (auto simp: out_eq_def)
    from asn1_tag.window_after [OF v] p have w: "window c1 c" by simp
    show ?thesis
    proof (rule get_u8_cases [OF window_valid [OF w v]])
      assume "cbs_bytes c1 = []" "CBS_get_u8 c1 = (None, c1)"
      with p d show ?thesis
        by (intro empty [of c1 t]) (simp_all add: and_then_def)
    next
      fix b header
      assume g: "CBS_get_u8 c1 = (Some b, header)" and b: "cbs_bytes c1 = b # cbs_bytes header"
        and w': "window header c1" and vh: "valid header"
      from tag_codec.dec_canonical [OF d] b have bytes: "cbs_bytes c = tag_enc t @ b # cbs_bytes header"
        by simp
      have "length (cbs_bytes c) = length (tag_enc t) + 1 + length (cbs_bytes header)"
        by (simp add: bytes)
      then have "unat (cbs_len c) = length (tag_enc t) + 1 + unat (cbs_len header)"
        using v vh by (simp add: length_cbs_bytes)
      then have "unat (CBS_len c - CBS_len header) = length (tag_enc t) + 1"
        by (simp add: CBS_len_def unat_sub_if_size)
      then show ?thesis
        using p g d b vh bytes by (intro ok [of t b header]) (simp_all add: and_then_def cbs_return_def)
    qed
  qed
qed

lemma refines_element_part:
  assumes v: "valid c" and bytes: "cbs_bytes c = h @ r" and tot: "unat tot = length h + n"
    and hl: "unat hl = length h"
    and m: "cbs_get_any_asn1_element ber_ok c =
      and_then (CBS_get_bytes tot) (\<lambda>elt. cbs_return (elt, t, hl)) c"
    and dec: "elem_dec ber_ok (cbs_bytes c) =
      (if length r < n then None else Some ((t, b), drop n r))"
    and body: "n \<le> length r \<Longrightarrow> elem_header (t, b) = h \<and> elem_body (t, b) = take n r"
  shows "refines_at out_elem (cbs_get_any_asn1_element ber_ok) (elem_dec ber_ok) c"
proof (cases "length r < n")
  case True
  with take_element [OF v bytes tot] dec show ?thesis
    by (simp add: refines_at_def m and_then_def)
next
  case False
  with take_element [OF v bytes tot] obtain elt c' where
    "CBS_get_bytes tot c = (Some elt, c')" "window elt c"
    "cbs_bytes elt = h @ take n r" "window c' c" "cbs_bytes c' = drop n r"
    by auto
  with hl dec body False show ?thesis
    by (simp add: refines_at_def m and_then_def cbs_return_def out_elem_def elem_enc_def)
qed

lemma ucast_and_7f: "ucast (b AND 0x7f :: u8) = (of_nat (unat b mod 128) :: u64)"
  by (simp flip: unat_and_7f)

text \<open>The long form, once the number of length bytes is known to be acceptable.\<close>

lemma long_length_checks:
  assumes k: "1 \<le> k" "k \<le> 4" and len: "unat (len :: u64) < 256 ^ k" and h: "h \<le> 7"
  shows "len < 128 \<longleftrightarrow> unat len < 128"
    and "drop_bit (unat ((of_nat k - 1 :: u64) * 8)) len = 0 \<longleftrightarrow> unat len < 256 ^ (k - 1)"
    and "\<not> len + of_nat h + of_nat k < len"
    and "unat (len + (of_nat h + of_nat k)) = h + k + unat len"
proof -
  show "len < 128 \<longleftrightarrow> unat len < 128" by (simp add: word_less_nat_alt)
  have k': "of_nat k - 1 = (of_nat (k - 1) :: u64)"
    using k(1) by (cases k) simp_all
  have "(of_nat k - 1 :: u64) * 8 = of_nat (8 * (k - 1))"
    unfolding k' by (simp only: of_nat_mult of_nat_numeral mult.commute)
  moreover have "unat (of_nat (8 * (k - 1)) :: u64) = 8 * (k - 1)"
    by (rule unat_of_nat_less) (use k in simp)
  ultimately have "unat ((of_nat k - 1 :: u64) * 8) = 8 * (k - 1)"
    by (simp only:)
  then show "drop_bit (unat ((of_nat k - 1 :: u64) * 8)) len = 0 \<longleftrightarrow> unat len < 256 ^ (k - 1)"
    by (simp add: drop_bit_eq_0_u64 power_mult)
  have "unat len < 256 ^ 4"
    using len power_increasing [OF k(2), of "256 :: nat"] by simp
  then have sum: "h + k + unat len < 2 ^ 64"
    using k h by simp
  have "len + of_nat h + of_nat k = of_nat (h + k + unat len)"
    by simp
  moreover have "unat (of_nat (h + k + unat len) :: u64) = h + k + unat len"
    using sum by (simp only: unat_of_nat_less len64)
  ultimately have u: "unat (len + of_nat h + of_nat k) = h + k + unat len"
    by (simp only:)
  then show "\<not> len + of_nat h + of_nat k < len"
    by (simp add: word_less_nat_alt)
  show "unat (len + (of_nat h + of_nat k)) = h + k + unat len"
    using u by (simp only: add.assoc)
qed

lemma refines_at_fail: "m c = (None, c) \<Longrightarrow> p (cbs_bytes c) = None \<Longrightarrow> refines_at out m p c"
  by (simp add: refines_at_def)

lemma refines_element:
  assumes v: "valid c"
  shows "refines_at out_elem (cbs_get_any_asn1_element ber_ok) (elem_dec ber_ok) c"
proof (rule read_header_cases [OF v])
  fix header
  assume "read_header c = (None, header)" "tag_dec (cbs_bytes c) = None"
  then show ?thesis
    by (intro refines_at_fail) (simp_all add: cbs_get_any_asn1_element_def elem_dec_def p_then_def)
next
  fix header t
  assume "read_header c = (None, header)" "tag_dec (cbs_bytes c) = Some (t, [])"
  then show ?thesis
    by (intro refines_at_fail)
      (simp_all add: cbs_get_any_asn1_element_def elem_dec_def p_then_def elem_rest_def len_dec_def)
next
  fix t b header
  assume hdr: "read_header c = (Some (t, b), header)" and vh: "valid header"
    and tag: "tag_dec (cbs_bytes c) = Some (t, b # cbs_bytes header)"
    and bytes: "cbs_bytes c = tag_enc t @ b # cbs_bytes header"
    and hl: "unat (CBS_len c - CBS_len header) = length (tag_enc t) + 1"
  let ?hl = "CBS_len c - CBS_len header"
  let ?r = "cbs_bytes header"
  have h7: "length (tag_enc t) + 1 \<le> 7" using length_tag_enc [of t] by simp
  have hl': "?hl = of_nat (length (tag_enc t) + 1)"
    using hl by (metis word_of_unat)
  have dec: "elem_dec ber_ok (cbs_bytes c) = elem_rest ber_ok t (b # ?r)"
    by (simp add: elem_dec_def p_then_def tag)
  show ?thesis
  proof (cases "unat b < 128")
    case short: True
    then have m: "cbs_get_any_asn1_element ber_ok c =
        and_then (CBS_get_bytes (ucast b + ?hl)) (\<lambda>elt. cbs_return (elt, t, ?hl)) c"
      by (simp add: cbs_get_any_asn1_element_def hdr Let_def and_80)
    have b80: "b \<noteq> 0x80" using short by (auto simp: word_unat_eq_iff)
    have tot: "unat (ucast b + ?hl) = length (tag_enc t @ [b]) + unat b"
      using short hl h7 by (simp add: unat_word_ariths unsigned_ucast_eq take_bit_nat_eq_self)
    have "elem_dec ber_ok (cbs_bytes c) =
        (if length ?r < unat b then None else Some ((t, Some (take (unat b) ?r)), drop (unat b) ?r))"
      using b80 short by (simp add: dec elem_rest_def len_dec_def)
    moreover have "elem_header (t, Some (take (unat b) ?r)) = tag_enc t @ [b]" if "unat b \<le> length ?r"
      using that short by (simp add: elem_header_def len_enc_def min_absorb2 word_of_unat)
    ultimately show ?thesis
      by (intro refines_element_part
          [where r = ?r and b = "Some (take (unat b) ?r)", OF v _ tot _ m]) (simp_all add: bytes hl elem_body_def)
  next
    case long: False
    define k where "k = unat b - 128"
    have k: "unat b mod 128 = k" "k < 128"
      using long mod_128 [of b] mod_less_divisor [of 128 "unat b"] by (simp_all add: k_def)
    have nb: "ucast (b AND 0x7f) = (of_nat k :: u64)"
      using k by (simp add: ucast_and_7f)
    have nb0: "(of_nat k :: u64) = 0 \<longleftrightarrow> k = 0" "(4 :: u64) < of_nat k \<longleftrightarrow> 4 < k" "unat (of_nat k :: u64) = k"
      using k by (simp_all add: word_unat_eq_iff word_less_nat_alt unat_of_nat_less)
    have b128: "b = 0x80 \<longleftrightarrow> k = 0"
      using long by (auto simp: word_unat_eq_iff k_def)
    consider (indef) "k = 0" "ber_ok \<and> constructed t"
      | (bad) "k = 0 \<or> 4 < k" "\<not> (k = 0 \<and> ber_ok \<and> constructed t)"
      | (good) "1 \<le> k" "k \<le> 4"
      by linarith
    then show ?thesis
    proof cases
      case indef
      then have m: "cbs_get_any_asn1_element ber_ok c =
          and_then (CBS_get_bytes ?hl) (\<lambda>elt. cbs_return (elt, t, ?hl)) c"
        using long nb nb0
        by (simp add: cbs_get_any_asn1_element_def hdr Let_def and_80 constructed_def)
      have "elem_dec ber_ok (cbs_bytes c) = Some ((t, None), ?r)"
        unfolding dec using indef b128 by (simp add: elem_rest_def)
      moreover have "elem_header (t, None) = tag_enc t @ [b]"
        using indef b128 by (simp add: elem_header_def)
      moreover have "unat ?hl = length (tag_enc t @ [b]) + 0" by (simp add: hl)
      ultimately show ?thesis
        by (intro refines_element_part [where r = ?r and n = 0 and b = None, OF v _ _ _ m])
          (simp_all add: bytes elem_body_def)
    next
      case bad
      then have m: "cbs_get_any_asn1_element ber_ok c = (None, c)"
        using long nb nb0
        by (auto simp: cbs_get_any_asn1_element_def hdr Let_def and_80 constructed_def)
      show ?thesis
        by (rule refines_at_fail)
          (use m bad long b128 in \<open>auto simp: dec elem_rest_def len_dec_def k_def Let_def\<close>)
    next
      case good
      have bad0: "\<not> (ber_ok \<and> tag_constructed \<and> k = 0)" for tag_constructed
        using good by simp
      have num: "\<not> (k = 0 \<or> 4 < k)" using good by simp
      have rb: "unat (of_nat k :: u64) = k" "unat (of_nat k :: u64) \<le> 8"
        using nb0(3) good by simp_all
      note ref = refines_cbs_get_u [OF vh rb(2), unfolded rb(1)]
      have b80: "b \<noteq> 0x80" using good b128 by simp
      have bk: "unat b = 128 + k" using long by (simp add: k_def)
      show ?thesis
      proof (cases "cbs_get_u (of_nat k) header")
        case (Pair x hdr')
        show ?thesis
        proof (cases x)
          case None
          with Pair ref have "be_dec k ?r = None" by (simp add: refines_at_def)
          moreover have "cbs_get_any_asn1_element ber_ok c = (None, c)"
            using None Pair long good nb nb0
            by (simp add: cbs_get_any_asn1_element_def hdr Let_def and_80)
          ultimately show ?thesis
            using b80 bk num by (intro refines_at_fail) (simp_all add: dec elem_rest_def len_dec_def)
        next
          case (Some len)
          with Pair ref have be: "be_dec k ?r = Some (unat len, cbs_bytes hdr')"
            by (auto simp: refines_at_def out_nat_def)
          from be_codec.dec_canonical [OF be] have lt: "unat len < 256 ^ k"
            and r: "?r = be_bytes k (unat len) @ cbs_bytes hdr'"
            by simp_all
          note checks = long_length_checks [OF good lt h7]
          have m: "cbs_get_any_asn1_element ber_ok c =
              (if unat len < 128 \<or> unat len < 256 ^ (k - 1) then (None, c)
               else and_then (CBS_get_bytes (len + (?hl + of_nat k)))
                 (\<lambda>elt. cbs_return (elt, t, ?hl + of_nat k)) c)"
            using Some Pair long good nb nb0 checks(1-3)
            by (simp add: cbs_get_any_asn1_element_def hdr Let_def and_80 hl' del: of_nat_add)
          have d: "elem_dec ber_ok (cbs_bytes c) =
              (if unat len < 128 \<or> unat len < 256 ^ (k - 1) then None
               else if length (cbs_bytes hdr') < unat len then None
               else Some ((t, Some (take (unat len) (cbs_bytes hdr'))),
                 drop (unat len) (cbs_bytes hdr')))"
            using b80 bk num by (simp add: dec elem_rest_def len_dec_def be)
          show ?thesis
          proof (cases "unat len < 128 \<or> unat len < 256 ^ (k - 1)")
            case True
            with m d show ?thesis by (intro refines_at_fail) auto
          next
            case False
            have size: "len_size (unat len) = k"
              using False by (intro len_size_unique [OF good _ _ lt]) simp_all
            let ?b = "Some (take (unat len) (cbs_bytes hdr'))"
            let ?h = "tag_enc t @ b # be_bytes k (unat len)"
            have tot: "unat (len + (?hl + of_nat k)) = length ?h + unat len"
              using checks(4) by (simp add: hl' del: of_nat_add)
            have hk: "unat (?hl + of_nat k) = length ?h"
            proof -
              have "length (tag_enc t) + 1 + k < 2 ^ 64"
                using h7 good(2) by simp
              then have "unat (of_nat (length (tag_enc t) + 1 + k) :: u64) = length (tag_enc t) + 1 + k"
                by (simp only: unat_of_nat_less len64)
              then show ?thesis unfolding hl' by (simp add: add.assoc)
            qed
            have b: "of_nat (128 + k) = b"
              by (simp only: bk [symmetric] word_of_unat)
            have hd: "elem_header (t, ?b) = ?h" if "unat len \<le> length (cbs_bytes hdr')"
              using that False b
              by (simp add: elem_header_def len_enc_def min_absorb2 size del: of_nat_add)
            show ?thesis
              by (rule refines_element_part [where r = "cbs_bytes hdr'" and h = ?h and b = ?b
                  and n = "unat len" and hl = "?hl + of_nat k", OF v _ tot hk])
                (use False m d hd in \<open>simp_all add: bytes r elem_body_def\<close>)
          qed
        qed
      qed
    qed
  qed
qed

interpretation any_element: cbs_codec CBS_get_any_asn1_element "elem_dec False" out_elem elem_enc "elem_ok False"
  by unfold_locales
    (auto simp: CBS_get_any_asn1_element_def intro: refines_element out_elem_mono)

interpretation any_ber_element: cbs_codec CBS_get_any_ber_asn1_element "elem_dec True" out_elem elem_enc "elem_ok True"
  by unfold_locales
    (auto simp: CBS_get_any_ber_asn1_element_def intro: refines_element out_elem_mono)

section \<open>Elements with an expected tag\<close>

definition asn1_enc :: "u32 \<Rightarrow> bytes \<Rightarrow> bytes" where
  "asn1_enc tag b = elem_enc (tag, Some b)"

definition asn1_dec :: "u32 \<Rightarrow> bytes decoder" where
  "asn1_dec tag =
     p_then (elem_dec False) (\<lambda>e. if fst e \<noteq> tag then p_fail else p_return (elem_body e))"

lemma elem_ok_False:
  assumes "elem_ok False e"
  obtains t b where "e = (t, Some b)" and "length b < 2 ^ 32"
  using assms by (cases e) (auto simp: elem_ok_def split: option.splits)

interpretation asn1_codec: canonical_codec "asn1_enc tag" "asn1_dec tag" "\<lambda>b. length b < 2 ^ 32" for tag
proof unfold_locales
  fix b rest :: bytes
  assume "length b < 2 ^ 32"
  then have "elem_dec False (asn1_enc tag b @ rest) = Some ((tag, Some b), rest)"
    unfolding asn1_enc_def by (intro elem_codec.dec_enc) (simp add: elem_ok_def)
  then show "asn1_dec tag (asn1_enc tag b @ rest) = Some (b, rest)"
    by (simp add: asn1_dec_def p_then_def p_return_def elem_body_def)
next
  fix bs b rest :: bytes
  assume "asn1_dec tag bs = Some (b, rest)"
  then obtain e where e: "elem_dec False bs = Some (e, rest)" "fst e = tag" "elem_body e = b"
    by (auto simp: asn1_dec_def p_then_def p_fail_def p_return_def split: option.splits if_splits)
  from elem_codec.dec_canonical [OF e(1)] e(2,3)
  show "length b < 2 ^ 32 \<and> bs = asn1_enc tag b @ rest"
    by (auto simp: asn1_enc_def elem_body_def elim!: elem_ok_False)
qed

text \<open>The rest of a function may store windows of the original \<open>CBS\<close>.\<close>

lemma refines_and_then_in:
  assumes "valid c" and m: "refines_at out1 m p c"
    and f: "\<And>x y c'. m c = (Some x, c') \<Longrightarrow> window c' c \<Longrightarrow> valid c' \<Longrightarrow> out1 c x y \<Longrightarrow>
      refines_at (\<lambda>_. out2 c) (f x) (q y) c'"
  shows "refines_at out2 (and_then m f) (p_then p q) c"
proof -
  have "refines_at (\<lambda>_. out2 c) (and_then m f) (p_then p q) c"
    by (rule refines_and_then [OF assms(1) m f]) simp_all
  then show ?thesis by (simp add: refines_at_def)
qed

lemma skip_header:
  assumes v: "valid c" and out: "out_elem c (elt, t, hl) e"
  obtains elt' where "CBS_skip hl elt = (Some (), elt')" "out_cbs c elt' (elem_body e)"
proof -
  from out have w: "window elt c" and bytes: "cbs_bytes elt = elem_header e @ elem_body e"
    and hl: "unat hl = length (elem_header e)"
    by (simp_all add: out_elem_def elem_enc_def)
  have ve: "valid elt" by (rule window_valid [OF w v])
  obtain x elt' where s: "CBS_skip hl elt = (x, elt')" by (cases "CBS_skip hl elt")
  have "p_then (take_dec (unat hl)) (\<lambda>_. p_return ()) (cbs_bytes elt) = Some ((), elem_body e)"
    by (simp add: p_then_def take_dec_def p_return_def bytes hl)
  with skip.refines [OF ve, of hl] s window_trans [OF _ w] show ?thesis
    by (intro that [of elt']) (auto simp: refines_at_def out_cbs_def split: option.splits)
qed

lemma refines_get_asn1:
  assumes v: "valid c"
  shows "refines_at out_cbs (CBS_get_asn1 tag) (asn1_dec tag) c"
  unfolding CBS_get_asn1_def cbs_get_asn1_def asn1_dec_def
proof (rule refines_and_then_in [OF v any_element.refines [OF v]])
  fix x e c'
  assume out: "out_elem c x e"
  obtain elt t hl where x: "x = (elt, t, hl)" by (metis prod_cases3)
  have t: "t = fst e" using out by (simp add: x out_elem_def)
  obtain elt' where "CBS_skip hl elt = (Some (), elt')" "out_cbs c elt' (elem_body e)"
    using skip_header [OF v out [unfolded x]] .
  then show "refines_at (\<lambda>_. out_cbs c)
    (case x of (out, t, header_len) \<Rightarrow>
       if t \<noteq> tag then cbs_fail
       else if True then (case CBS_skip header_len out of (None, _) \<Rightarrow> cbs_fail | (Some _, out') \<Rightarrow> cbs_return out')
       else cbs_return out)
    (if fst e \<noteq> tag then p_fail else p_return (elem_body e)) c'"
    by (auto simp: x t intro: refines_fail refines_return)
qed

interpretation get_asn1: cbs_codec "CBS_get_asn1 tag" "asn1_dec tag" out_cbs "asn1_enc tag"
  "\<lambda>b. length b < 2 ^ 32" for tag
  by unfold_locales (auto intro: refines_get_asn1 out_cbs_mono)

text \<open>The same for the whole element, and for any tag.\<close>

definition asn1_element_dec :: "u32 \<Rightarrow> bytes decoder" where
  "asn1_element_dec tag =
     p_then (elem_dec False) (\<lambda>e. if fst e \<noteq> tag then p_fail else p_return (elem_enc e))"

definition any_asn1_dec :: "(u32 \<times> bytes) decoder" where
  "any_asn1_dec = p_then (elem_dec False) (\<lambda>e. p_return (fst e, elem_body e))"

definition out_tagged :: "cbs \<Rightarrow> cbs \<times> u32 \<Rightarrow> u32 \<times> bytes \<Rightarrow> bool" where
  "out_tagged c x y \<longleftrightarrow> snd x = fst y \<and> out_cbs c (fst x) (snd y)"

interpretation get_asn1_element: cbs_parser "CBS_get_asn1_element tag" "asn1_element_dec tag" out_cbs for tag
proof unfold_locales
  fix c
  assume v: "valid c"
  show "refines_at out_cbs (CBS_get_asn1_element tag) (asn1_element_dec tag) c"
    unfolding CBS_get_asn1_element_def cbs_get_asn1_def asn1_element_dec_def
    by (rule refines_and_then_in [OF v any_element.refines [OF v]])
      (auto simp: out_elem_def out_cbs_def intro!: refines_fail refines_return)
qed (rule out_cbs_mono)

interpretation any_asn1_codec: canonical_codec "\<lambda>(t, b). asn1_enc t b" any_asn1_dec "\<lambda>(t, b). length b < 2 ^ 32"
proof unfold_locales
  fix x :: "u32 \<times> bytes" and rest
  assume "case x of (t, b) \<Rightarrow> length b < 2 ^ 32"
  then have "elem_dec False (elem_enc (fst x, Some (snd x)) @ rest) = Some ((fst x, Some (snd x)), rest)"
    by (intro elem_codec.dec_enc) (simp add: elem_ok_def split_def)
  then show "any_asn1_dec ((case x of (t, b) \<Rightarrow> asn1_enc t b) @ rest) = Some (x, rest)"
    by (simp add: any_asn1_dec_def p_then_def p_return_def asn1_enc_def elem_body_def split_def)
next
  fix bs and x :: "u32 \<times> bytes" and rest
  assume "any_asn1_dec bs = Some (x, rest)"
  then obtain e where e: "elem_dec False bs = Some (e, rest)" "x = (fst e, elem_body e)"
    by (auto simp: any_asn1_dec_def p_then_def p_return_def split: option.splits)
  from elem_codec.dec_canonical [OF e(1)] e(2)
  show "(case x of (t, b) \<Rightarrow> length b < 2 ^ 32) \<and> bs = (case x of (t, b) \<Rightarrow> asn1_enc t b) @ rest"
    by (auto simp: asn1_enc_def elem_body_def elim!: elem_ok_False)
qed

interpretation get_any_asn1: cbs_codec CBS_get_any_asn1 any_asn1_dec out_tagged
  "\<lambda>(t, b). asn1_enc t b" "\<lambda>(t, b). length b < 2 ^ 32"
proof unfold_locales
  fix c
  assume v: "valid c"
  show "refines_at out_tagged CBS_get_any_asn1 any_asn1_dec c"
    unfolding CBS_get_any_asn1_def any_asn1_dec_def
  proof (rule refines_and_then_in [OF v any_element.refines [OF v]])
    fix x e c'
    assume out: "out_elem c x e"
    obtain elt t hl where x: "x = (elt, t, hl)" by (metis prod_cases3)
    have t: "t = fst e" using out by (simp add: x out_elem_def)
    obtain elt' where "CBS_skip hl elt = (Some (), elt')" "out_cbs c elt' (elem_body e)"
      using skip_header [OF v out [unfolded x]] .
    then show "refines_at (\<lambda>_. out_tagged c)
      (case x of (out, tag, header_len) \<Rightarrow>
         case CBS_skip header_len out of (None, _) \<Rightarrow> cbs_fail | (Some _, out') \<Rightarrow> cbs_return (out', tag))
      (p_return (fst e, elem_body e)) c'"
      by (auto simp: x t out_tagged_def intro: refines_return)
  qed
qed (auto simp: out_tagged_def intro: out_cbs_mono)

section \<open>Integers, booleans and bit strings\<close>

text \<open>The shortest two's complement octets of a number.\<close>

fun uint_size :: "nat \<Rightarrow> nat" where
  "uint_size v = (if v < 128 then 1 else Suc (uint_size (v div 256)))"

declare uint_size.simps [simp del]

definition uint_bytes :: "nat \<Rightarrow> bytes" where
  "uint_bytes v = be_bytes (uint_size v) v"

definition uint_content :: "bytes \<Rightarrow> nat option" where
  "uint_content b =
     (if b = [] \<or> 128 \<le> unat (b ! 0) \<or> 1 < length b \<and> b ! 0 = 0 \<and> unat (b ! 1) < 128 \<or>
        2 ^ 64 \<le> be_nat b
      then None else Some (be_nat b))"

lemma be_nat_append: "be_nat (a @ b) = be_nat a * 256 ^ length b + be_nat b"
  by (induction b rule: rev_induct) (simp_all add: algebra_simps flip: append_assoc)

lemma be_nat_Cons: "be_nat (a # b) = unat a * 256 ^ length b + be_nat b"
  using be_nat_append [of "[a]" b] by (simp add: be_nat_1)

lemma uint_size_unique:
  "v < 128 * 256 ^ m \<Longrightarrow> m = 0 \<or> 128 * 256 ^ (m - 1) \<le> v \<Longrightarrow> uint_size v = Suc m"
proof (induction m arbitrary: v)
  case 0
  then show ?case by (simp add: uint_size.simps [of v])
next
  case (Suc m)
  have "v div 256 < 128 * 256 ^ m"
    using Suc.prems(1) by (intro less_mult_imp_div_less) simp
  moreover have "m = 0 \<or> 128 * 256 ^ (m - 1) \<le> v div 256"
    using Suc.prems(2) by (cases m) (simp_all add: less_eq_div_iff_mult_less_eq)
  ultimately have "uint_size (v div 256) = Suc m"
    by (rule Suc.IH)
  moreover have "(128::nat) \<le> 128 * 256 ^ m" by simp
  moreover have "128 * 256 ^ m \<le> v" using Suc.prems(2) by simp
  ultimately have "uint_size (v div 256) = Suc m \<and> \<not> v < 128" by linarith
  then show ?case by (simp add: uint_size.simps [of v])
qed

lemma uint_size_bound:
  obtains m where "uint_size v = Suc m" and "v < 128 * 256 ^ m"
    and "m = 0 \<or> 128 * 256 ^ (m - 1) \<le> v"
proof -
  have "\<exists>m. uint_size v = Suc m \<and> v < 128 * 256 ^ m \<and> (m = 0 \<or> 128 * 256 ^ (m - 1) \<le> v)"
  proof (induction v rule: uint_size.induct)
    case (1 v)
    show ?case
    proof (cases "v < 128")
      case True
      then show ?thesis by (simp add: uint_size.simps [of v])
    next
      case False
      then obtain m where m: "uint_size (v div 256) = Suc m" "v div 256 < 128 * 256 ^ m"
        "m = 0 \<or> 128 * 256 ^ (m - 1) \<le> v div 256"
        using 1 by blast
      have "v < 128 * 256 ^ Suc m"
        using m(2) by (simp add: div_less_iff_less_mult)
      moreover have "128 * 256 ^ m \<le> v"
        using m(3) False by (cases m) (simp_all add: less_eq_div_iff_mult_less_eq)
      ultimately show ?thesis
        using m(1) False by (intro exI [of _ "Suc m"]) (simp add: uint_size.simps [of v])
    qed
  qed
  then show ?thesis using that by blast
qed

lemma be_nat_first:
  assumes "b \<noteq> []"
  shows "unat (b ! 0) < 128 \<longleftrightarrow> be_nat b < 128 * 256 ^ (length b - 1)"
proof -
  obtain x c where b: "b = x # c" using assms by (cases b) auto
  have c: "be_nat c < 256 ^ length c" by (rule be_nat_bound)
  show ?thesis
  proof
    assume "unat (b ! 0) < 128"
    then have "(unat x + 1) * 256 ^ length c \<le> 128 * 256 ^ length c"
      by (intro mult_le_mono1) (simp add: b)
    with c have "be_nat b < 128 * 256 ^ length c"
      unfolding b be_nat_Cons distrib_right by linarith
    then show "be_nat b < 128 * 256 ^ (length b - 1)"
      by (simp add: b)
  next
    assume "be_nat b < 128 * 256 ^ (length b - 1)"
    then have "be_nat b < 128 * 256 ^ length c"
      by (simp add: b)
    then have "unat x * 256 ^ length c < 128 * 256 ^ length c"
      unfolding b be_nat_Cons by linarith
    then show "unat (b ! 0) < 128" by (simp add: b)
  qed
qed

lemma uint_content_iff: "uint_content b = Some v \<longleftrightarrow> v < 2 ^ 64 \<and> b = uint_bytes v"
proof
  assume "uint_content b = Some v"
  then have ne: "b \<noteq> []" and hd: "unat (b ! 0) < 128" and v: "v = be_nat b" "v < 2 ^ 64"
    and min: "\<not> (1 < length b \<and> b ! 0 = 0 \<and> unat (b ! 1) < 128)"
    by (auto simp: uint_content_def split: if_splits)
  obtain x c where b: "b = x # c" using ne by (cases b) auto
  have "be_nat b < 128 * 256 ^ length c"
    using hd be_nat_first [OF ne] by (simp add: b)
  moreover have "length c = 0 \<or> 128 * 256 ^ (length c - 1) \<le> be_nat b"
  proof (cases "c = []")
    case False
    show ?thesis
    proof (cases "x = 0")
      case True
      then have "\<not> unat (c ! 0) < 128" using min False by (simp add: b)
      then show ?thesis
        using be_nat_first [OF False] True by (simp add: b be_nat_Cons)
    next
      case nz: False
      then have "1 \<le> unat x"
        using unsigned_eq_0_iff [of x] by (metis less_one not_less)
      then have "1 * 256 ^ length c \<le> unat x * 256 ^ length c"
        by (rule mult_le_mono1)
      moreover have "(256::nat) ^ length c = 256 * 256 ^ (length c - 1)"
        using False by (cases c) simp_all
      ultimately have "256 * 256 ^ (length c - 1) \<le> be_nat b"
        unfolding b be_nat_Cons by linarith
      then show ?thesis by simp
    qed
  qed simp
  ultimately have "uint_size (be_nat b) = length b"
    using uint_size_unique by (simp add: b)
  then show "v < 2 ^ 64 \<and> b = uint_bytes v"
    using v by (simp add: uint_bytes_def)
next
  assume v: "v < 2 ^ 64 \<and> b = uint_bytes v"
  obtain m where m: "uint_size v = Suc m" "v < 128 * 256 ^ m" "m = 0 \<or> 128 * 256 ^ (m - 1) \<le> v"
    by (rule uint_size_bound)
  have len: "length b = Suc m" using v m by (simp add: uint_bytes_def)
  then have ne: "b \<noteq> []" by auto
  have "v < 256 ^ Suc m" using m(2) by simp
  then have bv: "be_nat b = v"
    using v unfolding uint_bytes_def m(1) by (simp only: be_nat_be_bytes mod_less)
  have hd: "unat (b ! 0) < 128"
    using be_nat_first [OF ne] m(2) by (simp add: len bv)
  have "\<not> (1 < length b \<and> b ! 0 = 0 \<and> unat (b ! 1) < 128)"
  proof
    assume z: "1 < length b \<and> b ! 0 = 0 \<and> unat (b ! 1) < 128"
    then obtain c where c: "b = 0 # c" "c \<noteq> []" "unat (c ! 0) < 128"
      by (cases b) auto
    then have "v < 128 * 256 ^ (length c - 1)"
      using be_nat_first [OF c(2)] bv by (simp add: be_nat_Cons)
    with m(3) c len show False by simp
  qed
  with hd ne bv v show "uint_content b = Some v"
    by (auto simp: uint_content_def)
qed

definition uint_dec :: "nat decoder" where
  "uint_dec = p_then (asn1_dec 2) (\<lambda>b. case uint_content b of None \<Rightarrow> p_fail | Some v \<Rightarrow> p_return v)"

definition uint_enc :: "nat \<Rightarrow> bytes" where
  "uint_enc v = asn1_enc 2 (uint_bytes v)"

text \<open>An element whose contents are in turn a canonical encoding.\<close>

lemma content_canonical:
  assumes iff: "\<And>b v. content b = Some v \<longleftrightarrow> ok v \<and> b = bytes v"
    and short: "\<And>v. ok v \<Longrightarrow> length (bytes v) < 2 ^ 32"
  shows "canonical_codec (\<lambda>v. asn1_enc tag (bytes v))
    (p_then (asn1_dec tag) (\<lambda>b. case content b of None \<Rightarrow> p_fail | Some v \<Rightarrow> p_return v)) ok"
proof unfold_locales
  fix v rest
  assume ok: "ok v"
  then have "content (bytes v) = Some v" by (simp add: iff)
  then show "p_then (asn1_dec tag) (\<lambda>b. case content b of None \<Rightarrow> p_fail | Some v \<Rightarrow> p_return v)
      (asn1_enc tag (bytes v) @ rest) = Some (v, rest)"
    by (simp add: p_then_def asn1_codec.dec_enc [OF short [OF ok]] p_return_def)
next
  fix bs v rest
  assume "p_then (asn1_dec tag) (\<lambda>b. case content b of None \<Rightarrow> p_fail | Some v \<Rightarrow> p_return v) bs
      = Some (v, rest)"
  then obtain b where b: "asn1_dec tag bs = Some (b, rest)" "content b = Some v"
    by (auto simp: p_then_def p_fail_def p_return_def split: option.splits)
  from asn1_codec.dec_canonical [OF b(1)] b(2) show "ok v \<and> bs = asn1_enc tag (bytes v) @ rest"
    by (simp add: iff)
qed

lemma length_uint_bytes_iff: "length (uint_bytes v) \<le> Suc m \<longleftrightarrow> v < 128 * 256 ^ m"
proof -
  obtain n where n: "uint_size v = Suc n" "v < 128 * 256 ^ n" "n = 0 \<or> 128 * 256 ^ (n - 1) \<le> v"
    by (rule uint_size_bound)
  have "n \<le> m \<longleftrightarrow> v < 128 * 256 ^ m"
  proof
    assume "n \<le> m"
    then have "(256::nat) ^ n \<le> 256 ^ m" by (intro power_increasing) simp_all
    with n(2) show "v < 128 * 256 ^ m" by linarith
  next
    assume lt: "v < 128 * 256 ^ m"
    show "n \<le> m"
    proof (rule ccontr)
      assume "\<not> n \<le> m"
      then have "(256::nat) ^ m \<le> 256 ^ (n - 1)" by (intro power_increasing) simp_all
      moreover have "128 * 256 ^ (n - 1) \<le> v" using n(3) \<open>\<not> n \<le> m\<close> by simp
      ultimately show False using lt by linarith
    qed
  qed
  then show ?thesis by (simp add: uint_bytes_def n)
qed

interpretation uint_codec: canonical_codec uint_enc uint_dec "\<lambda>v. v < 2 ^ 64"
proof -
  have "length (uint_bytes v) < 2 ^ 32" if "v < 2 ^ 64" for v
  proof -
    have "length (uint_bytes v) \<le> Suc 8"
      unfolding length_uint_bytes_iff using that by simp
    then show ?thesis by simp
  qed
  from content_canonical [of uint_content "\<lambda>v. v < 2 ^ 64" uint_bytes 2, OF uint_content_iff this]
  show "canonical_codec uint_enc uint_dec (\<lambda>v. v < 2 ^ 64)"
    by (simp add: uint_enc_def [abs_def] uint_dec_def)
qed

lemma be_step_exact:
  assumes "unat v < 2 ^ 56"
  shows "unat (be_step v b) = unat v * 256 + unat b"
proof -
  have "be_step v b = push_bit 8 v + ucast b"
    unfolding be_step_def by (rule or_eq_plus_push) (rule take_bit_ucast_u8)
  also have "\<dots> = of_nat (unat v * 256 + unat b)"
    by (simp add: push_bit_eq_mult mult.commute)
  finally have eq: "be_step v b = of_nat (unat v * 256 + unat b)" .
  have "unat v * 256 + unat b < 2 ^ 64"
  proof -
    have "unat b \<le> 255" using unat_less_256 [of b] by linarith
    with assms show ?thesis by simp
  qed
  then show ?thesis
    unfolding eq by (simp only: unat_of_nat_less len64)
qed

lemma asn1_uint64_loop_eq:
  "asn1_uint64_loop v bs =
     (if unat v * 256 ^ length bs + be_nat bs < 2 ^ 64
      then Some (of_nat (unat v * 256 ^ length bs + be_nat bs)) else None)"
proof (induction v bs rule: asn1_uint64_loop.induct)
  case (1 v)
  then show ?case using unat_less_64 [of v] by simp
next
  case (2 v b bs)
  have big: "drop_bit 56 v = 0 \<longleftrightarrow> unat v < 2 ^ 56" by (rule drop_bit_eq_0_u64)
  show ?case
  proof (cases "unat v < 2 ^ 56")
    case True
    then have "unat (push_bit 8 v OR ucast b) = unat v * 256 + unat b"
      using be_step_exact by (simp add: be_step_def)
    with 2 True big show ?thesis
      by (simp add: be_nat_Cons algebra_simps)
  next
    case False
    have "2 ^ 56 * 256 ^ Suc 0 \<le> unat v * 256 ^ length (b # bs)"
      using False by (intro mult_le_mono power_increasing) simp_all
    with False big show ?thesis by simp
  qed
qed

lemma content_nth:
  "valid x \<Longrightarrow> i < length (cbs_bytes x) \<Longrightarrow> CBS_data x ! i = cbs_bytes x ! i"
  by (simp add: CBS_data_def nth_cbs_data)

lemma CBS_len_0: "valid x \<Longrightarrow> CBS_len x = 0 \<longleftrightarrow> cbs_bytes x = []"
  using length_cbs_bytes [of x] unsigned_eq_0_iff [of "cbs_len x"]
  by (auto simp: CBS_len_def)

lemma CBS_len_1: "valid x \<Longrightarrow> 1 < CBS_len x \<longleftrightarrow> 1 < length (cbs_bytes x)"
  by (simp add: CBS_len_def length_cbs_bytes word_less_nat_alt)

lemma take_CBS_data: "take (unat (CBS_len x)) (CBS_data x) = cbs_bytes x"
  by (simp add: CBS_len_def CBS_data_def cbs_bytes_def)

lemma out_cbs_valid: "out_cbs c x b \<Longrightarrow> valid c \<Longrightarrow> valid x \<and> cbs_bytes x = b"
  by (auto simp: out_cbs_def intro: window_valid)

lemma refines_uint64:
  assumes v: "valid c"
  shows "refines_at out_nat CBS_get_asn1_uint64 uint_dec c"
  unfolding CBS_get_asn1_uint64_def uint_dec_def CBS_ASN1_INTEGER_def
proof (rule refines_and_then [OF v get_asn1.refines [OF v]])
  fix x b c'
  assume "out_cbs c x b"
  then have vx: "valid x" and b: "cbs_bytes x = b"
    using out_cbs_valid [OF _ v] by blast+
  have zero: "CBS_data x ! 0 = 0 \<longleftrightarrow> b ! 0 = 0" "CBS_data x ! 0 AND 0x80 \<noteq> 0 \<longleftrightarrow> 128 \<le> unat (b ! 0)"
    if "b \<noteq> []"
    using that content_nth [OF vx, of 0] and_80 [of "b ! 0"] by (auto simp: b)
  have one: "CBS_data x ! 1 AND 0x80 = 0 \<longleftrightarrow> unat (b ! 1) < 128" if "1 < length b"
    using that content_nth [OF vx, of 1] and_80 [of "b ! 1"] by (simp add: b)
  show "refines_at out_nat
    (let data = CBS_data x; len = CBS_len x in
       if len = 0 then cbs_fail
       else if data ! 0 AND 0x80 \<noteq> 0 then cbs_fail
       else if data ! 0 = 0 \<and> 1 < len \<and> data ! 1 AND 0x80 = 0 then cbs_fail
       else
         (case asn1_uint64_loop 0 (take (unat len) data) of
            None \<Rightarrow> cbs_fail
          | Some v \<Rightarrow> cbs_return v))
    (case uint_content b of None \<Rightarrow> p_fail | Some v \<Rightarrow> p_return v) c'"
    using zero one
    by (auto simp: Let_def CBS_len_0 [OF vx] CBS_len_1 [OF vx] take_CBS_data b
        asn1_uint64_loop_eq uint_content_def out_nat_def unat_of_nat_less
        intro!: refines_fail refines_return)
qed (rule out_nat_mono)

interpretation asn1_uint64: cbs_codec CBS_get_asn1_uint64 uint_dec out_nat uint_enc "\<lambda>v. v < 2 ^ 64"
  by unfold_locales (auto intro: refines_uint64 out_nat_mono)

text \<open>Signed integers: a negative number is the complement of a non-negative one.\<close>

definition int_bytes :: "int \<Rightarrow> bytes" where
  "int_bytes i = (if 0 \<le> i then uint_bytes (nat i) else map NOT (uint_bytes (nat (- 1 - i))))"

definition int_content :: "bytes \<Rightarrow> int option" where
  "int_content b =
     (if b = [] \<or> 8 < length b \<or>
        1 < length b \<and> b ! 0 = 0 \<and> unat (b ! 1) < 128 \<or>
        1 < length b \<and> b ! 0 = 0xff \<and> 128 \<le> unat (b ! 1)
      then None
      else Some (int (be_nat b) - (if 128 \<le> unat (b ! 0) then 256 ^ length b else 0)))"

lemma unat_u8_le: "unat (b :: u8) \<le> 255"
  using unat_less_256 [of b] by linarith

lemma unat_not_u8: "unat (NOT b :: u8) = 255 - unat b"
proof -
  have "NOT b = - 1 - b" by (simp add: not_eq_complement)
  moreover have "unat (- 1 - b) = unat (- 1 :: u8) - unat b"
    by (simp add: unat_sub)
  ultimately show ?thesis
    by (simp add: unsigned_minus_1_eq_mask mask_eq_exp_minus_1)
qed

lemma be_nat_not: "be_nat (map NOT b) + be_nat b + 1 = 256 ^ length b"
proof (induction b)
  case Nil
  show ?case by simp
next
  case (Cons x b)
  have "unat x \<le> 255" using unat_less_256 [of x] by linarith
  then have "(255 - unat x) * 256 ^ length b + unat x * 256 ^ length b = 255 * 256 ^ length b"
    by (simp flip: distrib_right)
  with Cons show ?case by (simp add: be_nat_Cons unat_not_u8)
qed

lemma map_not_not [simp]: "map (NOT \<circ> NOT) (b :: bytes) = b"
  by (simp add: o_def)

lemma int_content_nonneg:
  assumes "b = [] \<or> unat (b ! 0) < 128"
  shows "int_content b = (if length b \<le> 8 then map_option int (uint_content b) else None)"
proof -
  have "be_nat b < 2 ^ 64" if "length b \<le> 8"
    using be_nat_bound [of b] power_increasing [OF that, of "256 :: nat"] by simp
  then show ?thesis
    using assms by (auto simp: int_content_def uint_content_def word_unat_eq_iff)
qed

lemma int_content_neg:
  assumes "b \<noteq> []" and "128 \<le> unat (b ! 0)"
  shows "int_content b =
    (if length b \<le> 8 then map_option (\<lambda>v. - 1 - int v) (uint_content (map NOT b)) else None)"
proof -
  have "be_nat (map NOT b) < 2 ^ 64" if "length b \<le> 8"
    using be_nat_bound [of "map NOT b"] power_increasing [OF that, of "256 :: nat"] by simp
  moreover have "int (be_nat b) - 256 ^ length b = - 1 - int (be_nat (map NOT b))"
  proof -
    have "int (be_nat (map NOT b) + be_nat b + 1) = 256 ^ length b"
      by (simp only: be_nat_not of_nat_power of_nat_numeral)
    then show ?thesis by linarith
  qed
  moreover have "NOT (b ! 0) = 0 \<longleftrightarrow> b ! 0 = 0xff"
    using assms(2) unat_u8_le [of "b ! 0"] by (auto simp: word_unat_eq_iff unat_not_u8)
  moreover have "unat (NOT (b ! 1)) < 128 \<longleftrightarrow> 128 \<le> unat (b ! 1)" "unat (NOT (b ! 0)) < 128"
    using assms(2) by (auto simp: unat_not_u8)
  ultimately show ?thesis
    using assms by (auto simp: int_content_def uint_content_def word_unat_eq_iff)
qed

lemma hd_uint_bytes: "uint_bytes v \<noteq> [] \<and> (v < 2 ^ 64 \<longrightarrow> unat (uint_bytes v ! 0) < 128)"
proof -
  obtain n where n: "uint_size v = Suc n" by (rule uint_size_bound)
  then have "uint_bytes v \<noteq> []" by (simp add: uint_bytes_def)
  moreover have "unat (uint_bytes v ! 0) < 128" if "v < 2 ^ 64"
    using uint_content_iff [of "uint_bytes v" v] that
    by (auto simp: uint_content_def split: if_splits)
  ultimately show ?thesis by simp
qed

lemma int_content_iff:
  "int_content b = Some i \<longleftrightarrow> - (2 ^ 63) \<le> i \<and> i < 2 ^ 63 \<and> b = int_bytes i"
proof -
  have len: "length (uint_bytes v) \<le> 8 \<longleftrightarrow> v < 2 ^ 63" for v
    using length_uint_bytes_iff [of v 7] by simp
  show ?thesis
  proof
    assume c: "int_content b = Some i"
    then have ne: "b \<noteq> []" by (auto simp: int_content_def)
    show "- (2 ^ 63) \<le> i \<and> i < 2 ^ 63 \<and> b = int_bytes i"
    proof (cases "unat (b ! 0) < 128")
      case True
      with c obtain v where v: "uint_content b = Some v" "i = int v" "length b \<le> 8"
        by (auto simp: int_content_nonneg split: if_splits)
      with uint_content_iff [of b v] len [of v] show ?thesis
        by (simp add: int_bytes_def)
    next
      case False
      with c ne obtain v where v: "uint_content (map NOT b) = Some v" "i = - 1 - int v" "length b \<le> 8"
        by (auto simp: int_content_neg split: if_splits)
      then have eq: "map NOT b = uint_bytes v" by (simp add: uint_content_iff)
      then have "length (uint_bytes v) \<le> 8" using v(3) by (metis length_map)
      moreover have "b = map NOT (uint_bytes v)" by (simp flip: eq)
      ultimately show ?thesis
        using len [of v] v(2) by (simp add: int_bytes_def)
    qed
  next
    assume i: "- (2 ^ 63) \<le> i \<and> i < 2 ^ 63 \<and> b = int_bytes i"
    show "int_content b = Some i"
    proof (cases "0 \<le> i")
      case True
      with i have b: "b = uint_bytes (nat i)" and small: "nat i < 2 ^ 63"
        by (simp_all add: int_bytes_def nat_less_iff)
      then have "nat i < 2 ^ 64" by simp
      with b small len [of "nat i"] hd_uint_bytes [of "nat i"] uint_content_iff [of b "nat i"] True
      show ?thesis by (simp add: int_content_nonneg)
    next
      case False
      let ?v = "nat (- 1 - i)"
      from False i have b: "b = map NOT (uint_bytes ?v)" and small: "?v < 2 ^ 63"
        by (simp_all add: int_bytes_def nat_less_iff)
      then have "?v < 2 ^ 64" by simp
      moreover have nb: "map NOT b = uint_bytes ?v" by (simp add: b)
      ultimately have "uint_content (map NOT b) = Some ?v" by (simp add: uint_content_iff)
      moreover have "b \<noteq> []" using hd_uint_bytes [of ?v] by (simp add: b)
      moreover have "128 \<le> unat (b ! 0)"
      proof -
        have hd: "uint_bytes ?v \<noteq> []" "unat (uint_bytes ?v ! 0) < 128"
          using hd_uint_bytes [of ?v] \<open>?v < 2 ^ 64\<close> by blast+
        then have "b ! 0 = NOT (uint_bytes ?v ! 0)" by (simp add: b)
        with hd(2) show ?thesis by (simp add: unat_not_u8)
      qed
      moreover have "length b \<le> 8" using len [of ?v] small by (simp add: b)
      ultimately show ?thesis using False by (simp add: int_content_neg)
    qed
  qed
qed

definition int_dec :: "int decoder" where
  "int_dec = p_then (asn1_dec 2) (\<lambda>b. case int_content b of None \<Rightarrow> p_fail | Some v \<Rightarrow> p_return v)"

definition int_enc :: "int \<Rightarrow> bytes" where
  "int_enc i = asn1_enc 2 (int_bytes i)"

interpretation int_codec: canonical_codec int_enc int_dec "\<lambda>i. - (2 ^ 63) \<le> i \<and> i < 2 ^ 63"
proof -
  have "length (int_bytes i) < 2 ^ 32" if "- (2 ^ 63) \<le> i \<and> i < 2 ^ 63" for i
  proof -
    have "int_content (int_bytes i) \<noteq> None"
      using that int_content_iff [of "int_bytes i" i] by simp
    then show ?thesis by (auto simp: int_content_def split: if_splits)
  qed
  from content_canonical [of int_content "\<lambda>i. - (2 ^ 63) \<le> i \<and> i < 2 ^ 63" int_bytes 2, OF _ this]
  show "canonical_codec int_enc int_dec (\<lambda>i. - (2 ^ 63) \<le> i \<and> i < 2 ^ 63)"
    by (simp add: int_content_iff int_enc_def [abs_def] int_dec_def)
qed

lemma be_nat_fill: "be_nat (replicate m 0) = 0" "be_nat (replicate m 0xff) = 256 ^ m - 1"
proof -
  show "be_nat (replicate m 0) = 0"
    by (induction m) (simp_all add: be_nat_Cons)
  show "be_nat (replicate m 0xff) = 256 ^ m - 1"
  proof (induction m)
    case (Suc m)
    have "(1::nat) \<le> 256 ^ m" by simp
    with Suc show ?case by (simp add: be_nat_Cons)
  qed simp
qed

lemma half_bound: "p \<le> 2 * b \<Longrightarrow> p \<le> 2 * n \<Longrightarrow> \<not> 2 * n - p + b < (n :: nat)"
  by linarith

lemma sign_extend:
  assumes "b \<noteq> []" and "length b \<le> 8"
  defines "fill \<equiv> (if unat (b ! 0) < 128 then 0 else 0xff :: u8)"
  shows "sint (be_read (replicate (8 - length b) fill @ b)) =
    int (be_nat b) - (if 128 \<le> unat (b ! 0) then 256 ^ length b else 0)"
proof -
  have r: "unat (be_read (replicate (8 - length b) fill @ b)) =
      be_nat (replicate (8 - length b) fill) * 256 ^ length b + be_nat b"
    using assms(2) by (simp add: unat_be_read be_nat_append)
  have p: "(256::nat) ^ (8 - length b) * 256 ^ length b = 2 ^ 64"
    using assms(2) by (simp flip: power_add)
  show ?thesis
  proof (cases "unat (b ! 0) < 128")
    case True
    then have "be_nat b < 128 * 256 ^ (length b - 1)"
      using be_nat_first [OF assms(1)] by simp
    also have "\<dots> \<le> 128 * 256 ^ 7"
      using assms(2) by (intro mult_le_mono power_increasing) simp_all
    finally have "be_nat b < 2 ^ 63" by simp
    with True r show ?thesis
      by (simp add: sint_u64 fill_def be_nat_fill)
  next
    case False
    have pos: "(1::nat) \<le> 256 ^ (8 - length b)" by simp
    have "unat (be_read (replicate (8 - length b) fill @ b)) = 2 ^ 64 - 256 ^ length b + be_nat b"
      unfolding r using False by (simp add: fill_def be_nat_fill diff_mult_distrib p)
    moreover have lt: "256 ^ length b \<le> (2::nat) ^ 64"
      using power_increasing [OF assms(2), of "256 :: nat"] by simp
    moreover have "256 ^ length b \<le> 2 * be_nat b"
    proof -
      have "128 * 256 ^ (length b - 1) \<le> be_nat b"
        using be_nat_first [OF assms(1)] False by simp
      then show ?thesis using assms(1) by (cases b) auto
    qed
    moreover have "int (2 ^ 64 - 256 ^ length b + be_nat b) = 2 ^ 64 - 256 ^ length b + int (be_nat b)"
      using lt by (simp add: of_nat_diff)
    ultimately have "\<not> unat (be_read (replicate (8 - length b) fill @ b)) < 2 ^ 63"
      "int (unat (be_read (replicate (8 - length b) fill @ b))) = 2 ^ 64 - 256 ^ length b + int (be_nat b)"
      using half_bound [of "256 ^ length b" "be_nat b" "2 ^ 63"] by simp_all
    then show ?thesis using False unfolding sint_u64 by simp
  qed
qed

lemma take_CBS_data_len: "valid x \<Longrightarrow> unat (CBS_len x) = length (cbs_bytes x)"
  by (simp add: CBS_len_def length_cbs_bytes)

lemma CBS_len_8: "valid x \<Longrightarrow> 8 < CBS_len x \<longleftrightarrow> 8 < length (cbs_bytes x)"
  by (simp add: word_less_nat_alt take_CBS_data_len)

lemma refines_int64:
  assumes v: "valid c"
  shows "refines_at out_eq CBS_get_asn1_int64 int_dec c"
  unfolding CBS_get_asn1_int64_def int_dec_def CBS_ASN1_INTEGER_def
proof (rule refines_and_then [OF v get_asn1.refines [OF v]])
  fix x b c'
  assume "out_cbs c x b"
  then have vx: "valid x" and b: "cbs_bytes x = b"
    using out_cbs_valid [OF _ v] by blast+
  have zero: "CBS_data x ! 0 = b ! 0" "CBS_data x ! 0 AND 0x80 = 0 \<longleftrightarrow> unat (b ! 0) < 128"
    if "b \<noteq> []"
    using that content_nth [OF vx, of 0] and_80 [of "b ! 0"] by (auto simp: b)
  have one: "CBS_data x ! 1 AND 0x80 = 0 \<longleftrightarrow> unat (b ! 1) < 128" if "1 < length b"
    using that content_nth [OF vx, of 1] and_80 [of "b ! 1"] by (simp add: b)
  have ext: "sint (be_read (replicate (8 - length b) (if unat (b ! 0) < 128 then 0 else 0xff) @ b)) =
      int (be_nat b) - (if 128 \<le> unat (b ! 0) then 256 ^ length b else 0)"
    if "b \<noteq> []" "length b \<le> 8"
    using sign_extend [OF that] .
  show "refines_at out_eq
    (let data = CBS_data x; len = CBS_len x in
       if len = 0 \<or> 8 < len then cbs_fail
       else if 1 < len \<and> data ! 0 = 0 \<and> data ! 1 AND 0x80 = 0 then cbs_fail
       else if 1 < len \<and> data ! 0 = 0xff \<and> data ! 1 AND 0x80 \<noteq> 0 then cbs_fail
       else
         let fill = (if data ! 0 AND 0x80 \<noteq> 0 then 0xff else 0);
             u = rev (take (unat len) data) @ replicate (8 - unat len) fill
         in cbs_return (sint (be_read (rev u))))
    (case int_content b of None \<Rightarrow> p_fail | Some v \<Rightarrow> p_return v) c'"
  proof -
    have range: "(CBS_len x = 0 \<or> 8 < CBS_len x) = (b = [] \<or> 8 < length b)"
      using CBS_len_0 [OF vx] CBS_len_8 [OF vx] by (simp add: b)
    have lead0: "(1 < CBS_len x \<and> CBS_data x ! 0 = 0 \<and> CBS_data x ! 1 AND 0x80 = 0) =
        (1 < length b \<and> b ! 0 = 0 \<and> unat (b ! 1) < 128)"
      and leadff: "(1 < CBS_len x \<and> CBS_data x ! 0 = 0xff \<and> CBS_data x ! 1 AND 0x80 \<noteq> 0) =
        (1 < length b \<and> b ! 0 = 0xff \<and> 128 \<le> unat (b ! 1))" if "b \<noteq> []"
      using zero(1) [OF that] one CBS_len_1 [OF vx] by (auto simp: b not_less)
    show ?thesis
    proof (cases "b = [] \<or> 8 < length b")
      case True
      then show ?thesis
        by (simp only: Let_def range int_content_def if_True disj_assoc [symmetric] simp_thms
            option.case refines_fail)
    next
      case False
      then have ne: "b \<noteq> []" and le: "length b \<le> 8" by simp_all
      have fill: "(if CBS_data x ! 0 AND 0x80 \<noteq> 0 then 0xff else 0 :: u8) =
          (if unat (b ! 0) < 128 then 0 else 0xff)"
        using zero [OF ne] by simp
      have u: "rev (rev (take (unat (CBS_len x)) (CBS_data x)) @ replicate (8 - unat (CBS_len x)) f) =
          replicate (8 - length b) f @ b" for f
        using take_CBS_data [of x] take_CBS_data_len [OF vx] by (simp add: b)
      have "refines_at out_eq
          (if 1 < length b \<and> b ! 0 = 0 \<and> unat (b ! 1) < 128 then cbs_fail
           else if 1 < length b \<and> b ! 0 = 0xff \<and> 128 \<le> unat (b ! 1) then cbs_fail
           else cbs_return (int (be_nat b) - (if 128 \<le> unat (b ! 0) then 256 ^ length b else 0)))
          (case int_content b of None \<Rightarrow> p_fail | Some v \<Rightarrow> p_return v) c'"
        using ne le by (simp add: int_content_def refines_fail refines_return out_eq_def)
      then show ?thesis
        unfolding Let_def range lead0 [OF ne] leadff [OF ne] fill u ext [OF ne le]
        using False by simp
    qed
  qed
qed (rule out_eq_mono)

interpretation asn1_int64: cbs_codec CBS_get_asn1_int64 int_dec out_eq int_enc
  "\<lambda>i. - (2 ^ 63) \<le> i \<and> i < 2 ^ 63"
  by unfold_locales (auto intro: refines_int64 out_eq_mono)

definition bool_bytes :: "int \<Rightarrow> bytes" where
  "bool_bytes i = [if i = 0 then 0 else 0xff]"

definition bool_content :: "bytes \<Rightarrow> int option" where
  "bool_content b = (if b = [0] then Some 0 else if b = [0xff] then Some 1 else None)"

definition bool_dec :: "int decoder" where
  "bool_dec = p_then (asn1_dec 1) (\<lambda>b. case bool_content b of None \<Rightarrow> p_fail | Some v \<Rightarrow> p_return v)"

definition bool_enc :: "int \<Rightarrow> bytes" where
  "bool_enc i = asn1_enc 1 (bool_bytes i)"

lemma bool_content_iff: "bool_content b = Some i \<longleftrightarrow> (i = 0 \<or> i = 1) \<and> b = bool_bytes i"
  by (auto simp: bool_content_def bool_bytes_def)

interpretation bool_codec: canonical_codec bool_enc bool_dec "\<lambda>i. i = 0 \<or> i = 1"
  using content_canonical [of bool_content "\<lambda>i. i = 0 \<or> i = 1" bool_bytes 1]
  by (simp add: bool_content_iff bool_enc_def [abs_def] bool_dec_def bool_bytes_def)

lemma CBS_len_eq_1: "valid x \<Longrightarrow> CBS_len x = 1 \<longleftrightarrow> length (cbs_bytes x) = 1"
  by (simp add: word_unat_eq_iff take_CBS_data_len)

lemma refines_bool:
  assumes v: "valid c"
  shows "refines_at out_eq CBS_get_asn1_bool bool_dec c"
  unfolding CBS_get_asn1_bool_def bool_dec_def CBS_ASN1_BOOLEAN_def
proof (rule refines_and_then [OF v get_asn1.refines [OF v]])
  fix x b c'
  assume "out_cbs c x b"
  then have vx: "valid x" and b: "cbs_bytes x = b"
    using out_cbs_valid [OF _ v] by blast+
  show "refines_at out_eq
    (if CBS_len x \<noteq> 1 then cbs_fail
     else let v = CBS_data x ! 0 in
       if v \<noteq> 0 \<and> v \<noteq> 0xff then cbs_fail else cbs_return (if v \<noteq> 0 then 1 else 0))
    (case bool_content b of None \<Rightarrow> p_fail | Some v \<Rightarrow> p_return v) c'"
  proof (cases "length b = 1")
    case True
    then obtain y where y: "b = [y]" by (cases b) auto
    then show ?thesis
      using CBS_len_eq_1 [OF vx] content_nth [OF vx, of 0] b
      by (auto simp: bool_content_def out_eq_def intro!: refines_fail refines_return)
  next
    case False
    then show ?thesis
      using CBS_len_eq_1 [OF vx] by (auto simp: b bool_content_def intro!: refines_fail)
  qed
qed (rule out_eq_mono)

interpretation asn1_bool: cbs_codec CBS_get_asn1_bool bool_dec out_eq bool_enc "\<lambda>i. i = 0 \<or> i = 1"
  by unfold_locales (auto intro: refines_bool out_eq_mono)

text \<open>The last byte, and bit strings.\<close>

definition last_dec :: "u8 decoder" where
  "last_dec bs = (if bs = [] then None else Some (last bs, butlast bs))"

interpretation get_last_u8: cbs_parser CBS_get_last_u8 last_dec out_eq
proof unfold_locales
  fix c
  assume v: "valid c"
  show "refines_at out_eq CBS_get_last_u8 last_dec c"
  proof (cases "cbs_len c = 0")
    case True
    with v show ?thesis
      using length_cbs_bytes [OF v] by (simp add: refines_at_def CBS_get_last_u8_def last_dec_def)
  next
    case False
    then have l: "unat (cbs_len c - 1) = unat (cbs_len c) - 1" "0 < unat (cbs_len c)"
      by (auto simp: unat_minus_one unat_gt_0)
    then have ne: "cbs_bytes c \<noteq> []"
      using length_cbs_bytes [OF v] by (metis length_0_conv less_irrefl)
    have "window (c\<lparr>cbs_len := cbs_len c - 1\<rparr>) c"
      unfolding window_def using l by (intro exI [of _ 0]) simp
    moreover have "cbs_bytes (c\<lparr>cbs_len := cbs_len c - 1\<rparr>) = butlast (cbs_bytes c)"
      using l v by (simp add: cbs_bytes_def valid_def butlast_take)
    moreover have "cbs_data c ! unat (cbs_len c - 1) = last (cbs_bytes c)"
      using l ne length_cbs_bytes [OF v] nth_cbs_data [of "unat (cbs_len c) - 1" c]
      by (simp add: last_conv_nth)
    ultimately show ?thesis
      using False ne
      by (simp add: refines_at_def CBS_get_last_u8_def last_dec_def out_eq_def)
  qed
qed (rule out_eq_mono)

definition bitstring_ok :: "bytes \<Rightarrow> bool" where
  "bitstring_ok bs =
     (case bs of
        [] \<Rightarrow> False
      | u # d \<Rightarrow> u = 0 \<or> unat u \<le> 7 \<and> d \<noteq> [] \<and> unat (last d) mod 2 ^ unat u = 0)"

lemma low_bits_zero:
  assumes "k \<le> 7"
  shows "(ucast (b :: u8) :: u32) AND (push_bit k 1 - 1) = 0 \<longleftrightarrow> unat b mod 2 ^ k = 0"
proof -
  have "push_bit k (1 :: u32) - 1 = mask k"
    by (simp add: mask_eq_exp_minus_1 push_bit_eq_mult)
  then have "(ucast b :: u32) AND (push_bit k 1 - 1) = take_bit k (ucast b)"
    by (simp add: take_bit_eq_mask)
  moreover have "take_bit k (ucast b :: u32) = 0 \<longleftrightarrow> unat (take_bit k (ucast b :: u32)) = 0"
    by (simp only: unsigned_eq_0_iff)
  moreover have "unat (take_bit k (ucast b :: u32)) = take_bit k (unat b)"
    using assms by (simp add: unsigned_take_bit_eq unsigned_ucast_eq take_bit_nat_eq_self min_absorb1)
  ultimately show ?thesis by (simp only: take_bit_eq_mod)
qed

lemma valid_bitstring:
  assumes v: "valid c"
  shows "CBS_is_valid_asn1_bitstring c = bitstring_ok (cbs_bytes c)"
proof (rule get_u8_cases [OF v])
  assume "cbs_bytes c = []" "CBS_get_u8 c = (None, c)"
  then show ?thesis by (simp add: CBS_is_valid_asn1_bitstring_def bitstring_ok_def)
next
  fix u c'
  assume get: "CBS_get_u8 c = (Some u, c')" and bytes: "cbs_bytes c = u # cbs_bytes c'" and v': "valid c'"
  have u: "7 < u \<longleftrightarrow> 7 < unat u" by (simp add: word_less_nat_alt)
  obtain x c'' where l: "CBS_get_last_u8 c' = (x, c'')" by (cases "CBS_get_last_u8 c'")
  show ?thesis
  proof (cases x)
    case None
    with get_last_u8.get_None [OF v'] l have "cbs_bytes c' = []"
      by (auto simp: last_dec_def split: if_splits)
    with None l get bytes u show ?thesis
      by (auto simp: CBS_is_valid_asn1_bitstring_def bitstring_ok_def)
  next
    case (Some b)
    with get_last_u8.get_Some [OF v'] l have "cbs_bytes c' \<noteq> []" "b = last (cbs_bytes c')"
      by (fastforce simp: last_dec_def out_eq_def split: if_splits)+
    with Some l get bytes u low_bits_zero [of "unat u" b] show ?thesis
      by (auto simp: CBS_is_valid_asn1_bitstring_def bitstring_ok_def not_less)
  qed
qed

section \<open>Optional elements\<close>

definition opt_dec :: "u32 \<Rightarrow> bytes option decoder" where
  "opt_dec tag bs =
     (if map_option fst (tag_dec bs) = Some tag
      then p_then (asn1_dec tag) (\<lambda>b. p_return (Some b)) bs
      else Some (None, bs))"

definition out_opt :: "cbs \<Rightarrow> cbs option \<Rightarrow> bytes option \<Rightarrow> bool" where
  "out_opt c x y \<longleftrightarrow> rel_option (out_cbs c) x y"

lemma peek_tag:
  assumes v: "valid c"
  shows "CBS_peek_asn1_tag c tag \<longleftrightarrow> map_option fst (tag_dec (cbs_bytes c)) = Some tag"
proof (cases "CBS_len c < 1")
  case True
  then have "cbs_bytes c = []"
    using CBS_len_0 [OF v] by (auto simp: word_less_nat_alt word_unat_eq_iff)
  with True show ?thesis by (simp add: CBS_peek_asn1_tag_def tag_dec_def)
next
  case False
  obtain x c' where p: "parse_asn1_tag c = (x, c')" by (cases "parse_asn1_tag c")
  with False asn1_tag.refines [OF v] show ?thesis
    by (cases x) (auto simp: CBS_peek_asn1_tag_def refines_at_def out_eq_def)
qed

lemma out_opt_mono: "window c' c \<Longrightarrow> out_opt c' x y \<Longrightarrow> out_opt c x y"
  by (cases x; cases y) (auto simp: out_opt_def intro: out_cbs_mono)

interpretation optional_asn1: cbs_parser "CBS_get_optional_asn1 tag" "opt_dec tag" out_opt for tag
proof unfold_locales
  fix c
  assume v: "valid c"
  have "refines_at out_opt (and_then (CBS_get_asn1 tag) (\<lambda>out. cbs_return (Some out)))
    (p_then (asn1_dec tag) (\<lambda>b. p_return (Some b))) c"
    by (rule refines_and_then_in [OF v get_asn1.refines [OF v]])
      (auto simp: out_opt_def intro: refines_return)
  moreover have "refines_at out_opt (cbs_return None) (p_return None) c"
    by (rule refines_return) (simp add: out_opt_def)
  ultimately show "refines_at out_opt (CBS_get_optional_asn1 tag) (opt_dec tag) c"
  proof (cases "CBS_peek_asn1_tag c tag")
    case True
    assume "refines_at out_opt (and_then (CBS_get_asn1 tag) (\<lambda>out. cbs_return (Some out)))
      (p_then (asn1_dec tag) (\<lambda>b. p_return (Some b))) c"
    then show ?thesis
      by (rule refines_after [OF _ window_refl])
        (use True peek_tag [OF v, of tag] in
          \<open>simp_all add: CBS_get_optional_asn1_def opt_dec_def\<close>)
  next
    case False
    assume "refines_at out_opt (cbs_return None) (p_return None) c"
    then show ?thesis
      by (rule refines_after [OF _ window_refl])
        (use False peek_tag [OF v, of tag] in
          \<open>simp_all add: CBS_get_optional_asn1_def opt_dec_def cbs_return_def p_return_def\<close>)
  qed
qed (rule out_opt_mono)

text \<open>An optional element wraps a value that must fill it.\<close>

definition opt_value :: "u32 \<Rightarrow> 'a decoder \<Rightarrow> 'a \<Rightarrow> 'a decoder" where
  "opt_value tag d dflt =
     p_then (opt_dec tag) (\<lambda>o'. case o' of
       None \<Rightarrow> p_return dflt
     | Some b \<Rightarrow> (case d b of Some (x, []) \<Rightarrow> p_return x | _ \<Rightarrow> p_fail))"

lemma refines_opt_value:
  assumes v: "valid c"
    and none: "\<And>c'. refines_at (\<lambda>_. out2 c) (f None) (p_return dflt) c'"
    and some: "\<And>child b c'. out_cbs c child b \<Longrightarrow>
      refines_at (\<lambda>_. out2 c) (f (Some child)) (case d b of Some (x, []) \<Rightarrow> p_return x | _ \<Rightarrow> p_fail) c'"
  shows "refines_at out2 (and_then (CBS_get_optional_asn1 tag) f) (opt_value tag d dflt) c"
  unfolding opt_value_def
proof (rule refines_and_then_in [OF v optional_asn1.refines [OF v]])
  fix x y c'
  assume "out_opt c x y"
  then show "refines_at (\<lambda>_. out2 c) (f x)
    (case y of None \<Rightarrow> p_return dflt
     | Some b \<Rightarrow> (case d b of Some (x, []) \<Rightarrow> p_return x | _ \<Rightarrow> p_fail)) c'"
    using none some by (cases x; cases y) (auto simp: out_opt_def)
qed

lemma CBS_len_child: "valid x \<Longrightarrow> CBS_len x \<noteq> 0 \<longleftrightarrow> cbs_bytes x \<noteq> []"
  using CBS_len_0 by blast

interpretation optional_uint64: cbs_parser "CBS_get_optional_asn1_uint64 tag dflt"
  "opt_value tag uint_dec (unat dflt)" out_nat for tag dflt
proof unfold_locales
  fix c
  assume v: "valid c"
  show "refines_at out_nat (CBS_get_optional_asn1_uint64 tag dflt)
    (opt_value tag uint_dec (unat dflt)) c"
    unfolding CBS_get_optional_asn1_uint64_def
  proof (rule refines_opt_value [OF v])
    fix c'
    show "refines_at (\<lambda>_. out_nat c) (case None of None \<Rightarrow> cbs_return dflt
        | Some child \<Rightarrow> (case CBS_get_asn1_uint64 child of (None, _) \<Rightarrow> cbs_fail
            | (Some v, child') \<Rightarrow> if CBS_len child' \<noteq> 0 then cbs_fail else cbs_return v))
      (p_return (unat dflt)) c'"
      by (auto simp: out_nat_def intro: refines_return)
  next
    fix child b c'
    assume "out_cbs c child b"
    then have vc: "valid child" and b: "cbs_bytes child = b"
      using out_cbs_valid [OF _ v] by blast+
    obtain x child' where g: "CBS_get_asn1_uint64 child = (x, child')"
      by (cases "CBS_get_asn1_uint64 child")
    have v': "valid child'" using asn1_uint64.valid_after [OF vc] g by simp
    from asn1_uint64.refines [OF vc] g CBS_len_child [OF v']
    show "refines_at (\<lambda>_. out_nat c) (case Some child of None \<Rightarrow> cbs_return dflt
        | Some child \<Rightarrow> (case CBS_get_asn1_uint64 child of (None, _) \<Rightarrow> cbs_fail
            | (Some v, child') \<Rightarrow> if CBS_len child' \<noteq> 0 then cbs_fail else cbs_return v))
      (case uint_dec b of Some (x, []) \<Rightarrow> p_return x | _ \<Rightarrow> p_fail) c'"
      by (cases x; cases "cbs_bytes child'")
        (auto simp: refines_at_def [of _ CBS_get_asn1_uint64] b out_nat_def intro!: refines_fail refines_return)
  qed
qed (rule out_nat_mono)

definition out_octets :: "cbs \<Rightarrow> cbs \<times> bool \<Rightarrow> bytes \<times> bool \<Rightarrow> bool" where
  "out_octets c x y \<longleftrightarrow>
     snd x = snd y \<and> valid (fst x) \<and> cbs_bytes (fst x) = fst y \<and> (snd x \<longrightarrow> window (fst x) c)"

interpretation optional_octets: cbs_parser "CBS_get_optional_asn1_octet_string tag"
  "opt_value tag (p_then (asn1_dec 4) (\<lambda>b. p_return (b, True))) ([], False)" out_octets for tag
proof unfold_locales
  fix c
  assume v: "valid c"
  show "refines_at out_octets (CBS_get_optional_asn1_octet_string tag)
    (opt_value tag (p_then (asn1_dec 4) (\<lambda>b. p_return (b, True))) ([], False)) c"
    unfolding CBS_get_optional_asn1_octet_string_def
  proof (rule refines_opt_value [OF v])
    fix c'
    show "refines_at (\<lambda>_. out_octets c) (case None of None \<Rightarrow> cbs_return (CBS_init [] 0, False)
        | Some child \<Rightarrow> (case CBS_get_asn1 CBS_ASN1_OCTETSTRING child of (None, _) \<Rightarrow> cbs_fail
            | (Some out, child') \<Rightarrow> if CBS_len child' \<noteq> 0 then cbs_fail else cbs_return (out, True)))
      (p_return ([], False)) c'"
      by (auto simp: out_octets_def CBS_init_def valid_def cbs_bytes_def intro: refines_return)
  next
    fix child b c'
    assume out: "out_cbs c child b"
    then have vc: "valid child" and b: "cbs_bytes child = b" and w: "window child c"
      using out_cbs_valid [OF out v] by (simp_all add: out_cbs_def)
    obtain x child' where g: "CBS_get_asn1 CBS_ASN1_OCTETSTRING child = (x, child')"
      by (cases "CBS_get_asn1 CBS_ASN1_OCTETSTRING child")
    have v': "valid child'" using get_asn1.valid_after [OF vc] g by (metis snd_conv)
    have ref: "refines_at out_cbs (CBS_get_asn1 CBS_ASN1_OCTETSTRING) (asn1_dec 4) child"
      using get_asn1.refines [OF vc] by (simp add: CBS_ASN1_OCTETSTRING_def)
    show "refines_at (\<lambda>_. out_octets c) (case Some child of None \<Rightarrow> cbs_return (CBS_init [] 0, False)
        | Some child \<Rightarrow> (case CBS_get_asn1 CBS_ASN1_OCTETSTRING child of (None, _) \<Rightarrow> cbs_fail
            | (Some out, child') \<Rightarrow> if CBS_len child' \<noteq> 0 then cbs_fail else cbs_return (out, True)))
      (case p_then (asn1_dec 4) (\<lambda>b. p_return (b, True)) b of
         Some (x, []) \<Rightarrow> p_return x | _ \<Rightarrow> p_fail) c'"
    proof (cases x)
      case None
      with ref g show ?thesis
        by (simp add: refines_at_def [of out_cbs] p_then_def b refines_fail)
    next
      case (Some elt)
      with ref g obtain y where y: "out_cbs child elt y" "asn1_dec 4 b = Some (y, cbs_bytes child')"
        by (auto simp: refines_at_def b)
      have "out_octets c (elt, True) (y, True)"
        unfolding out_octets_def fst_conv snd_conv
        using out_cbs_valid [OF y(1) vc] window_trans [OF y(1) [unfolded out_cbs_def, THEN conjunct1] w]
        by simp
      note o = refines_return [of "\<lambda>_. out_octets c", OF this]
      have d: "p_then (asn1_dec 4) (\<lambda>b. p_return (b, True)) b = Some ((y, True), cbs_bytes child')"
        by (simp add: p_then_def p_return_def y(2))
      show ?thesis
      proof (cases "cbs_bytes child' = []")
        case True
        then have "CBS_len child' = 0" using CBS_len_child [OF v'] by simp
        with True Some g d o show ?thesis by simp
      next
        case False
        then have "CBS_len child' \<noteq> 0" using CBS_len_child [OF v'] by simp
        with False Some g d show ?thesis
          by (simp add: refines_fail split: list.splits)
      qed
    qed
  qed
qed (auto simp: out_octets_def intro: window_trans)

interpretation optional_bool: cbs_parser "CBS_get_optional_asn1_bool tag dflt"
  "opt_value tag bool_dec dflt" out_eq for tag dflt
proof unfold_locales
  fix c
  assume v: "valid c"
  show "refines_at out_eq (CBS_get_optional_asn1_bool tag dflt) (opt_value tag bool_dec dflt) c"
    unfolding CBS_get_optional_asn1_bool_def
  proof (rule refines_opt_value [OF v])
    fix c'
    show "refines_at (\<lambda>_. out_eq c) (case None of None \<Rightarrow> cbs_return dflt
        | Some child \<Rightarrow> (case CBS_get_asn1 CBS_ASN1_BOOLEAN child of (None, _) \<Rightarrow> cbs_fail
            | (Some child2, child') \<Rightarrow>
                if CBS_len child2 \<noteq> 1 \<or> CBS_len child' \<noteq> 0 then cbs_fail
                else if CBS_data child2 ! 0 = 0 then cbs_return 0
                else if CBS_data child2 ! 0 = 0xff then cbs_return 1
                else cbs_fail)) (p_return dflt) c'"
      by (auto simp: out_eq_def intro: refines_return)
  next
    fix child b c'
    assume out: "out_cbs c child b"
    then have vc: "valid child" and b: "cbs_bytes child = b"
      using out_cbs_valid [OF _ v] by blast+
    obtain x child' where g: "CBS_get_asn1 CBS_ASN1_BOOLEAN child = (x, child')"
      by (cases "CBS_get_asn1 CBS_ASN1_BOOLEAN child")
    have v': "valid child'" using get_asn1.valid_after [OF vc] g by (metis snd_conv)
    have ref: "refines_at out_cbs (CBS_get_asn1 CBS_ASN1_BOOLEAN) (asn1_dec 1) child"
      using get_asn1.refines [OF vc] by (simp add: CBS_ASN1_BOOLEAN_def)
    show "refines_at (\<lambda>_. out_eq c) (case Some child of None \<Rightarrow> cbs_return dflt
        | Some child \<Rightarrow> (case CBS_get_asn1 CBS_ASN1_BOOLEAN child of (None, _) \<Rightarrow> cbs_fail
            | (Some child2, child') \<Rightarrow>
                if CBS_len child2 \<noteq> 1 \<or> CBS_len child' \<noteq> 0 then cbs_fail
                else if CBS_data child2 ! 0 = 0 then cbs_return 0
                else if CBS_data child2 ! 0 = 0xff then cbs_return 1
                else cbs_fail))
      (case bool_dec b of Some (x, []) \<Rightarrow> p_return x | _ \<Rightarrow> p_fail) c'"
    proof (cases x)
      case None
      with ref g show ?thesis
        by (simp add: refines_at_def [of out_cbs] bool_dec_def p_then_def b refines_fail)
    next
      case (Some elt)
      with ref g obtain y where y: "out_cbs child elt y" "asn1_dec 1 b = Some (y, cbs_bytes child')"
        by (auto simp: refines_at_def b)
      from out_cbs_valid [OF y(1) vc] have ve: "valid elt" and ye: "cbs_bytes elt = y" by simp_all
      have d: "bool_dec b = (case bool_content y of None \<Rightarrow> None | Some v \<Rightarrow> Some (v, cbs_bytes child'))"
        by (simp add: bool_dec_def p_then_def y(2) p_fail_def p_return_def split: option.splits)
      show ?thesis
      proof (cases "length y = 1 \<and> cbs_bytes child' = []")
        case True
        then obtain z where z: "y = [z]" by (cases y) auto
        have "CBS_len elt = 1" "CBS_len child' = 0" "CBS_data elt ! 0 = z"
          using True CBS_len_eq_1 [OF ve] CBS_len_child [OF v'] content_nth [OF ve, of 0]
          by (auto simp: ye z)
        with True Some g d z show ?thesis
          by (auto simp: bool_content_def out_eq_def intro!: refines_fail refines_return)
      next
        case False
        then have "CBS_len elt \<noteq> 1 \<or> CBS_len child' \<noteq> 0"
          using CBS_len_eq_1 [OF ve] CBS_len_child [OF v'] by (auto simp: ye)
        moreover have "(case bool_dec b of Some (x, []) \<Rightarrow> p_return x | _ \<Rightarrow> p_fail) = p_fail"
          using False d by (cases "cbs_bytes child'") (auto simp: bool_content_def split: if_splits)
        ultimately show ?thesis
          using Some g by (simp add: refines_fail)
      qed
    qed
  qed
qed (rule out_eq_mono)

section \<open>Properties\<close>

context cbs_codec
begin

lemma get_iff:
  assumes v: "valid c" and one: "\<And>x y z. out c x y \<Longrightarrow> out c x z \<Longrightarrow> y = z"
  shows "(\<exists>x c'. get c = (Some x, c') \<and> out c x y \<and> cbs_bytes c' = rest) \<longleftrightarrow>
    ok y \<and> cbs_bytes c = enc y @ rest"
proof
  assume "\<exists>x c'. get c = (Some x, c') \<and> out c x y \<and> cbs_bytes c' = rest"
  then obtain x c' where g: "get c = (Some x, c')" "out c x y" "cbs_bytes c' = rest"
    by blast
  from get_sound [OF v g(1)] obtain z where "ok z" "out c x z" "cbs_bytes c = enc z @ cbs_bytes c'"
    by blast
  with g one [of x y z] show "ok y \<and> cbs_bytes c = enc y @ rest" by simp
next
  assume "ok y \<and> cbs_bytes c = enc y @ rest"
  with get_complete [OF v, of y rest]
  show "\<exists>x c'. get c = (Some x, c') \<and> out c x y \<and> cbs_bytes c' = rest" by blast
qed

end

lemma out_unique:
  "out_nat c x y \<Longrightarrow> out_nat c x z \<Longrightarrow> y = z" "out_eq c x' y' \<Longrightarrow> out_eq c x' z' \<Longrightarrow> y' = z'"
  "out_cbs c w b \<Longrightarrow> out_cbs c w d \<Longrightarrow> b = d"
  by (simp_all add: out_nat_def out_eq_def out_cbs_def)

lemma ex_out:
  "(\<exists>x c'. g = (Some x, c') \<and> out_nat c x (unat v) \<and> P c') \<longleftrightarrow> (\<exists>c'. g = (Some v, c') \<and> P c')"
  "(\<exists>x c'. h = (Some x, c') \<and> out_eq c x i \<and> P c') \<longleftrightarrow> (\<exists>c'. h = (Some i, c') \<and> P c')"
  by (auto simp: out_nat_def out_eq_def word_unat_eq_iff)

text \<open>
  C6: the DER reader accepts exactly the canonical elements: identifier and length in their
  shortest form and the contents present. It then returns the whole element, its tag and the
  length of its header, and moves past it. Whatever it does, it stays inside its window.
\<close>

theorem asn1_element_exact:
  assumes "valid c"
  shows "case CBS_get_any_asn1_element c of
      (None, c') \<Rightarrow> (\<nexists>t b rest. length b < 2 ^ 32 \<and> cbs_bytes c = der_enc (t, b) @ rest)
    | (Some (elt, tag, header_len), c') \<Rightarrow>
        \<exists>b. length b < 2 ^ 32 \<and> cbs_bytes c = der_enc (tag, b) @ cbs_bytes c' \<and>
          cbs_bytes elt = der_enc (tag, b) \<and> drop (unat header_len) (cbs_bytes elt) = b \<and>
          window elt c \<and> window c' c"
proof (cases "CBS_get_any_asn1_element c")
  case (Pair r c')
  have der: "elem_enc (t, Some b) = der_enc (t, b)" for t b
    by (simp add: elem_enc_def elem_header_def elem_body_def der_enc_def)
  show ?thesis
  proof (cases r)
    case None
    then have "elem_dec False (cbs_bytes c) = None"
      using any_element.get_None [OF assms] Pair by simp
    then have "cbs_bytes c \<noteq> der_enc (t, b) @ rest" if "length b < 2 ^ 32" for t b rest
      using elem_codec.dec_enc [of False "(t, Some b)" rest] that by (auto simp: elem_ok_def der)
    then show ?thesis using None Pair by simp
  next
    case (Some x)
    obtain elt tag hl where x: "x = (elt, tag, hl)" by (metis prod_cases3)
    from any_element.get_sound [OF assms] Pair Some obtain e where
      ok: "elem_ok False e" and out: "out_elem c x e" and bytes: "cbs_bytes c = elem_enc e @ cbs_bytes c'"
      by blast
    from elem_ok_False [OF ok] obtain t b where e: "e = (t, Some b)" "length b < 2 ^ 32" .
    have "drop (length (elem_header e)) (elem_enc e) = b"
      by (simp add: elem_enc_def elem_body_def e)
    moreover have "window c' c"
      using any_element.window_after [OF assms] Pair by simp
    ultimately show ?thesis
      using out bytes e(2) Pair Some
      by (auto simp: x out_elem_def der e(1) intro!: exI [of _ b] simp del: length_drop)
  qed
qed

theorem asn1_element_exact_witness:
  "fst (CBS_get_any_asn1_element (CBS_init [4, 1, 7, 9] 4)) \<noteq> None \<and>
   (\<exists>b. [4, 1, 7, 9] = der_enc (4, b) @ [9])"
proof -
  have "valid (CBS_init [4, 1, 7, 9] 4)" "cbs_bytes (CBS_init [4, 1, 7, 9] 4) = [4, 1, 7, 9]"
    by code_simp+
  moreover have "case CBS_get_any_asn1_element (CBS_init [4, 1, 7, 9] 4) of
      (Some (elt, tag, header_len), c') \<Rightarrow> tag = 4 \<and> cbs_bytes c' = [9] | (None, _) \<Rightarrow> False"
    by code_simp
  ultimately show ?thesis
    using asn1_element_exact [of "CBS_init [4, 1, 7, 9] 4"]
    by (auto split: prod.splits option.splits)
qed

text \<open>
  C7: identifiers may have any of the \<open>2 ^ 29\<close> tag numbers: the parser reads back every tag from its
  shortest form, of several bytes where the number is above 30, and accepts nothing else.
\<close>

theorem asn1_tag_exact:
  assumes "valid c"
  shows "(\<exists>c'. parse_asn1_tag c = (Some tag, c') \<and> cbs_bytes c' = rest) \<longleftrightarrow>
    cbs_bytes c = tag_enc tag @ rest"
  using asn1_tag.get_iff [where y = tag and rest = rest, OF assms out_unique(2)] unfolding ex_out by simp

theorem asn1_tag_exact_witness:
  "\<exists>c'. parse_asn1_tag (CBS_init [0xbf, 0x81, 0x00] 3) = (Some 0xa0000080, c') \<and> cbs_bytes c' = []"
proof -
  have v: "valid (CBS_init [0xbf, 0x81, 0x00] 3)" by code_simp
  show ?thesis
    unfolding asn1_tag_exact [OF v] by code_simp
qed

text \<open>
  \<open>CBS_get_asn1_uint64\<close> accepts exactly the shortest encodings of the numbers below \<open>2 ^ 64\<close>:
  no leading zero octet, no negative number, nothing that overflows.
\<close>

theorem asn1_uint64_exact:
  assumes "valid c"
  shows "(\<exists>c'. CBS_get_asn1_uint64 c = (Some v, c') \<and> cbs_bytes c' = rest) \<longleftrightarrow>
    cbs_bytes c = asn1_enc CBS_ASN1_INTEGER (uint_bytes (unat v)) @ rest"
  using asn1_uint64.get_iff [where y = "unat v" and rest = rest, OF assms out_unique(1)] unat_less_64 [of v]
  unfolding ex_out by (simp add: uint_enc_def CBS_ASN1_INTEGER_def)

theorem asn1_uint64_exact_witness:
  "\<exists>c'. CBS_get_asn1_uint64 (CBS_init [2, 2, 0, 0x80, 5] 5) = (Some 128, c') \<and> cbs_bytes c' = [5]"
proof -
  have v: "valid (CBS_init [2, 2, 0, 0x80, 5] 5)" by code_simp
  show ?thesis
    unfolding asn1_uint64_exact [OF v] by code_simp
qed

text \<open>
  C8: \<open>CBS_get_asn1_int64\<close> accepts exactly the shortest two's complement octets of the numbers an
  \<open>int64_t\<close> can hold, and its sign extension through the union yields that number.
\<close>

theorem asn1_int64_exact:
  assumes "valid c"
  shows "(\<exists>c'. CBS_get_asn1_int64 c = (Some i, c') \<and> cbs_bytes c' = rest) \<longleftrightarrow>
    - (2 ^ 63) \<le> i \<and> i < 2 ^ 63 \<and> cbs_bytes c = asn1_enc CBS_ASN1_INTEGER (int_bytes i) @ rest"
  using asn1_int64.get_iff [where y = i and rest = rest, OF assms out_unique(2)]
  unfolding ex_out by (simp add: int_enc_def CBS_ASN1_INTEGER_def)

theorem asn1_int64_exact_witness:
  "\<exists>c'. CBS_get_asn1_int64 (CBS_init [2, 2, 0xff, 0x7f] 4) = (Some (- 129), c') \<and> cbs_bytes c' = []"
proof -
  have v: "valid (CBS_init [2, 2, 0xff, 0x7f] 4)" by code_simp
  show ?thesis
    unfolding asn1_int64_exact [OF v] by code_simp
qed

text \<open>
  C9: no operation looks past the end of its window. Two \<open>CBS\<close>s that show the same bytes, whatever
  lies behind them in memory, give the same element, tag and header length and leave the same rest.
\<close>

theorem asn1_element_no_overread:
  assumes "valid c" and "valid d" and "cbs_bytes c = cbs_bytes d"
    and "CBS_get_any_ber_asn1_element c = (Some (elt, tag, header_len), c')"
  shows "\<exists>elt' d'. CBS_get_any_ber_asn1_element d = (Some (elt', tag, header_len), d') \<and>
    cbs_bytes elt' = cbs_bytes elt \<and> cbs_bytes d' = cbs_bytes c' \<and> window elt c \<and> window elt' d"
proof -
  from any_ber_element.no_overread [OF assms] obtain x d' y where
    d: "CBS_get_any_ber_asn1_element d = (Some x, d')" and c: "out_elem c (elt, tag, header_len) y"
    and o: "out_elem d x y" and r: "cbs_bytes c' = cbs_bytes d'"
    by blast
  obtain elt' tag' hl' where x: "x = (elt', tag', hl')" by (metis prod_cases3)
  from c o d r show ?thesis
    by (auto simp: x out_elem_def word_unat_eq_iff)
qed

theorem asn1_element_no_overread_witness:
  "\<exists>elt' d'. CBS_get_any_ber_asn1_element (CBS_init [0x30, 0x80, 1] 2) = (Some (elt', 0x20000010, 2), d') \<and>
     cbs_bytes elt' = [0x30, 0x80]"
proof -
  let ?c = "CBS_init [0x30, 0x80] 2" and ?d = "CBS_init [0x30, 0x80, 1] 2"
  have "valid ?c" "valid ?d" "cbs_bytes ?c = cbs_bytes ?d"
    "CBS_get_any_ber_asn1_element ?c = (Some (?c, 0x20000010, 2), CBS_init [] 0)"
    "cbs_bytes ?c = [0x30, 0x80]"
    by code_simp+
  from asn1_element_no_overread [OF this(1-4)] this(5) show ?thesis by auto
qed

text \<open>
  \<open>CBS_get_u24_length_prefixed\<close> returns exactly the string behind a three-byte big-endian
  length, and leaves what follows; nothing else is accepted.
\<close>

theorem u24_prefixed_exact:
  assumes "valid c"
  shows "(\<exists>s c'. CBS_get_u24_length_prefixed c = (Some s, c') \<and> cbs_bytes s = b \<and>
      cbs_bytes c' = rest \<and> window s c) \<longleftrightarrow>
    length b < 2 ^ 24 \<and> cbs_bytes c = be_bytes 3 (length b) @ b @ rest"
  using u24_prefixed.get_iff [where y = b and rest = rest, OF assms out_unique(3)]
  by (simp add: out_cbs_def lp_enc_def ac_simps)

text \<open>
  \<open>CBS_asn1_bitstring_has_bit\<close> reads bit \<open>n\<close> of a BIT STRING, counted from the top of its first
  content byte, and is false for malformed strings and for bits the string does not have.
\<close>

theorem bitstring_has_bit:
  assumes v: "valid c"
  shows "CBS_asn1_bitstring_has_bit c n \<longleftrightarrow>
    bitstring_ok (cbs_bytes c) \<and>
    (let i = unat n div 8 + 1 in
       i < length (cbs_bytes c) \<and> bit (cbs_bytes c ! i) (7 - unat n mod 8))"
proof -
  have seven: "(n AND 7) = take_bit 3 n"
    by (simp add: take_bit_eq_mask mask_numeral)
  have bn: "unat (7 - (n AND 7)) = 7 - unat n mod 8"
  proof -
    have m: "unat (n AND 7) = unat n mod 8"
      unfolding seven by (simp add: take_bit_eq_mod unat_mod_distrib)
    moreover have "unat n mod 8 < 8" by simp
    ultimately have "n AND 7 \<le> 7" by (simp add: word_le_nat_alt)
    then show ?thesis by (simp add: unat_sub m)
  qed
  have "unat n div 8 < 2 ^ 29"
    using unat_less_32 [of n] by (intro less_mult_imp_div_less) simp
  then have i: "unat (drop_bit 3 n + 1) = unat n div 8 + 1"
    by (simp add: unat_word_ariths drop_bit_eq_div unat_div_distrib)
  then have lt: "(ucast (drop_bit 3 n + 1) :: size_t) < CBS_len c \<longleftrightarrow>
      unat n div 8 + 1 < length (cbs_bytes c)"
    using \<open>unat n div 8 < 2 ^ 29\<close>
    by (simp add: word_less_nat_alt unsigned_ucast_eq take_CBS_data_len [OF v] take_bit_nat_eq_self)
  have "(ucast (b :: u8) :: u32) AND push_bit k 1 \<noteq> 0 \<longleftrightarrow> bit b k" if "k \<le> 7" for b k
    unfolding bit_iff_and_push_bit_not_eq_0 [symmetric] using that by (simp add: bit_ucast_iff)
  with lt i bn valid_bitstring [OF v] content_nth [OF v, of "unat n div 8 + 1"] show ?thesis
    by (auto simp: CBS_asn1_bitstring_has_bit_def Let_def)
qed


end
