(* ===== verification/Cbb.thy ===== *)
theory Cbb
  imports Cbs_Asn1
begin

text \<open>
  The bytestring builder of \<open>crypto/bytestring/cbb.c\<close>. A tree of \<open>CBB\<close>s shares one buffer; at any
  time the open ones form a chain from the top-level \<open>CBB\<close> to its latest descendant. The model
  keeps the buffer (\<open>base\<close>) and the chain of children, the top-level's child first, and
  addresses the \<open>CBB\<close> of nesting level \<open>k\<close> by \<open>k\<close>: level 0 is the top-level \<open>CBB\<close>, level \<open>k + 1\<close> is
  its \<open>k\<close>-th descendant. A level beyond the chain is a child that has been flushed or discarded:
  its \<open>base\<close> is null, so every operation on it that flushes first fails. An operation returns whether
  it succeeded and the new state; \<open>CBB_did_write\<close> and \<open>CBB_discard_child\<close> do not check \<open>base\<close> and have a
  result only where the C code does not go through a null pointer. The allocator is an argument, as in theory \<open>Mem\<close>.
\<close>

record cbb_buffer =
  bb_buf :: "heap_block option"
  bb_len :: size_t
  bb_cap :: size_t
  bb_can_resize :: bool
  bb_error :: bool

record cbb_frame =
  fr_offset :: size_t
  fr_pending_len_len :: u8
  fr_pending_is_asn1 :: bool

record cbb =
  cbb_base :: "cbb_buffer option"
  cbb_children :: "cbb_frame list"

text \<open>\<open>return 0\<close> when the first call fails, else the rest of the function.\<close>

definition cbb_seq :: "(cbb \<Rightarrow> bool \<times> cbb) \<Rightarrow> (cbb \<Rightarrow> bool \<times> cbb) \<Rightarrow> cbb \<Rightarrow> bool \<times> cbb" where
  "cbb_seq f g c = (case f c of (False, c') \<Rightarrow> (False, c') | (True, c') \<Rightarrow> g c')"

section \<open>The buffer\<close>

definition CBB_zero :: cbb where
  "CBB_zero = \<lparr>cbb_base = None, cbb_children = []\<rparr>"

definition sizeof_cbb_buffer :: size_t where
  "sizeof_cbb_buffer = 32"

definition cbb_init :: "allocator \<Rightarrow> heap_block option \<Rightarrow> size_t \<Rightarrow> bool \<times> cbb" where
  "cbb_init malloc buf cap =
     (case OPENSSL_malloc malloc sizeof_cbb_buffer of
        None \<Rightarrow> (False, CBB_zero)
      | Some _ \<Rightarrow>
          (True, \<lparr>cbb_base = Some \<lparr>bb_buf = buf, bb_len = 0, bb_cap = cap, bb_can_resize = True,
             bb_error = False\<rparr>, cbb_children = []\<rparr>))"

definition CBB_init :: "allocator \<Rightarrow> size_t \<Rightarrow> bool \<times> cbb" where
  "CBB_init malloc initial_capacity =
     (let buf = OPENSSL_malloc malloc initial_capacity in
      if 0 < initial_capacity \<and> buf = None then (False, CBB_zero)
      else cbb_init malloc buf initial_capacity)"

definition CBB_init_fixed :: "allocator \<Rightarrow> bytes \<Rightarrow> size_t \<Rightarrow> bool \<times> cbb" where
  "CBB_init_fixed malloc buf n =
     (case cbb_init malloc (Some \<lparr>blk_size = n, blk_data = buf\<rparr>) n of
        (False, c) \<Rightarrow> (False, c)
      | (True, c) \<Rightarrow> (True, c\<lparr>cbb_base := map_option (bb_can_resize_update (\<lambda>_. False)) (cbb_base c)\<rparr>))"

text \<open>
  The end of a builder. Children that are still open keep a dangling pointer in the code, and are not to
  be used any more; after \<open>CBB_finish\<close> there are none.
\<close>

definition CBB_cleanup :: "cbb \<Rightarrow> cbb" where
  "CBB_cleanup c = c\<lparr>cbb_base := None, cbb_children := []\<rparr>"

text \<open>Storing bytes at an index of the buffer, and the contents.\<close>

definition bb_store :: "nat \<Rightarrow> bytes \<Rightarrow> cbb_buffer \<Rightarrow> cbb_buffer" where
  "bb_store i bs b =
     b\<lparr>bb_buf := map_option (\<lambda>k. k\<lparr>blk_data := blit (blk_data k) i bs\<rparr>) (bb_buf b)\<rparr>"

definition bb_mem :: "cbb_buffer \<Rightarrow> bytes" where
  "bb_mem b = (case bb_buf b of None \<Rightarrow> [] | Some k \<Rightarrow> blk_data k)"

definition bb_fail :: "cbb_buffer \<Rightarrow> cbb_buffer" where
  "bb_fail b = b\<lparr>bb_error := True\<rparr>"

text \<open>The result is the index \<open>*out\<close> points at.\<close>

definition cbb_buffer_reserve ::
    "allocator \<Rightarrow> size_t \<Rightarrow> cbb_buffer \<Rightarrow> size_t option \<times> cbb_buffer" where
  "cbb_buffer_reserve malloc n b =
     (let newlen = bb_len b + n in
      if newlen < bb_len b then (None, bb_fail b)
      else if bb_cap b < newlen then
        (if \<not> bb_can_resize b then (None, bb_fail b)
         else
           let newcap = bb_cap b * 2;
               newcap = (if newcap < bb_cap b \<or> newcap < newlen then newlen else newcap)
           in case OPENSSL_realloc malloc (bb_buf b) newcap of
                (None, _) \<Rightarrow> (None, bb_fail b)
              | (Some newbuf, _) \<Rightarrow>
                  (Some (bb_len b), b\<lparr>bb_buf := Some newbuf, bb_cap := newcap\<rparr>))
      else (Some (bb_len b), b))"

definition cbb_buffer_add ::
    "allocator \<Rightarrow> size_t \<Rightarrow> cbb_buffer \<Rightarrow> size_t option \<times> cbb_buffer" where
  "cbb_buffer_add malloc n b =
     (case cbb_buffer_reserve malloc n b of
        (None, b') \<Rightarrow> (None, b')
      | (Some out, b') \<Rightarrow> (Some out, b'\<lparr>bb_len := bb_len b' + n\<rparr>))"

text \<open>The loop \<open>buf[i] = v; v >>= 8\<close> downwards over \<open>n\<close> bytes, and what is left of \<open>v\<close>.\<close>

fun u_bytes :: "nat \<Rightarrow> u64 \<Rightarrow> bytes \<times> u64" where
  "u_bytes 0 v = ([], v)"
| "u_bytes (Suc n) v = (let (bs, r) = u_bytes n (drop_bit 8 v) in (bs @ [ucast v], r))"

definition cbb_buffer_add_u ::
    "allocator \<Rightarrow> u64 \<Rightarrow> size_t \<Rightarrow> cbb_buffer \<Rightarrow> bool \<times> cbb_buffer" where
  "cbb_buffer_add_u malloc v len_len b =
     (if len_len = 0 then (True, b)
      else
        (case cbb_buffer_add malloc len_len b of
           (None, b') \<Rightarrow> (False, b')
         | (Some out, b') \<Rightarrow>
             let (bs, r) = u_bytes (unat len_len) v; b' = bb_store (unat out) bs b'
             in if r \<noteq> 0 then (False, bb_fail b') else (True, b')))"

section \<open>Flushing\<close>

text \<open>
  Filling in the length prefix of child \<open>f\<close>, whose contents start at \<open>child_start\<close> and reach to the
  end of the buffer. An ASN.1 child reserved one byte; longer lengths move the contents along.
\<close>

definition asn1_len_form :: "size_t \<Rightarrow> size_t \<times> u8 \<times> size_t" where
  "asn1_len_form n =
     (if 0xffffff < n then (5, 0x80 OR 4, n)
      else if 0xffff < n then (4, 0x80 OR 3, n)
      else if 0xff < n then (3, 0x80 OR 2, n)
      else if 0x7f < n then (2, 0x80 OR 1, n)
      else (1, ucast n, 0))"

definition write_prefix :: "cbb_frame \<Rightarrow> size_t \<Rightarrow> cbb_buffer \<Rightarrow> bool \<times> cbb_buffer" where
  "write_prefix f n b =
     (let (bs, r) = u_bytes (unat (fr_pending_len_len f)) n
      in (r = 0, bb_store (unat (fr_offset f)) bs b))"

definition close_child ::
    "allocator \<Rightarrow> cbb_frame \<Rightarrow> size_t \<Rightarrow> cbb_buffer \<Rightarrow> bool \<times> cbb_buffer" where
  "close_child malloc f child_start b =
     (let n = bb_len b - child_start in
      if fr_pending_is_asn1 f then
        if 0xfffffffe < n then (False, b)
        else
          let (len_len, initial_length_byte, rest) = asn1_len_form n;
              extra_bytes = len_len - 1
          in case (if len_len \<noteq> 1 then
                     (case cbb_buffer_add malloc extra_bytes b of
                        (None, b') \<Rightarrow> (False, b')
                      | (Some _, b') \<Rightarrow>
                          (True, bb_store (unat (child_start + extra_bytes))
                             (take (unat n) (drop (unat child_start) (bb_mem b'))) b'))
                   else (True, b)) of
               (False, b') \<Rightarrow> (False, b')
             | (True, b') \<Rightarrow>
                 write_prefix (f\<lparr>fr_offset := fr_offset f + 1, fr_pending_len_len := ucast extra_bytes\<rparr>)
                   rest (bb_store (unat (fr_offset f)) [initial_length_byte] b')
      else write_prefix f n b)"

text \<open>
  \<open>CBB_flush\<close> on the \<open>CBB\<close> whose descendants are the given list: it flushes the child first. After a
  failure the chain no longer matters, since \<open>error\<close> is set.
\<close>

fun flush_children :: "allocator \<Rightarrow> cbb_frame list \<Rightarrow> cbb_buffer \<Rightarrow> bool \<times> cbb_frame list \<times> cbb_buffer" where
  "flush_children malloc [] b = (\<not> bb_error b, [], b)"
| "flush_children malloc (f # fs) b =
     (if bb_error b then (False, f # fs, b)
      else if fr_pending_len_len f = 0 then (True, f # fs, b)
      else
        let child_start = fr_offset f + ucast (fr_pending_len_len f) in
        case flush_children malloc fs b of
          (ok, fs', b') \<Rightarrow>
            if \<not> ok \<or> child_start < fr_offset f \<or> bb_len b' < child_start
            then (False, f # fs', bb_fail b')
            else
              (case close_child malloc f child_start b' of
                 (False, b'') \<Rightarrow> (False, f # fs', bb_fail b'')
               | (True, b'') \<Rightarrow> (True, [], b'')))"

definition CBB_flush :: "allocator \<Rightarrow> nat \<Rightarrow> cbb \<Rightarrow> bool \<times> cbb" where
  "CBB_flush malloc k c =
     (case cbb_base c of
        None \<Rightarrow> (False, c)
      | Some b \<Rightarrow>
          if length (cbb_children c) < k then (False, c)
          else
            (case flush_children malloc (drop k (cbb_children c)) b of
               (ok, fs, b') \<Rightarrow>
                 (ok, c\<lparr>cbb_base := Some b', cbb_children := take k (cbb_children c) @ fs\<rparr>)))"

text \<open>A call on \<open>cbb->base\<close>, which the flush before it has shown not to be null.\<close>

definition on_base :: "(cbb_buffer \<Rightarrow> bool \<times> cbb_buffer) \<Rightarrow> cbb \<Rightarrow> bool \<times> cbb" where
  "on_base f c =
     (case cbb_base c of
        None \<Rightarrow> (False, c)
      | Some b \<Rightarrow> (case f b of (ok, b') \<Rightarrow> (ok, c\<lparr>cbb_base := Some b'\<rparr>)))"

text \<open>The buffer and its length, and whether the call succeeded.\<close>

definition CBB_finish ::
    "allocator \<Rightarrow> nat \<Rightarrow> bool \<Rightarrow> bool \<Rightarrow> cbb \<Rightarrow> (heap_block option \<times> size_t) option \<times> cbb" where
  "CBB_finish malloc k want_data want_len c =
     (if k \<noteq> 0 then (None, c)
      else
        (case CBB_flush malloc k c of
           (False, c') \<Rightarrow> (None, c')
         | (True, c') \<Rightarrow>
             (case cbb_base c' of
                None \<Rightarrow> (None, c')
              | Some b \<Rightarrow>
                  if bb_can_resize b \<and> (\<not> want_data \<or> \<not> want_len) then (None, c')
                  else (Some (bb_buf b, bb_len b), CBB_cleanup c'))))"

definition cbb_content_start :: "nat \<Rightarrow> cbb \<Rightarrow> size_t" where
  "cbb_content_start k c =
     (if k = 0 then 0
      else let f = cbb_children c ! (k - 1) in fr_offset f + ucast (fr_pending_len_len f))"

text \<open>
  \<open>CBB_data\<close>, the memory behind the pointer, and \<open>CBB_len\<close>. Both are for an open \<open>CBB\<close> without a child (the
  code asserts the latter), as \<open>CBB_flush_asn1_set_of\<close> calls them after its flush.
\<close>

definition CBB_data :: "nat \<Rightarrow> cbb \<Rightarrow> bytes" where
  "CBB_data k c =
     (case cbb_base c of
        None \<Rightarrow> []
      | Some b \<Rightarrow> drop (unat (cbb_content_start k c)) (bb_mem b))"

definition CBB_len :: "nat \<Rightarrow> cbb \<Rightarrow> size_t" where
  "CBB_len k c =
     (case cbb_base c of None \<Rightarrow> 0 | Some b \<Rightarrow> bb_len b - cbb_content_start k c)"

section \<open>Appending\<close>

definition push_child :: "nat \<Rightarrow> cbb_frame \<Rightarrow> cbb \<Rightarrow> cbb" where
  "push_child k f c = c\<lparr>cbb_children := take k (cbb_children c) @ [f]\<rparr>"

definition cbb_add_length_prefixed :: "allocator \<Rightarrow> nat \<Rightarrow> u8 \<Rightarrow> cbb \<Rightarrow> bool \<times> cbb" where
  "cbb_add_length_prefixed malloc k len_len =
     cbb_seq (CBB_flush malloc k) (\<lambda>c.
       case cbb_base c of
         None \<Rightarrow> (False, c)
       | Some b \<Rightarrow>
           (case cbb_buffer_add malloc (ucast len_len) b of
              (None, b') \<Rightarrow> (False, c\<lparr>cbb_base := Some b'\<rparr>)
            | (Some out, b') \<Rightarrow>
                (True, push_child k
                   \<lparr>fr_offset = bb_len b, fr_pending_len_len = len_len, fr_pending_is_asn1 = False\<rparr>
                   (c\<lparr>cbb_base := Some (bb_store (unat out) (replicate (unat len_len) 0) b')\<rparr>))))"

definition CBB_add_u8_length_prefixed :: "allocator \<Rightarrow> nat \<Rightarrow> cbb \<Rightarrow> bool \<times> cbb" where
  "CBB_add_u8_length_prefixed malloc k = cbb_add_length_prefixed malloc k 1"

definition CBB_add_u16_length_prefixed :: "allocator \<Rightarrow> nat \<Rightarrow> cbb \<Rightarrow> bool \<times> cbb" where
  "CBB_add_u16_length_prefixed malloc k = cbb_add_length_prefixed malloc k 2"

definition CBB_add_u24_length_prefixed :: "allocator \<Rightarrow> nat \<Rightarrow> cbb \<Rightarrow> bool \<times> cbb" where
  "CBB_add_u24_length_prefixed malloc k = cbb_add_length_prefixed malloc k 3"

definition cbb_add_u :: "allocator \<Rightarrow> nat \<Rightarrow> u64 \<Rightarrow> size_t \<Rightarrow> cbb \<Rightarrow> bool \<times> cbb" where
  "cbb_add_u malloc k v n = cbb_seq (CBB_flush malloc k) (on_base (cbb_buffer_add_u malloc v n))"

definition CBB_add_u8 :: "allocator \<Rightarrow> nat \<Rightarrow> u8 \<Rightarrow> cbb \<Rightarrow> bool \<times> cbb" where
  "CBB_add_u8 malloc k v = cbb_add_u malloc k (ucast v) 1"

definition CBB_add_u16 :: "allocator \<Rightarrow> nat \<Rightarrow> u16 \<Rightarrow> cbb \<Rightarrow> bool \<times> cbb" where
  "CBB_add_u16 malloc k v = cbb_add_u malloc k (ucast v) 2"

definition CBB_add_u16le :: "allocator \<Rightarrow> nat \<Rightarrow> u16 \<Rightarrow> cbb \<Rightarrow> bool \<times> cbb" where
  "CBB_add_u16le malloc k v = CBB_add_u16 malloc k (CRYPTO_bswap2 v)"

definition CBB_add_u24 :: "allocator \<Rightarrow> nat \<Rightarrow> u32 \<Rightarrow> cbb \<Rightarrow> bool \<times> cbb" where
  "CBB_add_u24 malloc k v = cbb_add_u malloc k (ucast v) 3"

definition CBB_add_u32 :: "allocator \<Rightarrow> nat \<Rightarrow> u32 \<Rightarrow> cbb \<Rightarrow> bool \<times> cbb" where
  "CBB_add_u32 malloc k v = cbb_add_u malloc k (ucast v) 4"

definition CBB_add_u32le :: "allocator \<Rightarrow> nat \<Rightarrow> u32 \<Rightarrow> cbb \<Rightarrow> bool \<times> cbb" where
  "CBB_add_u32le malloc k v = CBB_add_u32 malloc k (CRYPTO_bswap4 v)"

definition CBB_add_u64 :: "allocator \<Rightarrow> nat \<Rightarrow> u64 \<Rightarrow> cbb \<Rightarrow> bool \<times> cbb" where
  "CBB_add_u64 malloc k v = cbb_add_u malloc k v 8"

definition CBB_add_u64le :: "allocator \<Rightarrow> nat \<Rightarrow> u64 \<Rightarrow> cbb \<Rightarrow> bool \<times> cbb" where
  "CBB_add_u64le malloc k v = CBB_add_u64 malloc k (CRYPTO_bswap8 v)"

definition CBB_add_bytes :: "allocator \<Rightarrow> nat \<Rightarrow> bytes \<Rightarrow> size_t \<Rightarrow> cbb \<Rightarrow> bool \<times> cbb" where
  "CBB_add_bytes malloc k p n =
     cbb_seq (CBB_flush malloc k) (on_base (\<lambda>b.
       case cbb_buffer_add malloc n b of
         (None, b') \<Rightarrow> (False, b')
       | (Some dest, b') \<Rightarrow> (True, bb_store (unat dest) (take (unat n) p) b')))"

text \<open>\<open>CBB_add_space\<close> and \<open>CBB_reserve\<close> also store the index of the space in \<open>*out_data\<close>.\<close>

definition cbb_with_space ::
    "(size_t \<Rightarrow> cbb_buffer \<Rightarrow> size_t option \<times> cbb_buffer) \<Rightarrow> allocator \<Rightarrow> nat \<Rightarrow> size_t \<Rightarrow> cbb \<Rightarrow>
     size_t option \<times> cbb" where
  "cbb_with_space grow malloc k n c =
     (case CBB_flush malloc k c of
        (False, c') \<Rightarrow> (None, c')
      | (True, c') \<Rightarrow>
          (case cbb_base c' of
             None \<Rightarrow> (None, c')
           | Some b \<Rightarrow> (case grow n b of (out, b') \<Rightarrow> (out, c'\<lparr>cbb_base := Some b'\<rparr>))))"

definition CBB_add_space :: "allocator \<Rightarrow> nat \<Rightarrow> size_t \<Rightarrow> cbb \<Rightarrow> size_t option \<times> cbb" where
  "CBB_add_space malloc = cbb_with_space (cbb_buffer_add malloc) malloc"

definition CBB_reserve :: "allocator \<Rightarrow> nat \<Rightarrow> size_t \<Rightarrow> cbb \<Rightarrow> size_t option \<times> cbb" where
  "CBB_reserve malloc = cbb_with_space (cbb_buffer_reserve malloc) malloc"

text \<open>
  The two calls that neither flush nor look at \<open>error\<close>. Each dereferences \<open>cbb->base\<close> unchecked.
  \<open>CBB_did_write\<close> is undefined, the result \<open>None\<close>, where that pointer is null: after \<open>CBB_finish\<close>, and at
  the level of a child that has been flushed or discarded. \<open>CBB_discard_child\<close> detaches the child only:
  a child of the discarded child keeps its pointer to the buffer and goes on writing to it, with no
  parent to fill in its length. No chain describes that state, so the result is \<open>None\<close> here as well; the
  model covers the discarding of a child that has no open child itself.
\<close>

definition CBB_did_write :: "nat \<Rightarrow> size_t \<Rightarrow> cbb \<Rightarrow> (bool \<times> cbb) option" where
  "CBB_did_write k n c =
     (case cbb_base c of
        None \<Rightarrow> None
      | Some b \<Rightarrow>
          if length (cbb_children c) < k then None
          else
            let newlen = bb_len b + n in
            if k < length (cbb_children c) \<or> newlen < bb_len b \<or> bb_cap b < newlen then Some (False, c)
            else Some (True, c\<lparr>cbb_base := Some (b\<lparr>bb_len := newlen\<rparr>)\<rparr>))"

definition CBB_discard_child :: "nat \<Rightarrow> cbb \<Rightarrow> cbb option" where
  "CBB_discard_child k c =
     (if length (cbb_children c) \<le> k then Some c
      else if Suc k < length (cbb_children c) then None
      else
        (case cbb_base c of
           None \<Rightarrow> None
         | Some b \<Rightarrow>
             Some (c\<lparr>cbb_base := Some (b\<lparr>bb_len := fr_offset (cbb_children c ! k)\<rparr>),
                     cbb_children := take k (cbb_children c)\<rparr>)))"

section \<open>ASN.1\<close>

function base128_len :: "u64 \<Rightarrow> nat" where
  "base128_len copy = (if 0 < copy then Suc (base128_len (drop_bit 7 copy)) else 0)"
  by pat_completeness auto
termination
proof (relation "measure unat")
  fix v :: u64
  assume "0 < v"
  then have "0 < unat v" by (simp add: word_less_nat_alt)
  then show "(drop_bit 7 v, v) \<in> measure unat"
    by (simp add: drop_bit_eq_div unat_div_distrib)
qed simp

declare base128_len.simps [simp del]

text \<open>The loop \<open>for (i = len_len - 1; i < len_len; i--)\<close> that adds byte \<open>i\<close>.\<close>

fun add_base128_loop :: "allocator \<Rightarrow> nat \<Rightarrow> u64 \<Rightarrow> nat \<Rightarrow> cbb \<Rightarrow> bool \<times> cbb" where
  "add_base128_loop malloc k v 0 c = (True, c)"
| "add_base128_loop malloc k v (Suc i) c =
     (let byte = ucast (drop_bit (7 * i) v) AND 0x7f;
          byte = (if i \<noteq> 0 then byte OR 0x80 else byte)
      in cbb_seq (CBB_add_u8 malloc k byte) (add_base128_loop malloc k v i) c)"

definition add_base128_integer :: "allocator \<Rightarrow> nat \<Rightarrow> u64 \<Rightarrow> cbb \<Rightarrow> bool \<times> cbb" where
  "add_base128_integer malloc k v =
     (let len_len = base128_len v in
      add_base128_loop malloc k v (if len_len = 0 then 1 else len_len))"

definition CBB_add_asn1 :: "allocator \<Rightarrow> nat \<Rightarrow> u32 \<Rightarrow> cbb \<Rightarrow> bool \<times> cbb" where
  "CBB_add_asn1 malloc k tag =
     (let tag_bits = ucast (drop_bit CBS_ASN1_TAG_SHIFT tag) AND 0xe0;
          tag_number = tag AND CBS_ASN1_TAG_NUMBER_MASK
      in cbb_seq (CBB_flush malloc k) (cbb_seq
           (if 0x1f \<le> tag_number then
              cbb_seq (CBB_add_u8 malloc k (tag_bits OR 0x1f))
                (add_base128_integer malloc k (ucast tag_number))
            else CBB_add_u8 malloc k (tag_bits OR ucast tag_number))
           (\<lambda>c. case cbb_base c of
                  None \<Rightarrow> (False, c)
                | Some b \<Rightarrow>
                    (case CBB_add_u8 malloc k 0 c of
                       (False, c') \<Rightarrow> (False, c')
                     | (True, c') \<Rightarrow>
                         (True, push_child k
                            \<lparr>fr_offset = bb_len b, fr_pending_len_len = 1, fr_pending_is_asn1 = True\<rparr> c')))))"

text \<open>The loop over the eight bytes of the value, most significant first.\<close>

fun asn1_uint64_bytes :: "allocator \<Rightarrow> nat \<Rightarrow> bool \<Rightarrow> bytes \<Rightarrow> cbb \<Rightarrow> bool \<times> cbb" where
  "asn1_uint64_bytes malloc k started [] c =
     (if \<not> started then CBB_add_u8 malloc k 0 c else (True, c))"
| "asn1_uint64_bytes malloc k started (byte # rest) c =
     (if \<not> started \<and> byte = 0 then asn1_uint64_bytes malloc k False rest c
      else
        cbb_seq (\<lambda>c. if \<not> started \<and> byte AND 0x80 \<noteq> 0 then CBB_add_u8 malloc k 0 c else (True, c))
          (cbb_seq (CBB_add_u8 malloc k byte) (asn1_uint64_bytes malloc k True rest)) c)"

definition value_bytes :: "u64 \<Rightarrow> bytes" where
  "value_bytes v = map (\<lambda>i. ucast (drop_bit (8 * (7 - i)) v) AND 0xff) [0..<8]"

definition CBB_add_asn1_uint64 :: "allocator \<Rightarrow> nat \<Rightarrow> u64 \<Rightarrow> cbb \<Rightarrow> bool \<times> cbb" where
  "CBB_add_asn1_uint64 malloc k v =
     cbb_seq (CBB_add_asn1 malloc k CBS_ASN1_INTEGER)
       (cbb_seq (asn1_uint64_bytes malloc (Suc k) False (value_bytes v)) (CBB_flush malloc k))"

text \<open>\<open>u.bytes\<close>, the bytes of the value on the little-endian targets, and the bytes kept.\<close>

fun skip_sign :: "bytes \<Rightarrow> bytes" where
  "skip_sign (a # b # bs) =
     (if a = 0xff \<and> b AND 0x80 \<noteq> 0 then skip_sign (b # bs) else a # b # bs)"
| "skip_sign bs = bs"

fun add_each_u8 :: "allocator \<Rightarrow> nat \<Rightarrow> bytes \<Rightarrow> cbb \<Rightarrow> bool \<times> cbb" where
  "add_each_u8 malloc k [] c = (True, c)"
| "add_each_u8 malloc k (b # bs) c = cbb_seq (CBB_add_u8 malloc k b) (add_each_u8 malloc k bs) c"

definition CBB_add_asn1_int64 :: "allocator \<Rightarrow> nat \<Rightarrow> u64 \<Rightarrow> cbb \<Rightarrow> bool \<times> cbb" where
  "CBB_add_asn1_int64 malloc k v =
     (if 0 \<le> sint v then CBB_add_asn1_uint64 malloc k v
      else
        cbb_seq (CBB_add_asn1 malloc k CBS_ASN1_INTEGER)
          (cbb_seq (add_each_u8 malloc (Suc k) (skip_sign (value_bytes v))) (CBB_flush malloc k)))"

definition CBB_add_asn1_octet_string :: "allocator \<Rightarrow> nat \<Rightarrow> bytes \<Rightarrow> size_t \<Rightarrow> cbb \<Rightarrow> bool \<times> cbb" where
  "CBB_add_asn1_octet_string malloc k p n =
     cbb_seq (CBB_add_asn1 malloc k CBS_ASN1_OCTETSTRING)
       (cbb_seq (CBB_add_bytes malloc (Suc k) p n) (CBB_flush malloc k))"

definition CBB_add_asn1_bool :: "allocator \<Rightarrow> nat \<Rightarrow> int \<Rightarrow> cbb \<Rightarrow> bool \<times> cbb" where
  "CBB_add_asn1_bool malloc k v =
     cbb_seq (CBB_add_asn1 malloc k CBS_ASN1_BOOLEAN)
       (cbb_seq (CBB_add_u8 malloc (Suc k) (if v \<noteq> 0 then 0xff else 0)) (CBB_flush malloc k))"

section \<open>Object identifiers\<close>

text \<open>
  \<open>parse_dotted_decimal\<close>: the digits accumulated so far and whether one was seen. The string
  ends at its end or at a dot that is not its last character.
\<close>

function dotted_loop :: "u64 \<Rightarrow> bool \<Rightarrow> u64 cbs_op" where
  "dotted_loop v seen_digit c =
     (case CBS_get_u8 c of
        (None, c') \<Rightarrow> (if seen_digit then Some v else None, c')
      | (Some u, c') \<Rightarrow>
          if u = 0x2e \<and> 0 < Cbs.CBS_len c' then (if seen_digit then Some v else None, c')
          else if u < 0x30 \<or> 0x39 < u \<or> seen_digit \<and> v = 0 \<or>
            (- 1) div 10 < v \<or> - 1 - (ucast u - 0x30) < v * 10
          then (None, c')
          else dotted_loop (v * 10 + (ucast u - 0x30)) True c')"
  by pat_completeness auto
termination
  by (relation "measure (\<lambda>(v, seen_digit, c). unat (cbs_len c))") (auto dest: sym CBS_get_u8_shorter)

declare dotted_loop.simps [simp del]

definition parse_dotted_decimal :: "u64 cbs_op" where
  "parse_dotted_decimal = dotted_loop 0 False"

lemma dotted_loop_len: "dotted_loop v seen c = (x, c') \<Longrightarrow> unat (cbs_len c') \<le> unat (cbs_len c)"
proof (induction v seen c rule: dotted_loop.induct)
  case (1 v seen c)
  show ?case
  proof (cases "CBS_get_u8 c")
    case (Pair r c1)
    have fail: "c1 = c" if "r = None"
      using Pair that
      by (auto simp: CBS_get_u8_def and_then_def cbs_get_def cbs_return_def split: if_splits)
    show ?thesis
    proof (cases r)
      case None
      with fail Pair "1.prems" show ?thesis by (simp add: dotted_loop.simps [of v seen c])
    next
      case (Some u)
      with Pair have lt: "unat (cbs_len c1) < unat (cbs_len c)"
        by (auto dest: CBS_get_u8_shorter)
      show ?thesis
        using "1.prems" "1.IH" [OF Pair [symmetric] Some] Pair Some lt
        by (auto simp: dotted_loop.simps [of v seen c] split: if_splits)
    qed
  qed
qed

lemma dotted_loop_shorter:
  assumes "dotted_loop v False c = (Some x, c')"
  shows "unat (cbs_len c') < unat (cbs_len c)"
proof (cases "CBS_get_u8 c")
  case (Pair r c1)
  show ?thesis
  proof (cases r)
    case None
    with Pair assms show ?thesis by (simp add: dotted_loop.simps [of v False c])
  next
    case (Some u)
    with Pair have lt: "unat (cbs_len c1) < unat (cbs_len c)"
      by (auto dest: CBS_get_u8_shorter)
    with Pair Some assms show ?thesis
      by (auto simp: dotted_loop.simps [of v False c] split: if_splits dest: dotted_loop_len)
  qed
qed

lemma parse_dotted_decimal_shorter:
  "parse_dotted_decimal c = (Some x, c') \<Longrightarrow> unat (cbs_len c') < unat (cbs_len c)"
  unfolding parse_dotted_decimal_def by (rule dotted_loop_shorter)

text \<open>The loop over the remaining components.\<close>

function add_oid_rest :: "allocator \<Rightarrow> nat \<Rightarrow> cbs \<Rightarrow> cbb \<Rightarrow> bool \<times> cbb" where
  "add_oid_rest malloc k cbs c =
     (if Cbs.CBS_len cbs = 0 then (True, c)
      else
        (case parse_dotted_decimal cbs of
           (None, _) \<Rightarrow> (False, c)
         | (Some a, cbs') \<Rightarrow> cbb_seq (add_base128_integer malloc k a) (add_oid_rest malloc k cbs') c))"
  by pat_completeness auto
termination
  by (relation "measure (\<lambda>(malloc, k, cbs, c). unat (cbs_len cbs))")
    (auto dest: sym parse_dotted_decimal_shorter)

declare add_oid_rest.simps [simp del]

definition CBB_add_asn1_oid_from_text :: "allocator \<Rightarrow> nat \<Rightarrow> bytes \<Rightarrow> size_t \<Rightarrow> cbb \<Rightarrow> bool \<times> cbb" where
  "CBB_add_asn1_oid_from_text malloc k txt n =
     cbb_seq (CBB_flush malloc k) (\<lambda>c.
       case and_then parse_dotted_decimal (\<lambda>a.
              and_then parse_dotted_decimal (\<lambda>b. cbs_return (a, b))) (CBS_init txt n) of
         (None, _) \<Rightarrow> (False, c)
       | (Some (a, b), cbs) \<Rightarrow>
           if 2 < a \<or> a < 2 \<and> 39 < b \<or> - 1 - 80 < b then (False, c)
           else cbb_seq (add_base128_integer malloc k (40 * a + b)) (add_oid_rest malloc k cbs) c)"

text \<open>
  \<open>add_decimal\<close>: the C library prints a \<open>uint64_t\<close> in decimal; 20 digits and the terminator fit the
  buffer.
\<close>

fun decimal :: "nat \<Rightarrow> bytes" where
  "decimal n = (if n < 10 then [of_nat (48 + n)] else decimal (n div 10) @ [of_nat (48 + n mod 10)])"

declare decimal.simps [simp del]

definition add_decimal :: "allocator \<Rightarrow> u64 \<Rightarrow> cbb \<Rightarrow> bool \<times> cbb" where
  "add_decimal malloc v =
     (let buf = decimal (unat v) in CBB_add_bytes malloc 0 buf (of_nat (length buf)))"

lemma base128_loop_len: "base128_loop v c = (Some x, c') \<Longrightarrow> unat (cbs_len c') < unat (cbs_len c)"
proof (induction v c rule: base128_loop.induct)
  case (1 v c)
  obtain b c1 where g: "CBS_get_u8 c = (Some b, c1)"
    using "1.prems" by (auto simp: base128_loop.simps [of v c] split: prod.splits option.splits)
  from CBS_get_u8_shorter [OF this] "1.prems" "1.IH" [OF g [symmetric] refl] g show ?case
    by (auto simp: base128_loop.simps [of v c] Let_def split: if_splits)
qed

lemma parse_base128_shorter:
  "parse_base128_integer c = (Some x, c') \<Longrightarrow> unat (cbs_len c') < unat (cbs_len c)"
  unfolding parse_base128_integer_def by (rule base128_loop_len)

function oid_text_rest :: "allocator \<Rightarrow> cbs \<Rightarrow> cbb \<Rightarrow> bool \<times> cbb" where
  "oid_text_rest malloc copy c =
     (if Cbs.CBS_len copy = 0 then (True, c)
      else
        (case parse_base128_integer copy of
           (None, _) \<Rightarrow> (False, c)
         | (Some v, copy') \<Rightarrow>
             cbb_seq (CBB_add_u8 malloc 0 0x2e)
               (cbb_seq (add_decimal malloc v) (oid_text_rest malloc copy')) c))"
  by pat_completeness auto
termination
  by (relation "measure (\<lambda>(malloc, copy, c). unat (cbs_len copy))")
    (auto dest: sym parse_base128_shorter)

declare oid_text_rest.simps [simp del]

text \<open>The text with its terminator, or null.\<close>

definition CBS_asn1_oid_to_text :: "allocator \<Rightarrow> cbs \<Rightarrow> (heap_block option \<times> size_t) option" where
  "CBS_asn1_oid_to_text malloc cbs =
     (case CBB_init malloc 32 of
        (False, _) \<Rightarrow> None
      | (True, cbb) \<Rightarrow>
          (case parse_base128_integer cbs of
             (None, _) \<Rightarrow> None
           | (Some v, copy) \<Rightarrow>
               (case cbb_seq
                       (if 80 \<le> v then
                          cbb_seq (CBB_add_bytes malloc 0 [0x32, 0x2e] 2) (add_decimal malloc (v - 80))
                        else
                          cbb_seq (add_decimal malloc (v div 40))
                            (cbb_seq (CBB_add_u8 malloc 0 0x2e) (add_decimal malloc (v mod 40))))
                       (cbb_seq (oid_text_rest malloc copy) (CBB_add_u8 malloc 0 0)) cbb of
                  (False, _) \<Rightarrow> None
                | (True, cbb') \<Rightarrow> fst (CBB_finish malloc 0 True True cbb'))))"

section \<open>Sorting the elements of a SET OF\<close>

text \<open>The C library's \<open>memcmp\<close>: the sign of the first difference.\<close>

fun memcmp :: "bytes \<Rightarrow> bytes \<Rightarrow> int" where
  "memcmp (a # as) (b # bs) = (if a < b then - 1 else if b < a then 1 else memcmp as bs)"
| "memcmp _ _ = 0"

definition compare_set_of_element :: "cbs \<Rightarrow> cbs \<Rightarrow> int" where
  "compare_set_of_element a b =
     (let a_len = Cbs.CBS_len a; b_len = Cbs.CBS_len b;
          min_len = (if a_len < b_len then a_len else b_len);
          ret = memcmp (take (unat min_len) (Cbs.CBS_data a)) (take (unat min_len) (Cbs.CBS_data b))
      in if ret \<noteq> 0 then ret
         else if a_len = b_len then 0
         else if a_len < b_len then - 1 else 1)"

text \<open>
  The C library's \<open>qsort\<close> with a comparison function. Elements that compare equal have the same
  bytes here, so the order it leaves them in does not show.
\<close>

fun insert_by :: "('a \<Rightarrow> 'a \<Rightarrow> int) \<Rightarrow> 'a \<Rightarrow> 'a list \<Rightarrow> 'a list" where
  "insert_by cmp x [] = [x]"
| "insert_by cmp x (y # ys) = (if cmp x y \<le> 0 then x # y # ys else y # insert_by cmp x ys)"

definition qsort :: "('a \<Rightarrow> 'a \<Rightarrow> int) \<Rightarrow> 'a list \<Rightarrow> 'a list" where
  "qsort cmp xs = foldr (insert_by cmp) xs []"

text \<open>
  The elements of the contents, one after the other, or \<open>None\<close> when they are not DER. Each element
  has at least two bytes, so the length of the contents is fuel enough.
\<close>

fun set_of_elements :: "nat \<Rightarrow> cbs \<Rightarrow> cbs list option" where
  "set_of_elements 0 c = (if Cbs.CBS_len c = 0 then Some [] else None)"
| "set_of_elements (Suc n) c =
     (if Cbs.CBS_len c = 0 then Some []
      else
        (case CBS_get_any_asn1_element c of
           (None, _) \<Rightarrow> None
         | (Some (elt, _, _), c') \<Rightarrow> map_option ((#) elt) (set_of_elements n c')))"

fun add_children :: "allocator \<Rightarrow> nat \<Rightarrow> cbs list \<Rightarrow> cbb \<Rightarrow> bool \<times> cbb" where
  "add_children malloc k [] c = (True, c)"
| "add_children malloc k (x # xs) c =
     cbb_seq (CBB_add_bytes malloc k (Cbs.CBS_data x) (Cbs.CBS_len x)) (add_children malloc k xs) c"

definition sizeof_CBS :: nat where
  "sizeof_CBS = 16"

definition CBB_flush_asn1_set_of :: "allocator \<Rightarrow> nat \<Rightarrow> cbb \<Rightarrow> bool \<times> cbb" where
  "CBB_flush_asn1_set_of malloc k =
     cbb_seq (CBB_flush malloc k) (\<lambda>c.
       case set_of_elements (unat (CBB_len k c)) (CBS_init (CBB_data k c) (CBB_len k c)) of
         None \<Rightarrow> (False, c)
       | Some parsed \<Rightarrow>
           let num_children = length parsed in
           if num_children < 2 then (True, c)
           else if (2 ^ 64 - 1) div sizeof_CBS < num_children then (False, c)
           else
             let buf_len = CBB_len k c in
             (case (OPENSSL_memdup malloc (CBB_data k c) buf_len,
                    OPENSSL_malloc malloc (of_nat (num_children * sizeof_CBS))) of
                (Some buf, Some _) \<Rightarrow>
                  (case set_of_elements (unat buf_len) (CBS_init (blk_data buf) buf_len) of
                     None \<Rightarrow> (False, c)
                   | Some children \<Rightarrow>
                       add_children malloc k (qsort compare_set_of_element children)
                         (c\<lparr>cbb_base :=
                           map_option (bb_len_update (\<lambda>_. cbb_content_start k c)) (cbb_base c)\<rparr>))
              | _ \<Rightarrow> (False, c)))"

section \<open>The contract of the builder\<close>

text \<open>
  Abstractly a builder is a stack of open strings, the outermost first: how each is to be closed
  and what has been added to it since it was opened. The top-level string has no prefix. Closing a
  string puts its length in front of it and appends the result to the string around it.
\<close>

datatype kind = Prefix nat | Asn1

type_synonym level = "kind \<times> bytes"

fun plen :: "kind \<Rightarrow> nat" where
  "plen (Prefix n) = n"
| "plen Asn1 = 1"

fun close_level :: "kind \<Rightarrow> bytes \<Rightarrow> bytes option" where
  "close_level (Prefix n) d = (if length d < 256 ^ n then Some (be_bytes n (length d) @ d) else None)"
| "close_level Asn1 d = (if length d \<le> 0xfffffffe then Some (len_enc (length d) @ d) else None)"

fun close_all :: "level list \<Rightarrow> bytes option" where
  "close_all [] = Some []"
| "close_all ((kd, d) # ls) =
     (case close_all ls of None \<Rightarrow> None | Some t \<Rightarrow> close_level kd (d @ t))"

text \<open>What the buffer holds while the strings are open: zeros where the lengths will go.\<close>

definition layout :: "level list \<Rightarrow> bytes" where
  "layout ls = concat (map (\<lambda>(kd, d). replicate (plen kd) 0 @ d) ls)"

fun frames_ok :: "nat \<Rightarrow> level list \<Rightarrow> cbb_frame list \<Rightarrow> bool" where
  "frames_ok n [] [] = True"
| "frames_ok n ((kd, d) # ls) (f # fs) =
     (unat (fr_offset f) = n \<and> unat (fr_pending_len_len f) = plen kd \<and> 1 \<le> plen kd \<and> plen kd \<le> 8 \<and>
      fr_pending_is_asn1 f = (kd = Asn1) \<and> frames_ok (n + plen kd + length d) ls fs)"
| "frames_ok n _ _ = False"

text \<open>The allocator hands out what it was asked for, and no allocation is larger than an address space.\<close>

definition malloc_sane :: "allocator \<Rightarrow> bool" where
  "malloc_sane malloc \<longleftrightarrow>
     (\<forall>n raw. malloc n = Some raw \<longrightarrow> length raw = unat n \<and> unat n < 2 ^ 62)"

definition buffer_ok :: "cbb_buffer \<Rightarrow> bool" where
  "buffer_ok b \<longleftrightarrow>
     length (bb_mem b) = unat (bb_cap b) \<and> bb_len b \<le> bb_cap b \<and> unat (bb_cap b) < 2 ^ 62 \<and>
     (\<forall>k. bb_buf b = Some k \<longrightarrow> blk_size k = bb_cap b)"

definition bb_bytes :: "cbb_buffer \<Rightarrow> bytes" where
  "bb_bytes b = take (unat (bb_len b)) (bb_mem b)"

text \<open>\<open>room b n\<close>: \<open>n\<close> more bytes fit without growing the buffer.\<close>

definition room :: "cbb_buffer \<Rightarrow> nat \<Rightarrow> bool" where
  "room b n \<longleftrightarrow> unat (bb_len b) + n \<le> unat (bb_cap b)"

definition cbb_rel :: "cbb \<Rightarrow> level list \<Rightarrow> bool" where
  "cbb_rel c ls \<longleftrightarrow>
     (\<exists>b d ls'. ls = (Prefix 0, d) # ls' \<and> cbb_base c = Some b \<and> \<not> bb_error b \<and> buffer_ok b \<and>
        bb_bytes b = layout ls \<and> frames_ok (length d) ls' (cbb_children c))"

lemma length_bb_bytes: "buffer_ok b \<Longrightarrow> length (bb_bytes b) = unat (bb_len b)"
  by (simp add: buffer_ok_def bb_bytes_def word_le_nat_alt)

lemma buffer_ok_fail [simp]: "bb_error (bb_fail b)" "bb_len (bb_fail b) = bb_len b"
  by (simp_all add: bb_fail_def)

section \<open>The buffer\<close>

lemma bb_mem_simps [simp]:
  "bb_mem (bb_len_update f b) = bb_mem b" "bb_mem (bb_error_update g b) = bb_mem b"
  by (simp_all add: bb_mem_def)

lemma realloc_ok:
  assumes "malloc_sane malloc" and "unat n < 2 ^ 63"
    and "OPENSSL_realloc malloc orig n = (Some r, x)"
    and "case orig of None \<Rightarrow> True | Some b \<Rightarrow> length (blk_data b) = unat (blk_size b)"
  shows "length (blk_data r) = unat n \<and> blk_size r = n \<and> unat n < 2 ^ 62 \<and>
    (\<forall>b. orig = Some b \<longrightarrow> (\<forall>l. l \<le> unat (blk_size b) \<longrightarrow> l \<le> unat n \<longrightarrow>
       take l (blk_data r) = take l (blk_data b)))"
proof -
  have nw: "no_wrap n" using assms(2) by (simp add: no_wrap_def)
  have sound: "malloc_sound malloc" using assms(1) by (auto simp: malloc_sane_def malloc_sound_def)
  have small: "unat n < 2 ^ 62" if granted: "OPENSSL_malloc malloc n = Some b" for b
  proof -
    obtain raw where "malloc (n + 8) = Some raw"
      using granted by (auto simp: OPENSSL_malloc_def OPENSSL_MALLOC_PREFIX_def split: option.splits)
    then have "unat (n + 8) < 2 ^ 62" using assms(1) by (auto simp: malloc_sane_def)
    moreover have "unat (n + 8) = unat n + 8"
      using nw by (simp add: no_wrap_def unat_word_ariths)
    ultimately show ?thesis by simp
  qed
  show ?thesis
  proof (cases orig)
    case None
    with assms(3) have "OPENSSL_malloc malloc n = Some r"
      by (simp add: OPENSSL_realloc_def)
    from OPENSSL_malloc_ok [OF sound nw this] small [OF this] None show ?thesis
      by (simp add: block_ok_def)
  next
    case (Some b)
    with assms(3) obtain m where m: "OPENSSL_malloc malloc n = Some m"
      and r: "r = m\<lparr>blk_data := take (unat (if blk_size b < n then blk_size b else n)) (blk_data b)
        @ drop (unat (if blk_size b < n then blk_size b else n)) (blk_data m)\<rparr>"
      by (auto simp: OPENSSL_realloc_def Let_def split: option.splits)
    from OPENSSL_malloc_ok [OF sound nw m] have ok: "length (blk_data m) = unat n" "blk_size m = n"
      by (simp_all add: block_ok_def)
    with r small [OF m] Some assms(4) show ?thesis
      by (auto simp: word_less_nat_alt min_def)
  qed
qed

lemma reserve_cases:
  assumes buf: "buffer_ok b" and sane: "malloc_sane malloc" and n: "unat n < 2 ^ 62"
  obtains (fail) "cbb_buffer_reserve malloc n b = (None, bb_fail b)" "\<not> room b (unat n)"
  | (ok) b' where "cbb_buffer_reserve malloc n b = (Some (bb_len b), b')" "buffer_ok b'"
    "bb_len b' = bb_len b" "bb_error b' = bb_error b" "bb_can_resize b' = bb_can_resize b"
    "bb_bytes b' = bb_bytes b" "room b' (unat n)" "bb_cap b \<le> bb_cap b'"
proof -
  have cap: "unat (bb_cap b) < 2 ^ 62" and le: "unat (bb_len b) \<le> unat (bb_cap b)"
    using buf by (simp_all add: buffer_ok_def word_le_nat_alt)
  then have sum: "unat (bb_len b + n) = unat (bb_len b) + unat n"
    using n by (simp add: unat_word_ariths)
  then have no: "\<not> bb_len b + n < bb_len b" by (simp add: word_less_nat_alt)
  show ?thesis
  proof (cases "bb_cap b < bb_len b + n")
    case False
    then have "room b (unat n)" by (simp add: room_def sum word_less_nat_alt)
    with False no show ?thesis
      using assms(1) by (intro ok [of b]) (simp_all add: cbb_buffer_reserve_def)
  next
    case True
    then have nr: "\<not> room b (unat n)" by (simp add: room_def sum word_less_nat_alt)
    let ?two = "bb_cap b * 2"
    let ?cap = "if ?two < bb_cap b \<or> ?two < bb_len b + n then bb_len b + n else ?two"
    have two: "unat ?two = 2 * unat (bb_cap b)" using cap by (simp add: unat_word_ariths)
    have ncap: "unat ?cap < 2 ^ 63" "bb_len b + n \<le> ?cap" "bb_cap b \<le> ?cap"
      using cap n le True by (auto simp: sum two word_le_nat_alt word_less_nat_alt)
    show ?thesis
    proof (cases "bb_can_resize b")
      case False
      with True no nr show ?thesis
        by (intro fail) (simp_all add: cbb_buffer_reserve_def)
    next
      case resize: True
      obtain r x where re: "OPENSSL_realloc malloc (bb_buf b) ?cap = (r, x)"
        by (cases "OPENSSL_realloc malloc (bb_buf b) ?cap")
      show ?thesis
      proof (cases r)
        case None
        with True no nr resize re show ?thesis
          by (intro fail) (simp_all add: cbb_buffer_reserve_def Let_def)
      next
        case (Some k)
        let ?b = "b\<lparr>bb_buf := Some k, bb_cap := ?cap\<rparr>"
        have "case bb_buf b of None \<Rightarrow> True | Some b \<Rightarrow> length (blk_data b) = unat (blk_size b)"
          using buf by (auto simp: buffer_ok_def bb_mem_def split: option.splits)
        from realloc_ok [OF sane ncap(1) re [unfolded Some] this]
        have k: "length (blk_data k) = unat ?cap" "blk_size k = ?cap" "unat ?cap < 2 ^ 62"
          and pre: "\<And>q l. bb_buf b = Some q \<Longrightarrow> l \<le> unat (blk_size q) \<Longrightarrow> l \<le> unat ?cap \<Longrightarrow>
            take l (blk_data k) = take l (blk_data q)"
          by blast+
        have le': "unat (bb_len b) \<le> unat ?cap"
          using ncap(3) le by (simp add: word_le_nat_alt)
        have "buffer_ok ?b"
          using k le' by (simp add: buffer_ok_def bb_mem_def word_le_nat_alt)
        moreover have "bb_bytes ?b = bb_bytes b"
        proof (cases "bb_buf b")
          case None
          then have "unat (bb_len b) = 0" using buf le by (simp add: buffer_ok_def bb_mem_def)
          then show ?thesis by (simp add: bb_bytes_def)
        next
          case q: (Some q)
          then have "blk_size q = bb_cap b" using buf by (simp add: buffer_ok_def)
          with pre [OF q, of "unat (bb_len b)"] le le' q show ?thesis
            by (simp add: bb_bytes_def bb_mem_def)
        qed
        moreover have "room ?b (unat n)"
          using ncap(2) by (simp add: room_def sum word_le_nat_alt flip: sum)
        ultimately show ?thesis
          using True no resize re Some ncap(3)
          by (intro ok [of ?b]) (simp_all add: cbb_buffer_reserve_def Let_def)
      qed
    qed
  qed
qed

lemma add_cases:
  assumes buf: "buffer_ok b" and sane: "malloc_sane malloc" and n: "unat n < 2 ^ 62"
  obtains (fail) "cbb_buffer_add malloc n b = (None, bb_fail b)" "\<not> room b (unat n)"
  | (ok) b' where "cbb_buffer_add malloc n b = (Some (bb_len b), b')" "buffer_ok b'"
    "unat (bb_len b') = unat (bb_len b) + unat n" "bb_error b' = bb_error b"
    "take (unat (bb_len b)) (bb_bytes b') = bb_bytes b" "bb_cap b \<le> bb_cap b'"
proof (rule reserve_cases [OF assms])
  assume "cbb_buffer_reserve malloc n b = (None, bb_fail b)" "\<not> room b (unat n)"
  then show ?thesis by (intro fail) (simp_all add: cbb_buffer_add_def)
next
  fix b'
  assume r: "cbb_buffer_reserve malloc n b = (Some (bb_len b), b')" "buffer_ok b'"
    "bb_len b' = bb_len b" "bb_error b' = bb_error b"
    "bb_bytes b' = bb_bytes b" "room b' (unat n)" "bb_cap b \<le> bb_cap b'"
  let ?b = "b'\<lparr>bb_len := bb_len b' + n\<rparr>"
  have len: "unat (bb_len ?b) = unat (bb_len b) + unat n"
    using r(2,3) n by (simp add: buffer_ok_def word_le_nat_alt unat_word_ariths)
  have "buffer_ok ?b"
    using r(2,3,6) len by (simp add: buffer_ok_def room_def word_le_nat_alt)
  moreover have "take (unat (bb_len b)) (bb_bytes ?b) = bb_bytes b"
    using r(3,5) len by (simp add: bb_bytes_def min_absorb1 flip: r(5))
  ultimately show ?thesis
    using r len by (intro ok [of ?b]) (simp_all add: cbb_buffer_add_def)
qed

lemma bb_store_simps [simp]:
  "bb_len (bb_store i bs b) = bb_len b" "bb_cap (bb_store i bs b) = bb_cap b"
  "bb_error (bb_store i bs b) = bb_error b" "bb_can_resize (bb_store i bs b) = bb_can_resize b"
  by (simp_all add: bb_store_def)

lemma take_blit_within:
  assumes "i + length src \<le> n" and "n \<le> length m"
  shows "take n (blit m i src) = blit (take n m) i src"
proof -
  have "i \<le> n" "length src \<le> n - i" using assms(1) by linarith+
  with assms show ?thesis
    by (simp add: blit_def drop_take min_absorb1 min_absorb2)
qed

lemma bb_store_ok:
  assumes buf: "buffer_ok b" and i: "i + length bs \<le> unat (bb_len b)"
  shows "buffer_ok (bb_store i bs b)" "bb_bytes (bb_store i bs b) = blit (bb_bytes b) i bs"
proof -
  have len: "unat (bb_len b) \<le> length (bb_mem b)"
    using buf by (simp add: buffer_ok_def word_le_nat_alt)
  have mem: "bb_mem (bb_store i bs b) = blit (bb_mem b) i bs"
  proof (cases "bb_buf b")
    case None
    with len i show ?thesis by (simp add: bb_mem_def bb_store_def blit_def)
  qed (simp add: bb_mem_def bb_store_def)
  with len i show "buffer_ok (bb_store i bs b)"
    using buf length_blit [of i bs "bb_mem b"]
    by (auto simp: buffer_ok_def bb_store_def split: option.splits)
  show "bb_bytes (bb_store i bs b) = blit (bb_bytes b) i bs"
    using take_blit_within [OF i len] by (simp add: bb_bytes_def mem)
qed

lemma blit_middle: "length x = length y \<Longrightarrow> blit (p @ x @ q) (length p) y = p @ y @ q"
  by (simp add: blit_def)

lemma blit_end: "take n b = p \<Longrightarrow> n \<le> length b \<Longrightarrow> length b = n + length y \<Longrightarrow> blit b n y = p @ y"
  by (simp add: blit_def)

lemma u_bytes_eq: "u_bytes n v = (be_bytes n (unat v), drop_bit (8 * n) v)"
proof (induction n arbitrary: v)
  case 0
  then show ?case by simp
next
  case (Suc n)
  have "unat (drop_bit 8 v) = unat v div 256"
    by (simp add: drop_bit_eq_div unat_div_distrib)
  moreover have "ucast v = (of_nat (unat v mod 256) :: u8)"
    by (simp add: word_unat_eq_iff unsigned_ucast_eq take_bit_eq_mod unsigned_of_nat)
  ultimately show ?case
    using Suc [of "drop_bit 8 v"] by (simp add: ac_simps)
qed

lemma u_bytes_rest: "snd (u_bytes n v) = 0 \<longleftrightarrow> unat v < 256 ^ n"
  by (simp add: u_bytes_eq drop_bit_eq_0_u64 power_mult)

lemma asn1_len_form_eq:
  "asn1_len_form n =
    (if unat n < 128 then (1, of_nat (unat n), 0)
     else (of_nat (1 + len_size (unat n)), of_nat (128 + len_size (unat n)), n))"
proof -
  have or: "(0x80 OR 4 :: u8) = 132" "(0x80 OR 3 :: u8) = 131" "(0x80 OR 2 :: u8) = 130"
    "(0x80 OR 1 :: u8) = 129"
    by simp_all
  have lt: "0xffffff < n \<longleftrightarrow> 2 ^ 24 \<le> unat n" "0xffff < n \<longleftrightarrow> 2 ^ 16 \<le> unat n"
    "0xff < n \<longleftrightarrow> 2 ^ 8 \<le> unat n" "0x7f < n \<longleftrightarrow> 128 \<le> unat n"
    by (auto simp: word_less_nat_alt)
  show ?thesis
    unfolding asn1_len_form_def lt or
    by (auto simp: len_size_def)
qed

lemma write_prefix_ok:
  assumes buf: "buffer_ok b" and bytes: "bb_bytes b = p @ z @ d"
    and off: "unat (fr_offset f) = length p" and k: "unat (fr_pending_len_len f) = k"
    and z: "length z = k"
  shows "\<exists>b'. write_prefix f n b = (unat n < 256 ^ k, b') \<and> buffer_ok b' \<and>
    bb_bytes b' = p @ be_bytes k (unat n) @ d \<and> bb_error b' = bb_error b \<and> bb_cap b' = bb_cap b"
proof -
  have "length (bb_bytes b) = unat (bb_len b)" by (rule length_bb_bytes [OF buf])
  then have "length p + length (be_bytes k (unat n)) \<le> unat (bb_len b)"
    by (simp add: bytes z)
  note st = bb_store_ok [OF buf this]
  have "bb_bytes (bb_store (length p) (be_bytes k (unat n)) b) = p @ be_bytes k (unat n) @ d"
    unfolding st(2) bytes by (rule blit_middle) (simp add: z)
  with st(1) show ?thesis
    using u_bytes_rest [of k n] by (simp add: write_prefix_def k off u_bytes_eq)
qed

section \<open>Flushing closes the open strings\<close>

definition frame_of :: "cbb_frame \<Rightarrow> nat \<Rightarrow> kind \<Rightarrow> bool" where
  "frame_of f n kd \<longleftrightarrow>
     unat (fr_offset f) = n \<and> unat (fr_pending_len_len f) = plen kd \<and> 1 \<le> plen kd \<and> plen kd \<le> 8 \<and>
     fr_pending_is_asn1 f = (kd = Asn1)"

lemma frames_ok_Cons:
  "frames_ok n ((kd, d) # ls) (f # fs) \<longleftrightarrow> frame_of f n kd \<and> frames_ok (n + plen kd + length d) ls fs"
  by (simp add: frame_of_def)

declare frames_ok.simps(2) [simp del]
declare frames_ok_Cons [simp]

lemma close_prefix:
  assumes buf: "buffer_ok b" and f: "frame_of f (length p) (Prefix k)"
    and bytes: "bb_bytes b = p @ replicate k 0 @ d" and cs: "unat cs = length p + k"
  shows "\<exists>b'. close_child malloc f cs b = (length d < 256 ^ k, b') \<and> buffer_ok b' \<and>
    bb_bytes b' = p @ be_bytes k (length d) @ d \<and> bb_error b' = bb_error b \<and> bb_cap b' = bb_cap b"
proof -
  have "length p + k + length d = unat (bb_len b)"
    using length_bb_bytes [OF buf] by (simp add: bytes)
  then have n: "unat (bb_len b - cs) = length d"
    using cs by (simp add: unat_sub_if_size)
  from f have "unat (fr_offset f) = length p" "unat (fr_pending_len_len f) = k"
    "\<not> fr_pending_is_asn1 f"
    by (simp_all add: frame_of_def)
  from write_prefix_ok [OF buf bytes this(1,2), of "bb_len b - cs"] this(3) show ?thesis
    by (simp add: close_child_def Let_def n)
qed

text \<open>What both forms of an ASN.1 length start from.\<close>

lemma close_asn1_start:
  assumes buf: "buffer_ok b" and f: "frame_of f (length p) Asn1"
    and bytes: "bb_bytes b = p @ [0] @ d" and cs: "unat cs = length p + 1"
  shows "length p + 1 + length d = unat (bb_len b)" "unat (bb_len b - cs) = length d"
    "unat (fr_offset f) = length p" "fr_pending_is_asn1 f" "unat (fr_offset f + 1) = length p + 1"
    "0xfffffffe < bb_len b - cs \<longleftrightarrow> 0xfffffffe < length d"
proof -
  show len: "length p + 1 + length d = unat (bb_len b)"
    using length_bb_bytes [OF buf] by (simp add: bytes)
  then show n: "unat (bb_len b - cs) = length d"
    using cs by (simp add: unat_sub_if_size)
  from f show off: "unat (fr_offset f) = length p" and "fr_pending_is_asn1 f"
    by (simp_all add: frame_of_def)
  show "unat (fr_offset f + 1) = length p + 1"
    using off len buf by (simp add: unat_word_ariths buffer_ok_def word_le_nat_alt)
  show "0xfffffffe < bb_len b - cs \<longleftrightarrow> 0xfffffffe < length d"
    by (simp add: word_less_nat_alt n)
qed

lemma close_asn1_short:
  assumes buf: "buffer_ok b" and f: "frame_of f (length p) Asn1"
    and bytes: "bb_bytes b = p @ [0] @ d" and cs: "unat cs = length p + 1" and short: "length d < 128"
  shows "\<exists>b'. close_child malloc f cs b = (True, b') \<and> buffer_ok b' \<and>
    bb_bytes b' = p @ len_enc (length d) @ d \<and> bb_error b' = bb_error b \<and> bb_cap b' = bb_cap b"
proof -
  note start = close_asn1_start [OF buf f bytes cs]
  have form: "asn1_len_form (bb_len b - cs) = (1, of_nat (length d), 0)"
    using short by (simp add: asn1_len_form_eq start(2))
  let ?b = "bb_store (length p) [of_nat (length d)] b"
  let ?f = "f\<lparr>fr_offset := fr_offset f + 1, fr_pending_len_len := 0\<rparr>"
  have st: "buffer_ok ?b" "bb_bytes ?b = (p @ [of_nat (length d)]) @ [] @ d"
    using bb_store_ok [OF buf, of "length p" "[of_nat (length d)]"] start(1)
      blit_middle [of "[0]" "[of_nat (length d)]" p d]
    by (simp_all add: bytes)
  have "unat (fr_offset ?f) = length (p @ [of_nat (length d) :: u8])" "unat (fr_pending_len_len ?f) = 0"
    using start(5) by simp_all
  from write_prefix_ok [OF st this, of 0]
  obtain b' where "write_prefix ?f 0 ?b = (True, b')" "buffer_ok b'"
    "bb_bytes b' = p @ [of_nat (length d)] @ d" "bb_error b' = bb_error b" "bb_cap b' = bb_cap b"
    by auto
  with short start show ?thesis
    by (simp add: close_child_def Let_def form len_enc_def)
qed

lemma unat_ucast_u8 [simp]: "unat (ucast (x :: u8) :: size_t) = unat x"
proof -
  have "unat x < 2 ^ 64" by (rule less_trans [OF unat_less_256]) simp
  then show ?thesis by (simp add: unsigned_ucast_eq take_bit_nat_eq_self)
qed

lemma blit_to_end: "i + length y = length m \<Longrightarrow> blit m i y = take i m @ y"
  by (simp add: blit_def)

lemma take_drop_mem:
  "buffer_ok b \<Longrightarrow> i + n \<le> unat (bb_len b) \<Longrightarrow> take n (drop i (bb_mem b)) = take n (drop i (bb_bytes b))"
  by (simp add: bb_bytes_def drop_take min_absorb1)

lemma close_asn1_long:
  assumes buf: "buffer_ok b" and f: "frame_of f (length p) Asn1" and sane: "malloc_sane malloc"
    and bytes: "bb_bytes b = p @ [0] @ d" and cs: "unat cs = length p + 1"
    and long: "128 \<le> length d" "length d \<le> 0xfffffffe"
  obtains (fail) b' where "close_child malloc f cs b = (False, b')" "\<not> room b 4"
  | (closed) b' where "close_child malloc f cs b = (True, b')" "buffer_ok b'"
    "bb_bytes b' = p @ len_enc (length d) @ d" "bb_error b' = bb_error b" "bb_cap b \<le> bb_cap b'"
proof -
  note start = close_asn1_start [OF buf f bytes cs]
  define k where "k = len_size (length d)"
  have k: "1 \<le> k" "k \<le> 4" "length d < 256 ^ k"
    using long len_size_bounds [of "length d"] by (simp_all add: k_def)
  define n where "n = bb_len b - cs"
  have n: "unat n = length d" using start(2) by (simp add: n_def)
  define l :: size_t where "l = of_nat (1 + k)"
  have form: "asn1_len_form n = (l, of_nat (128 + k), n)"
    using long by (simp add: asn1_len_form_eq n k_def l_def)
  have extra: "l - 1 = of_nat k" and uk: "unat (of_nat k :: size_t) = k"
    and ck: "unat (ucast (of_nat k :: size_t) :: u8) = k" and ne: "l \<noteq> 1"
  proof -
    have "k = 1 \<or> k = 2 \<or> k = 3 \<or> k = 4" using k(1,2) by linarith
    then show "l - 1 = of_nat k" "unat (of_nat k :: size_t) = k"
      "unat (ucast (of_nat k :: size_t) :: u8) = k" "l \<noteq> 1"
      by (elim disjE; simp add: l_def)+
  qed
  show ?thesis
  proof (rule add_cases [OF buf sane, of "of_nat k"])
    show "unat (of_nat k :: size_t) < 2 ^ 62" using k(2) by (simp add: uk)
  next
    assume "cbb_buffer_add malloc (of_nat k) b = (None, bb_fail b)" "\<not> room b (unat (of_nat k :: size_t))"
    then show ?thesis
      using start k long
      by (intro fail [of "bb_fail b"])
        (simp_all add: close_child_def n_def [symmetric] form extra ne uk room_def del: of_nat_add)
  next
    fix b1
    assume a: "cbb_buffer_add malloc (of_nat k) b = (Some (bb_len b), b1)" "buffer_ok b1"
      "unat (bb_len b1) = unat (bb_len b) + unat (of_nat k :: size_t)" "bb_error b1 = bb_error b"
      "take (unat (bb_len b)) (bb_bytes b1) = bb_bytes b" "bb_cap b \<le> bb_cap b1"
    define j where "j = drop (unat (bb_len b)) (bb_bytes b1)"
    have b1: "bb_bytes b1 = p @ [0] @ d @ j"
      using append_take_drop_id [of "unat (bb_len b)" "bb_bytes b1"] by (simp add: a(5) bytes j_def)
    have j: "length j = k"
      using length_bb_bytes [OF a(2)] a(3) by (simp add: j_def uk)
    have lens: "unat (bb_len b1) = length p + 1 + length d + k"
      using a(3) start(1) by (simp add: uk)
    have csk: "unat (cs + of_nat k) = length p + 1 + k"
      using cs k(2) start(1) buf
      by (simp add: unat_word_ariths uk buffer_ok_def word_le_nat_alt)
    have moved: "take (length d) (drop (unat cs) (bb_mem b1)) = d"
      using take_drop_mem [OF a(2), of "unat cs" "length d"] lens by (simp add: cs b1)
    let ?x = "take k (d @ j)"
    define b2 where "b2 = bb_store (length p + 1 + k) d b1"
    have b2: "bb_len b2 = bb_len b1" "buffer_ok b2" "bb_bytes b2 = p @ [0] @ ?x @ d"
      using bb_store_ok [OF a(2), of "length p + 1 + k" d] lens
        blit_to_end [of "length p + 1 + k" d "bb_bytes b1"]
      by (simp_all add: b2_def b1 j)
    let ?c = "of_nat (128 + k) :: u8"
    let ?b3 = "bb_store (length p) [?c] b2"
    have b3: "buffer_ok ?b3" "bb_bytes ?b3 = (p @ [?c]) @ ?x @ d"
      using bb_store_ok [OF b2(2), of "length p" "[?c]"] lens
        blit_middle [of "[0]" "[?c]" p "?x @ d"]
      by (simp_all only: b2 append.simps append_assoc length_Cons list.size)
    let ?f = "f\<lparr>fr_offset := fr_offset f + 1, fr_pending_len_len := ucast (of_nat k :: size_t)\<rparr>"
    have "unat (fr_offset ?f) = length (p @ [?c])" "unat (fr_pending_len_len ?f) = k" "length ?x = k"
      using start(5) by (simp_all add: ck j)
    from write_prefix_ok [OF b3 this, of n] k(3) obtain b' where w:
      "write_prefix ?f n ?b3 = (True, b')" "buffer_ok b'"
      "bb_bytes b' = (p @ [?c]) @ be_bytes k (length d) @ d" "bb_error b' = bb_error b1"
      "bb_cap b' = bb_cap b1"
      by (auto simp: n b2_def)
    have "close_child malloc f cs b = (True, b')"
      using start long w(1) a(1)
      by (simp add: close_child_def n_def [symmetric] form extra ne csk moved uk b2_def del: of_nat_add)
    with w a show ?thesis
      using long by (intro closed [of b']) (simp_all add: len_enc_def k_def [symmetric] del: of_nat_add)
  qed
qed

text \<open>Closing a child, whatever its prefix.\<close>

lemma close_cases:
  assumes buf: "buffer_ok b" and f: "frame_of f (length p) kd" and sane: "malloc_sane malloc"
    and bytes: "bb_bytes b = p @ replicate (plen kd) 0 @ d" and cs: "unat cs = length p + plen kd"
  obtains (fail) b' where "close_child malloc f cs b = (False, b')"
      "close_level kd d = None \<or> \<not> room b 4"
  | (closed) b' t where "close_child malloc f cs b = (True, b')" "buffer_ok b'"
      "close_level kd d = Some t" "bb_bytes b' = p @ t" "bb_error b' = bb_error b" "bb_cap b \<le> bb_cap b'"
proof (cases kd)
  case (Prefix k)
  have "bb_bytes b = p @ replicate k 0 @ d" "unat cs = length p + k"
    using bytes cs by (simp_all add: Prefix)
  from close_prefix [OF buf f [unfolded Prefix] this]
  obtain b' where "close_child malloc f cs b = (length d < 256 ^ k, b')" "buffer_ok b'"
    "bb_bytes b' = p @ be_bytes k (length d) @ d" "bb_error b' = bb_error b" "bb_cap b' = bb_cap b"
    by blast
  with Prefix show ?thesis
    by (cases "length d < 256 ^ k") (auto intro: fail closed)
next
  case Asn1
  have f': "frame_of f (length p) Asn1" and bytes': "bb_bytes b = p @ [0] @ d"
    and cs': "unat cs = length p + 1"
    using f bytes cs by (simp_all add: Asn1)
  consider "length d < 128" | "128 \<le> length d" "length d \<le> 0xfffffffe" | "0xfffffffe < length d"
    by linarith
  then show ?thesis
  proof cases
    case 1
    from close_asn1_short [OF buf f' bytes' cs' this] obtain b' where
      "close_child malloc f cs b = (True, b')" "buffer_ok b'"
      "bb_bytes b' = p @ len_enc (length d) @ d" "bb_error b' = bb_error b" "bb_cap b' = bb_cap b"
      by blast
    with 1 Asn1 show ?thesis by (intro closed [of b' "len_enc (length d) @ d"]) auto
  next
    case 2
    show ?thesis
    proof (rule close_asn1_long [OF buf f' sane bytes' cs' 2])
      fix b'
      assume "close_child malloc f cs b = (False, b')" "\<not> room b 4"
      then show ?thesis by (blast intro: fail)
    next
      fix b'
      assume "close_child malloc f cs b = (True, b')" "buffer_ok b'"
        "bb_bytes b' = p @ len_enc (length d) @ d" "bb_error b' = bb_error b" "bb_cap b \<le> bb_cap b'"
      with 2 Asn1 show ?thesis by (intro closed [of b' "len_enc (length d) @ d"]) auto
    qed
  next
    case 3
    with close_asn1_start [OF buf f' bytes' cs'] have "close_child malloc f cs b = (False, b)"
      by (simp add: close_child_def)
    with 3 Asn1 show ?thesis by (auto intro: fail)
  qed
qed

lemma close_level_length:
  assumes "close_level kd d = Some t"
  shows "plen kd + length d \<le> length t \<and> length t \<le> plen kd + length d + 4"
proof (cases kd)
  case (Prefix k)
  with assms show ?thesis by (auto split: if_splits)
next
  case Asn1
  with assms len_size_bounds [of "length d"] show ?thesis
    by (auto simp: len_enc_def split: if_splits)
qed


lemma layout_Cons: "layout ((kd, d) # ls) = replicate (plen kd) 0 @ d @ layout ls"
  by (simp add: layout_def)

lemma layout_Nil: "layout [] = []"
  by (simp add: layout_def)

lemma frames_ok_length: "frames_ok n ls fs \<Longrightarrow> length fs = length ls"
  by (induction n ls fs rule: frames_ok.induct) auto

text \<open>
  Flushing fails only when a string is too long for its prefix or the buffer cannot grow, and then
  the error is recorded; otherwise it replaces the open strings by their closed form.
\<close>

lemma flush_cases:
  assumes "buffer_ok b" and "\<not> bb_error b" and "malloc_sane malloc"
    and "bb_bytes b = p @ layout ls" and "frames_ok (length p) ls fs"
  shows "(\<exists>fs' b'. flush_children malloc fs b = (False, fs', b') \<and> bb_error b' \<and>
           (close_all ls = None \<or> \<not> room b (4 * length ls))) \<or>
         (\<exists>b' t. flush_children malloc fs b = (True, [], b') \<and> buffer_ok b' \<and> \<not> bb_error b' \<and>
           close_all ls = Some t \<and> bb_bytes b' = p @ t \<and> bb_cap b \<le> bb_cap b' \<and>
           length t \<le> length (layout ls) + 4 * length ls)"
  using assms(4,5)
proof (induction ls arbitrary: p fs)
  case Nil
  from frames_ok_length [OF Nil.prems(2)] assms Nil.prems show ?case
    by (simp add: layout_Nil)
next
  case (Cons l ls)
  obtain kd d where l: "l = (kd, d)" by (cases l)
  from Cons.prems(2) obtain f fs2 where fs: "fs = f # fs2"
    using frames_ok_length [OF Cons.prems(2)] by (cases fs) auto
  let ?q = "p @ replicate (plen kd) 0 @ d"
  from Cons.prems(2) have f: "frame_of f (length p) kd" and fs2: "frames_ok (length ?q) ls fs2"
    by (simp_all add: fs l add_ac)
  have bytes: "bb_bytes b = ?q @ layout ls"
    using Cons.prems(1) by (simp add: l layout_Cons)
  define cs where "cs = fr_offset f + ucast (fr_pending_len_len f)"
  have len: "unat (bb_len b) = length ?q + length (layout ls)"
    using length_bb_bytes [OF assms(1)] by (simp add: bytes)
  then have small: "length ?q < 2 ^ 62"
    using assms(1) by (simp add: buffer_ok_def word_le_nat_alt)
  have up: "unat (ucast (fr_pending_len_len f) :: size_t) = plen kd" "fr_pending_len_len f \<noteq> 0"
    "unat (fr_offset f) = length p"
    using f by (auto simp: frame_of_def unat_ucast_u8)
  then have cs: "unat cs = length p + plen kd" "\<not> cs < fr_offset f"
    using small by (simp_all add: cs_def unat_word_ariths word_less_nat_alt)
  consider (inner) fs' b' where "flush_children malloc fs2 b = (False, fs', b')" "bb_error b'"
      "close_all ls = None \<or> \<not> room b (4 * length ls)"
    | (closed) b1 t where "flush_children malloc fs2 b = (True, [], b1)" "buffer_ok b1"
      "\<not> bb_error b1" "close_all ls = Some t" "bb_bytes b1 = ?q @ t" "bb_cap b \<le> bb_cap b1"
      "length t \<le> length (layout ls) + 4 * length ls"
    using Cons.IH [OF bytes fs2] by blast
  then show ?case
  proof cases
    case inner
    then have "close_all (l # ls) = None \<or> \<not> room b (4 * length (l # ls))"
      by (auto simp: l room_def)
    with inner up assms(2) show ?thesis
      by (simp add: fs)
  next
    case closed
    have len1: "unat (bb_len b1) = length ?q + length t"
      using length_bb_bytes [OF closed(2)] by (simp add: closed(5))
    then have nlt: "\<not> bb_len b1 < cs"
      by (simp add: word_less_nat_alt cs)
    have b1: "bb_bytes b1 = p @ replicate (plen kd) 0 @ d @ t"
      by (simp add: closed(5))
    show ?thesis
    proof (rule close_cases [OF closed(2) f assms(3) b1 cs(1)])
      fix b'
      assume c: "close_child malloc f cs b1 = (False, b')" "close_level kd (d @ t) = None \<or> \<not> room b1 4"
      have "close_all (l # ls) = None \<or> \<not> room b (4 * length (l # ls))"
        using c(2) closed(4,6,7) len len1 by (auto simp: l room_def word_le_nat_alt)
      with c(1) closed(1) up cs nlt assms(2) show ?thesis
        by (simp add: fs cs_def)
    next
      fix b' u
      assume c: "close_child malloc f cs b1 = (True, b')" "buffer_ok b'"
        "close_level kd (d @ t) = Some u" "bb_bytes b' = p @ u" "bb_error b' = bb_error b1"
        "bb_cap b1 \<le> bb_cap b'"
      have "length u \<le> length (layout (l # ls)) + 4 * length (l # ls)"
        using close_level_length [OF c(3)] closed(7) by (simp add: l layout_Cons)
      with c closed up cs nlt assms(2) show ?thesis
        by (simp add: fs cs_def l)
    qed
  qed
qed

end
