(* ===== verification/Cbb_Spec.thy ===== *)
theory Cbb_Spec
  imports Cbb
begin

text \<open>
  The contract of the builder of theory \<open>Cbb\<close>: every operation does to the stack of open strings
  what its name says, and fails only when a length does not fit its prefix or memory runs out.
\<close>


section \<open>Operations on a level\<close>

text \<open>Appending to the innermost open string, and closing all strings inside level \<open>k\<close>.\<close>

definition add_last :: "bytes \<Rightarrow> level list \<Rightarrow> level list" where
  "add_last x ls = butlast ls @ [(fst (last ls), snd (last ls) @ x)]"

definition collapse :: "nat \<Rightarrow> level list \<Rightarrow> level list option" where
  "collapse k ls =
     (if k < length ls
      then map_option (\<lambda>t. add_last t (take (Suc k) ls)) (close_all (drop (Suc k) ls))
      else None)"

text \<open>
  What an operation meant to do \<open>f\<close> to the open strings may result in: it succeeds and has done it,
  or it fails, and then \<open>f\<close> was undefined or the buffer had no room for \<open>need\<close> more bytes.
\<close>

definition cbb_cap :: "cbb \<Rightarrow> nat" where
  "cbb_cap c = (case cbb_base c of None \<Rightarrow> 0 | Some b \<Rightarrow> unat (bb_cap b))"

definition space :: "cbb \<Rightarrow> level list \<Rightarrow> nat \<Rightarrow> bool" where
  "space c ls n \<longleftrightarrow> length (layout ls) + n \<le> cbb_cap c"

definition broken :: "cbb \<Rightarrow> bool" where
  "broken c \<longleftrightarrow> (\<exists>b. cbb_base c = Some b \<and> bb_error b)"

definition cbb_wf :: "cbb \<Rightarrow> bool" where
  "cbb_wf c \<longleftrightarrow> cbb_base c = None \<or> broken c \<or> (\<exists>ls. cbb_rel c ls)"

type_synonym level_op = "level list \<Rightarrow> level list option"

definition done_right :: "level_op \<Rightarrow> (level list \<Rightarrow> nat) \<Rightarrow> cbb \<Rightarrow> level list \<Rightarrow> cbb \<Rightarrow> bool" where
  "done_right f need c ls c' \<longleftrightarrow>
     (\<exists>ls'. f ls = Some ls' \<and> cbb_rel c' ls' \<and> cbb_cap c \<le> cbb_cap c' \<and>
        length (layout ls') \<le> length (layout ls) + need ls)"

definition outcome ::
    "level_op \<Rightarrow> (level list \<Rightarrow> nat) \<Rightarrow> cbb \<Rightarrow> level list \<Rightarrow> bool \<times> cbb \<Rightarrow> bool" where
  "outcome f need c ls r \<longleftrightarrow>
     (if fst r then done_right f need c ls (snd r)
      else cbb_wf (snd r) \<and> (f ls = None \<or> \<not> space c ls (need ls)))"

definition builds :: "(cbb \<Rightarrow> bool \<times> cbb) \<Rightarrow> level_op \<Rightarrow> (level list \<Rightarrow> nat) \<Rightarrow> bool" where
  "builds op f need \<longleftrightarrow> (\<forall>c ls. cbb_rel c ls \<longrightarrow> outcome f need c ls (op c))"

lemma outcome_simps:
  "outcome f need c ls (True, c') \<longleftrightarrow> done_right f need c ls c'"
  "outcome f need c ls (False, c') \<longleftrightarrow> cbb_wf c' \<and> (f ls = None \<or> \<not> space c ls (need ls))"
  by (simp_all add: outcome_def)

lemma buildsD: "builds op f need \<Longrightarrow> cbb_rel c ls \<Longrightarrow> outcome f need c ls (op c)"
  by (simp add: builds_def)

lemma cbb_rel_wf: "cbb_rel c ls \<Longrightarrow> cbb_wf c"
  by (auto simp: cbb_wf_def)

text \<open>Running one operation after another.\<close>

definition then_need :: "(level list \<Rightarrow> nat) \<Rightarrow> level_op \<Rightarrow> (level list \<Rightarrow> nat) \<Rightarrow> level list \<Rightarrow> nat" where
  "then_need n f m ls = n ls + (case f ls of None \<Rightarrow> 0 | Some ls' \<Rightarrow> m ls')"

lemma outcome_seq:
  assumes op: "outcome f n c ls (op c)"
    and op': "\<And>c1 ls1. f ls = Some ls1 \<Longrightarrow> cbb_rel c1 ls1 \<Longrightarrow> outcome g m c1 ls1 (op' c1)"
  shows "outcome (\<lambda>ls. Option.bind (f ls) g) (then_need n f m) c ls (cbb_seq op op' c)"
proof (cases "op c")
  case (Pair ok c1)
  show ?thesis
  proof (cases ok)
    case False
    with op Pair show ?thesis
      by (auto simp: cbb_seq_def outcome_simps space_def then_need_def)
  next
    case True
    with op Pair obtain ls1 where 1: "f ls = Some ls1" "cbb_rel c1 ls1" "cbb_cap c \<le> cbb_cap c1"
      "length (layout ls1) \<le> length (layout ls) + n ls"
      by (auto simp: outcome_simps done_right_def)
    obtain ok2 c2 where 2: "op' c1 = (ok2, c2)" by (cases "op' c1")
    from op' [OF 1(1,2)] 1 2 True Pair show ?thesis
      by (cases ok2) (auto simp: cbb_seq_def outcome_simps done_right_def space_def then_need_def)
  qed
qed

lemma outcome_cong:
  assumes "outcome f n c ls r" and "f ls = g ls" and "n ls \<le> m ls"
  shows "outcome g m c ls r"
  using assms by (auto simp: outcome_def done_right_def space_def)

lemma builds_then:
  assumes "builds op f n"
    and "\<And>c1 ls ls1. f ls = Some ls1 \<Longrightarrow> cbb_rel c1 ls1 \<Longrightarrow> outcome g m c1 ls1 (op' c1)"
  shows "builds (cbb_seq op op') (\<lambda>ls. Option.bind (f ls) g) (then_need n f m)"
  using assms unfolding builds_def by (blast intro: outcome_seq)

lemma builds_seq:
  assumes "builds op f n" and "builds op' g m"
  shows "builds (cbb_seq op op') (\<lambda>ls. Option.bind (f ls) g) (then_need n f m)"
  using assms unfolding builds_def by (blast intro: outcome_seq)

lemma builds_cong:
  assumes "builds op f n" and "\<And>ls. f ls = g ls" and "\<And>ls. n ls \<le> m ls"
  shows "builds op g m"
  using assms(1) unfolding builds_def by (blast intro: outcome_cong assms(2,3))

section \<open>Flushing a level\<close>

lemma layout_append: "layout (ls @ ms) = layout ls @ layout ms"
  by (simp add: layout_def)

lemma layout_add_last: "ls \<noteq> [] \<Longrightarrow> layout (add_last x ls) = layout ls @ x"
  by (induction ls rule: rev_induct) (auto simp: add_last_def layout_append layout_def)

lemma frames_ok_append:
  "length ls = length fs \<Longrightarrow>
   frames_ok n (ls @ ms) (fs @ gs) \<longleftrightarrow> frames_ok n ls fs \<and> frames_ok (n + length (layout ls)) ms gs"
  by (induction n ls fs rule: frames_ok.induct) (auto simp: layout_Cons layout_Nil add_ac)

lemma frames_ok_add_last:
  assumes "ls \<noteq> []"
  shows "frames_ok n (add_last x ls) fs \<longleftrightarrow> frames_ok n ls fs"
proof -
  obtain ls1 kd d where ls: "ls = ls1 @ [(kd, d)]"
    using assms by (cases ls rule: rev_cases) auto
  have "frames_ok n (ls1 @ [(kd, d')]) fs \<longleftrightarrow> frames_ok n (ls1 @ [(kd, d)]) fs" for d'
  proof (cases "length fs = Suc (length ls1)")
    case True
    then obtain gs g where "fs = gs @ [g]" "length ls1 = length gs"
      by (cases fs rule: rev_cases) auto
    then show ?thesis by (simp add: frames_ok_append)
  next
    case False
    then show ?thesis using frames_ok_length by fastforce
  qed
  then show ?thesis by (simp add: ls add_last_def)
qed

text \<open>The relation with the top-level string treated like the others.\<close>

lemma cbb_rel_iff:
  "cbb_rel c ls \<longleftrightarrow>
     (\<exists>b d ls'. ls = (Prefix 0, d) # ls' \<and> cbb_base c = Some b \<and> \<not> bb_error b \<and> buffer_ok b \<and>
        bb_bytes b = layout ls \<and> frames_ok (length d) ls' (cbb_children c))"
  by (rule cbb_rel_def)

lemma cbb_relE:
  assumes "cbb_rel c ls"
  obtains b d ls' where "ls = (Prefix 0, d) # ls'" "cbb_base c = Some b" "\<not> bb_error b" "buffer_ok b"
    "bb_bytes b = layout ls" "frames_ok (length d) ls' (cbb_children c)"
  using assms unfolding cbb_rel_def by blast

lemma cbb_rel_take:
  assumes "cbb_rel c ls" and "k < length ls"
    and "buffer_ok b'" and "\<not> bb_error b'" and "bb_bytes b' = layout (take (Suc k) ls) @ t"
  shows "cbb_rel (c\<lparr>cbb_base := Some b', cbb_children := take k (cbb_children c)\<rparr>)
    (add_last t (take (Suc k) ls))"
proof -
  obtain d ls' where ls: "ls = (Prefix 0, d) # ls'" and fr: "frames_ok (length d) ls' (cbb_children c)"
    using assms(1) by (rule cbb_relE)
  have len: "length (cbb_children c) = length ls'" by (rule frames_ok_length [OF fr])
  have fr': "frames_ok (length d) (take k ls') (take k (cbb_children c))"
    using fr frames_ok_append [of "take k ls'" "take k (cbb_children c)" "length d" "drop k ls'"
      "drop k (cbb_children c)"] len by simp
  have bytes: "bb_bytes b' = layout (add_last t (take (Suc k) ls))"
    using assms(5) by (simp add: ls layout_add_last)
  show ?thesis
  proof (cases "take k ls' = []")
    case True
    with fr' bytes assms(3,4) show ?thesis
      by (cases "take k (cbb_children c)") (auto simp: cbb_rel_def ls add_last_def)
  next
    case False
    then have "add_last t (take (Suc k) ls) = (Prefix 0, d) # add_last t (take k ls')"
      by (simp add: ls add_last_def)
    with False fr' bytes assms(3,4) show ?thesis
      by (simp add: cbb_rel_def frames_ok_add_last)
  qed
qed

text \<open>How far the levels inside level \<open>k\<close> can grow, and \<open>n\<close> bytes more.\<close>

definition need_at :: "nat \<Rightarrow> nat \<Rightarrow> level list \<Rightarrow> nat" where
  "need_at k n ls = 4 * (length ls - Suc k) + n"

lemma length_add_last [simp]: "length (add_last x ls) = Suc (length ls - 1)"
  by (simp add: add_last_def)

lemma add_last_ne [simp]: "add_last x ls \<noteq> []"
  by (simp add: add_last_def)

lemma add_last_twice [simp]: "add_last y (add_last x ls) = add_last (x @ y) ls"
  by (simp add: add_last_def)

lemma add_last_snoc [simp]: "add_last x (ls @ [(kd, d)]) = ls @ [(kd, d @ x)]"
  by (simp add: add_last_def)

lemma add_last_Nil [simp]: "ls \<noteq> [] \<Longrightarrow> add_last [] ls = ls"
  by (simp add: add_last_def)

lemma add_last_Nil_Suc [simp]: "length ls = Suc k \<Longrightarrow> add_last [] ls = ls"
  by (cases "ls = []") auto

lemma collapse_Some: "collapse k ls = Some ls' \<Longrightarrow> length ls' = Suc k \<and> k < length ls"
  by (auto simp: collapse_def split: if_splits)

lemma collapse_same: "length ls = Suc k \<Longrightarrow> collapse k ls = Some ls"
  by (cases ls) (auto simp: collapse_def)

lemma flush_builds:
  assumes "malloc_sane malloc"
  shows "builds (CBB_flush malloc k) (collapse k) (need_at k 0)"
  unfolding builds_def
proof (intro allI impI)
  fix c ls
  assume rel: "cbb_rel c ls"
  obtain b d ls1 where ls: "ls = (Prefix 0, d) # ls1" and b: "cbb_base c = Some b" "\<not> bb_error b"
    "buffer_ok b" "bb_bytes b = layout ls" and fr: "frames_ok (length d) ls1 (cbb_children c)"
    using rel by (rule cbb_relE)
  have len: "length (cbb_children c) = length ls1" by (rule frames_ok_length [OF fr])
  have sz: "length (layout ls) = unat (bb_len b)"
    using length_bb_bytes [OF b(3)] b(4) by simp
  show "outcome (collapse k) (need_at k 0) c ls (CBB_flush malloc k c)"
  proof (cases "k < length ls")
    case False
    with rel b len ls show ?thesis
      by (simp add: CBB_flush_def outcome_simps collapse_def cbb_rel_wf)
  next
    case True
    let ?pre = "take (Suc k) ls" and ?rest = "drop (Suc k) ls"
    have bytes: "bb_bytes b = layout ?pre @ layout ?rest"
      by (simp add: b(4) flip: layout_append)
    have fr2: "frames_ok (length (layout ?pre)) ?rest (drop k (cbb_children c))"
      using fr frames_ok_append [of "take k ls1" "take k (cbb_children c)" "length d" "drop k ls1"
        "drop k (cbb_children c)"] len by (simp add: ls layout_Cons)
    have nlen: "length ?rest = length ls - Suc k" by simp
    from flush_cases [OF b(3,2) assms bytes fr2]
    consider (fail) fs' b' where "flush_children malloc (drop k (cbb_children c)) b = (False, fs', b')"
        "bb_error b'" "close_all ?rest = None \<or> \<not> room b (4 * length ?rest)"
      | (good) b' t where "flush_children malloc (drop k (cbb_children c)) b = (True, [], b')"
        "buffer_ok b'" "\<not> bb_error b'" "close_all ?rest = Some t" "bb_bytes b' = layout ?pre @ t"
        "bb_cap b \<le> bb_cap b'" "length t \<le> length (layout ?rest) + 4 * length ?rest"
      by blast
    then show ?thesis
    proof cases
      case fail
      then have "cbb_wf (snd (CBB_flush malloc k c))" "\<not> fst (CBB_flush malloc k c)"
        using True b(1) len ls by (simp_all add: CBB_flush_def cbb_wf_def broken_def)
      with fail(3) True b(1) sz show ?thesis
        by (auto simp: outcome_def collapse_def space_def need_at_def room_def cbb_cap_def)
    next
      case good
      let ?c = "c\<lparr>cbb_base := Some b', cbb_children := take k (cbb_children c)\<rparr>"
      have eq: "CBB_flush malloc k c = (True, ?c)"
        using good(1) True b(1) len ls by (simp add: CBB_flush_def)
      have "cbb_rel ?c (add_last t ?pre)"
        by (rule cbb_rel_take [OF rel True good(2,3,5)])
      moreover have "length (layout (add_last t ?pre)) \<le> length (layout ls) + need_at k 0 ls"
        using good(7) layout_append [of ?pre ?rest] ls by (simp add: layout_add_last need_at_def)
      ultimately show ?thesis
        using True good(4,6) b(1)
        by (simp add: eq outcome_simps done_right_def collapse_def cbb_cap_def word_le_nat_alt)
    qed
  qed
qed

section \<open>Writing at a level\<close>

definition append_at :: "nat \<Rightarrow> bytes \<Rightarrow> level_op" where
  "append_at k x ls = map_option (add_last x) (collapse k ls)"

definition writes :: "(cbb \<Rightarrow> bool \<times> cbb) \<Rightarrow> nat \<Rightarrow> bytes \<Rightarrow> nat \<Rightarrow> bool" where
  "writes op k x m \<longleftrightarrow> builds op (append_at k x) (need_at k m)"

text \<open>What a call on the buffer has to do to append \<open>x\<close>.\<close>

definition appends :: "(cbb_buffer \<Rightarrow> bool \<times> cbb_buffer) \<Rightarrow> bytes \<Rightarrow> bool" where
  "appends g x \<longleftrightarrow>
     (\<forall>b. buffer_ok b \<longrightarrow> \<not> bb_error b \<longrightarrow>
        (\<exists>b'. g b = (False, b') \<and> bb_error b' \<and> \<not> room b (length x)) \<or>
        (\<exists>b'. g b = (True, b') \<and> buffer_ok b' \<and> bb_bytes b' = bb_bytes b @ x \<and> \<not> bb_error b' \<and>
           bb_cap b \<le> bb_cap b'))"

lemma on_base_outcome:
  assumes g: "appends g x" and rel: "cbb_rel c ls"
  shows "outcome (\<lambda>ls. Some (add_last x ls)) (\<lambda>ls. length x) c ls (on_base g c)"
proof -
  obtain b d ls1 where ls: "ls = (Prefix 0, d) # ls1" and b: "cbb_base c = Some b" "\<not> bb_error b"
    "buffer_ok b" "bb_bytes b = layout ls" and fr: "frames_ok (length d) ls1 (cbb_children c)"
    using rel by (rule cbb_relE)
  have sz: "length (layout ls) = unat (bb_len b)"
    using length_bb_bytes [OF b(3)] b(4) by simp
  from g b(2,3) consider (fail) b' where "g b = (False, b')" "bb_error b'" "\<not> room b (length x)"
    | (good) b' where "g b = (True, b')" "buffer_ok b'" "bb_bytes b' = bb_bytes b @ x" "\<not> bb_error b'"
      "bb_cap b \<le> bb_cap b'"
    unfolding appends_def by blast
  then show ?thesis
  proof cases
    case fail
    with b(1) sz show ?thesis
      by (simp add: on_base_def outcome_simps cbb_wf_def broken_def space_def room_def cbb_cap_def)
  next
    case good
    define k where "k = length ls1"
    have k: "k < length ls" "take (Suc k) ls = ls" "take k (cbb_children c) = cbb_children c"
      using frames_ok_length [OF fr] by (simp_all add: k_def ls)
    have "cbb_rel (c\<lparr>cbb_base := Some b', cbb_children := take k (cbb_children c)\<rparr>)
      (add_last x (take (Suc k) ls))"
      using good b(4) k by (intro cbb_rel_take [OF rel]) simp_all
    then have "cbb_rel (c\<lparr>cbb_base := Some b'\<rparr>) (add_last x ls)"
      by (simp add: k cbb.defs)
    with good b(1) ls show ?thesis
      by (simp add: on_base_def outcome_simps done_right_def layout_add_last cbb_cap_def word_le_nat_alt)
  qed
qed

lemma flush_on_base_writes:
  assumes "malloc_sane malloc" and "appends g x"
  shows "writes (cbb_seq (CBB_flush malloc k) (on_base g)) k x (length x)"
  unfolding writes_def
proof (rule builds_cong [OF builds_then [OF flush_builds [OF assms(1)]]])
  show "outcome (\<lambda>ls. Some (add_last x ls)) (\<lambda>ls. length x) c ls (on_base g c)" if "cbb_rel c ls" for c ls
    by (rule on_base_outcome [OF assms(2) that])
qed (auto simp: append_at_def then_need_def need_at_def map_conv_bind_option comp_def split: option.splits)

text \<open>Bytes and integers.\<close>

lemma add_appends:
  assumes "malloc_sane malloc" and "length x = unat n" and "unat n < 2 ^ 62"
  shows "appends (\<lambda>b. case cbb_buffer_add malloc n b of
      (None, b') \<Rightarrow> (False, b') | (Some dest, b') \<Rightarrow> (True, bb_store (unat dest) x b')) x"
  unfolding appends_def
proof (intro allI impI)
  fix b
  assume b: "buffer_ok b" "\<not> bb_error b"
  let ?g = "case cbb_buffer_add malloc n b of
      (None, b') \<Rightarrow> (False, b') | (Some dest, b') \<Rightarrow> (True, bb_store (unat dest) x b')"
  show "(\<exists>b'. ?g = (False, b') \<and> bb_error b' \<and> \<not> room b (length x)) \<or>
    (\<exists>b'. ?g = (True, b') \<and> buffer_ok b' \<and> bb_bytes b' = bb_bytes b @ x \<and> \<not> bb_error b' \<and>
       bb_cap b \<le> bb_cap b')"
  proof (rule add_cases [OF b(1) assms(1,3)])
    assume "cbb_buffer_add malloc n b = (None, bb_fail b)" "\<not> room b (unat n)"
    with assms(2) show ?thesis by simp
  next
    fix b'
    assume a: "cbb_buffer_add malloc n b = (Some (bb_len b), b')" "buffer_ok b'"
      "unat (bb_len b') = unat (bb_len b) + unat n" "bb_error b' = bb_error b"
      "take (unat (bb_len b)) (bb_bytes b') = bb_bytes b" "bb_cap b \<le> bb_cap b'"
    have "blit (bb_bytes b') (unat (bb_len b)) x = bb_bytes b @ x"
      using length_bb_bytes [OF a(2)] a(3,5) assms(2) by (intro blit_end) simp_all
    with bb_store_ok [OF a(2), of "unat (bb_len b)" x] a b assms(2) show ?thesis
      by simp
  qed
qed

lemma add_bytes_writes:
  assumes "malloc_sane malloc" and "unat n \<le> length p" and "unat n < 2 ^ 62"
  shows "writes (CBB_add_bytes malloc k p n) k (take (unat n) p) (unat n)"
  using flush_on_base_writes [OF assms(1) add_appends [OF assms(1) _ assms(3)], of "take (unat n) p" k]
    assms(2)
  by (simp add: CBB_add_bytes_def)

lemma add_u_appends:
  assumes "malloc_sane malloc" and "unat v < 256 ^ unat n" and "unat n < 2 ^ 62"
  shows "appends (cbb_buffer_add_u malloc v n) (be_bytes (unat n) (unat v))"
proof (cases "n = 0")
  case True
  then show ?thesis by (simp add: appends_def cbb_buffer_add_u_def)
next
  case False
  have "snd (u_bytes (unat n) v) = 0"
    using assms(2) by (simp add: u_bytes_rest)
  with False have "cbb_buffer_add_u malloc v n = (\<lambda>b. case cbb_buffer_add malloc n b of
      (None, b') \<Rightarrow> (False, b')
    | (Some dest, b') \<Rightarrow> (True, bb_store (unat dest) (be_bytes (unat n) (unat v)) b'))"
    by (simp add: fun_eq_iff cbb_buffer_add_u_def u_bytes_eq split: prod.splits option.splits)
  with add_appends [OF assms(1) _ assms(3), of "be_bytes (unat n) (unat v)"] show ?thesis
    by simp
qed

lemma add_u_writes:
  assumes "malloc_sane malloc" and "unat v < 256 ^ unat n" and "unat n < 2 ^ 62"
  shows "writes (cbb_add_u malloc k v n) k (be_bytes (unat n) (unat v)) (unat n)"
  using flush_on_base_writes [OF assms(1) add_u_appends [OF assms], of k]
  by (simp add: cbb_add_u_def)

lemma writes_builds: "writes op k x m \<Longrightarrow> builds op (append_at k x) (need_at k m)"
  by (simp add: writes_def)

lemma writes_cong: "writes op k x m \<Longrightarrow> x = y \<Longrightarrow> m \<le> n \<Longrightarrow> writes op k y n"
  unfolding writes_def by (auto intro: builds_cong simp: need_at_def)

lemma skip_writes: "malloc_sane malloc \<Longrightarrow> writes (CBB_flush malloc k) k [] 0"
  unfolding writes_def
  by (rule builds_cong [OF flush_builds]) (auto simp: append_at_def collapse_def option.map_comp comp_def)

text \<open>
  The same of an operation that is run when level \<open>k\<close> is innermost, so that it may also do nothing.
\<close>

definition continues :: "(cbb \<Rightarrow> bool \<times> cbb) \<Rightarrow> nat \<Rightarrow> bytes \<Rightarrow> nat \<Rightarrow> bool" where
  "continues op k x m \<longleftrightarrow>
     (\<forall>c ls. cbb_rel c ls \<longrightarrow> length ls = Suc k \<longrightarrow>
        outcome (\<lambda>ls. Some (add_last x ls)) (\<lambda>_. m) c ls (op c))"

lemma continuesD:
  "continues op k x m \<Longrightarrow> cbb_rel c ls \<Longrightarrow> length ls = Suc k \<Longrightarrow>
     outcome (\<lambda>ls. Some (add_last x ls)) (\<lambda>_. m) c ls (op c)"
  by (simp add: continues_def)

lemma writes_continues:
  assumes "writes op k x m"
  shows "continues op k x m"
  unfolding continues_def
proof (intro allI impI)
  fix c ls
  assume rel: "cbb_rel c ls" and len: "length ls = Suc k"
  show "outcome (\<lambda>ls. Some (add_last x ls)) (\<lambda>_. m) c ls (op c)"
    by (rule outcome_cong [OF buildsD [OF assms [unfolded writes_def] rel]])
      (simp_all add: append_at_def collapse_same len need_at_def)
qed

lemma continues_nothing: "continues (\<lambda>c. (True, c)) k [] 0"
  by (simp add: continues_def outcome_simps done_right_def)

lemma writes_then:
  assumes "writes op k x m" and "continues op' k y n"
  shows "writes (cbb_seq op op') k (x @ y) (m + n)"
  unfolding writes_def
proof (rule builds_cong [OF builds_then [OF assms(1) [unfolded writes_def]]])
  fix c ls0 ls
  assume "append_at k x ls0 = Some ls" and rel: "cbb_rel c ls"
  then have "length ls = Suc k"
    by (auto simp: append_at_def dest!: collapse_Some)
  with assms(2) rel show "outcome (\<lambda>ls. Some (add_last y ls)) (\<lambda>_. n) c ls (op' c)"
    by (blast intro: continuesD)
qed (auto simp: append_at_def then_need_def need_at_def map_conv_bind_option comp_def split: option.splits)

lemma continues_seq:
  assumes "continues op k x m" and "continues op' k y n"
  shows "continues (cbb_seq op op') k (x @ y) (m + n)"
  unfolding continues_def
proof (intro allI impI)
  fix c ls
  assume rel: "cbb_rel c ls" and len: "length ls = Suc k"
  show "outcome (\<lambda>ls. Some (add_last (x @ y) ls)) (\<lambda>_. m + n) c ls (cbb_seq op op' c)"
  proof (rule outcome_cong)
    show "outcome (\<lambda>ls. Option.bind (Some (add_last x ls)) (\<lambda>ls. Some (add_last y ls)))
      (then_need (\<lambda>_. m) (\<lambda>ls. Some (add_last x ls)) (\<lambda>_. n)) c ls (cbb_seq op op' c)"
    proof (rule outcome_seq)
      show "outcome (\<lambda>ls. Some (add_last x ls)) (\<lambda>_. m) c ls (op c)"
        by (rule continuesD [OF assms(1) rel len])
    next
      fix c1 ls1
      assume "Some (add_last x ls) = Some ls1" "cbb_rel c1 ls1"
      with len assms(2) show "outcome (\<lambda>ls. Some (add_last y ls)) (\<lambda>_. n) c1 ls1 (op' c1)"
        by (intro continuesD) auto
    qed
  qed (simp_all add: then_need_def)
qed

lemma continues_cong: "continues op k x m \<Longrightarrow> x = y \<Longrightarrow> m \<le> n \<Longrightarrow> continues op k y n"
  unfolding continues_def by (auto intro: outcome_cong)

section \<open>Opening strings\<close>

definition open_at :: "nat \<Rightarrow> bytes \<Rightarrow> kind \<Rightarrow> level_op" where
  "open_at k x kd ls = map_option (\<lambda>ls. add_last x ls @ [(kd, [])]) (collapse k ls)"

text \<open>Pushing the frame of a child whose prefix has just been added as zeros.\<close>

lemma push_rel:
  assumes rel: "cbb_rel c ls" and len: "length ls = Suc k" and kd: "1 \<le> plen kd" "plen kd \<le> 8"
    and c': "cbb_rel c' (add_last (replicate (plen kd) 0) ls)" and b: "cbb_base c = Some b"
    and f: "fr_offset f = bb_len b" "unat (fr_pending_len_len f) = plen kd"
      "fr_pending_is_asn1 f = (kd = Asn1)"
  shows "cbb_rel (push_child k f c') (ls @ [(kd, [])])"
proof -
  obtain d ls1 where ls: "ls = (Prefix 0, d) # ls1" and bytes: "bb_bytes b = layout ls"
    and ok: "buffer_ok b" and fr: "frames_ok (length d) ls1 (cbb_children c)"
    using rel b by (auto elim: cbb_relE)
  have n: "unat (bb_len b) = length (layout ls)"
    using length_bb_bytes [OF ok] by (simp add: bytes)
  have ne: "ls \<noteq> []" by (simp add: ls)
  obtain b' d' ls1' where ls': "add_last (replicate (plen kd) 0) ls = (Prefix 0, d') # ls1'"
    and b': "cbb_base c' = Some b'" "\<not> bb_error b'" "buffer_ok b'"
      "bb_bytes b' = layout (add_last (replicate (plen kd) 0) ls)"
    and fr': "frames_ok (length d') ls1' (cbb_children c')"
    using c' by (rule cbb_relE)
  have len': "length (cbb_children c') = k"
    using frames_ok_length [OF fr'] len arg_cong [OF ls', of length] by simp
  have "frames_ok (length d) ls1 (cbb_children c')"
  proof (cases "ls1 = []")
    case True
    with len' len ls show ?thesis by simp
  next
    case False
    with ls have "add_last (replicate (plen kd) 0) ls = (Prefix 0, d) # add_last (replicate (plen kd) 0) ls1"
      by (simp add: add_last_def)
    with ls' have "ls1' = add_last (replicate (plen kd) 0) ls1" "d' = d" by simp_all
    with False fr' show ?thesis by (simp add: frames_ok_add_last)
  qed
  then have "frames_ok (length d) (ls1 @ [(kd, [])]) (cbb_children c' @ [f])"
    using f kd n len len' ls by (simp add: frames_ok_append frame_of_def layout_Cons)
  moreover have "bb_bytes b' = layout (ls @ [(kd, [])])"
    using b'(4) ne by (simp add: layout_add_last layout_append) (simp add: layout_def)
  ultimately show ?thesis
    using b' len' by (simp add: push_child_def cbb_rel_def ls)
qed

lemma length_prefixed_builds:
  assumes sane: "malloc_sane malloc" and n: "1 \<le> unat n" "unat n \<le> 8"
  shows "builds (cbb_add_length_prefixed malloc k n) (open_at k [] (Prefix (unat n)))
    (need_at k (unat n))"
  unfolding cbb_add_length_prefixed_def
proof (rule builds_cong [OF builds_then [OF flush_builds [OF sane]]])
  fix c ls0 ls
  assume "collapse k ls0 = Some ls" and rel: "cbb_rel c ls"
  then have len: "length ls = Suc k" by (auto dest: collapse_Some)
  then have ne: "ls \<noteq> []" by auto
  obtain b where b: "cbb_base c = Some b" "\<not> bb_error b" using rel by (auto elim: cbb_relE)
  let ?z = "replicate (unat n) 0 :: bytes"
  let ?g = "\<lambda>b. case cbb_buffer_add malloc (ucast n) b of
      (None, b') \<Rightarrow> (False, b') | (Some dest, b') \<Rightarrow> (True, bb_store (unat dest) ?z b')"
  let ?f = "\<lparr>fr_offset = bb_len b, fr_pending_len_len = n, fr_pending_is_asn1 = False\<rparr>"
  have "appends ?g ?z"
    using n by (intro add_appends sane) simp_all
  from on_base_outcome [OF this rel]
  have out: "outcome (\<lambda>ls. Some (add_last ?z ls)) (\<lambda>ls. length ?z) c ls (on_base ?g c)" .
  show "outcome (\<lambda>ls. Some (ls @ [(Prefix (unat n), [])])) (\<lambda>_. unat n) c ls
    (case cbb_base c of
       None \<Rightarrow> (False, c)
     | Some b \<Rightarrow>
         (case cbb_buffer_add malloc (ucast n) b of
            (None, b') \<Rightarrow> (False, c\<lparr>cbb_base := Some b'\<rparr>)
          | (Some out, b') \<Rightarrow>
              (True, push_child k
                 \<lparr>fr_offset = bb_len b, fr_pending_len_len = n, fr_pending_is_asn1 = False\<rparr>
                 (c\<lparr>cbb_base := Some (bb_store (unat out) (replicate (unat n) 0) b')\<rparr>))))"
  proof (cases "cbb_buffer_add malloc (ucast n) b")
    case (Pair r b')
    show ?thesis
    proof (cases r)
      case None
      with Pair b out show ?thesis by (simp add: on_base_def outcome_simps)
    next
      case (Some dest)
      let ?c = "c\<lparr>cbb_base := Some (bb_store (unat dest) ?z b')\<rparr>"
      have rel': "cbb_rel ?c (add_last ?z ls)" "cbb_cap c \<le> cbb_cap ?c"
        using Some Pair b out by (simp_all add: on_base_def outcome_simps done_right_def)
      have "cbb_rel (push_child k ?f ?c) (ls @ [(Prefix (unat n), [])])"
        using n rel'(1) by (intro push_rel [OF rel len _ _ _ b(1)]) simp_all
      with Some Pair b rel'(2) show ?thesis
        by (simp add: outcome_simps done_right_def push_child_def cbb_cap_def layout_append layout_Cons layout_Nil)
    qed
  qed
qed (auto simp: open_at_def then_need_def need_at_def map_conv_bind_option comp_def dest!: collapse_Some
  split: option.splits intro!: bind_option_cong)

lemma cbb_seq_assoc: "cbb_seq (cbb_seq f g) h = cbb_seq f (cbb_seq g h)"
  by (simp add: fun_eq_iff cbb_seq_def split: prod.splits bool.splits)

text \<open>Opening a string, filling it and flushing it away.\<close>

lemma close_writes:
  assumes sane: "malloc_sane malloc" and op: "builds op (open_at k t kd) (need_at k m)"
    and body: "continues body (Suc k) x n" and close: "close_level kd x = Some y"
  shows "writes (cbb_seq op (cbb_seq body (CBB_flush malloc k))) k (t @ y) (m + n + 4)"
  unfolding writes_def cbb_seq_assoc [symmetric]
proof (rule builds_cong [OF builds_seq [OF builds_then [OF op] flush_builds [OF sane, of k]]])
  fix c ls0 ls
  assume "open_at k t kd ls0 = Some ls" and rel: "cbb_rel c ls"
  then have "length ls = Suc (Suc k)"
    by (auto simp: open_at_def dest!: collapse_Some)
  with body rel show "outcome (\<lambda>ls. Some (add_last x ls)) (\<lambda>_. n) c ls (body c)"
    by (blast intro: continuesD)
next
  fix ls
  let ?mid = "\<lambda>ls. Option.bind (open_at k t kd ls) (\<lambda>ls. Some (add_last x ls))"
  have mid: "?mid ls = map_option (\<lambda>z. add_last t z @ [(kd, x)]) (collapse k ls)"
    by (cases "collapse k ls") (simp_all add: open_at_def)
  have last: "collapse k (add_last t z @ [(kd, x)]) = Some (add_last (t @ y) z)" if "length z = Suc k" for z
    using that close by (simp add: collapse_def)
  show "Option.bind (?mid ls) (collapse k) = append_at k (t @ y) ls"
    unfolding mid using last
    by (cases "collapse k ls") (auto simp: append_at_def dest!: collapse_Some)
  show "then_need (then_need (need_at k m) (open_at k t kd) (\<lambda>_. n)) ?mid (need_at k 0) ls
      \<le> need_at k (m + n + 4) ls"
    by (cases "collapse k ls") (auto simp: mid then_need_def need_at_def open_at_def dest!: collapse_Some)
qed

section \<open>Single bytes, base-128 integers and identifiers\<close>

lemma u8_writes: "malloc_sane malloc \<Longrightarrow> writes (CBB_add_u8 malloc k v) k [v] 1"
  unfolding CBB_add_u8_def
  by (rule writes_cong [OF add_u_writes]) (simp_all add: unsigned_ucast_eq take_bit_nat_eq_self)

text \<open>The digits of a base-128 integer from its high end, \<open>n\<close> of them.\<close>

fun digits128 :: "nat \<Rightarrow> nat \<Rightarrow> bytes" where
  "digits128 0 v = []"
| "digits128 (Suc n) v = digits128 n (v div 128) @ [of_nat (128 + v mod 128)]"

lemma unat_low7: "unat (ucast (v :: u64) AND 0x7f :: u8) = unat v mod 128"
proof -
  have "unat v mod 256 mod 128 = unat v mod (128 :: nat)"
    by (rule mod_mod_cancel) simp
  then show ?thesis
    by (simp add: unat_and_7f unsigned_ucast_eq take_bit_eq_mod)
qed

lemma or_80: "unat b < 128 \<Longrightarrow> b OR 0x80 = (of_nat (128 + unat b) :: u8)"
proof -
  assume "unat b < 128"
  then have "take_bit 7 b = b"
    by (simp add: word_unat_eq_iff take_bit_eq_mod unat_mod_distrib)
  from or_eq_plus_push [OF this, of 1] show ?thesis
    by (simp add: push_bit_eq_mult or.commute)
qed

lemma high_digits:
  "map (\<lambda>i. (ucast (drop_bit (7 * i) (v :: u64)) AND 0x7f) OR 0x80 :: u8) (rev [0..<n]) = digits128 n (unat v)"
proof (induction n arbitrary: v)
  case 0
  then show ?case by simp
next
  case (Suc n)
  have "(ucast v AND 0x7f) OR 0x80 = (of_nat (128 + unat v mod 128) :: u8)"
    using or_80 [of "ucast v AND 0x7f"] unfolding unat_low7 by simp
  moreover have "unat (drop_bit 7 v) = unat v div 128"
    by (simp add: drop_bit_eq_div unat_div_distrib)
  moreover have "rev [0..<Suc n] = map Suc (rev [0..<n]) @ [0]"
    by (simp add: upt_conv_Cons map_Suc_upt rev_map [symmetric] del: upt_Suc)
  ultimately show ?case
    using Suc [of "drop_bit 7 v"] by (simp add: comp_def drop_bit_drop_bit add.commute del: upt_Suc of_nat_add)
qed

lemma digits128_prefix: "digits128 (base128_len v) (unat v) = b128_prefix (unat v)"
proof (induction v rule: base128_len.induct)
  case (1 v)
  have d: "unat (drop_bit 7 v) = unat v div 128"
    by (simp add: drop_bit_eq_div unat_div_distrib)
  show ?case
  proof (cases "0 < v")
    case True
    then have "0 < unat v" by (simp add: word_less_nat_alt)
    with 1 [OF True] True d show ?thesis
      by (simp add: base128_len.simps [of v] b128_prefix_pos)
  next
    case False
    then have "v = 0" by (simp add: word_less_nat_alt unat_eq_0)
    then show ?thesis by (simp add: base128_len.simps [of 0] b128_prefix_0)
  qed
qed

lemma base128_loop_continues:
  assumes "malloc_sane malloc"
  shows "continues (add_base128_loop malloc k v n) k
    (map (\<lambda>i. let b = ucast (drop_bit (7 * i) v) AND 0x7f in if i \<noteq> 0 then b OR 0x80 else b) (rev [0..<n])) n"
proof (induction n)
  case 0
  have "add_base128_loop malloc k v 0 = (\<lambda>c. (True, c))" by (simp add: fun_eq_iff)
  then show ?case by (simp add: continues_nothing)
next
  case (Suc n)
  have "add_base128_loop malloc k v (Suc n) = cbb_seq (CBB_add_u8 malloc k
      (let b = ucast (drop_bit (7 * n) v) AND 0x7f in if n \<noteq> 0 then b OR 0x80 else b))
      (add_base128_loop malloc k v n)"
    by (simp add: fun_eq_iff Let_def)
  with continues_seq [OF writes_continues [OF u8_writes [OF assms]] Suc] show ?case
    by simp
qed

lemma base128_integer_writes:
  assumes "malloc_sane malloc"
  shows "writes (add_base128_integer malloc k v) k (b128_enc (unat v)) (length (b128_enc (unat v)))"
proof -
  let ?out = "\<lambda>i. let b = ucast (drop_bit (7 * i) v) AND 0x7f in if i \<noteq> 0 then b OR 0x80 else b :: u8"
  define m where "m = base128_len (drop_bit 7 v)"
  have n: "(let n = base128_len v in if n = 0 then 1 else n) = Suc m"
    by (cases "v = 0") (simp_all add: m_def base128_len.simps [of v] base128_len.simps [of 0] word_gt_0)
  have d: "unat (drop_bit 7 v) = unat v div 128"
    by (simp add: drop_bit_eq_div unat_div_distrib)
  have "rev [0..<Suc m] = map Suc (rev [0..<m]) @ [0]"
    by (simp add: upt_conv_Cons map_Suc_upt rev_map [symmetric] del: upt_Suc)
  then have "map ?out (rev [0..<Suc m]) =
      map (\<lambda>i. (ucast (drop_bit (7 * i) (drop_bit 7 v)) AND 0x7f) OR 0x80) (rev [0..<m]) @ [ucast v AND 0x7f]"
    by (simp add: comp_def drop_bit_drop_bit add.commute del: upt_Suc)
  also have "\<dots> = b128_prefix (unat v div 128) @ [ucast v AND 0x7f]"
    using digits128_prefix [of "drop_bit 7 v"] unfolding high_digits m_def d by simp
  also have "ucast v AND 0x7f = (of_nat (unat v mod 128) :: u8)"
    unfolding unat_low7 [symmetric] word_of_unat ..
  finally have out: "map ?out (rev [0..<Suc m]) = b128_enc (unat v)"
    by (simp add: b128_enc_def)
  have len: "length (b128_enc (unat v)) = Suc m"
    using arg_cong [OF out, of length] by simp
  have "add_base128_integer malloc k v = cbb_seq (CBB_add_u8 malloc k (?out m)) (add_base128_loop malloc k v m)"
    by (simp add: fun_eq_iff add_base128_integer_def n [unfolded Let_def] Let_def)
  with writes_then [OF u8_writes [OF assms, of k "?out m"] base128_loop_continues [OF assms, of k v m]]
  have "writes (add_base128_integer malloc k v) k (map ?out (rev [0..<Suc m])) (Suc m)"
    by simp
  then show ?thesis by (simp only: out len)
qed

lemma tag_bits: "ucast (drop_bit CBS_ASN1_TAG_SHIFT tag) AND 0xe0 = tag_class_byte tag"
  by (simp add: tag_class_byte_def CBS_ASN1_TAG_SHIFT_def)

lemma tag_number_mask: "unat (tag AND CBS_ASN1_TAG_NUMBER_MASK) = tag_number tag"
proof -
  have "CBS_ASN1_TAG_NUMBER_MASK = mask 29"
    unfolding CBS_ASN1_TAG_NUMBER_MASK_def CBS_ASN1_TAG_SHIFT_def by code_simp
  then have "tag AND CBS_ASN1_TAG_NUMBER_MASK = take_bit 29 tag"
    by (simp only: take_bit_eq_mask)
  then show ?thesis
    unfolding tag_number_def take_bit_eq_mod [where 'a = nat, symmetric]
    by (simp only: unsigned_take_bit_eq)
qed

definition tag_writer :: "allocator \<Rightarrow> nat \<Rightarrow> u32 \<Rightarrow> cbb \<Rightarrow> bool \<times> cbb" where
  "tag_writer malloc k tag =
     (let tag_bits = ucast (drop_bit CBS_ASN1_TAG_SHIFT tag) AND 0xe0;
          tag_number = tag AND CBS_ASN1_TAG_NUMBER_MASK
      in if 0x1f \<le> tag_number then
           cbb_seq (CBB_add_u8 malloc k (tag_bits OR 0x1f)) (add_base128_integer malloc k (ucast tag_number))
         else CBB_add_u8 malloc k (tag_bits OR ucast tag_number))"

lemma tag_writes:
  assumes "malloc_sane malloc"
  shows "writes (tag_writer malloc k tag) k (tag_enc tag) (length (tag_enc tag))"
proof -
  let ?n = "tag AND CBS_ASN1_TAG_NUMBER_MASK"
  have u: "unat (ucast ?n :: u64) = tag_number tag"
    using unat_less_32 [of ?n] by (simp add: unsigned_ucast_eq take_bit_nat_eq_self flip: tag_number_mask)
  have n: "0x1f \<le> ?n \<longleftrightarrow> \<not> tag_number tag < 31"
    by (auto simp: word_le_nat_alt tag_number_mask)
  have small: "ucast ?n = (of_nat (tag_number tag) :: u8)"
    unfolding tag_number_mask [symmetric] by simp
  show ?thesis
  proof (cases "tag_number tag < 31")
    case True
    then show ?thesis
      using u8_writes [OF assms, of k "tag_class_byte tag OR of_nat (tag_number tag)"]
      by (simp add: tag_writer_def Let_def n small tag_bits tag_enc_def)
  next
    case False
    then show ?thesis
      using writes_then [OF u8_writes [OF assms, of k "tag_class_byte tag OR 0x1f"]
          writes_continues [OF base128_integer_writes [OF assms, of k "ucast ?n"]]]
      by (simp add: tag_writer_def Let_def n tag_bits tag_enc_def u)
  qed
qed

lemma asn1_builds:
  assumes sane: "malloc_sane malloc"
  shows "builds (CBB_add_asn1 malloc k tag) (open_at k (tag_enc tag) Asn1)
    (need_at k (length (tag_enc tag) + 1))"
proof -
  let ?push = "\<lambda>c. case cbb_base c of
      None \<Rightarrow> (False, c)
    | Some b \<Rightarrow>
        (case CBB_add_u8 malloc k 0 c of
           (False, c') \<Rightarrow> (False, c')
         | (True, c') \<Rightarrow>
             (True, push_child k
                \<lparr>fr_offset = bb_len b, fr_pending_len_len = 1, fr_pending_is_asn1 = True\<rparr> c'))"
  have eq: "CBB_add_asn1 malloc k tag = cbb_seq (cbb_seq (CBB_flush malloc k) (tag_writer malloc k tag)) ?push"
    by (simp add: CBB_add_asn1_def tag_writer_def Let_def cbb_seq_assoc)
  have w: "writes (cbb_seq (CBB_flush malloc k) (tag_writer malloc k tag)) k (tag_enc tag) (length (tag_enc tag))"
    using writes_then [OF skip_writes [OF sane, of k] writes_continues [OF tag_writes [OF sane, of k tag]]]
    by simp
  show ?thesis
    unfolding eq
  proof (rule builds_cong [OF builds_then [OF w [unfolded writes_def]]])
    fix c ls0 ls
    assume "append_at k (tag_enc tag) ls0 = Some ls" and rel: "cbb_rel c ls"
    then have len: "length ls = Suc k"
      by (auto simp: append_at_def dest!: collapse_Some)
    then have ne: "ls \<noteq> []" by auto
    obtain b where b: "cbb_base c = Some b" using rel by (auto elim: cbb_relE)
    obtain ok c' where r: "CBB_add_u8 malloc k 0 c = (ok, c')" by (cases "CBB_add_u8 malloc k 0 c")
    have out: "outcome (\<lambda>ls. Some (add_last [0] ls)) (\<lambda>_. 1) c ls (ok, c')"
      using continuesD [OF writes_continues [OF u8_writes [OF sane, where v = 0]] rel len] by (simp only: r)
    show "outcome (\<lambda>ls. Some (ls @ [(Asn1, [])])) (\<lambda>_. 1) c ls (?push c)"
    proof (cases ok)
      case False
      with out r b show ?thesis by (simp add: outcome_simps)
    next
      case True
      with out have rel': "cbb_rel c' (add_last [0] ls)" "cbb_cap c \<le> cbb_cap c'"
        by (simp_all add: outcome_simps done_right_def)
      let ?f = "\<lparr>fr_offset = bb_len b, fr_pending_len_len = 1, fr_pending_is_asn1 = True\<rparr>"
      have "cbb_rel (push_child k ?f c') (ls @ [(Asn1, [])])"
        using rel'(1) by (intro push_rel [OF rel len _ _ _ b]) simp_all
      with True r b rel'(2) show ?thesis
        by (simp add: outcome_simps done_right_def push_child_def cbb_cap_def layout_append layout_Cons layout_Nil)
    qed
  qed (auto simp: open_at_def append_at_def then_need_def need_at_def map_conv_bind_option comp_def
    split: option.splits)
qed

section \<open>Elements\<close>

lemma asn1_enc_eq: "asn1_enc tag b = tag_enc tag @ len_enc (length b) @ b"
  by (simp add: asn1_enc_def elem_enc_def elem_header_def elem_body_def)

lemma element_writes:
  assumes "malloc_sane malloc" and "continues body (Suc k) b (length b)" and "length b \<le> 0xfffffffe"
  shows "writes (cbb_seq (CBB_add_asn1 malloc k tag) (cbb_seq body (CBB_flush malloc k))) k
    (asn1_enc tag b) (length (asn1_enc tag b) + 4)"
proof -
  have "close_level Asn1 b = Some (len_enc (length b) @ b)"
    using assms(3) by simp
  from close_writes [OF assms(1) asn1_builds [OF assms(1)] assms(2) this] show ?thesis
    by (rule writes_cong) (auto simp: asn1_enc_eq len_enc_def)
qed

text \<open>Unsigned integers.\<close>

fun uint64_out :: "bool \<Rightarrow> bytes \<Rightarrow> bytes" where
  "uint64_out started [] = (if started then [] else [0])"
| "uint64_out started (b # bs) =
     (if started then b # bs
      else if b = 0 then uint64_out False bs
      else if 128 \<le> unat b then 0 # b # bs else b # bs)"

lemma high_bit: "b AND 0x80 \<noteq> (0 :: u8) \<longleftrightarrow> 128 \<le> unat b"
  by (auto simp: and_80)

lemma uint64_bytes_continues:
  assumes sane: "malloc_sane malloc"
  shows "continues (asn1_uint64_bytes malloc k started bs) k (uint64_out started bs) (length (uint64_out started bs))"
proof (induction bs arbitrary: started)
  case Nil
  have "asn1_uint64_bytes malloc k started [] = (if started then \<lambda>c. (True, c) else CBB_add_u8 malloc k 0)"
    by (simp add: fun_eq_iff)
  with writes_continues [OF u8_writes [OF sane, of k 0]] continues_nothing [of k] show ?case
    by simp
next
  case (Cons b bs)
  have rest: "continues (asn1_uint64_bytes malloc k True bs) k bs (length bs)"
  proof -
    have "uint64_out True bs = bs" by (cases bs) simp_all
    with Cons [of True] show ?thesis by simp
  qed
  from continues_seq [OF writes_continues [OF u8_writes [OF sane, of k b]] this]
  have tl: "continues (cbb_seq (CBB_add_u8 malloc k b) (asn1_uint64_bytes malloc k True bs)) k (b # bs) (length (b # bs))"
    by simp
  have skip: "cbb_seq (\<lambda>c. (True, c)) f = f" for f
    by (simp add: fun_eq_iff cbb_seq_def)
  consider "\<not> started" "b = 0" | "\<not> started" "b \<noteq> 0" "128 \<le> unat b"
    | "started \<or> b \<noteq> 0" "\<not> (\<not> started \<and> 128 \<le> unat b)" by blast
  then show ?case
  proof cases
    case 1
    then have "asn1_uint64_bytes malloc k started (b # bs) = asn1_uint64_bytes malloc k False bs"
      by (simp add: fun_eq_iff)
    with Cons [of False] 1 show ?thesis by simp
  next
    case 2
    then have "asn1_uint64_bytes malloc k started (b # bs) = cbb_seq (CBB_add_u8 malloc k 0)
        (cbb_seq (CBB_add_u8 malloc k b) (asn1_uint64_bytes malloc k True bs))"
      by (simp add: fun_eq_iff high_bit)
    with continues_seq [OF writes_continues [OF u8_writes [OF sane, of k 0]] tl] 2 show ?thesis by simp
  next
    case 3
    then have "asn1_uint64_bytes malloc k started (b # bs) =
        cbb_seq (CBB_add_u8 malloc k b) (asn1_uint64_bytes malloc k True bs)"
      by (auto simp: fun_eq_iff high_bit skip)
    with tl 3 show ?thesis by auto
  qed
qed

lemma value_byte: "ucast (drop_bit n (v :: u64)) AND 0xff = (of_nat (unat v div 2 ^ n) :: u8)"
proof -
  have "(0xff :: u8) = - 1" by simp
  moreover have "ucast (drop_bit n v) = (of_nat (unat v div 2 ^ n) :: u8)"
    unfolding word_unat_eq_iff unsigned_ucast_eq unsigned_of_nat unat_drop_bit_eq
    unfolding drop_bit_eq_div by simp
  ultimately show ?thesis by (simp only: and.right_neutral)
qed

lemma be_bytes_8:
  "be_bytes 8 n = [of_nat (n div 2 ^ 56), of_nat (n div 2 ^ 48), of_nat (n div 2 ^ 40), of_nat (n div 2 ^ 32),
     of_nat (n div 2 ^ 24), of_nat (n div 2 ^ 16), of_nat (n div 2 ^ 8), of_nat n]"
proof -
  have 8: "8 = Suc (Suc (Suc (Suc (Suc (Suc (Suc (Suc 0)))))))" by simp
  have m: "of_nat (x mod 256) = (of_nat x :: u8)" for x
    by (simp add: word_unat_eq_iff unsigned_of_nat take_bit_eq_mod)
  show ?thesis
    unfolding 8 be_bytes.simps m by (simp add: div_mult2_eq [symmetric])
qed

lemma value_bytes_eq: "value_bytes v = be_bytes 8 (unat v)"
proof -
  have "[0..<8] = [0, 1, 2, 3, 4, 5, 6, 7]" by code_simp
  then show ?thesis
    by (simp add: value_bytes_def value_byte be_bytes_8)
qed

lemma uint64_out_content:
  "be_nat bs < 2 ^ 64 \<Longrightarrow> uint_content (uint64_out False bs) = Some (be_nat bs)"
proof (induction bs)
  case Nil
  then show ?case by (simp add: uint_content_def be_nat_1)
next
  case (Cons b bs)
  then show ?case
    by (auto simp: uint_content_def be_nat_Cons)
qed

lemma uint64_out_eq: "uint64_out False (value_bytes v) = uint_bytes (unat v)"
proof -
  have "be_nat (value_bytes v) = unat v"
    using unat_less_64 [of v] by (simp add: value_bytes_eq)
  with uint64_out_content [of "value_bytes v"] unat_less_64 [of v] show ?thesis
    by (simp add: uint_content_iff)
qed

lemma skip_sign_content:
  "length bs \<le> 8 \<Longrightarrow> bs \<noteq> [] \<Longrightarrow> 128 \<le> unat (hd bs) \<Longrightarrow>
   int_content (skip_sign bs) = Some (int (be_nat bs) - 256 ^ length bs)"
proof (induction bs rule: skip_sign.induct)
  case (1 a b bs)
  show ?case
  proof (cases "a = 0xff \<and> b AND 0x80 \<noteq> 0")
    case True
    then have a: "unat a = 255" "128 \<le> unat b" by (simp_all add: high_bit)
    with 1 True have "int_content (skip_sign (b # bs)) = Some (int (be_nat (b # bs)) - 256 ^ length (b # bs))"
      by simp
    moreover have "be_nat (a # b # bs) = 255 * 256 ^ length (b # bs) + be_nat (b # bs)"
      using a(1) by (simp add: be_nat_Cons [of a])
    ultimately show ?thesis using True by simp
  next
    case False
    with 1 show ?thesis by (auto simp: high_bit int_content_def)
  qed
qed (auto simp: int_content_def)

lemma skip_sign_eq:
  assumes "sint v < 0"
  shows "skip_sign (value_bytes v) = int_bytes (sint v)"
proof -
  have neg: "2 ^ 63 \<le> unat v" and s: "sint v = int (unat v) - 2 ^ 64"
    using assms unat_less_64 [of v] by (auto simp: sint_u64 split: if_splits)
  have len: "length (value_bytes v) = 8" and ne: "value_bytes v \<noteq> []"
    by (simp_all add: value_bytes_eq flip: length_greater_0_conv)
  have "unat v div 2 ^ 56 < 256" "128 \<le> unat v div 2 ^ 56"
    using unat_less_64 [of v] neg by simp_all
  then have "128 \<le> unat (hd (value_bytes v))"
    by (simp add: value_bytes_eq be_bytes_8 unat_of_nat_u8)
  from skip_sign_content [OF _ ne this] unat_less_64 [of v] len
  have "int_content (skip_sign (value_bytes v)) = Some (sint v)"
    by (simp add: value_bytes_eq s)
  then show ?thesis by (simp add: int_content_iff)
qed

section \<open>Starting and finishing\<close>

text \<open>What a finished builder returned, and the contents of the top-level string.\<close>

definition result_bytes :: "heap_block option \<times> size_t \<Rightarrow> bytes" where
  "result_bytes r = (case fst r of None \<Rightarrow> [] | Some b \<Rightarrow> take (unat (snd r)) (blk_data b))"

fun contents :: "level list \<Rightarrow> bytes option" where
  "contents [] = None"
| "contents ((kd, d) # ls) = map_option (\<lambda>t. d @ t) (close_all ls)"

lemma collapse_0: "collapse 0 ((Prefix 0, d) # ls) = map_option (\<lambda>t. [(Prefix 0, d @ t)]) (close_all ls)"
  by (simp add: collapse_def add_last_def)

lemma finish_cases:
  assumes "malloc_sane malloc" and "cbb_rel c ls"
  obtains (fail) c' where "CBB_finish malloc 0 True True c = (None, c')" "cbb_wf c'"
      "contents ls = None \<or> \<not> space c ls (4 * (length ls - 1))"
  | (good) r c' out where "CBB_finish malloc 0 True True c = (Some r, c')" "cbb_base c' = None"
      "contents ls = Some out" "result_bytes r = out" "unat (snd r) = length out"
proof -
  obtain d ls1 where ls: "ls = (Prefix 0, d) # ls1"
    using assms(2) by (rule cbb_relE)
  obtain ok c1 where fl: "CBB_flush malloc 0 c = (ok, c1)" by (cases "CBB_flush malloc 0 c")
  note out = buildsD [OF flush_builds [OF assms(1), of 0] assms(2), unfolded fl]
  show ?thesis
  proof (cases ok)
    case False
    with out ls fl show ?thesis
      by (intro fail [of c1]) (auto simp: CBB_finish_def outcome_simps collapse_0 need_at_def)
  next
    case True
    with out ls obtain t where t: "close_all ls1 = Some t" and rel: "cbb_rel c1 [(Prefix 0, d @ t)]"
      by (auto simp: outcome_simps done_right_def collapse_0)
    from rel obtain b where b: "cbb_base c1 = Some b" "buffer_ok b" "bb_bytes b = layout [(Prefix 0, d @ t)]"
      by (auto elim!: cbb_relE)
    have bytes: "bb_bytes b = d @ t" by (simp add: b(3) layout_Cons layout_Nil)
    show ?thesis
    proof (rule good)
      show "CBB_finish malloc 0 True True c = (Some (bb_buf b, bb_len b), CBB_cleanup c1)"
        using True fl b(1) by (simp add: CBB_finish_def)
      show "cbb_base (CBB_cleanup c1) = None" by (simp add: CBB_cleanup_def)
      show "contents ls = Some (d @ t)" by (simp add: ls t)
      show "result_bytes (bb_buf b, bb_len b) = d @ t"
        using bytes by (simp add: result_bytes_def bb_bytes_def bb_mem_def split: option.splits)
      show "unat (snd (bb_buf b, bb_len b)) = length (d @ t)"
        using length_bb_bytes [OF b(2)] by (simp add: bytes)
    qed
  qed
qed

lemma init_rel:
  assumes "malloc_sane malloc" and "CBB_init malloc cap = (True, c)" and "unat cap < 2 ^ 62"
  shows "cbb_rel c [(Prefix 0, [])] \<and> cbb_cap c = unat cap"
proof -
  have nw: "no_wrap cap" using assms(3) by (simp add: no_wrap_def)
  have sound: "malloc_sound malloc" using assms(1) by (auto simp: malloc_sane_def malloc_sound_def)
  let ?buf = "OPENSSL_malloc malloc cap"
  have "cbb_init malloc ?buf cap = (True, c)" and got: "\<not> (0 < cap \<and> ?buf = None)"
    using assms(2) by (auto simp: CBB_init_def Let_def split: if_splits)
  then have c: "c = \<lparr>cbb_base = Some \<lparr>bb_buf = ?buf, bb_len = 0, bb_cap = cap, bb_can_resize = True,
      bb_error = False\<rparr>, cbb_children = []\<rparr>"
    by (auto simp: cbb_init_def split: option.splits)
  have "length (bb_mem \<lparr>bb_buf = ?buf, bb_len = 0, bb_cap = cap, bb_can_resize = True, bb_error = False\<rparr>)
      = unat cap" "\<forall>k. ?buf = Some k \<longrightarrow> blk_size k = cap"
    using OPENSSL_malloc_ok [OF sound nw] got
    by (auto simp: bb_mem_def block_ok_def word_gt_0 split: option.splits)
  with assms(3) show ?thesis
    by (auto simp: c cbb_rel_def buffer_ok_def bb_bytes_def layout_Cons layout_Nil cbb_cap_def)
qed

lemma init_fixed_rel:
  assumes "CBB_init_fixed malloc buf n = (True, c)" and "length buf = unat n" and "unat n < 2 ^ 62"
  shows "cbb_rel c [(Prefix 0, [])] \<and> cbb_cap c = unat n"
  using assms
  by (auto simp: CBB_init_fixed_def cbb_init_def cbb_rel_def buffer_ok_def bb_bytes_def bb_mem_def
    layout_Cons layout_Nil cbb_cap_def split: option.splits)

text \<open>A builder used from start to finish.\<close>

definition cbb_build ::
    "allocator \<Rightarrow> size_t \<Rightarrow> (cbb \<Rightarrow> bool \<times> cbb) \<Rightarrow> (heap_block option \<times> size_t) option" where
  "cbb_build malloc cap op =
     (case CBB_init malloc cap of
        (False, _) \<Rightarrow> None
      | (True, c) \<Rightarrow> (case op c of (False, _) \<Rightarrow> None | (True, c') \<Rightarrow> fst (CBB_finish malloc 0 True True c')))"

lemma build_sound:
  assumes sane: "malloc_sane malloc" and cap: "unat cap < 2 ^ 62" and op: "builds op f need"
    and r: "cbb_build malloc cap op = Some r"
  shows "\<exists>ls. f [(Prefix 0, [])] = Some ls \<and> contents ls = Some (result_bytes r) \<and>
    unat (snd r) = length (result_bytes r)"
proof -
  from r obtain c c1 where c: "CBB_init malloc cap = (True, c)" "op c = (True, c1)"
    "fst (CBB_finish malloc 0 True True c1) = Some r"
    by (auto simp: cbb_build_def split: prod.splits bool.splits)
  from buildsD [OF op, of c] init_rel [OF sane c(1) cap] c(2)
  obtain ls where ls: "f [(Prefix 0, [])] = Some ls" "cbb_rel c1 ls"
    by (auto simp: outcome_simps done_right_def)
  from c(3) show ?thesis
    by (rule_tac finish_cases [OF sane ls(2)]) (auto simp: ls(1))
qed

lemma build_complete:
  assumes sane: "malloc_sane malloc" and op: "continues op 0 x m"
    and c: "CBB_init malloc cap = (True, c)" and cap: "m \<le> unat cap" "unat cap < 2 ^ 62"
  shows "\<exists>r. cbb_build malloc cap op = Some r"
proof -
  obtain ok c1 where c1: "op c = (ok, c1)" by (cases "op c")
  from continuesD [OF op, of c "[(Prefix 0, [])]"] init_rel [OF sane c cap(2)] c1 cap(1)
  have 1: "ok" "cbb_rel c1 [(Prefix 0, x)]" "cbb_cap c \<le> cbb_cap c1" "length x \<le> m"
    by (cases ok; simp add: outcome_simps done_right_def add_last_def space_def layout_Cons layout_Nil)+
  show ?thesis
  proof (rule finish_cases [OF sane 1(2)])
    fix c'
    assume "contents [(Prefix 0, x)] = None \<or> \<not> space c1 [(Prefix 0, x)] (4 * (length [(Prefix 0, x)] - 1))"
    with 1(3,4) init_rel [OF sane c cap(2)] cap(1) show ?thesis
      by (simp add: space_def layout_Cons layout_Nil)
  qed (use c c1 1(1) in \<open>simp add: cbb_build_def\<close>)
qed

lemma build_writes:
  assumes "malloc_sane malloc" and "unat cap < 2 ^ 62" and "continues op 0 x m"
    and "cbb_build malloc cap op = Some r"
  shows "result_bytes r = x \<and> unat (snd r) = length x"
proof -
  from assms(4) obtain c c1 where c: "CBB_init malloc cap = (True, c)" "op c = (True, c1)"
    "fst (CBB_finish malloc 0 True True c1) = Some r"
    by (auto simp: cbb_build_def split: prod.splits bool.splits)
  from continuesD [OF assms(3), of c "[(Prefix 0, [])]"] init_rel [OF assms(1) c(1) assms(2)] c(2)
  have "cbb_rel c1 [(Prefix 0, x)]"
    by (simp add: outcome_simps done_right_def add_last_def)
  with c(3) show ?thesis
    by (rule_tac finish_cases [OF assms(1), of c1 "[(Prefix 0, x)]"]) auto
qed

section \<open>The writer contract\<close>

text \<open>
  An operation \<open>add\<close> that writes the encoding of its argument at any level, and the operation
  run on the arguments of a list.
\<close>

fun add_list :: "('a \<Rightarrow> cbb \<Rightarrow> bool \<times> cbb) \<Rightarrow> 'a list \<Rightarrow> cbb \<Rightarrow> bool \<times> cbb" where
  "add_list add [] = (\<lambda>c. (True, c))"
| "add_list add (x # xs) = cbb_seq (add x) (add_list add xs)"

locale cbb_writer =
  fixes add :: "allocator \<Rightarrow> nat \<Rightarrow> 'a \<Rightarrow> cbb \<Rightarrow> bool \<times> cbb"
    and val :: "'a \<Rightarrow> 'b" and enc :: "'b \<Rightarrow> bytes" and wok :: "'b \<Rightarrow> bool" and slack :: nat
  assumes add_writes:
    "malloc_sane malloc \<Longrightarrow> wok (val x) \<Longrightarrow>
       writes (add malloc k x) k (enc (val x)) (length (enc (val x)) + slack)"
begin

lemma list_continues:
  assumes "malloc_sane malloc" and "list_all (\<lambda>x. wok (val x)) xs"
  shows "continues (add_list (add malloc k) xs) k (concat (map (enc \<circ> val) xs))
    (sum_list (map (\<lambda>x. length (enc (val x)) + slack) xs))"
  using assms(2)
proof (induction xs)
  case Nil
  show ?case by (simp add: continues_nothing)
next
  case (Cons x xs)
  then have "wok (val x)" "list_all (\<lambda>x. wok (val x)) xs" by simp_all
  from continues_seq [OF writes_continues [OF add_writes [OF assms(1) this(1)]] Cons.IH [OF this(2)]]
  show ?case by (simp add: comp_def)
qed

lemma build_list:
  assumes "malloc_sane malloc" and "list_all (\<lambda>x. wok (val x)) xs" and "unat cap < 2 ^ 62"
    and "cbb_build malloc cap (add_list (add malloc 0) xs) = Some r"
  shows "result_bytes r = concat (map (enc \<circ> val) xs) \<and> unat (snd r) = length (result_bytes r)"
  using build_writes [OF assms(1,3) list_continues [OF assms(1,2)] assms(4)] by simp

lemma build_one:
  assumes "malloc_sane malloc" and "wok (val x)" and "unat cap < 2 ^ 62"
    and "cbb_build malloc cap (add malloc 0 x) = Some r"
  shows "result_bytes r = enc (val x) \<and> unat (snd r) = length (result_bytes r)"
  using build_writes [OF assms(1,3) writes_continues [OF add_writes [OF assms(1,2)]] assms(4)] by simp

lemma build_one_succeeds:
  assumes "malloc_sane malloc" and "wok (val x)" and "CBB_init malloc cap = (True, c)"
    and "length (enc (val x)) + slack \<le> unat cap" and "unat cap < 2 ^ 62"
  shows "\<exists>r. cbb_build malloc cap (add malloc 0 x) = Some r \<and> result_bytes r = enc (val x)"
  using build_complete [OF assms(1) writes_continues [OF add_writes [OF assms(1,2)]] assms(3,4,5)]
    build_one [OF assms(1,2,5)] by blast

end

text \<open>Reading back what was written.\<close>

fun get_list :: "'a cbs_op \<Rightarrow> nat \<Rightarrow> 'a list cbs_op" where
  "get_list g 0 = cbs_return []"
| "get_list g (Suc n) = and_then g (\<lambda>x. and_then (get_list g n) (\<lambda>xs. cbs_return (x # xs)))"

definition result_cbs :: "heap_block option \<times> size_t \<Rightarrow> cbs" where
  "result_cbs r = CBS_init (result_bytes r) (snd r)"

lemma result_cbs_ok:
  assumes "unat (snd r) = length (result_bytes r)"
  shows "valid (result_cbs r)" "cbs_bytes (result_cbs r) = result_bytes r"
proof -
  have "snd r = of_nat (length (result_bytes r))" using assms by (simp flip: assms)
  moreover have "length (result_bytes r) < 2 ^ 64" using unat_less_64 [of "snd r"] by (simp only: assms)
  ultimately show "valid (result_cbs r)" "cbs_bytes (result_cbs r) = result_bytes r"
    by (simp_all add: result_cbs_def valid_init cbs_bytes_init)
qed

locale cbb_round_trip = cbb_writer add val enc wok slack + cbs_codec get spec out enc rok
  for add :: "allocator \<Rightarrow> nat \<Rightarrow> 'a \<Rightarrow> cbb \<Rightarrow> bool \<times> cbb" and val :: "'a \<Rightarrow> 'b" and enc wok slack
    and get :: "'c cbs_op" and spec and out and rok +
  assumes wok_rok: "wok y \<Longrightarrow> rok y"
begin

lemma read_list:
  assumes "list_all rok ys" and "valid c" and "cbs_bytes c = concat (map enc ys) @ rest"
  shows "\<exists>zs c'. get_list get (length ys) c = (Some zs, c') \<and> list_all2 (out c) zs ys \<and> cbs_bytes c' = rest"
  using assms
proof (induction ys arbitrary: c)
  case Nil
  then show ?case by (simp add: cbs_return_def)
next
  case (Cons y ys)
  then obtain x c1 where 1: "get c = (Some x, c1)" "out c x y"
    "cbs_bytes c1 = concat (map enc ys) @ rest" "valid c1"
    using get_complete [of c y "concat (map enc ys) @ rest"] by auto
  with Cons.IH [of c1] Cons.prems(1) obtain zs c' where 2: "get_list get (length ys) c1 = (Some zs, c')"
    "list_all2 (out c1) zs ys" "cbs_bytes c' = rest"
    by auto
  have "window c1 c" using window_after [OF Cons.prems(2)] 1(1) by simp
  then have "list_all2 (out c) zs ys"
    using 2(2) out_mono by (auto elim: list_all2_mono)
  with 1 2 show ?case by (simp add: and_then_def cbs_return_def)
qed

lemma round_trip:
  assumes "malloc_sane malloc" and "list_all (\<lambda>x. wok (val x)) xs" and "unat cap < 2 ^ 62"
    and "cbb_build malloc cap (add_list (add malloc 0) xs) = Some r"
  shows "\<exists>zs c'. get_list get (length xs) (result_cbs r) = (Some zs, c') \<and>
    list_all2 (out (result_cbs r)) zs (map val xs) \<and> cbs_bytes c' = []"
proof -
  note b = build_list [OF assms]
  have "list_all rok (map val xs)"
    using assms(2) wok_rok by (auto simp: list.pred_set)
  with read_list [of "map val xs" "result_cbs r" "[]"] result_cbs_ok [of r] b show ?thesis
    by (simp add: comp_def)
qed

end

section \<open>The operations meet the contract\<close>

lemma add_uint_writes:
  fixes v :: "'a::len word"
  assumes "malloc_sane malloc" and "unat v < 256 ^ unat n" and "unat n < 2 ^ 62" and "unat v < 2 ^ 64"
  shows "writes (cbb_add_u malloc k (ucast v) n) k (be_bytes (unat n) (unat v))
    (length (be_bytes (unat n) (unat v)) + 0)"
proof -
  have "unat (ucast v :: u64) = unat v"
    using assms(4) by (simp add: unsigned_ucast_eq take_bit_nat_eq_self)
  with add_u_writes [OF assms(1) _ assms(3), of "ucast v" k] assms(2) show ?thesis by simp
qed

lemma unat_word_small:
  "unat (a :: u8) < 256 ^ 1" "unat (b :: u16) < 256 ^ 2" "unat (c :: u32) < 256 ^ 4" "unat (d :: u64) < 256 ^ 8"
  "unat (a :: u8) < 2 ^ 64" "unat (b :: u16) < 2 ^ 64" "unat (c :: u32) < 2 ^ 64" "unat (d :: u64) < 2 ^ 64"
  using less_trans [OF unat_less_256 [of a], of "2 ^ 64"] unsigned_less [of b] unsigned_less [of c]
    unsigned_less [of d]
  by (simp_all add: less_trans [OF unsigned_less])

interpretation add_u8: cbb_round_trip CBB_add_u8 unat "be_bytes 1" "\<lambda>v. v < 256 ^ 1" 0
  CBS_get_u8 "be_dec 1" out_nat "\<lambda>v. v < 256 ^ 1"
proof unfold_locales
  fix malloc k and x :: u8
  assume "malloc_sane malloc"
  from add_uint_writes [OF this, of x 1 k] unat_word_small(1,5) [of x]
  show "writes (CBB_add_u8 malloc k x) k (be_bytes 1 (unat x)) (length (be_bytes 1 (unat x)) + 0)"
    by (simp add: CBB_add_u8_def)
qed

interpretation add_u16: cbb_round_trip CBB_add_u16 unat "be_bytes 2" "\<lambda>v. v < 256 ^ 2" 0
  CBS_get_u16 "be_dec 2" out_nat "\<lambda>v. v < 256 ^ 2"
proof unfold_locales
  fix malloc k and x :: u16
  assume "malloc_sane malloc"
  from add_uint_writes [OF this, of x 2 k] unat_word_small(2,6) [of x]
  show "writes (CBB_add_u16 malloc k x) k (be_bytes 2 (unat x)) (length (be_bytes 2 (unat x)) + 0)"
    by (simp add: CBB_add_u16_def)
qed

interpretation add_u24: cbb_round_trip CBB_add_u24 unat "be_bytes 3" "\<lambda>v. v < 256 ^ 3" 0
  CBS_get_u24 "be_dec 3" out_nat "\<lambda>v. v < 256 ^ 3"
proof unfold_locales
  fix malloc k and x :: u32
  assume "malloc_sane malloc" "unat x < 256 ^ 3"
  from add_uint_writes [OF this(1), of x 3 k] this(2) unat_word_small(7) [of x]
  show "writes (CBB_add_u24 malloc k x) k (be_bytes 3 (unat x)) (length (be_bytes 3 (unat x)) + 0)"
    by (simp add: CBB_add_u24_def)
qed

interpretation add_u32: cbb_round_trip CBB_add_u32 unat "be_bytes 4" "\<lambda>v. v < 256 ^ 4" 0
  CBS_get_u32 "be_dec 4" out_nat "\<lambda>v. v < 256 ^ 4"
proof unfold_locales
  fix malloc k and x :: u32
  assume "malloc_sane malloc"
  from add_uint_writes [OF this, of x 4 k] unat_word_small(3,7) [of x]
  show "writes (CBB_add_u32 malloc k x) k (be_bytes 4 (unat x)) (length (be_bytes 4 (unat x)) + 0)"
    by (simp add: CBB_add_u32_def)
qed

interpretation add_u64: cbb_round_trip CBB_add_u64 unat "be_bytes 8" "\<lambda>v. v < 256 ^ 8" 0
  CBS_get_u64 "be_dec 8" out_nat "\<lambda>v. v < 256 ^ 8"
proof unfold_locales
  fix malloc k and x :: u64
  assume "malloc_sane malloc"
  from add_uint_writes [OF this, of x 8 k] unat_word_small(4,8) [of x]
  show "writes (CBB_add_u64 malloc k x) k (be_bytes 8 (unat x)) (length (be_bytes 8 (unat x)) + 0)"
    by (simp add: CBB_add_u64_def)
qed

interpretation add_base128: cbb_round_trip add_base128_integer unat b128_enc "\<lambda>v. v < 2 ^ 64" 0
  parse_base128_integer b128_dec out_nat "\<lambda>v. v < 2 ^ 64"
  by unfold_locales (simp_all add: base128_integer_writes)

lemma small_uint_bytes: "length (uint_bytes (unat (v :: u64))) \<le> 0xfffffffe"
proof -
  have "length (uint_bytes (unat v)) \<le> Suc 8"
    unfolding length_uint_bytes_iff using unat_less_64 [of v] by simp
  then show ?thesis by simp
qed

interpretation add_asn1_uint64: cbb_round_trip CBB_add_asn1_uint64 unat uint_enc "\<lambda>v. v < 2 ^ 64" 4
  CBS_get_asn1_uint64 uint_dec out_nat "\<lambda>v. v < 2 ^ 64"
proof unfold_locales
  fix malloc k and x :: u64
  assume sane: "malloc_sane malloc"
  have "continues (asn1_uint64_bytes malloc (Suc k) False (value_bytes x)) (Suc k) (uint_bytes (unat x))
      (length (uint_bytes (unat x)))"
    using uint64_bytes_continues [OF sane, of "Suc k" False "value_bytes x"] by (simp only: uint64_out_eq)
  from element_writes [OF sane this small_uint_bytes, of "CBS_ASN1_INTEGER"]
  show "writes (CBB_add_asn1_uint64 malloc k x) k (uint_enc (unat x)) (length (uint_enc (unat x)) + 4)"
    by (simp add: CBB_add_asn1_uint64_def uint_enc_def CBS_ASN1_INTEGER_def)
qed simp

lemma add_each_continues:
  assumes "malloc_sane malloc"
  shows "continues (add_each_u8 malloc k bs) k bs (length bs)"
proof (induction bs)
  case Nil
  have "add_each_u8 malloc k [] = (\<lambda>c. (True, c))" by (simp add: fun_eq_iff)
  then show ?case by (simp add: continues_nothing)
next
  case (Cons b bs)
  have "add_each_u8 malloc k (b # bs) = cbb_seq (CBB_add_u8 malloc k b) (add_each_u8 malloc k bs)"
    by (simp add: fun_eq_iff)
  with continues_seq [OF writes_continues [OF u8_writes [OF assms, of k b]] Cons] show ?case by simp
qed

interpretation add_asn1_int64: cbb_round_trip CBB_add_asn1_int64 sint int_enc
  "\<lambda>i. - (2 ^ 63) \<le> i \<and> i < 2 ^ 63" 4 CBS_get_asn1_int64 int_dec out_eq
  "\<lambda>i. - (2 ^ 63) \<le> i \<and> i < 2 ^ 63"
proof unfold_locales
  fix malloc k and x :: u64
  assume sane: "malloc_sane malloc"
  show "writes (CBB_add_asn1_int64 malloc k x) k (int_enc (sint x)) (length (int_enc (sint x)) + 4)"
  proof (cases "0 \<le> sint x")
    case True
    have "int (unat x) < int (2 ^ 64)"
      using unat_less_64 [of x] by (simp only: of_nat_less_iff)
    with True have "sint x = int (unat x)"
      by (cases "unat x < 2 ^ 63") (simp_all add: sint_u64)
    then have "nat (sint x) = unat x" by simp
    with True add_asn1_uint64.add_writes [OF sane, of x k] unat_less_64 [of x] show ?thesis
      by (simp add: CBB_add_asn1_int64_def int_enc_def int_bytes_def uint_enc_def)
  next
    case False
    have "length (int_bytes (sint x)) \<le> 0xfffffffe"
    proof -
      have "- 1 - sint x < 2 ^ 63"
        using sint_greater_eq [of x] by simp
      then have "length (uint_bytes (nat (- 1 - sint x))) \<le> Suc 7"
        unfolding length_uint_bytes_iff by (simp add: nat_less_iff)
      with False show ?thesis by (simp add: int_bytes_def)
    qed
    moreover have "continues (add_each_u8 malloc (Suc k) (skip_sign (value_bytes x))) (Suc k)
        (int_bytes (sint x)) (length (int_bytes (sint x)))"
      using add_each_continues [OF sane, of "Suc k" "skip_sign (value_bytes x)"] False
      by (simp add: skip_sign_eq)
    ultimately show ?thesis
      using element_writes [OF sane, of _ k "int_bytes (sint x)" "CBS_ASN1_INTEGER"] False
      by (simp add: CBB_add_asn1_int64_def int_enc_def CBS_ASN1_INTEGER_def)
  qed
qed simp

definition CBB_add_octets :: "allocator \<Rightarrow> nat \<Rightarrow> bytes \<Rightarrow> cbb \<Rightarrow> bool \<times> cbb" where
  "CBB_add_octets malloc k b = CBB_add_asn1_octet_string malloc k b (of_nat (length b))"

interpretation add_octets: cbb_round_trip CBB_add_octets "\<lambda>b. b" "asn1_enc CBS_ASN1_OCTETSTRING"
  "\<lambda>b. length b \<le> 0xfffffffe" 4 "CBS_get_asn1 CBS_ASN1_OCTETSTRING" "asn1_dec CBS_ASN1_OCTETSTRING"
  out_cbs "\<lambda>b. length b < 2 ^ 32"
proof unfold_locales
  fix malloc k and b :: bytes
  assume sane: "malloc_sane malloc" and b: "length b \<le> 0xfffffffe"
  have n: "unat (of_nat (length b) :: size_t) = length b"
    using b by (intro unat_of_nat_less) simp
  have "writes (CBB_add_bytes malloc (Suc k) b (of_nat (length b))) (Suc k) b (length b)"
    using add_bytes_writes [OF sane, of "of_nat (length b)" b "Suc k"] b by (simp add: n)
  from element_writes [OF sane writes_continues [OF this] b, of "CBS_ASN1_OCTETSTRING"]
  show "writes (CBB_add_octets malloc k b) k (asn1_enc CBS_ASN1_OCTETSTRING b)
      (length (asn1_enc CBS_ASN1_OCTETSTRING b) + 4)"
    by (simp add: CBB_add_octets_def CBB_add_asn1_octet_string_def)
qed simp

definition c_bool :: "int \<Rightarrow> int" where
  "c_bool v = (if v \<noteq> 0 then 1 else 0)"

interpretation add_bool: cbb_round_trip CBB_add_asn1_bool c_bool bool_enc "\<lambda>i. i = 0 \<or> i = 1" 4
  CBS_get_asn1_bool bool_dec out_eq "\<lambda>i. i = 0 \<or> i = 1"
proof unfold_locales
  fix malloc k and v :: int
  assume sane: "malloc_sane malloc"
  have "continues (CBB_add_u8 malloc (Suc k) (if v \<noteq> 0 then 0xff else 0)) (Suc k)
      (bool_bytes (c_bool v)) (length (bool_bytes (c_bool v)))"
    using writes_continues [OF u8_writes [OF sane]] by (simp add: bool_bytes_def c_bool_def)
  from element_writes [OF sane this, of "CBS_ASN1_BOOLEAN"]
  show "writes (CBB_add_asn1_bool malloc k v) k (bool_enc (c_bool v)) (length (bool_enc (c_bool v)) + 4)"
    by (simp add: CBB_add_asn1_bool_def bool_enc_def CBS_ASN1_BOOLEAN_def bool_bytes_def)
qed simp

text \<open>An allocator that meets what the code relies on, for the examples.\<close>

definition small_malloc :: allocator where
  "small_malloc n = (if n < 100 then Some (replicate (unat n) 0) else None)"

lemma small_malloc_sane: "malloc_sane small_malloc"
proof -
  have "unat n < 2 ^ 62" if "n < 100" for n :: size_t
    using that by (simp add: word_less_nat_alt)
  then show ?thesis by (simp add: malloc_sane_def small_malloc_def)
qed

lemma small_init: "CBB_init small_malloc 16 = (True, snd (CBB_init small_malloc 16))"
  by code_simp

end
