(* ===== verification/Cbb_Use.thy ===== *)
theory Cbb_Use
  imports Cbb_Spec "HOL-Library.List_Lexorder"
begin

text \<open>
  Uses of the builder as a whole: the sorting of a SET OF, every sequence of calls, and what can be
  read back of what was written.
\<close>

section \<open>SET OF\<close>

text \<open>The order of X.690, section 11.6, is the lexicographic one on the encodings.\<close>

lemma memcmp_le:
  "length xs = length ys \<Longrightarrow> memcmp xs ys \<le> 0 \<longleftrightarrow> xs \<le> ys"
  "length xs = length ys \<Longrightarrow> memcmp xs ys = 0 \<longleftrightarrow> xs = ys"
  by (induction xs ys rule: list_induct2) auto

lemma prefix_order:
  fixes xs ys :: "bytes"
  shows "m = min (length xs) (length ys) \<Longrightarrow>
    xs \<le> ys \<longleftrightarrow> (if take m xs = take m ys then length xs \<le> length ys else take m xs \<le> take m ys)"
proof (induction xs arbitrary: ys m)
  case (Cons x xs)
  show ?case
  proof (cases ys)
    case (Cons y ys')
    with Cons.IH [of _ ys'] Cons.prems show ?thesis by (cases m) auto
  qed (use Cons.prems in simp)
qed simp

lemma compare_le:
  assumes "valid a" and "valid b"
  shows "compare_set_of_element a b \<le> 0 \<longleftrightarrow> cbs_bytes a \<le> cbs_bytes b"
proof -
  let ?m = "min (length (cbs_bytes a)) (length (cbs_bytes b))"
  have la: "length (cbs_bytes a) = unat (cbs_len a)" "length (cbs_bytes b) = unat (cbs_len b)"
    using assms by (simp_all add: valid_def cbs_bytes_def)
  have m: "unat (if Cbs.CBS_len a < Cbs.CBS_len b then Cbs.CBS_len a else Cbs.CBS_len b) = ?m"
    by (simp add: la Cbs.CBS_len_def word_less_nat_alt min_def)
  have ta: "take ?m (Cbs.CBS_data a) = take ?m (cbs_bytes a)" "take ?m (Cbs.CBS_data b) = take ?m (cbs_bytes b)"
    by (simp_all add: Cbs.CBS_data_def cbs_bytes_def la min_absorb1)
  have len: "length (take ?m (cbs_bytes a)) = length (take ?m (cbs_bytes b))" by simp
  have le: "Cbs.CBS_len a < Cbs.CBS_len b \<longleftrightarrow> length (cbs_bytes a) < length (cbs_bytes b)"
    "Cbs.CBS_len a = Cbs.CBS_len b \<longleftrightarrow> length (cbs_bytes a) = length (cbs_bytes b)"
    by (simp_all add: la Cbs.CBS_len_def word_less_nat_alt word_unat_eq_iff)
  show ?thesis
    unfolding compare_set_of_element_def Let_def m ta prefix_order [OF refl, of "cbs_bytes a"]
    using memcmp_le [OF len] le by auto
qed

lemma set_qsort: "set (qsort cmp xs) = set xs"
proof -
  have "set (insert_by cmp x ys) = insert x (set ys)" for x ys
    by (induction ys) auto
  then show ?thesis by (induction xs) (simp_all add: qsort_def)
qed

lemma qsort_sort:
  assumes "\<forall>x\<in>set xs. valid x"
  shows "map cbs_bytes (qsort compare_set_of_element xs) = sort (map cbs_bytes xs)"
proof -
  have ins: "map cbs_bytes (insert_by compare_set_of_element x ys) = insort (cbs_bytes x) (map cbs_bytes ys)"
    if "valid x" "\<forall>y\<in>set ys. valid y" for x ys
    using that by (induction ys) (auto simp: compare_le)
  show ?thesis
    using assms
  proof (induction xs)
    case Nil
    then show ?case by (simp add: qsort_def)
  next
    case (Cons x xs)
    have "qsort compare_set_of_element (x # xs) =
        insert_by compare_set_of_element x (qsort compare_set_of_element xs)"
      by (simp add: qsort_def)
    with Cons ins [of x "qsort compare_set_of_element xs"] show ?case
      by (simp add: set_qsort)
  qed
qed

section \<open>Every use of the builder\<close>








text \<open>Cutting the buffer off at the end of what the strings up to level \<open>k\<close> held at some point.\<close>

lemma cut_rel:
  assumes "cbb_rel c ls" and "cbb_base c = Some b" and "k < length ls"
    and "unat n = length (layout (take k ls @ [(fst (ls ! k), d)]))" and "snd (ls ! k) = d @ d'"
  shows "cbb_rel (c\<lparr>cbb_base := Some (b\<lparr>bb_len := n\<rparr>), cbb_children := take k (cbb_children c)\<rparr>)
    (take k ls @ [(fst (ls ! k), d)])"
proof -
  obtain d0 ls1 where ls: "ls = (Prefix 0, d0) # ls1" and b: "\<not> bb_error b" "buffer_ok b"
    "bb_bytes b = layout ls" and fr: "frames_ok (length d0) ls1 (cbb_children c)"
    using assms(1,2) by (auto elim!: cbb_relE)
  let ?ls = "take k ls @ [(fst (ls ! k), d)]"
  have split: "layout ls = layout ?ls @ d' @ layout (drop (Suc k) ls)"
  proof -
    have "ls = take k ls @ (fst (ls ! k), d @ d') # drop (Suc k) ls"
      using id_take_nth_drop [OF assms(3)] assms(5) by (metis prod.collapse)
    then have "layout ls = layout (take k ls @ (fst (ls ! k), d @ d') # drop (Suc k) ls)" by simp
    then show ?thesis by (simp add: layout_append layout_Cons layout_Nil)
  qed
  have len: "unat (bb_len b) = length (layout ls)"
    using length_bb_bytes [OF b(2)] b(3) by simp
  let ?b = "b\<lparr>bb_len := n\<rparr>"
  have n: "unat n \<le> unat (bb_len b)" "bb_cap (b\<lparr>bb_len := n\<rparr>) = bb_cap b"
    by (simp_all add: len split assms(4))
  have bytes: "bb_bytes ?b = layout ?ls"
  proof -
    have "bb_bytes ?b = take (unat n) (bb_bytes b)"
      using n by (simp add: bb_bytes_def min_absorb1)
    then show ?thesis by (simp add: b(3) split assms(4))
  qed
  have ok: "buffer_ok ?b"
    using b(2) n by (simp add: buffer_ok_def word_le_nat_alt)
  have flen: "length (cbb_children c) = length ls1" by (rule frames_ok_length [OF fr])
  show ?thesis
  proof (cases k)
    case 0
    with bytes ok b(1) show ?thesis by (simp add: cbb_rel_def ls)
  next
    case (Suc m)
    have "ls1 = take m ls1 @ (fst (ls ! k), d @ d') # drop (Suc m) ls1"
      using id_take_nth_drop [of m ls1] assms(3,5) by (metis Suc Suc_less_eq ls length_Cons nth_Cons_Suc prod.collapse)
    moreover have "cbb_children c = take m (cbb_children c) @ cbb_children c ! m # drop (Suc m) (cbb_children c)"
      using flen assms(3) by (intro id_take_nth_drop) (simp add: Suc ls)
    ultimately have "frames_ok (length d0) (take m ls1 @ (fst (ls ! k), d @ d') # drop (Suc m) ls1)
        (take m (cbb_children c) @ cbb_children c ! m # drop (Suc m) (cbb_children c))"
      using fr by simp
    then have "frames_ok (length d0) (take m ls1 @ [(fst (ls ! k), d)]) (take m (cbb_children c) @ [cbb_children c ! m])"
      using flen by (simp add: frames_ok_append)
    moreover have "take k (cbb_children c) = take m (cbb_children c) @ [cbb_children c ! m]"
      using flen assms(3) by (simp add: Suc ls take_Suc_conv_app_nth)
    ultimately show ?thesis
      using bytes ok b(1) by (simp add: cbb_rel_def ls Suc)
  qed
qed

lemma discard_rel:
  assumes "cbb_rel c ls" and "Suc k < length ls"
    and "CBB_discard_child k c = Some c'"
  shows "cbb_rel c' (take (Suc k) ls)"
proof -
  obtain d0 ls1 b where ls: "ls = (Prefix 0, d0) # ls1" and b: "cbb_base c = Some b"
    and fr: "frames_ok (length d0) ls1 (cbb_children c)"
    using assms(1) by (rule cbb_relE)
  have flen: "length (cbb_children c) = length ls1" by (rule frames_ok_length [OF fr])
  then have k: "k < length (cbb_children c)" using assms(2) by (simp add: ls)
  obtain kd d where l: "ls1 ! k = (kd, d)" by (cases "ls1 ! k")
  have "ls1 = take k ls1 @ (kd, d) # drop (Suc k) ls1"
    using id_take_nth_drop [of k ls1] k flen l by simp
  moreover have "cbb_children c = take k (cbb_children c) @ cbb_children c ! k # drop (Suc k) (cbb_children c)"
    by (rule id_take_nth_drop [OF k])
  ultimately have "frames_ok (length d0) (take k ls1 @ (kd, d) # drop (Suc k) ls1)
      (take k (cbb_children c) @ cbb_children c ! k # drop (Suc k) (cbb_children c))"
    using fr by simp
  then have off: "unat (fr_offset (cbb_children c ! k)) = length d0 + length (layout (take k ls1))"
    using flen k by (simp add: frames_ok_append frame_of_def)
  have tk: "take k ls @ [ls ! k] = take (Suc k) ls"
    using assms(2) by (simp add: take_Suc_conv_app_nth)
  have "unat (fr_offset (cbb_children c ! k)) = length (layout (take (Suc k) ls))"
    by (simp add: off ls layout_Cons)
  with cut_rel [OF assms(1) b, of k "fr_offset (cbb_children c ! k)" "snd (ls ! k)" "[]"] assms(2) k b
  have "cbb_rel (c\<lparr>cbb_base := Some (b\<lparr>bb_len := fr_offset (cbb_children c ! k)\<rparr>),
      cbb_children := take k (cbb_children c)\<rparr>) (take (Suc k) ls)"
    by (simp add: tk)
  with assms(3) k b show ?thesis
    by (simp add: CBB_discard_child_def split: if_splits)
qed

text \<open>The elements the loop finds.\<close>

lemma set_of_elements_ok:
  assumes "set_of_elements n c = Some xs" and "valid c"
  shows "concat (map cbs_bytes xs) = cbs_bytes c \<and>
    (\<forall>x\<in>set xs. valid x \<and> (\<exists>t b. length b < 2 ^ 32 \<and> cbs_bytes x = asn1_enc t b))"
  using assms
proof (induction n arbitrary: c xs)
  case 0
  then show ?case by (auto simp: cbs_bytes_def Cbs.CBS_len_def split: if_splits)
next
  case (Suc n)
  show ?case
  proof (cases "Cbs.CBS_len c = 0")
    case True
    with Suc.prems show ?thesis by (simp add: cbs_bytes_def Cbs.CBS_len_def)
  next
    case False
    with Suc.prems obtain elt tag hl c' ys where g: "CBS_get_any_asn1_element c = (Some (elt, tag, hl), c')"
      and ys: "set_of_elements n c' = Some ys" and xs: "xs = elt # ys"
      by (auto split: option.splits prod.splits)
    from any_element.get_sound [OF Suc.prems(2) g] obtain e where e: "elem_ok False e"
      "out_elem c (elt, tag, hl) e" "cbs_bytes c = elem_enc e @ cbs_bytes c'"
      by blast
    from e(1) obtain t b where tb: "e = (t, Some b)" "length b < 2 ^ 32"
      by (rule elem_ok_False)
    have "valid c'" using any_element.valid_after [OF Suc.prems(2)] g by simp
    moreover have "valid elt" "cbs_bytes elt = elem_enc e"
      using e(2) window_valid [OF _ Suc.prems(2)] by (auto simp: out_elem_def)
    ultimately show ?thesis
      using Suc.IH [OF ys] e(3) tb by (auto simp: xs asn1_enc_def)
  qed
qed

lemma add_children_continues:
  assumes "malloc_sane malloc" and "\<forall>x\<in>set xs. valid x \<and> unat (cbs_len x) < 2 ^ 62"
  shows "continues (add_children malloc k xs) k (concat (map cbs_bytes xs)) (length (concat (map cbs_bytes xs)))"
  using assms(2)
proof (induction xs)
  case Nil
  have "add_children malloc k [] = (\<lambda>c. (True, c))" by (simp add: fun_eq_iff)
  then show ?case by (simp add: continues_nothing)
next
  case (Cons x xs)
  have "writes (CBB_add_bytes malloc k (Cbs.CBS_data x) (Cbs.CBS_len x)) k (cbs_bytes x) (length (cbs_bytes x))"
    using add_bytes_writes [OF assms(1), of "cbs_len x" "cbs_data x" k] Cons.prems
    by (simp add: Cbs.CBS_data_def Cbs.CBS_len_def cbs_bytes_def valid_def min_absorb2)
  moreover have "add_children malloc k (x # xs) =
      cbb_seq (CBB_add_bytes malloc k (Cbs.CBS_data x) (Cbs.CBS_len x)) (add_children malloc k xs)"
    by (simp add: fun_eq_iff)
  ultimately show ?case
    using continues_seq [OF writes_continues Cons.IH] Cons.prems by simp
qed

text \<open>What \<open>CBB_data\<close> and \<open>CBB_len\<close> show of the innermost string.\<close>

lemma innermost_data:
  assumes rel: "cbb_rel c (us @ [(kd, d)])"
  shows "unat (cbb_content_start (length us) c) = length (layout us) + plen kd"
    "unat (CBB_len (length us) c) = length d"
    "take (length d) (CBB_data (length us) c) = d" "length d \<le> length (CBB_data (length us) c)"
    "length d < 2 ^ 62"
proof -
  obtain d0 ls1 b where ls: "us @ [(kd, d)] = (Prefix 0, d0) # ls1" and b: "cbb_base c = Some b"
    "buffer_ok b" "bb_bytes b = layout (us @ [(kd, d)])" and fr: "frames_ok (length d0) ls1 (cbb_children c)"
    using rel by (rule cbb_relE)
  have len: "unat (bb_len b) = length (layout us) + plen kd + length d"
    using length_bb_bytes [OF b(2)] b(3) by (simp add: layout_append layout_Cons layout_Nil)
  have small: "unat (bb_len b) < 2 ^ 62" "unat (bb_len b) \<le> length (bb_mem b)"
    using b(2) by (simp_all add: buffer_ok_def word_le_nat_alt)
  show start: "unat (cbb_content_start (length us) c) = length (layout us) + plen kd"
  proof (cases us)
    case Nil
    with ls show ?thesis by (simp add: cbb_content_start_def layout_Nil)
  next
    case (Cons u vs)
    with ls have ls1: "ls1 = vs @ [(kd, d)]" and u: "u = (Prefix 0, d0)" by simp_all
    from fr frames_ok_length [OF fr] obtain gs g where fs: "cbb_children c = gs @ [g]" "length gs = length vs"
      by (cases "cbb_children c" rule: rev_cases) (auto simp: ls1)
    with fr have g: "frame_of g (length d0 + length (layout vs)) kd"
      by (simp add: ls1 frames_ok_append)
    have "plen kd \<le> 8" using g by (simp add: frame_of_def)
    moreover have "length d0 + length (layout vs) + plen kd < 2 ^ 62"
      using small(1) len by (simp add: Cons u layout_Cons)
    ultimately show ?thesis
      using g by (simp add: cbb_content_start_def Cons fs u layout_Cons nth_append frame_of_def unat_word_ariths)
  qed
  show "unat (CBB_len (length us) c) = length d"
    using b(1) len start by (simp add: CBB_len_def unat_sub_if_size)
  show "length d \<le> length (CBB_data (length us) c)" "length d < 2 ^ 62"
    using b(1) len start small by (simp_all add: CBB_data_def)
  have "drop (length (layout us) + plen kd) (bb_bytes b) = d"
    by (simp add: b(3) layout_append layout_Cons layout_Nil)
  then show "take (length d) (CBB_data (length us) c) = d"
    using b(1) start len by (simp add: CBB_data_def bb_bytes_def drop_take)
qed

lemma set_of_cases:
  assumes sane: "malloc_sane malloc" and fl: "CBB_flush malloc k c = (True, c1)"
    and rel1: "cbb_rel c1 (us @ [(kd, d)])" and us: "length us = k"
  obtains (same) ok where "CBB_flush_asn1_set_of malloc k c = (ok, c1)"
      "ok \<Longrightarrow> \<exists>es. d = concat es \<and> sort es = es \<and> (\<forall>e\<in>set es. \<exists>t b. length b < 2 ^ 32 \<and> e = asn1_enc t b)"
  | (rewritten) c2 es where
      "CBB_flush_asn1_set_of malloc k c = add_children malloc k (qsort compare_set_of_element es) c2"
      "cbb_rel c2 (us @ [(kd, [])])" "concat (map cbs_bytes es) = d"
      "\<forall>x\<in>set es. valid x \<and> (\<exists>t b. length b < 2 ^ 32 \<and> cbs_bytes x = asn1_enc t b)"
      "\<forall>x\<in>set es. unat (cbs_len x) < 2 ^ 62"
proof -
  note data = innermost_data [OF rel1, unfolded us]
  let ?n = "CBB_len k c1"
  let ?in = "CBS_init (CBB_data k c1) ?n"
  let ?c2 = "c1\<lparr>cbb_base := map_option (bb_len_update (\<lambda>_. cbb_content_start k c1)) (cbb_base c1)\<rparr>"
  have vin: "valid ?in" "cbs_bytes ?in = d"
    using data by (simp_all add: valid_def cbs_bytes_def CBS_init_def)
  have run: "CBB_flush_asn1_set_of malloc k c =
    (case set_of_elements (unat ?n) ?in of
       None \<Rightarrow> (False, c1)
     | Some parsed \<Rightarrow>
         if length parsed < 2 then (True, c1)
         else if (2 ^ 64 - 1) div sizeof_CBS < length parsed then (False, c1)
         else
           (case (OPENSSL_memdup malloc (CBB_data k c1) ?n, OPENSSL_malloc malloc (of_nat (length parsed * sizeof_CBS))) of
              (Some buf, Some _) \<Rightarrow>
                (case set_of_elements (unat ?n) (CBS_init (blk_data buf) ?n) of
                   None \<Rightarrow> (False, c1)
                 | Some children \<Rightarrow> add_children malloc k (qsort compare_set_of_element children) ?c2)
            | _ \<Rightarrow> (False, c1)))"
    unfolding CBB_flush_asn1_set_of_def cbb_seq_def fl Let_def by simp
  show ?thesis
  proof (cases "set_of_elements (unat ?n) ?in")
    case None
    with run show ?thesis by (intro same [of False]) simp_all
  next
    case (Some xs)
    note el = set_of_elements_ok [OF Some vin(1)]
    show ?thesis
    proof (cases "length xs < 2")
      case True
      have "sort (map cbs_bytes xs) = map cbs_bytes xs"
        using True by (cases xs) auto
      with el vin(2) have "\<exists>es. d = concat es \<and> sort es = es \<and> (\<forall>e\<in>set es. \<exists>t b. length b < 2 ^ 32 \<and> e = asn1_enc t b)"
        by (intro exI [of _ "map cbs_bytes xs"]) auto
      with True Some run show ?thesis by (intro same [of True]) simp_all
    next
      case False
      show ?thesis
      proof (cases "CBB_flush_asn1_set_of malloc k c = (False, c1)")
        case True
        then show ?thesis by (intro same [of False]) simp_all
      next
        case go: False
        from run go Some False obtain buf ys where buf: "OPENSSL_memdup malloc (CBB_data k c1) ?n = Some buf"
          and ys: "set_of_elements (unat ?n) (CBS_init (blk_data buf) ?n) = Some ys"
          and add: "CBB_flush_asn1_set_of malloc k c = add_children malloc k (qsort compare_set_of_element ys) ?c2"
          by (auto split: option.splits if_splits)
        have "malloc_sound malloc" using sane by (auto simp: malloc_sane_def malloc_sound_def)
        from OPENSSL_memdup_ok [OF this _ _ buf] data have b: "blk_data buf = d"
          by (simp add: no_wrap_def)
        have vb: "valid (CBS_init (blk_data buf) ?n)" "cbs_bytes (CBS_init (blk_data buf) ?n) = d"
          using data by (simp_all add: valid_def cbs_bytes_def CBS_init_def b)
        note el = set_of_elements_ok [OF ys vb(1), unfolded vb(2)]
        obtain d0 ls2 bb where bb: "cbb_base c1 = Some bb" and
          ls2: "us @ [(kd, d)] = (Prefix 0, d0) # ls2" "frames_ok (length d0) ls2 (cbb_children c1)"
          using rel1 by (rule cbb_relE)
        have "length (cbb_children c1) = k"
          using frames_ok_length [OF ls2(2)] arg_cong [OF ls2(1), of length] us by simp
        then have cut: "cbb_rel ?c2 (us @ [(kd, [])])"
          using cut_rel [OF rel1 bb, of k "cbb_content_start k c1" "[]" d] data us bb
          by (simp add: nth_append layout_append layout_Cons layout_Nil)
        have "unat (cbs_len x) < 2 ^ 62" if "x \<in> set ys" for x
        proof -
          have "length (cbs_bytes x) \<le> length (concat (map cbs_bytes ys))"
            using that by (auto simp: length_concat comp_def intro: member_le_sum_list)
          with el that data(5) show ?thesis by (auto simp: valid_def cbs_bytes_def)
        qed
        with add cut el show ?thesis by (intro rewritten) auto
      qed
    qed
  qed
qed

lemma set_of_ok:
  assumes sane: "malloc_sane malloc" and rel: "cbb_rel c ls"
  shows "case CBB_flush_asn1_set_of malloc k c of
      (False, c') \<Rightarrow> cbb_wf c'
    | (True, c') \<Rightarrow>
        \<exists>us kd es. collapse k ls = Some (us @ [(kd, concat es)]) \<and> cbb_rel c' (us @ [(kd, concat (sort es))]) \<and>
          (\<forall>e\<in>set es. \<exists>t b. length b < 2 ^ 32 \<and> e = asn1_enc t b)"
proof (cases "CBB_flush malloc k c")
  case (Pair ok c1)
  show ?thesis
  proof (cases ok)
    case False
    with Pair buildsD [OF flush_builds [OF sane] rel, of k] show ?thesis
      by (simp add: CBB_flush_asn1_set_of_def cbb_seq_def outcome_simps)
  next
    case True
    with Pair have fl: "CBB_flush malloc k c = (True, c1)" by simp
    from buildsD [OF flush_builds [OF sane] rel, of k] fl obtain ls1 where
      col: "collapse k ls = Some ls1" and rel1: "cbb_rel c1 ls1"
      by (auto simp: outcome_simps done_right_def)
    from collapse_Some [OF col] obtain us kd d where ls1: "ls1 = us @ [(kd, d)]" and us: "length us = k"
      by (cases ls1 rule: rev_cases) auto
    show ?thesis
    proof (rule set_of_cases [OF sane fl rel1 [unfolded ls1] us])
      fix ok
      assume r: "CBB_flush_asn1_set_of malloc k c = (ok, c1)"
        and "ok \<Longrightarrow> \<exists>es. d = concat es \<and> sort es = es \<and> (\<forall>e\<in>set es. \<exists>t b. length b < 2 ^ 32 \<and> e = asn1_enc t b)"
      then obtain es where es: "ok \<longrightarrow> d = concat es \<and> sort es = es \<and> (\<forall>e\<in>set es. \<exists>t b. length b < 2 ^ 32 \<and> e = asn1_enc t b)"
        by blast
      show ?thesis
      proof (cases ok)
        case True
        with es rel1 col show ?thesis
          unfolding r ls1 by (auto intro!: exI [of _ us] exI [of _ kd] exI [of _ es])
      next
        case False
        then show ?thesis using rel1 by (simp add: r cbb_rel_wf)
      qed
    next
      fix c2 es
      assume r: "CBB_flush_asn1_set_of malloc k c = add_children malloc k (qsort compare_set_of_element es) c2"
        and rel2: "cbb_rel c2 (us @ [(kd, [])])" and d: "concat (map cbs_bytes es) = d"
        and el: "\<forall>x\<in>set es. valid x \<and> (\<exists>t b. length b < 2 ^ 32 \<and> cbs_bytes x = asn1_enc t b)"
        and small: "\<forall>x\<in>set es. unat (cbs_len x) < 2 ^ 62"
      have "\<forall>x\<in>set (qsort compare_set_of_element es). valid x \<and> unat (cbs_len x) < 2 ^ 62"
        using el small by (simp add: set_qsort)
      from continuesD [OF add_children_continues [OF sane this] rel2, of k] us
      have out: "outcome (\<lambda>ls. Some (add_last (concat (map cbs_bytes (qsort compare_set_of_element es))) ls))
          (\<lambda>_. length (concat (map cbs_bytes (qsort compare_set_of_element es)))) c2 (us @ [(kd, [])])
          (CBB_flush_asn1_set_of malloc k c)"
        by (simp add: r)
      obtain ok c' where r': "CBB_flush_asn1_set_of malloc k c = (ok, c')"
        by (cases "CBB_flush_asn1_set_of malloc k c")
      show ?thesis
      proof (cases ok)
        case True
        with out r' have "cbb_rel c' (us @ [(kd, concat (map cbs_bytes (qsort compare_set_of_element es)))])"
          by (simp add: outcome_simps done_right_def)
        with True r' col ls1 d el qsort_sort [of es] show ?thesis
          by (auto intro!: exI [of _ us] exI [of _ kd] exI [of _ "map cbs_bytes es"])
      next
        case False
        with out r' show ?thesis by (simp add: outcome_simps)
      qed
    qed
  qed
qed
































lemma flush_children_error: "flush_children malloc fs b = (False, fs', b') \<Longrightarrow> bb_error b'"
  by (induction fs arbitrary: fs' b') (auto simp: Let_def split: if_splits prod.splits bool.splits)

lemma flush_broken:
  assumes "malloc_sane malloc" and "cbb_rel c ls" and "k < length ls" and "CBB_flush malloc k c = (False, c')"
  shows "broken c'"
proof -
  obtain d ls1 b where "ls = (Prefix 0, d) # ls1" "cbb_base c = Some b" "frames_ok (length d) ls1 (cbb_children c)"
    using assms(2) by (rule cbb_relE)
  with frames_ok_length [of "length d" ls1] assms(3,4) show ?thesis
    by (auto simp: CBB_flush_def broken_def split: prod.splits dest: flush_children_error)
qed

section \<open>After an error\<close>





text \<open>
  \<open>CBB_did_write\<close> succeeds on the innermost open string whenever the capacity is not exceeded, whether an
  error has been recorded or not.
\<close>

lemma did_write_ignores_error:
  assumes "cbb_base c = Some b" and "unat (bb_len b) + unat n \<le> unat (bb_cap b)"
  shows "CBB_did_write (length (cbb_children c)) n c = Some (True, c\<lparr>cbb_base := Some (b\<lparr>bb_len := bb_len b + n\<rparr>)\<rparr>)"
proof -
  have "unat (bb_cap b) < 2 ^ 64" by (rule less_le_trans [OF unsigned_less]) simp
  with assms(2) have "unat (bb_len b + n) = unat (bb_len b) + unat n"
    by (intro unat_add_lem [THEN iffD1]) simp
  with assms show ?thesis by (simp add: CBB_did_write_def Let_def word_less_nat_alt)
qed

section \<open>Nested elements\<close>

fun open_elements :: "allocator \<Rightarrow> nat \<Rightarrow> u32 list \<Rightarrow> cbb \<Rightarrow> bool \<times> cbb" where
  "open_elements malloc k [] = (\<lambda>c. (True, c))"
| "open_elements malloc k (t # ts) = cbb_seq (CBB_add_asn1 malloc k t) (open_elements malloc (Suc k) ts)"

text \<open>The open strings once every element of the list has been opened inside the one before.\<close>

fun nest :: "kind \<Rightarrow> bytes \<Rightarrow> u32 list \<Rightarrow> bytes \<Rightarrow> level list" where
  "nest kd d [] p = [(kd, d @ p)]"
| "nest kd d (t # ts) p = (kd, d @ tag_enc t) # nest Asn1 [] ts p"

lemma nest_rel:
  assumes "malloc_sane malloc" and "unat n \<le> length p" and "unat n < 2 ^ 62"
  shows "cbb_rel c (us @ [(kd, d)]) \<Longrightarrow>
    cbb_seq (open_elements malloc (length us) ts) (CBB_add_bytes malloc (length us + length ts) p n) c = (True, c') \<Longrightarrow>
    cbb_rel c' (us @ nest kd d ts (take (unat n) p))"
proof (induction ts arbitrary: c us kd d)
  case Nil
  then have "CBB_add_bytes malloc (length us) p n c = (True, c')"
    by (simp add: cbb_seq_def)
  with continuesD [OF writes_continues [OF add_bytes_writes [OF assms]] Nil.prems(1), of "length us"]
  show ?case by (simp add: outcome_simps done_right_def)
next
  case (Cons t ts)
  from Cons.prems(2) obtain c1 where c1: "CBB_add_asn1 malloc (length us) t c = (True, c1)"
    and rest: "cbb_seq (open_elements malloc (Suc (length us)) ts)
      (CBB_add_bytes malloc (Suc (length us) + length ts) p n) c1 = (True, c')"
    by (auto simp: cbb_seq_assoc) (auto simp: cbb_seq_def split: prod.splits bool.splits)
  from buildsD [OF asn1_builds [OF assms(1)] Cons.prems(1), of "length us" t] c1
  have "cbb_rel c1 ((us @ [(kd, d @ tag_enc t)]) @ [(Asn1, [])])"
    by (simp add: outcome_simps done_right_def open_at_def collapse_same)
  from Cons.IH [OF this] rest show ?case by simp
qed

lemma close_nest:
  "close_all (nest kd d ts p) = Some y \<Longrightarrow> close_level kd (d @ foldr asn1_enc ts p) = Some y"
proof (induction ts arbitrary: kd d y)
  case (Cons t ts)
  then obtain z where z: "close_all (nest Asn1 [] ts p) = Some z" "close_level kd (d @ tag_enc t @ z) = Some y"
    by (auto split: option.splits)
  from Cons.IH [OF z(1)] have "z = len_enc (length (foldr asn1_enc ts p)) @ foldr asn1_enc ts p"
    by (auto split: if_splits)
  with z(2) show ?case by (simp add: asn1_enc_eq [of t])
qed simp

lemma contents_nest: "contents (nest kd [] ts p) = Some y \<Longrightarrow> y = foldr asn1_enc ts p"
proof (cases ts)
  case (Cons t us)
  assume "contents (nest kd [] ts p) = Some y"
  with Cons obtain z where z: "close_all (nest Asn1 [] us p) = Some z" "y = tag_enc t @ z"
    by auto
  from close_nest [OF z(1)] have "z = len_enc (length (foldr asn1_enc us p)) @ foldr asn1_enc us p"
    by (auto split: if_splits)
  with z(2) Cons show ?thesis by (simp add: asn1_enc_eq [of t])
qed simp

section \<open>Properties\<close>

text \<open>
  C10: flushing the \<open>CBB\<close> of level \<open>k\<close> closes every string opened inside it: their lengths are filled
  in, long ASN.1 lengths move the contents along, and the result is appended to level \<open>k\<close>. It fails
  only when a string is longer than its prefix can say, or when more than the buffer's capacity would
  be needed (four bytes more for each level) and it could not be grown.
\<close>

theorem cbb_flush_refines:
  assumes "malloc_sane malloc" and "cbb_rel c ls"
  shows "case CBB_flush malloc k c of
      (True, c') \<Rightarrow> \<exists>ls'. collapse k ls = Some ls' \<and> cbb_rel c' ls'
    | (False, c') \<Rightarrow> cbb_wf c' \<and> (collapse k ls = None \<or> \<not> space c ls (4 * (length ls - Suc k)))"
  using buildsD [OF flush_builds [OF assms(1)] assms(2), of k]
  by (auto simp: outcome_def done_right_def need_at_def split: prod.splits bool.splits if_splits)

definition sample_cbb :: cbb where
  "sample_cbb =
     \<lparr>cbb_base = Some \<lparr>bb_buf = Some \<lparr>blk_size = 4, blk_data = [9, 0, 7, 0]\<rparr>, bb_len = 3, bb_cap = 4,
        bb_can_resize = True, bb_error = False\<rparr>,
      cbb_children = [\<lparr>fr_offset = 1, fr_pending_len_len = 1, fr_pending_is_asn1 = False\<rparr>]\<rparr>"

lemma sample_rel: "cbb_rel sample_cbb [(Prefix 0, [9]), (Prefix 1, [7])]"
  by (simp add: sample_cbb_def cbb_rel_def buffer_ok_def bb_mem_def bb_bytes_def layout_Cons layout_Nil
    frame_of_def)

theorem cbb_flush_refines_witness:
  "\<exists>c'. CBB_flush small_malloc 0 sample_cbb = (True, c') \<and> cbb_rel c' [(Prefix 0, [9, 1, 7])]"
proof -
  have "fst (CBB_flush small_malloc 0 sample_cbb)" by code_simp
  moreover have "collapse 0 [(Prefix 0, [9]), (Prefix 1, [7 :: u8])] = Some [(Prefix 0, [9, 1, 7])]"
    by code_simp
  ultimately show ?thesis
    using cbb_flush_refines [OF small_malloc_sane sample_rel, of 0]
    by (cases "CBB_flush small_malloc 0 sample_cbb") auto
qed






text \<open>
  C13: opening elements inside each other with \<open>CBB_add_asn1\<close>, adding bytes to the innermost and finishing
  gives the nested DER elements, at any depth, with every length in its shortest form.
\<close>

theorem cbb_nested_elements:
  assumes "malloc_sane malloc" and "unat cap < 2 ^ 62" and "unat n \<le> length p" and "unat n < 2 ^ 62"
    and "cbb_build malloc cap
      (cbb_seq (open_elements malloc 0 tags) (CBB_add_bytes malloc (length tags) p n)) = Some r"
  shows "result_bytes r = foldr asn1_enc tags (take (unat n) p) \<and> unat (snd r) = length (result_bytes r)"
proof -
  let ?op = "cbb_seq (open_elements malloc 0 tags) (CBB_add_bytes malloc (length tags) p n)"
  from assms(5) obtain c c1 where c: "CBB_init malloc cap = (True, c)" "?op c = (True, c1)"
    "fst (CBB_finish malloc 0 True True c1) = Some r"
    by (auto simp: cbb_build_def split: prod.splits bool.splits)
  from init_rel [OF assms(1) c(1) assms(2)] have "cbb_rel c ([] @ [(Prefix 0, [])])" by simp
  from nest_rel [OF assms(1,3,4) this, of tags] c(2)
  have "cbb_rel c1 (nest (Prefix 0) [] tags (take (unat n) p))" by simp
  with c(3) show ?thesis
    by (rule_tac finish_cases [OF assms(1), of c1]) (auto dest: contents_nest)
qed

theorem cbb_nested_elements_witness:
  "\<exists>r. cbb_build small_malloc 16 (cbb_seq (open_elements small_malloc 0 [4])
      (CBB_add_bytes small_malloc (length [4 :: u32]) [7] 1)) = Some r \<and> result_bytes r = [4, 1, 7]"
proof -
  let ?b = "cbb_build small_malloc 16 (cbb_seq (open_elements small_malloc 0 [4])
      (CBB_add_bytes small_malloc (length [4 :: u32]) [7] 1))"
  have "?b \<noteq> None" by code_simp
  then obtain r where r: "?b = Some r" by blast
  moreover have "foldr asn1_enc [4] (take (unat (1 :: size_t)) [7]) = [4, 1, 7]"
    by code_simp
  ultimately show ?thesis
    using cbb_nested_elements [OF small_malloc_sane _ _ _ r] by (simp only: unat_1) simp
qed

text \<open>
  C14: a string that is longer than its fixed-width prefix can say is never finished: flushing it
  fails, records the error, and no output is produced.
\<close>

theorem cbb_prefix_overflow:
  assumes "malloc_sane malloc" and "cbb_rel c (us @ [(Prefix w, d)])" and "us \<noteq> []" and "256 ^ w \<le> length d"
  shows "\<exists>c'. CBB_finish malloc 0 True True c = (None, c') \<and> broken c'"
proof -
  have none: "close_all (vs @ [(Prefix w, d)]) = None" for vs
    using assms(4) by (induction vs) auto
  obtain e vs where us: "us = (Prefix 0, e) # vs"
    using assms(2,3) by (cases us) (auto elim: cbb_relE)
  obtain ok c' where fl: "CBB_flush malloc 0 c = (ok, c')" by (cases "CBB_flush malloc 0 c")
  from buildsD [OF flush_builds [OF assms(1), of 0] assms(2)] have "\<not> ok"
    by (cases ok) (auto simp: fl outcome_simps done_right_def us collapse_0 none)
  moreover have "broken c'"
    using flush_broken [OF assms(1,2), of 0 c'] fl \<open>\<not> ok\<close> by simp
  ultimately show ?thesis by (simp add: CBB_finish_def fl)
qed

theorem cbb_prefix_overflow_witness:
  "\<exists>c'. CBB_finish small_malloc 0 True True
     \<lparr>cbb_base = Some \<lparr>bb_buf = Some \<lparr>blk_size = 300, blk_data = 0 # replicate 299 0\<rparr>, bb_len = 257, bb_cap = 300,
        bb_can_resize = True, bb_error = False\<rparr>,
      cbb_children = [\<lparr>fr_offset = 0, fr_pending_len_len = 1, fr_pending_is_asn1 = False\<rparr>]\<rparr> = (None, c') \<and>
     broken c'"
  by (rule cbb_prefix_overflow [OF small_malloc_sane, of _ "[(Prefix 0, [])]" 1 "replicate 256 0"])
    (simp_all add: cbb_rel_def buffer_ok_def bb_mem_def bb_bytes_def layout_Cons layout_Nil frame_of_def
      min_def)

text \<open>
  A list of 64-bit integers written with \<open>CBB_add_asn1_uint64\<close> and read back with
  \<open>CBS_get_asn1_uint64\<close> is the same list, and nothing is left over.
\<close>

theorem asn1_uint64_round_trip:
  assumes "malloc_sane malloc" and "unat cap < 2 ^ 62"
    and "cbb_build malloc cap (add_list (CBB_add_asn1_uint64 malloc 0) vs) = Some r"
  shows "\<exists>c'. get_list CBS_get_asn1_uint64 (length vs) (result_cbs r) = (Some vs, c') \<and> cbs_bytes c' = []"
proof -
  have eq: "list_all2 (out_nat c) zs (map unat vs) \<longleftrightarrow> zs = vs" for c zs
    by (auto simp: list_all2_conv_all_nth out_nat_def word_unat_eq_iff intro: nth_equalityI)
  have "list_all (\<lambda>x. unat x < 2 ^ 64) vs"
    using unat_less_64 by (simp add: list.pred_True)
  from add_asn1_uint64.round_trip [OF assms(1) this assms(2,3)] show ?thesis
    unfolding eq by blast
qed

theorem asn1_uint64_round_trip_witness:
  "\<exists>r c'. cbb_build small_malloc 16 (add_list (CBB_add_asn1_uint64 small_malloc 0) [200]) = Some r \<and>
     get_list CBS_get_asn1_uint64 1 (result_cbs r) = (Some [200], c') \<and> cbs_bytes c' = []"
proof -
  have ok: "list_all (\<lambda>x. unat x < 2 ^ 64) [200 :: u64]" by simp
  have "length (uint_enc 200) = 4" by code_simp
  then obtain r where r: "cbb_build small_malloc 16 (add_list (CBB_add_asn1_uint64 small_malloc 0) [200]) = Some r"
    using build_complete [OF small_malloc_sane add_asn1_uint64.list_continues [OF small_malloc_sane ok] small_init]
    by auto
  from asn1_uint64_round_trip [OF small_malloc_sane _ r] r show ?thesis by auto
qed

text \<open>
  C15: every signed 64-bit integer written with \<open>CBB_add_asn1_int64\<close> is read back by
  \<open>CBS_get_asn1_int64\<close>, the most negative one included.
\<close>

theorem asn1_int64_round_trip:
  assumes "malloc_sane malloc" and "unat cap < 2 ^ 62"
    and "cbb_build malloc cap (CBB_add_asn1_int64 malloc 0 v) = Some r"
  shows "\<exists>c'. CBS_get_asn1_int64 (result_cbs r) = (Some (sint v), c') \<and> cbs_bytes c' = []"
proof -
  have ok: "- (2 ^ 63) \<le> sint v \<and> sint v < 2 ^ 63"
    using sint_greater_eq [of v] sint_less [of v] by simp
  note b = add_asn1_int64.build_one [OF assms(1) ok assms(2,3)]
  from asn1_int64.get_complete [of "result_cbs r" "sint v" "[]"] ok result_cbs_ok [of r] b
  show ?thesis by (auto simp: out_eq_def)
qed

theorem asn1_int64_round_trip_witness:
  "\<exists>r c'. cbb_build small_malloc 16 (CBB_add_asn1_int64 small_malloc 0 (- 129)) = Some r \<and>
     CBS_get_asn1_int64 (result_cbs r) = (Some (- 129), c')"
proof -
  have i: "sint (- 129 :: u64) = - 129" by simp
  have "length (int_enc (- 129)) = 4" by code_simp
  then obtain r where r: "cbb_build small_malloc 16 (CBB_add_asn1_int64 small_malloc 0 (- 129)) = Some r"
    using add_asn1_int64.build_one_succeeds [OF small_malloc_sane _ small_init, of "- 129"] by (auto simp: i)
  with asn1_int64_round_trip [OF small_malloc_sane _ r] i show ?thesis by auto
qed

text \<open>
  C16: writing an integer into a fresh builder always succeeds when the initial capacity is sixteen
  bytes or more: no further allocation is needed.
\<close>

theorem asn1_uint64_succeeds:
  assumes "malloc_sane malloc" and "CBB_init malloc cap = (True, c)" and "16 \<le> unat cap" and "unat cap < 2 ^ 62"
  shows "\<exists>r. cbb_build malloc cap (CBB_add_asn1_uint64 malloc 0 v) = Some r \<and>
    result_bytes r = asn1_enc CBS_ASN1_INTEGER (uint_bytes (unat v))"
proof -
  have "length (uint_bytes (unat v)) \<le> Suc 8"
    unfolding length_uint_bytes_iff using unat_less_64 [of v] by simp
  then have "length (uint_enc (unat v)) + 4 \<le> unat cap"
    using assms(3) by (simp add: uint_enc_def asn1_enc_eq tag_enc_def tag_number_def len_enc_def)
  from add_asn1_uint64.build_one_succeeds [OF assms(1) _ assms(2) this assms(4)] unat_less_64 [of v]
  show ?thesis by (simp add: uint_enc_def CBS_ASN1_INTEGER_def)
qed

theorem asn1_uint64_succeeds_witness:
  "\<exists>r. cbb_build small_malloc 16 (CBB_add_asn1_uint64 small_malloc 0 5) = Some r \<and>
     result_bytes r = asn1_enc CBS_ASN1_INTEGER (uint_bytes 5)"
proof -
  from asn1_uint64_succeeds [OF small_malloc_sane small_init, of 5] show ?thesis by simp
qed

text \<open>
  C17: \<open>CBB_flush_asn1_set_of\<close> succeeds only when the string is a sequence of DER elements, and then
  leaves them sorted by their encodings, none lost and none added.
\<close>

theorem set_of_sorts:
  assumes "malloc_sane malloc" and "cbb_rel c ls" and "CBB_flush_asn1_set_of malloc k c = (True, c')"
  shows "\<exists>us kd es. collapse k ls = Some (us @ [(kd, concat es)]) \<and>
    cbb_rel c' (us @ [(kd, concat (sort es))]) \<and> (\<forall>e\<in>set es. \<exists>t b. length b < 2 ^ 32 \<and> e = asn1_enc t b)"
  using set_of_ok [OF assms(1,2), of k] assms(3) by simp

definition sample_set :: cbb where
  "sample_set =
     \<lparr>cbb_base = Some \<lparr>bb_buf = Some \<lparr>blk_size = 8, blk_data = [4, 1, 7, 4, 1, 5, 0, 0]\<rparr>, bb_len = 6,
        bb_cap = 8, bb_can_resize = True, bb_error = False\<rparr>, cbb_children = []\<rparr>"

theorem set_of_sorts_witness:
  "\<exists>c' us kd es. CBB_flush_asn1_set_of small_malloc 0 sample_set = (True, c') \<and>
     cbb_rel c' (us @ [(kd, concat (sort es))]) \<and> concat es = [4, 1, 7, 4, 1, 5]"
proof -
  let ?run = "CBB_flush_asn1_set_of small_malloc 0 sample_set"
  have "cbb_rel sample_set [(Prefix 0, [4, 1, 7, 4, 1, 5])]"
    by (simp add: sample_set_def cbb_rel_def buffer_ok_def bb_mem_def bb_bytes_def layout_Cons layout_Nil)
  moreover have "fst ?run" by code_simp
  then have "?run = (True, snd ?run)" by (metis prod.collapse)
  ultimately obtain us kd es where "collapse 0 [(Prefix 0, [4, 1, 7, 4, 1, 5])] = Some (us @ [(kd, concat es)])"
    "cbb_rel (snd ?run) (us @ [(kd, concat (sort es))])"
    using set_of_sorts [OF small_malloc_sane] by blast
  moreover have "collapse 0 [(Prefix 0, [4, 1, 7, 4, 1, 5])] = Some [(Prefix 0, [4, 1, 7, 4, 1, 5])]"
    by (simp add: collapse_0)
  ultimately have "concat es = [4, 1, 7, 4, 1, 5]"
    by (cases us) (auto simp: collapse_0)
  with \<open>?run = (True, snd ?run)\<close> \<open>cbb_rel (snd ?run) _\<close> show ?thesis by blast
qed

text \<open>
  C18: discarding an ASN.1 child leaves its identifier in the output: after \<open>CBB_add_asn1\<close> and
  \<open>CBB_discard_child\<close> the string has grown by the tag bytes, although the child's length and contents
  are gone.
\<close>

theorem discard_leaves_tag:
  assumes "malloc_sane malloc" and "cbb_rel c (us @ [(kd, d)])"
    and "CBB_add_asn1 malloc (length us) tag c = (True, c')"
  shows "\<exists>c''. CBB_discard_child (length us) c' = Some c'' \<and> cbb_rel c'' (us @ [(kd, d @ tag_enc tag)])"
proof -
  from buildsD [OF asn1_builds [OF assms(1)] assms(2), of "length us" tag] assms(3)
  have rel: "cbb_rel c' (us @ [(kd, d @ tag_enc tag), (Asn1, [])])"
    by (simp add: outcome_simps done_right_def open_at_def collapse_same)
  then obtain e ls1 b where ls: "us @ [(kd, d @ tag_enc tag), (Asn1, [])] = (Prefix 0, e) # ls1"
    and b: "cbb_base c' = Some b" and fr: "frames_ok (length e) ls1 (cbb_children c')"
    by (rule cbb_relE)
  have "length (cbb_children c') = Suc (length us)"
    using arg_cong [OF ls, of length] frames_ok_length [OF fr] by simp
  with b obtain c'' where c'': "CBB_discard_child (length us) c' = Some c''"
    by (simp add: CBB_discard_child_def)
  from discard_rel [OF rel _ this] c'' show ?thesis by simp
qed

theorem discard_leaves_tag_witness:
  "\<exists>c' c''. CBB_add_asn1 small_malloc 0 CBS_ASN1_OCTETSTRING sample_set = (True, c') \<and>
     CBB_discard_child 0 c' = Some c'' \<and> cbb_rel c'' [(Prefix 0, [4, 1, 7, 4, 1, 5, 4])]"
proof -
  let ?run = "CBB_add_asn1 small_malloc 0 CBS_ASN1_OCTETSTRING sample_set"
  have "cbb_rel sample_set ([] @ [(Prefix 0, [4, 1, 7, 4, 1, 5])])"
    by (simp add: sample_set_def cbb_rel_def buffer_ok_def bb_mem_def bb_bytes_def layout_Cons layout_Nil)
  moreover have "fst ?run" by code_simp
  then have run: "?run = (True, snd ?run)" by (metis prod.collapse)
  moreover have "tag_enc CBS_ASN1_OCTETSTRING = [4]" by code_simp
  ultimately show ?thesis
    using discard_leaves_tag [OF small_malloc_sane, of sample_set "[]" "Prefix 0" "[4, 1, 7, 4, 1, 5]"
      CBS_ASN1_OCTETSTRING "snd ?run"]
    by auto
qed

end
