(* ===== verification/Cbb_Oid.thy ===== *)
theory Cbb_Oid
  imports Cbb_Use
begin

text \<open>
  Object identifiers in dotted decimal: parsing the text and printing it are inverse to each other.
\<close>

section \<open>Decimal numbers\<close>

lemma get_u8_Cons:
  assumes "valid c" and "cbs_bytes c = b # bs"
  obtains c' where "CBS_get_u8 c = (Some b, c')" "valid c'" "cbs_bytes c' = bs"
proof -
  have "be_bytes 1 (unat b) = [b]" by simp
  with get_u8.get_complete [OF assms(1), of "unat b" bs] assms(2) unat_word_small(1) [of b]
  show ?thesis by (auto simp: out_nat_def word_unat_eq_iff intro: that)
qed

lemma cbs_empty: "valid c \<Longrightarrow> cbs_bytes c = [] \<Longrightarrow> cbs_len c = 0"
proof -
  assume "valid c" "cbs_bytes c = []"
  then have "unat (cbs_len c) = 0" by (auto simp: valid_def cbs_bytes_def)
  then show ?thesis by (simp add: unat_eq_0)
qed

lemma get_u8_Nil:
  assumes "valid c" and "cbs_bytes c = []"
  shows "CBS_get_u8 c = (None, c)"
proof -
  have "cbs_len c = 0" by (rule cbs_empty [OF assms])
  then show ?thesis
    by (simp add: CBS_get_u8_def and_then_def cbs_get_def)
qed

lemma decimal_small: "n < 10 \<Longrightarrow> decimal n = [of_nat (48 + n)]"
  by (simp add: decimal.simps [of n])

lemma decimal_large: "10 \<le> n \<Longrightarrow> decimal n = decimal (n div 10) @ [of_nat (48 + n mod 10)]"
  by (simp add: decimal.simps [of n])

lemma length_decimal: "n < 10 ^ k \<Longrightarrow> 1 \<le> k \<Longrightarrow> length (decimal n) \<le> k"
proof (induction n arbitrary: k rule: decimal.induct)
  case (1 n)
  show ?case
  proof (cases "n < 10")
    case True
    with 1 show ?thesis by (simp add: decimal_small)
  next
    case False
    then obtain m where k: "k = Suc m" using 1 by (cases k) auto
    moreover have "1 \<le> m" using 1 False k by (cases m) auto
    ultimately show ?thesis
      using 1 False by (simp add: decimal_large)
  qed
qed

text \<open>One more digit.\<close>

lemma dotted_step:
  assumes v: "valid c" and bytes: "cbs_bytes c = of_nat (48 + d) # bs" and d: "d < 10"
    and fits: "unat a * 10 + d < 2 ^ 64" and nz: "\<not> (seen \<and> a = 0)"
  obtains c' where "dotted_loop a seen c = dotted_loop (of_nat (unat a * 10 + d)) True c'"
    "valid c'" "cbs_bytes c' = bs"
proof -
  let ?u = "of_nat (48 + d) :: u8"
  obtain c' where g: "CBS_get_u8 c = (Some ?u, c')" "valid c'" "cbs_bytes c' = bs"
    using get_u8_Cons [OF v bytes] .
  have u: "unat ?u = 48 + d" using d by (intro unat_of_nat_u8) simp
  have digit: "?u \<noteq> 0x2e" "\<not> ?u < 0x30" "\<not> 0x39 < ?u"
    using d by (simp_all add: word_unat_eq_iff word_less_nat_alt u del: of_nat_add)
  have du: "ucast ?u - 0x30 = (of_nat d :: u64)"
  proof -
    have "unat (ucast ?u :: u64) = 48 + d"
      using d by (simp add: u del: of_nat_add)
    then have "(ucast ?u :: u64) = of_nat (48 + d)" by (metis word_of_unat)
    then show ?thesis by simp
  qed
  have max: "unat (- 1 :: u64) = 2 ^ 64 - 1"
    by (simp add: unsigned_minus_1_eq_mask mask_eq_exp_minus_1)
  have ud: "unat (of_nat d :: u64) = d" using d by (intro unat_of_nat_less) simp
  have ten: "unat (a * 10) = unat a * 10"
    using fits by (simp add: unat_word_ariths)
  have "\<not> (- 1) div 10 < a"
    using fits by (simp add: word_less_nat_alt unat_div_distrib max)
  moreover have "\<not> - 1 - of_nat d < a * 10"
  proof -
    have "unat (- 1 - of_nat d :: u64) = 2 ^ 64 - 1 - d"
      using d by (simp add: unat_sub max ud word_le_nat_alt)
    then show ?thesis using fits by (simp add: word_less_nat_alt ten)
  qed
  moreover have "a * 10 + of_nat d = of_nat (unat a * 10 + d)" by simp
  ultimately have "dotted_loop a seen c = dotted_loop (of_nat (unat a * 10 + d)) True c'"
    using digit nz by (auto simp: dotted_loop.simps [of a seen c] g(1) du simp del: of_nat_add)
  with g(2,3) show ?thesis by (intro that)
qed

lemma dotted_digits:
  "n < 2 ^ 64 \<Longrightarrow> valid c \<Longrightarrow> cbs_bytes c = decimal n @ bs \<Longrightarrow>
     \<exists>c'. dotted_loop 0 False c = dotted_loop (of_nat n) True c' \<and> valid c' \<and> cbs_bytes c' = bs"
proof (induction n arbitrary: bs rule: decimal.induct)
  case (1 n)
  show ?case
  proof (cases "n < 10")
    case True
    from "1.prems"(3) True have bytes: "cbs_bytes c = of_nat (48 + n) # bs"
      by (simp add: decimal_small)
    show ?thesis
      by (rule dotted_step [OF "1.prems"(2) bytes True, of 0 False]) (use "1.prems"(1) in auto)
  next
    case False
    have "\<exists>c1. dotted_loop 0 False c = dotted_loop (of_nat (n div 10)) True c1 \<and> valid c1 \<and>
        cbs_bytes c1 = of_nat (48 + n mod 10) # bs"
      using "1.prems" False by (intro "1.IH") (simp_all add: decimal_large)
    then obtain c1 where c1: "dotted_loop 0 False c = dotted_loop (of_nat (n div 10)) True c1" "valid c1"
      "cbs_bytes c1 = of_nat (48 + n mod 10) # bs"
      by blast
    have u: "unat (of_nat (n div 10) :: u64) = n div 10"
      using "1.prems"(1) by (intro unat_of_nat_less) simp
    have nz: "(of_nat (n div 10) :: u64) \<noteq> 0"
      using False u by (auto simp: word_unat_eq_iff)
    show ?thesis
      by (rule dotted_step [OF c1(2,3), of "of_nat (n div 10)" True])
        (use "1.prems"(1) nz c1(1) in \<open>auto simp: u\<close>)
  qed
qed

lemma parse_decimal:
  assumes "n < 2 ^ 64" and "valid c" and "cbs_bytes c = decimal n @ bs"
    and "bs = [] \<or> (\<exists>r. bs = 0x2e # r \<and> r \<noteq> [])"
  obtains c' where "parse_dotted_decimal c = (Some (of_nat n), c')" "valid c'" "cbs_bytes c' = tl bs"
proof -
  obtain c1 where c1: "dotted_loop 0 False c = dotted_loop (of_nat n) True c1" "valid c1" "cbs_bytes c1 = bs"
    using dotted_digits [OF assms(1-3)] by blast
  from assms(4) show ?thesis
  proof
    assume "bs = []"
    with get_u8_Nil [OF c1(2)] c1 show ?thesis
      by (intro that [of c1]) (simp_all add: parse_dotted_decimal_def dotted_loop.simps [of "of_nat n"])
  next
    assume "\<exists>r. bs = 0x2e # r \<and> r \<noteq> []"
    then obtain r where r: "bs = 0x2e # r" "r \<noteq> []" by blast
    obtain c2 where c2: "CBS_get_u8 c1 = (Some 0x2e, c2)" "valid c2" "cbs_bytes c2 = r"
      using get_u8_Cons [OF c1(2), of "0x2e" r] c1(3) r(1) by auto
    have "0 < Cbs.CBS_len c2"
      using c2(3) r(2) by (auto simp: cbs_bytes_def Cbs.CBS_len_def word_gt_0)
    with c1 c2 r show ?thesis
      by (intro that [of c2]) (simp_all add: parse_dotted_decimal_def dotted_loop.simps [of "of_nat n"])
  qed
qed

section \<open>From text\<close>

fun dotted :: "nat list \<Rightarrow> bytes" where
  "dotted [] = []"
| "dotted [v] = decimal v"
| "dotted (v # w # vs) = decimal v @ 0x2e # dotted (w # vs)"

lemma decimal_ne [simp]: "decimal n \<noteq> []"
  by (simp add: decimal.simps [of n])

lemma dotted_ne: "vs \<noteq> [] \<Longrightarrow> dotted vs \<noteq> []"
  by (induction vs rule: dotted.induct) simp_all

lemma parse_dotted:
  assumes "n < 2 ^ 64" and "valid c" and "cbs_bytes c = dotted (n # vs)"
  obtains c' where "parse_dotted_decimal c = (Some (of_nat n), c')" "valid c'" "cbs_bytes c' = dotted vs"
proof (cases vs)
  case Nil
  with assms(3) have "cbs_bytes c = decimal n @ []" by simp
  from parse_decimal [OF assms(1,2) this] Nil that show ?thesis by auto
next
  case (Cons w ws)
  with assms(3) have b: "cbs_bytes c = decimal n @ 0x2e # dotted vs" by simp
  have "dotted vs \<noteq> []" using Cons dotted_ne by blast
  from parse_decimal [OF assms(1,2) b] this that show ?thesis by auto
qed

lemma oid_rest_continues:
  assumes "malloc_sane malloc"
  shows "list_all (\<lambda>v. v < 2 ^ 64) vs \<Longrightarrow> valid c \<Longrightarrow> cbs_bytes c = dotted vs \<Longrightarrow>
    continues (add_oid_rest malloc k c) k (concat (map b128_enc vs)) (length (concat (map b128_enc vs)))"
proof (induction vs arbitrary: c)
  case Nil
  then have "Cbs.CBS_len c = 0" by (simp add: cbs_empty Cbs.CBS_len_def)
  then have "add_oid_rest malloc k c = (\<lambda>x. (True, x))"
    by (simp add: fun_eq_iff add_oid_rest.simps [of malloc k c])
  then show ?case by (simp add: continues_nothing)
next
  case (Cons v vs)
  then have v: "v < 2 ^ 64" and vs: "list_all (\<lambda>v. v < 2 ^ 64) vs" by simp_all
  obtain c' where p: "parse_dotted_decimal c = (Some (of_nat v), c')" "valid c'" "cbs_bytes c' = dotted vs"
    using parse_dotted [OF v Cons.prems(2,3)] .
  have "Cbs.CBS_len c \<noteq> 0"
    using Cons.prems(3) dotted_ne [of "v # vs"] by (auto simp: cbs_bytes_def Cbs.CBS_len_def)
  then have eq: "add_oid_rest malloc k c =
      cbb_seq (add_base128_integer malloc k (of_nat v)) (add_oid_rest malloc k c')"
    by (simp add: fun_eq_iff add_oid_rest.simps [of malloc k c] p(1))
  have "unat (of_nat v :: u64) = v" using v by (intro unat_of_nat_less) simp
  with continues_seq [OF writes_continues [OF base128_integer_writes [OF assms, of k "of_nat v"]]
      Cons.IH [OF vs p(2,3)]] show ?case
    unfolding eq by simp
qed

text \<open>The identifiers that have an encoding: the first two components share one integer.\<close>

definition oid_ok :: "nat \<Rightarrow> nat \<Rightarrow> nat list \<Rightarrow> bool" where
  "oid_ok a b cs \<longleftrightarrow>
     a \<le> 2 \<and> (a < 2 \<longrightarrow> b \<le> 39) \<and> b < 2 ^ 64 - 80 \<and> list_all (\<lambda>v. v < 2 ^ 64) cs"

definition oid_content :: "nat \<Rightarrow> nat \<Rightarrow> nat list \<Rightarrow> bytes" where
  "oid_content a b cs = concat (map b128_enc ((40 * a + b) # cs))"

lemma oid_from_text_continues:
  assumes sane: "malloc_sane malloc" and ok: "oid_ok a b cs"
    and str: "valid (CBS_init txt n)" "cbs_bytes (CBS_init txt n) = dotted (a # b # cs)"
  shows "continues (CBB_add_asn1_oid_from_text malloc k txt n) k (oid_content a b cs)
    (length (oid_content a b cs))"
proof -
  have lt: "a < 2 ^ 64" "b < 2 ^ 64" "list_all (\<lambda>v. v < 2 ^ 64) cs" "40 * a + b < 2 ^ 64"
    using ok by (auto simp: oid_ok_def)
  obtain c1 where c1: "parse_dotted_decimal (CBS_init txt n) = (Some (of_nat a), c1)" "valid c1"
    "cbs_bytes c1 = dotted (b # cs)"
    using parse_dotted [OF lt(1) str] .
  obtain c2 where c2: "parse_dotted_decimal c1 = (Some (of_nat b), c2)" "valid c2" "cbs_bytes c2 = dotted cs"
    using parse_dotted [OF lt(2) c1(2,3)] .
  have ua: "unat (of_nat a :: u64) = a" "unat (of_nat b :: u64) = b"
    using lt by (simp_all add: unat_of_nat_less)
  have "40 * of_nat a + of_nat b = (of_nat (40 * a + b) :: u64)" by simp
  moreover have "unat (of_nat (40 * a + b) :: u64) = 40 * a + b"
    using lt(4) by (intro unat_of_nat_less) simp
  ultimately have u: "unat (40 * of_nat a + of_nat b :: u64) = 40 * a + b" by simp
  have max: "unat (- 1 - 80 :: u64) = 2 ^ 64 - 81" by code_simp
  have "\<not> (2 < (of_nat a :: u64) \<or> (of_nat a :: u64) < 2 \<and> 39 < (of_nat b :: u64) \<or> - 1 - 80 < (of_nat b :: u64))"
    (is "\<not> ?bad")
    using ok by (auto simp: oid_ok_def word_less_nat_alt ua max)
  then have good: "?bad = False" by simp
  have eq: "CBB_add_asn1_oid_from_text malloc k txt n = cbb_seq (CBB_flush malloc k)
      (cbb_seq (add_base128_integer malloc k (40 * of_nat a + of_nat b)) (add_oid_rest malloc k c2))"
    unfolding CBB_add_asn1_oid_from_text_def and_then_def c1(1) c2(1) cbs_return_def prod.case option.case
      good if_False ..
  from continues_seq [OF writes_continues [OF skip_writes [OF sane, of k]]
      continues_seq [OF writes_continues [OF base128_integer_writes [OF sane, of k "40 * of_nat a + of_nat b"]]
        oid_rest_continues [OF sane lt(3) c2(2,3), of k]]]
  show ?thesis
    unfolding eq u by (simp add: oid_content_def)
qed

section \<open>To text\<close>

lemma add_decimal_writes:
  assumes "malloc_sane malloc"
  shows "writes (add_decimal malloc v) 0 (decimal (unat v)) (length (decimal (unat v)))"
proof -
  have "unat v < 10 ^ 20" by (rule less_trans [OF unat_less_64]) simp
  then have len: "length (decimal (unat v)) \<le> 20" by (rule length_decimal) simp
  then have u: "unat (of_nat (length (decimal (unat v))) :: size_t) = length (decimal (unat v))"
    by (intro unat_of_nat_less) simp
  with add_bytes_writes [OF assms, of "of_nat (length (decimal (unat v)))" "decimal (unat v)" 0] len show ?thesis
    by (simp add: add_decimal_def Let_def)
qed

lemma b128_enc_ne: "b128_enc v \<noteq> []"
  by (simp add: b128_enc_def)

lemma parse_b128:
  assumes "v < 2 ^ 64" and "valid c" and "cbs_bytes c = b128_enc v @ rest"
  obtains c' where "parse_base128_integer c = (Some (of_nat v), c')" "valid c'" "cbs_bytes c' = rest"
proof -
  from base128.get_complete [OF assms(2,1,3)] obtain x c' where
    x: "parse_base128_integer c = (Some x, c')" "unat x = v" "cbs_bytes c' = rest" "valid c'"
    by (auto simp: out_nat_def)
  then have "x = of_nat v" by (simp flip: x(2))
  with x show ?thesis by (intro that) auto
qed

lemma oid_text_rest_continues:
  assumes "malloc_sane malloc"
  shows "list_all (\<lambda>v. v < 2 ^ 64) vs \<Longrightarrow> valid c \<Longrightarrow> cbs_bytes c = concat (map b128_enc vs) \<Longrightarrow>
    continues (oid_text_rest malloc c) 0 (concat (map (\<lambda>v. 0x2e # decimal v) vs))
      (length (concat (map (\<lambda>v. 0x2e # decimal v) vs)))"
proof (induction vs arbitrary: c)
  case Nil
  then have "Cbs.CBS_len c = 0" by (simp add: cbs_empty Cbs.CBS_len_def)
  then have "oid_text_rest malloc c = (\<lambda>x. (True, x))"
    by (simp add: fun_eq_iff oid_text_rest.simps [of malloc c])
  then show ?case by (simp add: continues_nothing)
next
  case (Cons v vs)
  then have v: "v < 2 ^ 64" and vs: "list_all (\<lambda>v. v < 2 ^ 64) vs"
    and b: "cbs_bytes c = b128_enc v @ concat (map b128_enc vs)" by simp_all
  obtain c' where p: "parse_base128_integer c = (Some (of_nat v), c')" "valid c'"
    "cbs_bytes c' = concat (map b128_enc vs)"
    using parse_b128 [OF v Cons.prems(2) b] .
  have "Cbs.CBS_len c \<noteq> 0"
    using b b128_enc_ne [of v] by (auto simp: cbs_bytes_def Cbs.CBS_len_def)
  then have eq: "oid_text_rest malloc c =
      cbb_seq (CBB_add_u8 malloc 0 0x2e) (cbb_seq (add_decimal malloc (of_nat v)) (oid_text_rest malloc c'))"
    by (simp add: fun_eq_iff oid_text_rest.simps [of malloc c] p(1))
  have "unat (of_nat v :: u64) = v" using v by (intro unat_of_nat_less) simp
  with continues_seq [OF writes_continues [OF u8_writes [OF assms, of 0 "0x2e"]]
      continues_seq [OF writes_continues [OF add_decimal_writes [OF assms, of "of_nat v"]] Cons.IH [OF vs p(2,3)]]]
  show ?case unfolding eq by simp
qed

lemma dotted_concat: "dotted (v # vs) = decimal v @ concat (map (\<lambda>v. 0x2e # decimal v) vs)"
  by (induction vs arbitrary: v) simp_all

lemma oid_to_text:
  assumes sane: "malloc_sane malloc" and ok: "oid_ok a b cs" and v: "valid c"
    and bytes: "cbs_bytes c = oid_content a b cs" and r: "CBS_asn1_oid_to_text malloc c = Some r"
  shows "result_bytes r = dotted (a # b # cs) @ [0] \<and> unat (snd r) = length (result_bytes r)"
proof -
  have lt: "40 * a + b < 2 ^ 64" "list_all (\<lambda>v. v < 2 ^ 64) cs" using ok by (auto simp: oid_ok_def)
  have bytes': "cbs_bytes c = b128_enc (40 * a + b) @ concat (map b128_enc cs)"
    using bytes by (simp add: oid_content_def)
  obtain c' where p: "parse_base128_integer c = (Some (of_nat (40 * a + b)), c')" "valid c'"
    "cbs_bytes c' = concat (map b128_enc cs)"
    using parse_b128 [OF lt(1) v bytes'] .
  let ?v = "of_nat (40 * a + b) :: u64"
  have u: "unat ?v = 40 * a + b" using lt(1) by (intro unat_of_nat_less) simp
  let ?first = "if 80 \<le> ?v then cbb_seq (CBB_add_bytes malloc 0 [0x32, 0x2e] 2) (add_decimal malloc (?v - 80))
    else cbb_seq (add_decimal malloc (?v div 40))
      (cbb_seq (CBB_add_u8 malloc 0 0x2e) (add_decimal malloc (?v mod 40)))"
  have first: "continues ?first 0 (decimal a @ 0x2e # decimal b) (length (decimal a @ 0x2e # decimal b))"
  proof (cases "a = 2")
    case True
    then have "80 \<le> ?v" "unat (?v - 80) = b"
      using u by (simp_all add: word_le_nat_alt unat_sub del: of_nat_add)
    moreover have "decimal 2 = [0x32]" by (simp add: decimal_small)
    ultimately show ?thesis
      using continues_seq [OF writes_continues [OF add_bytes_writes [OF sane, of 2 "[0x32, 0x2e]" 0]]
          writes_continues [OF add_decimal_writes [OF sane, of "?v - 80"]]] True
      by simp
  next
    case False
    then have a: "a < 2" "b < 40" using ok by (auto simp: oid_ok_def)
    then have "\<not> 80 \<le> ?v" "unat (?v div 40) = a" "unat (?v mod 40) = b"
      using u by (simp_all add: word_le_nat_alt unat_div_distrib unat_mod_distrib del: of_nat_add)
    then show ?thesis
      using continues_seq [OF writes_continues [OF add_decimal_writes [OF sane, of "?v div 40"]]
          continues_seq [OF writes_continues [OF u8_writes [OF sane, of 0 "0x2e"]]
            writes_continues [OF add_decimal_writes [OF sane, of "?v mod 40"]]]]
      by simp
  qed
  have all: "continues (cbb_seq ?first (cbb_seq (oid_text_rest malloc c') (CBB_add_u8 malloc 0 0))) 0
      (dotted (a # b # cs) @ [0]) (length (dotted (a # b # cs) @ [0]))"
    using continues_seq [OF first continues_seq [OF oid_text_rest_continues [OF sane lt(2) p(2,3)]
        writes_continues [OF u8_writes [OF sane, of 0 0]]]]
    by (rule continues_cong) (simp_all add: dotted_concat)
  have "cbb_build malloc 32 (cbb_seq ?first (cbb_seq (oid_text_rest malloc c') (CBB_add_u8 malloc 0 0))) = Some r"
    using r unfolding CBS_asn1_oid_to_text_def cbb_build_def p(1) prod.case option.case .
  from build_writes [OF sane _ all this] show ?thesis by simp
qed

section \<open>Properties\<close>

text \<open>
  C19: an object identifier written in dotted decimal, encoded by \<open>CBB_add_asn1_oid_from_text\<close> and
  printed by \<open>CBS_asn1_oid_to_text\<close>, gives back the text, with a terminator.
\<close>

theorem oid_text_round_trip:
  assumes "malloc_sane malloc" and "oid_ok a b cs" and "length (dotted (a # b # cs)) < 2 ^ 64"
    and "unat cap < 2 ^ 62"
    and "cbb_build malloc cap (CBB_add_asn1_oid_from_text malloc 0 (dotted (a # b # cs))
      (of_nat (length (dotted (a # b # cs))))) = Some r"
    and "CBS_asn1_oid_to_text malloc (result_cbs r) = Some t"
  shows "result_bytes t = dotted (a # b # cs) @ [0] \<and> unat (snd t) = length (result_bytes t)"
proof -
  have "continues (CBB_add_asn1_oid_from_text malloc 0 (dotted (a # b # cs)) (of_nat (length (dotted (a # b # cs)))))
      0 (oid_content a b cs) (length (oid_content a b cs))"
    using assms(3) by (intro oid_from_text_continues assms(1,2) valid_init cbs_bytes_init)
  from build_writes [OF assms(1,4) this assms(5)] have r: "result_bytes r = oid_content a b cs"
    "unat (snd r) = length (result_bytes r)" by simp_all
  from oid_to_text [OF assms(1,2) result_cbs_ok(1) [OF r(2)] _ assms(6)] result_cbs_ok(2) [OF r(2)] r(1)
  show ?thesis by simp
qed

theorem oid_text_round_trip_witness:
  "\<exists>r t. cbb_build small_malloc 16 (CBB_add_asn1_oid_from_text small_malloc 0 [0x31, 0x2e, 0x32] 3) = Some r \<and>
     CBS_asn1_oid_to_text small_malloc (result_cbs r) = Some t \<and> result_bytes t = [0x31, 0x2e, 0x32, 0]"
proof -
  let ?op = "CBB_add_asn1_oid_from_text small_malloc 0 [0x31, 0x2e, 0x32] 3"
  have d: "dotted [1, 2] = [0x31, 0x2e, 0x32]"
    by (simp add: decimal_small [of 2] decimal_small [of "Suc 0"])
  have l: "of_nat (length [0x31, 0x2e, 0x32 :: u8]) = (3 :: size_t)" by simp
  have ok: "oid_ok 1 2 []" by (simp add: oid_ok_def)
  have content: "oid_content 1 2 [] = [42]" by code_simp
  have "valid (CBS_init [0x31, 0x2e, 0x32] 3)" "cbs_bytes (CBS_init [0x31, 0x2e, 0x32] 3) = dotted [1, 2]"
    unfolding d by code_simp+
  from oid_from_text_continues [OF small_malloc_sane ok this, of 0]
  have c: "continues ?op 0 [42] (length [42 :: u8])" by (simp only: content)
  from build_complete [OF small_malloc_sane this small_init]
  obtain r where r: "cbb_build small_malloc 16 ?op = Some r" by auto
  have "result_bytes r = [42] \<and> unat (snd r) = length [42 :: u8]"
    using build_writes [OF small_malloc_sane _ c r] by simp
  then have "snd r = 1" "result_bytes r = [42]" by (simp_all add: word_unat_eq_iff)
  then have "result_cbs r = CBS_init [42] 1" by (simp add: result_cbs_def)
  moreover have "CBS_asn1_oid_to_text small_malloc (CBS_init [42] 1) \<noteq> None" by code_simp
  ultimately obtain t where t: "CBS_asn1_oid_to_text small_malloc (result_cbs r) = Some t" by auto
  have "cbb_build small_malloc 16 (CBB_add_asn1_oid_from_text small_malloc 0 (dotted [1, 2])
      (of_nat (length (dotted [1, 2])))) = Some r"
    unfolding d l by (rule r)
  from oid_text_round_trip [OF small_malloc_sane ok _ _ this t]
  have "result_bytes t = [0x31, 0x2e, 0x32] @ [0]" unfolding d by simp
  with r t show ?thesis by (intro exI [of _ r] exI [of _ t]) simp
qed

end
