(* ===== verification/Unicode.thy ===== *)
theory Unicode
  imports Cbb_Spec
begin

text \<open>
  The character codecs of \<open>crypto/bytestring/unicode.c\<close>: UTF-8, Latin-1, UCS-2 and UTF-32, read from a
  \<open>CBS\<close> and written to a \<open>CBB\<close>. UTF-8 is proved to be a canonical codec on the valid code points.
\<close>

section \<open>The code\<close>

definition is_valid_code_point :: "u32 \<Rightarrow> bool" where
  "is_valid_code_point v =
     (if 0x10ffff < v \<or> v AND 0xfffe = 0xfffe \<or> 0xfdd0 \<le> v \<and> v \<le> 0xfdef \<or> 0xd800 \<le> v \<and> v \<le> 0xdfff
      then False else True)"

definition BOTTOM_BITS :: "nat \<Rightarrow> u8" where
  "BOTTOM_BITS n = ucast (push_bit n 1 - 1 :: u32)"

definition TOP_BITS :: "nat \<Rightarrow> u8" where
  "TOP_BITS n = NOT (BOTTOM_BITS (8 - n))"

text \<open>The first byte of a multi-byte character: its bits, the number of bytes to come and \<open>lower_bound\<close>.\<close>

definition utf8_lead :: "u8 \<Rightarrow> (u32 \<times> nat \<times> u32) option" where
  "utf8_lead c =
     (if c AND TOP_BITS 3 = TOP_BITS 2 then Some (ucast (c AND BOTTOM_BITS 5), 1, 0x80)
      else if c AND TOP_BITS 4 = TOP_BITS 3 then Some (ucast (c AND BOTTOM_BITS 4), 2, 0x800)
      else if c AND TOP_BITS 5 = TOP_BITS 4 then Some (ucast (c AND BOTTOM_BITS 3), 3, 0x10000)
      else None)"

fun utf8_tail :: "nat \<Rightarrow> u32 \<Rightarrow> u32 cbs_op" where
  "utf8_tail 0 v = cbs_return v"
| "utf8_tail (Suc n) v =
     and_then CBS_get_u8 (\<lambda>c.
       if c AND TOP_BITS 2 \<noteq> TOP_BITS 1 then cbs_fail
       else utf8_tail n (push_bit 6 v OR ucast (c AND BOTTOM_BITS 6)))"

definition cbs_get_utf8 :: "u32 cbs_op" where
  "cbs_get_utf8 =
     and_then CBS_get_u8 (\<lambda>c.
       if c \<le> 0x7f then cbs_return (ucast c)
       else
         (case utf8_lead c of
            None \<Rightarrow> cbs_fail
          | Some (v, n, lower_bound) \<Rightarrow>
              and_then (utf8_tail n v) (\<lambda>v.
                if \<not> is_valid_code_point v \<or> v < lower_bound then cbs_fail else cbs_return v)))"

definition cbs_get_latin1 :: "u32 cbs_op" where
  "cbs_get_latin1 = and_then CBS_get_u8 (\<lambda>c. cbs_return (ucast c))"

definition cbs_get_ucs2_be :: "u32 cbs_op" where
  "cbs_get_ucs2_be =
     and_then CBS_get_u16 (\<lambda>c. if \<not> is_valid_code_point (ucast c) then cbs_fail else cbs_return (ucast c))"

definition cbs_get_utf32_be :: "u32 cbs_op" where
  "cbs_get_utf32_be =
     and_then CBS_get_u32 (\<lambda>v. if is_valid_code_point v then cbs_return v else cbs_fail)"

definition cbb_get_utf8_len :: "u32 \<Rightarrow> size_t" where
  "cbb_get_utf8_len u = (if u \<le> 0x7f then 1 else if u \<le> 0x7ff then 2 else if u \<le> 0xffff then 3 else 4)"

text \<open>The bytes of the bitwise expressions, computed at 32 bits and passed as \<open>uint8_t\<close>.\<close>

definition top_or :: "nat \<Rightarrow> u32 \<Rightarrow> u8" where
  "top_or n v = ucast (ucast (TOP_BITS n) OR v)"

definition tail_byte :: "u32 \<Rightarrow> u8" where
  "tail_byte v = top_or 1 (v AND ucast (BOTTOM_BITS 6))"

definition cbb_add_utf8 :: "allocator \<Rightarrow> nat \<Rightarrow> u32 \<Rightarrow> cbb \<Rightarrow> bool \<times> cbb" where
  "cbb_add_utf8 malloc k u =
     (if \<not> is_valid_code_point u then (\<lambda>c. (False, c))
      else if u \<le> 0x7f then CBB_add_u8 malloc k (ucast u)
      else if u \<le> 0x7ff then
        cbb_seq (CBB_add_u8 malloc k (top_or 2 (drop_bit 6 u))) (CBB_add_u8 malloc k (tail_byte u))
      else if u \<le> 0xffff then
        cbb_seq (CBB_add_u8 malloc k (top_or 3 (drop_bit 12 u)))
          (cbb_seq (CBB_add_u8 malloc k (tail_byte (drop_bit 6 u))) (CBB_add_u8 malloc k (tail_byte u)))
      else if u \<le> 0x10ffff then
        cbb_seq (CBB_add_u8 malloc k (top_or 4 (drop_bit 18 u)))
          (cbb_seq (CBB_add_u8 malloc k (tail_byte (drop_bit 12 u)))
            (cbb_seq (CBB_add_u8 malloc k (tail_byte (drop_bit 6 u))) (CBB_add_u8 malloc k (tail_byte u))))
      else (\<lambda>c. (False, c)))"

definition cbb_add_latin1 :: "allocator \<Rightarrow> nat \<Rightarrow> u32 \<Rightarrow> cbb \<Rightarrow> bool \<times> cbb" where
  "cbb_add_latin1 malloc k u = (if u \<le> 0xff then CBB_add_u8 malloc k (ucast u) else (\<lambda>c. (False, c)))"

definition cbb_add_ucs2_be :: "allocator \<Rightarrow> nat \<Rightarrow> u32 \<Rightarrow> cbb \<Rightarrow> bool \<times> cbb" where
  "cbb_add_ucs2_be malloc k u =
     (if u \<le> 0xffff \<and> is_valid_code_point u then CBB_add_u16 malloc k (ucast u) else (\<lambda>c. (False, c)))"

definition cbb_add_utf32_be :: "allocator \<Rightarrow> nat \<Rightarrow> u32 \<Rightarrow> cbb \<Rightarrow> bool \<times> cbb" where
  "cbb_add_utf32_be malloc k u =
     (if is_valid_code_point u then CBB_add_u32 malloc k u else (\<lambda>c. (False, c)))"

section \<open>The code points and their encodings\<close>

definition code_point_ok :: "nat \<Rightarrow> bool" where
  "code_point_ok n \<longleftrightarrow>
     n \<le> 0x10ffff \<and> n mod 0x10000 < 0xfffe \<and> \<not> (0xfdd0 \<le> n \<and> n \<le> 0xfdef) \<and> \<not> (0xd800 \<le> n \<and> n \<le> 0xdfff)"

fun tail_bytes :: "nat \<Rightarrow> nat \<Rightarrow> bytes" where
  "tail_bytes 0 u = []"
| "tail_bytes (Suc n) u = of_nat (128 + u div 64 ^ n mod 64) # tail_bytes n u"

definition utf8_enc :: "nat \<Rightarrow> bytes" where
  "utf8_enc u =
     (if u < 0x80 then [of_nat u]
      else if u < 0x800 then of_nat (192 + u div 64) # tail_bytes 1 u
      else if u < 0x10000 then of_nat (224 + u div 64 ^ 2) # tail_bytes 2 u
      else of_nat (240 + u div 64 ^ 3) # tail_bytes 3 u)"

fun utail :: "nat \<Rightarrow> nat \<Rightarrow> nat decoder" where
  "utail 0 v bs = Some (v, bs)"
| "utail (Suc n) v [] = None"
| "utail (Suc n) v (b # bs) =
     (if 128 \<le> unat b \<and> unat b < 192 then utail n (v * 64 + (unat b - 128)) bs else None)"

text \<open>The value bits of the first byte, the number of bytes to come and the least code point of that size.\<close>

definition ulead :: "nat \<Rightarrow> (nat \<times> nat \<times> nat) option" where
  "ulead b =
     (if 192 \<le> b \<and> b < 224 then Some (b - 192, 1, 0x80)
      else if 224 \<le> b \<and> b < 240 then Some (b - 224, 2, 0x800)
      else if 240 \<le> b \<and> b < 248 then Some (b - 240, 3, 0x10000)
      else None)"

definition utf8_dec :: "nat decoder" where
  "utf8_dec bs =
     (case bs of
        [] \<Rightarrow> None
      | b # r \<Rightarrow>
          if unat b < 0x80 then Some (unat b, r)
          else
            (case ulead (unat b) of
               None \<Rightarrow> None
             | Some (v, n, lo) \<Rightarrow>
                 (case utail n v r of
                    None \<Rightarrow> None
                  | Some (u, rest) \<Rightarrow> if code_point_ok u \<and> lo \<le> u then Some (u, rest) else None)))"

lemma utail_iff: "utail n v bs = Some (u, rest) \<longleftrightarrow> u div 64 ^ n = v \<and> bs = tail_bytes n u @ rest"
proof (induction n arbitrary: v bs)
  case 0
  then show ?case by auto
next
  case (Suc n)
  show ?case
  proof (cases bs)
    case (Cons b r)
    let ?q = "u div 64 ^ n"
    have eq: "u div 64 ^ Suc n = ?q div 64" by (simp add: div_mult2_eq mult.commute [of 64])
    have "unat (of_nat (128 + ?q mod 64) :: u8) = 128 + ?q mod 64"
      by (intro unat_of_nat_u8) (use mod_less_divisor [of 64 ?q] in linarith)
    then have "b = of_nat (128 + ?q mod 64) \<longleftrightarrow> unat b = 128 + ?q mod 64"
      by (metis word_of_unat)
    moreover have "?q div 64 = v \<and> unat b = 128 + ?q mod 64 \<longleftrightarrow>
        128 \<le> unat b \<and> unat b < 192 \<and> ?q = v * 64 + (unat b - 128)"
    proof
      assume "?q div 64 = v \<and> unat b = 128 + ?q mod 64"
      then show "128 \<le> unat b \<and> unat b < 192 \<and> ?q = v * 64 + (unat b - 128)"
        using mod_less_divisor [of 64 ?q] div_mult_mod_eq [of ?q 64] by auto
    next
      assume a: "128 \<le> unat b \<and> unat b < 192 \<and> ?q = v * 64 + (unat b - 128)"
      define d where "d = unat b - 128"
      have "?q = v * 64 + d" "d < 64" "unat b = 128 + d" using a by (auto simp: d_def)
      then show "?q div 64 = v \<and> unat b = 128 + ?q mod 64" by simp
    qed
    ultimately show ?thesis
      unfolding Cons eq [symmetric] by (auto simp: Suc eq)
  qed simp
qed

lemma utail_enc: "utail n (u div 64 ^ n) (tail_bytes n u @ rest) = Some (u, rest)"
  by (simp add: utail_iff)

lemma ulead_Some:
  "ulead b = Some (v, n, lo) \<longleftrightarrow>
     (n, lo) = (1, 0x80) \<and> b = 192 + v \<and> v < 32 \<or> (n, lo) = (2, 0x800) \<and> b = 224 + v \<and> v < 16 \<or>
     (n, lo) = (3, 0x10000) \<and> b = 240 + v \<and> v < 8"
  by (auto simp: ulead_def)

lemma utf8_enc_cases:
  assumes "u \<le> 0x10ffff" and "0x80 \<le> u"
  obtains n lo where "ulead (unat (hd (utf8_enc u))) = Some (u div 64 ^ n, n, lo)" "lo \<le> u"
    "utf8_enc u = hd (utf8_enc u) # tail_bytes n u" "128 \<le> unat (hd (utf8_enc u))"
proof -
  consider "u < 0x800" | "0x800 \<le> u" "u < 0x10000" | "0x10000 \<le> u" by linarith
  then show ?thesis
  proof cases
    case 1
    have "u div 64 < 32" using 1 by simp
    moreover from this have "unat (of_nat (192 + u div 64) :: u8) = 192 + u div 64"
      by (intro unat_of_nat_u8) simp
    ultimately show ?thesis
      using assms 1 by (intro that [of 1 "0x80"]) (simp_all add: utf8_enc_def ulead_Some del: of_nat_add)
  next
    case 2
    have "u div 64 ^ 2 < 16" using 2 by simp
    moreover from this have "unat (of_nat (224 + u div 64 ^ 2) :: u8) = 224 + u div 64 ^ 2"
      by (intro unat_of_nat_u8) simp
    ultimately show ?thesis
      using assms 2 by (intro that [of 2 "0x800"]) (simp_all add: utf8_enc_def ulead_Some del: of_nat_add)
  next
    case 3
    have "u div 64 ^ 3 < 8" using assms by simp
    moreover from this have "unat (of_nat (240 + u div 64 ^ 3) :: u8) = 240 + u div 64 ^ 3"
      by (intro unat_of_nat_u8) simp
    ultimately show ?thesis
      using assms 3 by (intro that [of 3 "0x10000"]) (simp_all add: utf8_enc_def ulead_Some del: of_nat_add)
  qed
qed

interpretation utf8_codec: canonical_codec utf8_enc utf8_dec code_point_ok
proof unfold_locales
  fix u and rest :: bytes
  assume ok: "code_point_ok u"
  then have small: "u \<le> 0x10ffff" by (simp add: code_point_ok_def)
  show "utf8_dec (utf8_enc u @ rest) = Some (u, rest)"
  proof (cases "u < 0x80")
    case True
    then show ?thesis by (simp add: utf8_enc_def utf8_dec_def unat_of_nat_u8)
  next
    case False
    then have "0x80 \<le> u" by simp
    with small show ?thesis
    proof (rule utf8_enc_cases)
      fix n lo
      assume h: "ulead (unat (hd (utf8_enc u))) = Some (u div 64 ^ n, n, lo)" "lo \<le> u"
        "utf8_enc u = hd (utf8_enc u) # tail_bytes n u" "128 \<le> unat (hd (utf8_enc u))"
      have "utf8_dec ((hd (utf8_enc u) # tail_bytes n u) @ rest) = Some (u, rest)"
        using h(1,2,4) ok by (simp add: utf8_dec_def utail_enc)
      with h(3) show ?thesis by simp
    qed
  qed
next
  fix bs u and rest :: bytes
  assume dec: "utf8_dec bs = Some (u, rest)"
  then obtain b r where bs: "bs = b # r" by (cases bs) (auto simp: utf8_dec_def)
  show "code_point_ok u \<and> bs = utf8_enc u @ rest"
  proof (cases "unat b < 0x80")
    case True
    with dec have "u = unat b" "rest = r" by (auto simp: bs utf8_dec_def)
    moreover have "code_point_ok (unat b)" using True by (simp add: code_point_ok_def)
    ultimately show ?thesis using True by (simp add: bs utf8_enc_def word_of_unat)
  next
    case False
    with dec obtain v n lo where l: "ulead (unat b) = Some (v, n, lo)" and t: "utail n v r = Some (u, rest)"
      and ok: "code_point_ok u" "lo \<le> u"
      by (auto simp: bs utf8_dec_def split: option.splits if_splits)
    from t have v: "u div 64 ^ n = v" and r: "r = tail_bytes n u @ rest" by (simp_all add: utail_iff)
    have b: "of_nat (unat b) = b" by simp
    from l consider "(n, lo) = (1, 0x80)" "unat b = 192 + v" "v < 32" | "(n, lo) = (2, 0x800)" "unat b = 224 + v" "v < 16"
      | "(n, lo) = (3, 0x10000)" "unat b = 240 + v" "v < 8"
      unfolding ulead_Some by blast
    then have "utf8_enc u = b # tail_bytes n u"
    proof cases
      case 1
      with v have "u < 0x800" by (auto simp: div_less_iff_less_mult)
      with 1 v ok(2) b show ?thesis by (simp add: utf8_enc_def)
    next
      case 2
      with v have "u < 0x10000" by (auto simp: div_less_iff_less_mult)
      with 2 v ok(2) b show ?thesis by (simp add: utf8_enc_def)
    next
      case 3
      with v ok(2) b show ?thesis by (simp add: utf8_enc_def)
    qed
    with ok(1) r show ?thesis by (simp add: bs)
  qed
qed

section \<open>The code meets the contract\<close>

lemma bits_eq:
  "TOP_BITS 1 = NOT (mask 7)" "TOP_BITS 2 = NOT (mask 6)" "TOP_BITS 3 = NOT (mask 5)"
  "TOP_BITS 4 = NOT (mask 4)" "TOP_BITS 5 = NOT (mask 3)"
  "BOTTOM_BITS 3 = mask 3" "BOTTOM_BITS 4 = mask 4" "BOTTOM_BITS 5 = mask 5" "BOTTOM_BITS 6 = mask 6"
  by code_simp+

lemma unat_mask: "unat (c AND mask k :: 'a::len word) = unat c mod 2 ^ k"
  unfolding take_bit_eq_mask [symmetric] take_bit_eq_mod [where 'a = nat, symmetric]
  by (simp only: unsigned_take_bit_eq)

lemma unat_not_mask: "unat (c AND NOT (mask k) :: 'a::len word) = unat c div 2 ^ k * 2 ^ k"
proof -
  have eq: "c AND NOT (mask k) = push_bit k (drop_bit k c)"
    by (rule bit_word_eqI) (auto simp: bit_simps)
  have "unat c div 2 ^ k * 2 ^ k \<le> unat c"
    using div_mult_mod_eq [of "unat c" "2 ^ k"] by linarith
  then have "unat c div 2 ^ k * 2 ^ k < 2 ^ LENGTH('a)"
    using unsigned_less [of c, where 'a = nat] by (rule le_less_trans)
  then show ?thesis
    unfolding eq unsigned_push_bit_eq unat_drop_bit_eq
    unfolding push_bit_eq_mult drop_bit_eq_div by (rule take_bit_nat_eq_self)
qed

lemma div_mult_eq: "0 < k \<Longrightarrow> m div k * k = k * j \<longleftrightarrow> k * j \<le> m \<and> m < k * j + k" for m k j :: nat
proof -
  assume k: "0 < k"
  then have "m div k * k = k * j \<longleftrightarrow> m div k = j" by (auto simp: mult.commute)
  also have "\<dots> \<longleftrightarrow> k * j \<le> m \<and> m < k * j + k"
  proof
    assume "m div k = j"
    then show "k * j \<le> m \<and> m < k * j + k"
      using div_mult_mod_eq [of m k] mod_less_divisor [OF k, of m] by (auto simp: mult.commute)
  next
    assume "k * j \<le> m \<and> m < k * j + k"
    then show "m div k = j" using k by (intro div_nat_eqI) (auto simp: mult.commute)
  qed
  finally show ?thesis .
qed

lemma top_eq:
  "c AND TOP_BITS 2 = TOP_BITS 1 \<longleftrightarrow> 128 \<le> unat c \<and> unat c < 192"
  "c AND TOP_BITS 3 = TOP_BITS 2 \<longleftrightarrow> 192 \<le> unat c \<and> unat c < 224"
  "c AND TOP_BITS 4 = TOP_BITS 3 \<longleftrightarrow> 224 \<le> unat c \<and> unat c < 240"
  "c AND TOP_BITS 5 = TOP_BITS 4 \<longleftrightarrow> 240 \<le> unat c \<and> unat c < 248"
proof -
  have v: "unat (NOT (mask 7) :: u8) = 64 * 2" "unat (NOT (mask 6) :: u8) = 32 * 6"
    "unat (NOT (mask 5) :: u8) = 16 * 14" "unat (NOT (mask 4) :: u8) = 8 * 30"
    by code_simp+
  show "c AND TOP_BITS 2 = TOP_BITS 1 \<longleftrightarrow> 128 \<le> unat c \<and> unat c < 192"
    unfolding bits_eq word_unat_eq_iff unat_not_mask v using div_mult_eq [of 64 "unat c" 2] by simp
  show "c AND TOP_BITS 3 = TOP_BITS 2 \<longleftrightarrow> 192 \<le> unat c \<and> unat c < 224"
    unfolding bits_eq word_unat_eq_iff unat_not_mask v using div_mult_eq [of 32 "unat c" 6] by simp
  show "c AND TOP_BITS 4 = TOP_BITS 3 \<longleftrightarrow> 224 \<le> unat c \<and> unat c < 240"
    unfolding bits_eq word_unat_eq_iff unat_not_mask v using div_mult_eq [of 16 "unat c" 14] by simp
  show "c AND TOP_BITS 5 = TOP_BITS 4 \<longleftrightarrow> 240 \<le> unat c \<and> unat c < 248"
    unfolding bits_eq word_unat_eq_iff unat_not_mask v using div_mult_eq [of 8 "unat c" 30] by simp
qed

lemma unat_ucast_u8_32: "unat (ucast (x :: u8) :: u32) = unat x"
proof -
  have "unat x < 2 ^ 32" by (rule less_trans [OF unat_less_256]) simp
  then show ?thesis by (simp add: unsigned_ucast_eq take_bit_nat_eq_self)
qed

lemma bottom_eq:
  "unat (ucast (c AND BOTTOM_BITS 6) :: u32) = unat c mod 64"
  "unat (ucast (c AND BOTTOM_BITS 5) :: u32) = unat c mod 32"
  "unat (ucast (c AND BOTTOM_BITS 4) :: u32) = unat c mod 16"
  "unat (ucast (c AND BOTTOM_BITS 3) :: u32) = unat c mod 8"
  unfolding unat_ucast_u8_32 bits_eq unat_mask by simp_all

lemma utf8_lead_eq:
  "case utf8_lead c of
     None \<Rightarrow> ulead (unat c) = None
   | Some (v, n, lo) \<Rightarrow> ulead (unat c) = Some (unat v, n, unat lo) \<and> (unat v + 1) * 64 ^ n \<le> 2 ^ 32"
proof -
  have m: "b mod j = b - k" if "k \<le> b" "b < k + j" "k mod j = 0" for b k j :: nat
  proof -
    have "b = k + (b - k)" "b - k < j" using that by auto
    then show ?thesis using that(3) by (metis mod_add_left_eq add_0 mod_less)
  qed
  consider "192 \<le> unat c" "unat c < 224" | "224 \<le> unat c" "unat c < 240" | "240 \<le> unat c" "unat c < 248"
    | "unat c < 192" | "248 \<le> unat c" by linarith
  then show ?thesis
  proof cases
    case 1
    then show ?thesis
      using m [of 192 "unat c" 32] by (simp add: utf8_lead_def ulead_def top_eq bottom_eq)
  next
    case 2
    then show ?thesis
      using m [of 224 "unat c" 16] by (simp add: utf8_lead_def ulead_def top_eq bottom_eq)
  next
    case 3
    then show ?thesis
      using m [of 240 "unat c" 8] by (simp add: utf8_lead_def ulead_def top_eq bottom_eq)
  qed (simp_all add: utf8_lead_def ulead_def top_eq)
qed

lemma valid_code_point: "is_valid_code_point v \<longleftrightarrow> code_point_ok (unat v)"
proof -
  have k: "(0xfffe :: u32) = mask 16 AND NOT (mask 1)" by code_simp
  have "unat (v AND 0xfffe) = unat v mod 2 ^ 16 div 2 ^ 1 * 2 ^ 1"
    unfolding k and.assoc [symmetric] unat_not_mask unat_mask ..
  then have "v AND 0xfffe = 0xfffe \<longleftrightarrow> 0xfffe \<le> unat v mod 65536"
    by (simp add: word_unat_eq_iff) arith
  then show ?thesis
    by (auto simp: is_valid_code_point_def code_point_ok_def word_less_nat_alt word_le_nat_alt)
qed

lemma utail_then:
  "utail (Suc n) v = p_then (be_dec 1) (\<lambda>b. if 128 \<le> b \<and> b < 192 then utail n (v * 64 + (b - 128)) else p_fail)"
proof (rule ext)
  fix bs
  show "utail (Suc n) v bs =
      p_then (be_dec 1) (\<lambda>b. if 128 \<le> b \<and> b < 192 then utail n (v * 64 + (b - 128)) else p_fail) bs"
    by (cases bs) (auto simp: p_then_def be_dec_def be_nat_1 p_fail_def)
qed

lemma tail_step:
  assumes "(unat v + 1) * 64 ^ Suc n \<le> 2 ^ 32" and "128 \<le> unat c" "unat c < 192"
  shows "unat (push_bit 6 v OR ucast (c AND BOTTOM_BITS 6) :: u32) = unat v * 64 + (unat c - 128) \<and>
    (unat v * 64 + (unat c - 128) + 1) * 64 ^ n \<le> 2 ^ 32"
proof -
  let ?d = "ucast (c AND BOTTOM_BITS 6) :: u32"
  have d: "unat ?d = unat c - 128"
  proof -
    define e where "e = unat c - 128"
    have "unat c = 128 + e" "e < 64" using assms by (auto simp: e_def)
    moreover have "(2 * 64 + e) mod 64 = e"
      unfolding mod_mult_self3 using \<open>e < 64\<close> by simp
    ultimately show ?thesis by (simp add: bottom_eq)
  qed
  have "unat ?d < 64" using d assms by simp
  then have "take_bit 6 ?d = ?d"
    by (simp add: word_unat_eq_iff unsigned_take_bit_eq take_bit_nat_eq_self)
  from or_eq_plus_push [OF this] have or: "push_bit 6 v OR ?d = push_bit 6 v + ?d" .
  have le: "(unat v * 64 + (unat c - 128) + 1) * 64 ^ n \<le> ((unat v + 1) * 64) * 64 ^ n"
    using assms(3) by (intro mult_le_mono1) simp
  with assms(1) have fits: "(unat v * 64 + (unat c - 128) + 1) * 64 ^ n \<le> 2 ^ 32"
    unfolding power_Suc mult.assoc by linarith
  have "(unat v * 64 + (unat c - 128) + 1) * 1 \<le> (unat v * 64 + (unat c - 128) + 1) * 64 ^ n"
    by (rule mult_le_mono2) simp
  from le_trans [OF this fits] have "unat v * 64 + (unat c - 128) < 2 ^ 32" by simp
  then have "unat (push_bit 6 v + ?d) = unat v * 64 + (unat c - 128)"
    by (simp add: push_bit_eq_mult unat_word_ariths d mult.commute)
  with fits show ?thesis by (simp add: or)
qed

lemma refines_utail:
  "valid c \<Longrightarrow> (unat v + 1) * 64 ^ n \<le> 2 ^ 32 \<Longrightarrow> refines_at out_nat (utf8_tail n v) (utail n (unat v)) c"
proof (induction n arbitrary: v c)
  case 0
  have "utail 0 (unat v) = p_return (unat v)" by (simp add: fun_eq_iff p_return_def)
  then show ?case by (auto intro: refines_return simp: out_nat_def)
next
  case (Suc n)
  show ?case
    unfolding utail_then utf8_tail.simps
  proof (rule refines_and_then [OF Suc.prems(1) refines_get_u8 [OF Suc.prems(1)]])
    fix b :: u8 and y c'
    assume "valid c'" and "out_nat c b y"
    then have y: "y = unat b" by (simp add: out_nat_def)
    show "refines_at out_nat
        (if b AND TOP_BITS 2 \<noteq> TOP_BITS 1 then cbs_fail else utf8_tail n (push_bit 6 v OR ucast (b AND BOTTOM_BITS 6)))
        (if 128 \<le> y \<and> y < 192 then utail n (unat v * 64 + (y - 128)) else p_fail) c'"
    proof (cases "128 \<le> unat b \<and> unat b < 192")
      case True
      from Suc.IH [OF \<open>valid c'\<close>, of "push_bit 6 v OR ucast (b AND BOTTOM_BITS 6)"] tail_step [OF Suc.prems(2), of b] True
      show ?thesis unfolding top_eq y by simp
    next
      case False
      then show ?thesis unfolding top_eq y by (auto simp: refines_fail)
    qed
  qed (auto intro: out_nat_mono)
qed

lemma utf8_dec_then:
  "utf8_dec = p_then (be_dec 1) (\<lambda>b.
     if b < 0x80 then p_return b
     else
       (case ulead b of
          None \<Rightarrow> p_fail
        | Some (v, n, lo) \<Rightarrow>
            p_then (utail n v) (\<lambda>u. if code_point_ok u \<and> lo \<le> u then p_return u else p_fail)))"
proof (rule ext)
  fix bs
  show "utf8_dec bs = p_then (be_dec 1) (\<lambda>b.
     if b < 0x80 then p_return b
     else
       (case ulead b of
          None \<Rightarrow> p_fail
        | Some (v, n, lo) \<Rightarrow>
            p_then (utail n v) (\<lambda>u. if code_point_ok u \<and> lo \<le> u then p_return u else p_fail))) bs"
    by (cases bs)
      (auto simp: utf8_dec_def p_then_def be_dec_def be_nat_1 p_fail_def p_return_def split: option.splits)
qed

lemma refines_utf8: "valid c \<Longrightarrow> refines_at out_nat cbs_get_utf8 utf8_dec c"
  unfolding cbs_get_utf8_def utf8_dec_then
proof (rule refines_and_then [OF _ refines_get_u8], assumption, assumption)
  fix b :: u8 and y c'
  assume v': "valid c'" and "out_nat c b y"
  then have y: "y = unat b" by (simp add: out_nat_def)
  let ?m = "if b \<le> 0x7f then cbs_return (ucast b)
    else (case utf8_lead b of None \<Rightarrow> cbs_fail
      | Some (v, n, lower_bound) \<Rightarrow> and_then (utf8_tail n v) (\<lambda>v.
          if \<not> is_valid_code_point v \<or> v < lower_bound then cbs_fail else cbs_return v))"
  let ?p = "if y < 0x80 then p_return y
    else (case ulead y of None \<Rightarrow> p_fail
      | Some (v, n, lo) \<Rightarrow> p_then (utail n v) (\<lambda>u. if code_point_ok u \<and> lo \<le> u then p_return u else p_fail))"
  show "refines_at out_nat ?m ?p c'"
  proof (cases "b \<le> 0x7f")
    case True
    then have "y < 0x80" by (simp add: y word_le_nat_alt)
    with True show ?thesis
      by (auto intro!: refines_return simp: out_nat_def unat_ucast_u8_32 y)
  next
    case False
    then have ny: "\<not> y < 0x80" by (simp add: y word_le_nat_alt)
    show ?thesis
    proof (cases "utf8_lead b")
      case None
      with utf8_lead_eq [of b] False ny show ?thesis by (simp add: y refines_fail)
    next
      case (Some l)
      obtain v n lo where l: "l = (v, n, lo)" by (cases l)
      with Some utf8_lead_eq [of b] have ul: "ulead y = Some (unat v, n, unat lo)" "(unat v + 1) * 64 ^ n \<le> 2 ^ 32"
        by (simp_all add: y)
      have "refines_at out_nat (and_then (utf8_tail n v) (\<lambda>v.
            if \<not> is_valid_code_point v \<or> v < lo then cbs_fail else cbs_return v))
          (p_then (utail n (unat v)) (\<lambda>u. if code_point_ok u \<and> unat lo \<le> u then p_return u else p_fail)) c'"
      proof (rule refines_and_then [OF v' refines_utail [OF v' ul(2)]])
        fix x :: u32 and z c''
        assume "out_nat c' x z"
        then show "refines_at out_nat (if \<not> is_valid_code_point x \<or> x < lo then cbs_fail else cbs_return x)
            (if code_point_ok z \<and> unat lo \<le> z then p_return z else p_fail) c''"
          by (auto intro: refines_fail refines_return simp: out_nat_def valid_code_point word_less_nat_alt)
      qed (auto intro: out_nat_mono)
      with False ny Some l ul(1) show ?thesis by simp
    qed
  qed
qed (auto intro: out_nat_mono)

interpretation get_utf8: cbs_codec cbs_get_utf8 utf8_dec out_nat utf8_enc code_point_ok
  by unfold_locales (auto intro: refines_utf8 out_nat_mono)

text \<open>The other codecs read an integer and check it.\<close>

definition checked :: "(nat \<Rightarrow> bool) \<Rightarrow> nat decoder \<Rightarrow> nat decoder" where
  "checked P d = p_then d (\<lambda>n. if P n then p_return n else p_fail)"

lemma checked_codec: "canonical_codec (be_bytes k) (checked P (be_dec k)) (\<lambda>n. n < 256 ^ k \<and> P n)"
proof unfold_locales
  fix n rest
  assume "n < 256 ^ k \<and> P n"
  then show "checked P (be_dec k) (be_bytes k n @ rest) = Some (n, rest)"
    by (simp add: checked_def p_then_def be_codec.dec_enc p_return_def)
next
  fix bs n rest
  assume "checked P (be_dec k) bs = Some (n, rest)"
  then have "be_dec k bs = Some (n, rest)" "P n"
    by (auto simp: checked_def p_then_def p_return_def p_fail_def split: option.splits if_splits)
  with be_codec.dec_canonical show "(n < 256 ^ k \<and> P n) \<and> bs = be_bytes k n @ rest" by blast
qed

interpretation checked_codec: canonical_codec "be_bytes k" "checked P (be_dec k)" "\<lambda>n. n < 256 ^ k \<and> P n" for k P
  by (rule checked_codec)

lemma unat_ucast_u16_32: "unat (ucast (x :: u16) :: u32) = unat x"
proof -
  have "unat x < 2 ^ 32" by (rule less_trans [OF unsigned_less]) simp
  then show ?thesis by (simp add: unsigned_ucast_eq take_bit_nat_eq_self)
qed

interpretation get_latin1: cbs_codec cbs_get_latin1 "be_dec 1" out_nat "be_bytes 1" "\<lambda>v. v < 256 ^ 1"
proof unfold_locales
  fix c
  assume v: "valid c"
  have "refines_at out_nat cbs_get_latin1 (p_then (be_dec 1) p_return) c"
    unfolding cbs_get_latin1_def
    by (rule refines_and_then [OF v refines_get_u8 [OF v]])
      (auto intro!: refines_return intro: out_nat_mono simp: out_nat_def unat_ucast_u8_32)
  then show "refines_at out_nat cbs_get_latin1 (be_dec 1) c" by (simp only: p_then_return)
qed (rule out_nat_mono)

interpretation get_ucs2: cbs_codec cbs_get_ucs2_be "checked code_point_ok (be_dec 2)" out_nat "be_bytes 2"
  "\<lambda>n. n < 256 ^ 2 \<and> code_point_ok n"
proof unfold_locales
  fix c
  assume v: "valid c"
  show "refines_at out_nat cbs_get_ucs2_be (checked code_point_ok (be_dec 2)) c"
    unfolding cbs_get_ucs2_be_def checked_def
    by (rule refines_and_then [OF v get_u16.refines [OF v]])
      (auto intro!: refines_return refines_fail intro: out_nat_mono
        simp: out_nat_def unat_ucast_u16_32 valid_code_point)
qed (rule out_nat_mono)

interpretation get_utf32: cbs_codec cbs_get_utf32_be "checked code_point_ok (be_dec 4)" out_nat "be_bytes 4"
  "\<lambda>n. n < 256 ^ 4 \<and> code_point_ok n"
proof unfold_locales
  fix c
  assume v: "valid c"
  show "refines_at out_nat cbs_get_utf32_be (checked code_point_ok (be_dec 4)) c"
    unfolding cbs_get_utf32_be_def checked_def
    by (rule refines_and_then [OF v get_u32.refines [OF v]])
      (auto intro!: refines_return refines_fail intro: out_nat_mono simp: out_nat_def valid_code_point)
qed (rule out_nat_mono)

section \<open>Writing\<close>

lemma or_top:
  assumes "unat v < 2 ^ j"
  shows "push_bit j a OR v = push_bit j a + (v :: u32)"
proof (rule or_eq_plus_push)
  show "take_bit j v = v"
    using assms by (simp add: word_unat_eq_iff unsigned_take_bit_eq take_bit_nat_eq_self)
qed

lemma top_or_eq:
  "unat v < 64 \<Longrightarrow> top_or 1 v = of_nat (128 + unat v)" "unat v < 64 \<Longrightarrow> top_or 2 v = of_nat (192 + unat v)"
  "unat v < 32 \<Longrightarrow> top_or 3 v = of_nat (224 + unat v)" "unat v < 16 \<Longrightarrow> top_or 4 v = of_nat (240 + unat v)"
proof -
  have t: "(ucast (TOP_BITS 1) :: u32) = push_bit 6 2" "(ucast (TOP_BITS 2) :: u32) = push_bit 6 3"
    "(ucast (TOP_BITS 3) :: u32) = push_bit 5 7" "(ucast (TOP_BITS 4) :: u32) = push_bit 4 15"
    by code_simp+
  have u: "ucast (push_bit j a + v :: u32) = (of_nat (n + unat v) :: u8)"
    if "push_bit j a = (of_nat n :: u32)" for j a n
    unfolding that by (simp add: word_unat_eq_iff unsigned_ucast_eq unsigned_of_nat take_bit_eq_mod
        unat_word_ariths mod_mod_cancel mod_simps)
  show "unat v < 64 \<Longrightarrow> top_or 1 v = of_nat (128 + unat v)"
    unfolding top_or_def t using or_top [of v 6 2] u [of 6 2 128] by simp
  show "unat v < 64 \<Longrightarrow> top_or 2 v = of_nat (192 + unat v)"
    unfolding top_or_def t using or_top [of v 6 3] u [of 6 3 192] by simp
  show "unat v < 32 \<Longrightarrow> top_or 3 v = of_nat (224 + unat v)"
    unfolding top_or_def t using or_top [of v 5 7] u [of 5 7 224] by simp
  show "unat v < 16 \<Longrightarrow> top_or 4 v = of_nat (240 + unat v)"
    unfolding top_or_def t using or_top [of v 4 15] u [of 4 15 240] by simp
qed

lemma tail_byte_eq: "tail_byte v = of_nat (128 + unat v mod 64)"
proof -
  have m: "(ucast (BOTTOM_BITS 6) :: u32) = mask 6" by code_simp
  have "unat (v AND mask 6) = unat v mod 64" by (simp add: unat_mask)
  then show ?thesis
    unfolding tail_byte_def m by (subst top_or_eq(1)) simp_all
qed

lemma unat_drop: "unat (drop_bit n (u :: u32)) = unat u div 2 ^ n"
  unfolding unat_drop_bit_eq unfolding drop_bit_eq_div ..

interpretation add_utf8: cbb_round_trip cbb_add_utf8 unat utf8_enc code_point_ok 0
  cbs_get_utf8 utf8_dec out_nat code_point_ok
proof unfold_locales
  fix malloc k and u :: u32
  assume sane: "malloc_sane malloc" and ok: "code_point_ok (unat u)"
  note u8 = u8_writes [OF sane, of k]
  note seq = writes_then [OF u8 writes_continues]
  have valid: "is_valid_code_point u" by (simp add: valid_code_point ok)
  have tails: "tail_bytes (Suc 0) n = [of_nat (128 + n mod 64)]"
    "tail_bytes 2 n = [of_nat (128 + n div 64 mod 64), of_nat (128 + n mod 64)]"
    "tail_bytes 3 n = [of_nat (128 + n div 64 ^ 2 mod 64), of_nat (128 + n div 64 mod 64), of_nat (128 + n mod 64)]"
    for n
    by (simp_all add: numeral_2_eq_2 numeral_3_eq_3)
  have small: "unat u \<le> 0x10ffff" using ok by (simp add: code_point_ok_def)
  consider "unat u < 0x80" | "0x80 \<le> unat u" "unat u < 0x800" | "0x800 \<le> unat u" "unat u < 0x10000"
    | "0x10000 \<le> unat u" by linarith
  then show "writes (cbb_add_utf8 malloc k u) k (utf8_enc (unat u)) (length (utf8_enc (unat u)) + 0)"
  proof cases
    case 1
    then show ?thesis
      using u8 [of "ucast u"] valid by (simp add: cbb_add_utf8_def word_le_nat_alt utf8_enc_def)
  next
    case 2
    then have "top_or 2 (drop_bit 6 u) = of_nat (192 + unat u div 64)"
      by (subst top_or_eq(2)) (simp_all add: unat_drop)
    with 2 show ?thesis
      using seq [OF u8, of "top_or 2 (drop_bit 6 u)" "tail_byte u"] valid
      by (simp add: cbb_add_utf8_def word_le_nat_alt utf8_enc_def tails tail_byte_eq del: of_nat_add tail_bytes.simps)
  next
    case 3
    then have "top_or 3 (drop_bit 12 u) = of_nat (224 + unat u div 4096)"
      by (subst top_or_eq(3)) (simp_all add: unat_drop)
    with 3 show ?thesis
      using seq [OF seq [OF u8], of "top_or 3 (drop_bit 12 u)" "tail_byte (drop_bit 6 u)" "tail_byte u"] valid
      by (simp add: cbb_add_utf8_def word_le_nat_alt utf8_enc_def tails tail_byte_eq unat_drop
        del: of_nat_add tail_bytes.simps)
  next
    case 4
    then have "top_or 4 (drop_bit 18 u) = of_nat (240 + unat u div 262144)"
      using small by (subst top_or_eq(4)) (simp_all add: unat_drop)
    with 4 small show ?thesis
      using seq [OF seq [OF seq [OF u8]], of "top_or 4 (drop_bit 18 u)" "tail_byte (drop_bit 12 u)"
          "tail_byte (drop_bit 6 u)" "tail_byte u"] valid
      by (simp add: cbb_add_utf8_def word_le_nat_alt utf8_enc_def tails tail_byte_eq unat_drop
        del: of_nat_add tail_bytes.simps)
  qed
qed simp


lemma unat_ucast_small: "unat u < 256 \<Longrightarrow> unat (ucast (u :: u32) :: u8) = unat u"
  "unat u < 65536 \<Longrightarrow> unat (ucast (u :: u32) :: u16) = unat u"
  by (simp_all add: unsigned_ucast_eq take_bit_nat_eq_self)

interpretation add_latin1: cbb_round_trip cbb_add_latin1 unat "be_bytes 1" "\<lambda>v. v < 256 ^ 1" 0
  cbs_get_latin1 "be_dec 1" out_nat "\<lambda>v. v < 256 ^ 1"
proof unfold_locales
  fix malloc k and u :: u32
  assume sane: "malloc_sane malloc" and ok: "unat u < 256 ^ 1"
  then show "writes (cbb_add_latin1 malloc k u) k (be_bytes 1 (unat u)) (length (be_bytes 1 (unat u)) + 0)"
    using add_u8.add_writes [OF sane, of "ucast u" k]
    by (simp add: cbb_add_latin1_def word_le_nat_alt unat_ucast_small)
qed simp

interpretation add_ucs2: cbb_round_trip cbb_add_ucs2_be unat "be_bytes 2"
  "\<lambda>n. n < 256 ^ 2 \<and> code_point_ok n" 0
  cbs_get_ucs2_be "checked code_point_ok (be_dec 2)" out_nat "\<lambda>n. n < 256 ^ 2 \<and> code_point_ok n"
proof unfold_locales
  fix malloc k and u :: u32
  assume sane: "malloc_sane malloc" and ok: "unat u < 256 ^ 2 \<and> code_point_ok (unat u)"
  then show "writes (cbb_add_ucs2_be malloc k u) k (be_bytes 2 (unat u)) (length (be_bytes 2 (unat u)) + 0)"
    using add_u16.add_writes [OF sane, of "ucast u" k]
    by (simp add: cbb_add_ucs2_be_def word_le_nat_alt unat_ucast_small valid_code_point)
qed simp

interpretation add_utf32: cbb_round_trip cbb_add_utf32_be unat "be_bytes 4"
  "\<lambda>n. n < 256 ^ 4 \<and> code_point_ok n" 0
  cbs_get_utf32_be "checked code_point_ok (be_dec 4)" out_nat "\<lambda>n. n < 256 ^ 4 \<and> code_point_ok n"
proof unfold_locales
  fix malloc k and u :: u32
  assume sane: "malloc_sane malloc" and ok: "unat u < 256 ^ 4 \<and> code_point_ok (unat u)"
  then show "writes (cbb_add_utf32_be malloc k u) k (be_bytes 4 (unat u)) (length (be_bytes 4 (unat u)) + 0)"
    using add_u32.add_writes [OF sane, of u k]
    by (simp add: cbb_add_utf32_be_def valid_code_point)
qed simp

section \<open>Properties\<close>

text \<open>
  C20: \<open>cbs_get_utf8\<close> accepts exactly the shortest UTF-8 encodings of valid code points: overlong forms,
  surrogates, noncharacters and numbers above 0x10ffff are rejected, and nothing past the character
  is consumed.
\<close>

theorem utf8_exact:
  assumes "valid c"
  shows "(\<exists>c'. cbs_get_utf8 c = (Some u, c') \<and> cbs_bytes c' = rest) \<longleftrightarrow>
    code_point_ok (unat u) \<and> cbs_bytes c = utf8_enc (unat u) @ rest"
proof
  assume "\<exists>c'. cbs_get_utf8 c = (Some u, c') \<and> cbs_bytes c' = rest"
  with get_utf8.get_sound [OF assms] show "code_point_ok (unat u) \<and> cbs_bytes c = utf8_enc (unat u) @ rest"
    by (fastforce simp: out_nat_def)
next
  assume "code_point_ok (unat u) \<and> cbs_bytes c = utf8_enc (unat u) @ rest"
  then show "\<exists>c'. cbs_get_utf8 c = (Some u, c') \<and> cbs_bytes c' = rest"
    using get_utf8.get_complete [OF assms, of "unat u" rest] by (auto simp: out_nat_def word_unat_eq_iff)
qed

theorem utf8_exact_witness:
  "\<exists>c'. cbs_get_utf8 (CBS_init [0xe2, 0x82, 0xac, 0x20] 4) = (Some 0x20ac, c') \<and> cbs_bytes c' = [0x20]"
proof -
  have v: "valid (CBS_init [0xe2, 0x82, 0xac, 0x20] 4)" by code_simp
  have "code_point_ok (unat (0x20ac :: u32)) \<and>
      cbs_bytes (CBS_init [0xe2, 0x82, 0xac, 0x20] 4) = utf8_enc (unat (0x20ac :: u32)) @ [0x20]"
    by code_simp
  then show ?thesis by (simp only: utf8_exact [OF v])
qed

text \<open>
  C21: a string of valid code points written with \<open>cbb_add_utf8\<close> is read back code point by code point
  with \<open>cbs_get_utf8\<close>.
\<close>

theorem utf8_round_trip:
  assumes "malloc_sane malloc" and "unat cap < 2 ^ 62" and "list_all is_valid_code_point us"
    and "cbb_build malloc cap (add_list (cbb_add_utf8 malloc 0) us) = Some r"
  shows "\<exists>c'. get_list cbs_get_utf8 (length us) (result_cbs r) = (Some us, c') \<and> cbs_bytes c' = []"
proof -
  have eq: "list_all2 (out_nat c) zs (map unat us) \<longleftrightarrow> zs = us" for c zs
    by (auto simp: list_all2_conv_all_nth out_nat_def word_unat_eq_iff intro: nth_equalityI)
  have "list_all (\<lambda>x. code_point_ok (unat x)) us"
    using assms(3) by (auto simp: list_all_iff valid_code_point)
  from add_utf8.round_trip [OF assms(1) this assms(2,4)] show ?thesis
    unfolding eq by blast
qed

theorem utf8_round_trip_witness:
  "\<exists>r c'. cbb_build small_malloc 16 (add_list (cbb_add_utf8 small_malloc 0) [0x20ac, 0x41]) = Some r \<and>
     get_list cbs_get_utf8 (length [0x20ac, 0x41 :: u32]) (result_cbs r) = (Some [0x20ac, 0x41], c')"
proof -
  have ok: "list_all is_valid_code_point [0x20ac, 0x41]" by code_simp
  then have "list_all (\<lambda>x. code_point_ok (unat x)) [0x20ac, 0x41 :: u32]"
    by (rule list.pred_mono_strong) (simp only: valid_code_point)
  moreover have "sum_list (map (\<lambda>x. length (utf8_enc (unat x)) + 0) [0x20ac, 0x41 :: u32]) = 4" by code_simp
  ultimately obtain r where
    r: "cbb_build small_malloc 16 (add_list (cbb_add_utf8 small_malloc 0) [0x20ac, 0x41]) = Some r"
    using build_complete [OF small_malloc_sane add_utf8.list_continues [OF small_malloc_sane] small_init,
      of "[0x20ac, 0x41]"] by auto
  from utf8_round_trip [OF small_malloc_sane _ ok r] r show ?thesis by auto
qed

lemma utf8_enc_length: "is_valid_code_point u \<Longrightarrow> length (utf8_enc (unat u)) = unat (cbb_get_utf8_len u)"
proof -
  have "length (tail_bytes n m) = n" for n m by (induction n) simp_all
  then show ?thesis
    by (auto simp: utf8_enc_def cbb_get_utf8_len_def word_le_nat_alt)
qed

text \<open>
  An invalid code point is never written: \<open>cbb_add_utf8\<close> fails and leaves the builder as it was.
  A valid one written alone makes a string of exactly \<open>cbb_get_utf8_len\<close> bytes, at most four, and
  an initial capacity of that many bytes is enough to write it.
\<close>

theorem utf8_len:
  assumes "malloc_sane malloc" and "unat cap < 2 ^ 62"
  shows "(\<not> is_valid_code_point u \<longrightarrow> cbb_add_utf8 malloc k u c = (False, c)) \<and>
    (is_valid_code_point u \<longrightarrow>
      (\<forall>r. cbb_build malloc cap (cbb_add_utf8 malloc 0 u) = Some r \<longrightarrow> snd r = cbb_get_utf8_len u) \<and>
      (cbb_get_utf8_len u \<le> cap \<and> fst (CBB_init malloc cap) \<longrightarrow>
        (\<exists>r. cbb_build malloc cap (cbb_add_utf8 malloc 0 u) = Some r)) \<and>
      cbb_get_utf8_len u \<le> 4)"
proof -
  have "snd r = cbb_get_utf8_len u"
    if "is_valid_code_point u" "cbb_build malloc cap (cbb_add_utf8 malloc 0 u) = Some r" for r
    using add_utf8.build_one [OF assms(1) _ assms(2) that(2)] that(1)
    by (simp add: valid_code_point utf8_enc_length word_unat_eq_iff)
  moreover have "\<exists>r. cbb_build malloc cap (cbb_add_utf8 malloc 0 u) = Some r"
    if "is_valid_code_point u" "cbb_get_utf8_len u \<le> cap" "fst (CBB_init malloc cap)"
    using add_utf8.build_one_succeeds [OF assms(1), of u cap] that assms(2)
    by (cases "CBB_init malloc cap") (auto simp: valid_code_point utf8_enc_length word_le_nat_alt)
  ultimately show ?thesis
    by (auto simp: cbb_add_utf8_def cbb_get_utf8_len_def)
qed

theorem utf8_len_witness:
  "(\<forall>k c. cbb_add_utf8 small_malloc k 0xd800 c = (False, c)) \<and>
   (\<exists>r. cbb_build small_malloc 16 (cbb_add_utf8 small_malloc 0 0x20ac) = Some r \<and> snd r = 3)"
proof -
  have "\<not> is_valid_code_point 0xd800" "is_valid_code_point 0x20ac" "cbb_get_utf8_len 0x20ac = 3"
    by code_simp+
  moreover have "fst (CBB_init small_malloc 16)" by code_simp
  ultimately show ?thesis
    using utf8_len [OF small_malloc_sane, of 16 "0xd800"] utf8_len [OF small_malloc_sane, of 16 "0x20ac"]
    by auto
qed

end
