(* ===== verification/Ber.thy ===== *)
theory Ber
  imports Cbb_Spec
begin

text \<open>
  The conversion of BER to DER of \<open>crypto/bytestring/ber.c\<close>: the walk that decides whether an input
  needs converting, the conversion of indefinite lengths and constructed strings, and implicitly
  tagged strings.
\<close>

section \<open>Elements get shorter\<close>

lemma get_u8_len: "CBS_get_u8 c = (Some b, c') \<Longrightarrow> unat (cbs_len c) = Suc (unat (cbs_len c'))"
proof -
  assume "CBS_get_u8 c = (Some b, c')"
  then have "\<not> cbs_len c < 1" "cbs_len c' = cbs_len c - 1"
    by (auto simp: CBS_get_u8_def and_then_def cbs_return_def cbs_get_def split: if_splits)
  then show ?thesis
    by (simp add: unat_sub_if_size word_less_nat_alt)
qed

lemma base128_consumed:
  "base128_loop v c = (Some x, c') \<Longrightarrow>
     unat (cbs_len c') < unat (cbs_len c) \<and>
     unat v * 128 ^ (unat (cbs_len c) - unat (cbs_len c')) \<le> unat x"
proof (induction v c rule: base128_loop.induct)
  case (1 v c)
  from "1.prems" obtain b c1 where g: "CBS_get_u8 c = (Some b, c1)"
    and small: "drop_bit (64 - 7) v = 0" and nz: "\<not> (v = 0 \<and> b = 0x80)"
    by (auto simp: base128_loop.simps [of v c] split: prod.splits option.splits if_splits)
  let ?v = "push_bit 7 v OR ucast (b AND 0x7f)"
  have len: "unat (cbs_len c) = Suc (unat (cbs_len c1))" by (rule get_u8_len [OF g])
  have "unat v < 2 ^ 57" using small by (simp add: drop_bit_eq_0_u64)
  then have step: "unat v * 128 \<le> unat ?v" using base128_step [of v b] by simp
  show ?case
  proof (cases "b AND 0x80 = 0")
    case True
    with "1.prems" g small nz have "x = ?v" "c' = c1"
      by (auto simp: base128_loop.simps [of v c] Let_def split: if_splits)
    with len step show ?thesis by simp
  next
    case False
    with "1.prems" g small nz have "base128_loop ?v c1 = (Some x, c')"
      by (auto simp: base128_loop.simps [of v c] Let_def split: if_splits)
    with "1.IH" [OF g [symmetric] refl _ _ refl False] small nz
    have IH: "unat (cbs_len c') < unat (cbs_len c1)"
      "unat ?v * 128 ^ (unat (cbs_len c1) - unat (cbs_len c')) \<le> unat x"
      by auto
    have "unat v * 128 ^ (unat (cbs_len c) - unat (cbs_len c')) =
        unat v * 128 * 128 ^ (unat (cbs_len c1) - unat (cbs_len c'))"
      using len IH(1) by (simp add: Suc_diff_le)
    also have "\<dots> \<le> unat ?v * 128 ^ (unat (cbs_len c1) - unat (cbs_len c'))"
      by (rule mult_le_mono1 [OF step])
    finally show ?thesis using IH len by simp
  qed
qed

text \<open>An identifier has at most twelve bytes, so the length of a header never wraps.\<close>

lemma base128_short:
  assumes "parse_base128_integer c = (Some x, c')"
  shows "unat (cbs_len c') < unat (cbs_len c) \<and> unat (cbs_len c) \<le> unat (cbs_len c') + 11"
proof -
  have loop: "base128_loop 0 c = (Some x, c')" using assms by (simp add: parse_base128_integer_def)
  then obtain b c1 where g: "CBS_get_u8 c = (Some b, c1)" and nz: "b \<noteq> 0x80"
    by (auto simp: base128_loop.simps [of 0 c] split: prod.splits option.splits if_splits)
  have len: "unat (cbs_len c) = Suc (unat (cbs_len c1))" by (rule get_u8_len [OF g])
  show ?thesis
  proof (cases "b AND 0x80 = 0")
    case True
    with loop g nz have "c' = c1"
      by (auto simp: base128_loop.simps [of 0 c] Let_def split: if_splits)
    with len show ?thesis by simp
  next
    case False
    let ?v = "push_bit 7 0 OR ucast (b AND 0x7f) :: u64"
    from loop g nz False have l2: "base128_loop ?v c1 = (Some x, c')"
      by (auto simp: base128_loop.simps [of 0 c] Let_def split: if_splits)
    have "128 \<le> unat b" using False by (auto simp: and_80)
    moreover have "unat b \<noteq> 128" using nz by (auto simp: word_unat_eq_iff)
    ultimately have "1 \<le> unat b mod 128" by (simp add: mod_128)
    then have "1 \<le> unat ?v" using base128_step [of 0 b] by simp
    then have "1 * 128 ^ (unat (cbs_len c1) - unat (cbs_len c')) \<le> unat ?v * 128 ^ (unat (cbs_len c1) - unat (cbs_len c'))"
      by (rule mult_le_mono1)
    with base128_consumed [OF l2]
    have "unat (cbs_len c') < unat (cbs_len c1)" "128 ^ (unat (cbs_len c1) - unat (cbs_len c')) \<le> unat x"
      by linarith+
    moreover have "unat x < 128 ^ 10" by (rule less_trans [OF unat_less_64]) simp
    ultimately have "(128 :: nat) ^ (unat (cbs_len c1) - unat (cbs_len c')) < 128 ^ 10" by linarith
    then have "unat (cbs_len c1) - unat (cbs_len c') < 10" by (rule power_less_imp_less_exp [rotated]) simp
    with len \<open>unat (cbs_len c') < unat (cbs_len c1)\<close> show ?thesis by simp
  qed
qed

lemma header_short:
  assumes "and_then parse_asn1_tag (\<lambda>tag. and_then CBS_get_u8 (\<lambda>b. cbs_return (tag, b))) c = (Some r, header)"
  shows "unat (cbs_len header) < unat (cbs_len c) \<and> unat (cbs_len c) \<le> unat (cbs_len header) + 13"
proof -
  from assms obtain tag c1 b where t: "parse_asn1_tag c = (Some tag, c1)" and l: "CBS_get_u8 c1 = (Some b, header)"
    by (auto simp: and_then_def cbs_return_def split: prod.splits option.splits)
  from t obtain a c0 where a: "CBS_get_u8 c = (Some a, c0)"
    by (auto simp: parse_asn1_tag_def and_then_def split: prod.splits option.splits)
  have "unat (cbs_len c1) \<le> unat (cbs_len c0) \<and> unat (cbs_len c0) \<le> unat (cbs_len c1) + 11"
  proof (cases "ucast (a AND 0x1f) = (0x1f :: u32)")
    case True
    with t a obtain x where "parse_base128_integer c0 = (Some x, c1)"
      by (auto simp: parse_asn1_tag_def and_then_def Let_def cbs_return_def cbs_fail_def
        split: prod.splits option.splits if_splits)
    from base128_short [OF this] show ?thesis by simp
  next
    case False
    with t a have "c1 = c0"
      by (auto simp: parse_asn1_tag_def and_then_def Let_def cbs_return_def)
    then show ?thesis by simp
  qed
  with get_u8_len [OF a] get_u8_len [OF l] show ?thesis by simp
qed

lemma get_bytes_len:
  "CBS_get_bytes n c = (Some out, c') \<Longrightarrow> cbs_len out = n \<and> n \<le> cbs_len c \<and> cbs_len c' = cbs_len c - n"
  by (auto simp: CBS_get_bytes_def and_then_def cbs_return_def cbs_get_def CBS_init_def split: if_splits)

lemma element_shorter:
  assumes "cbs_get_any_asn1_element ber_ok c = (Some (elt, tag, hl), c')"
  shows "0 < unat hl \<and> unat hl \<le> unat (cbs_len elt) \<and>
    unat (cbs_len c) = unat (cbs_len elt) + unat (cbs_len c')"
proof -
  from assms obtain t lb header where h:
    "and_then parse_asn1_tag (\<lambda>tag. and_then CBS_get_u8 (\<lambda>b. cbs_return (tag, b))) c = (Some (t, lb), header)"
    by (auto simp: cbs_get_any_asn1_element_def split: prod.splits option.splits)
  note hs = header_short [OF h]
  let ?hl = "Cbs.CBS_len c - Cbs.CBS_len header"
  have hl: "unat ?hl = unat (cbs_len c) - unat (cbs_len header)"
    using hs by (simp add: Cbs.CBS_len_def unat_sub_if_size)
  then have hl2: "0 < unat ?hl" "unat ?hl \<le> 13" using hs by auto
  have fin: "0 < unat hl \<and> unat hl \<le> unat (cbs_len elt) \<and> unat (cbs_len c) = unat (cbs_len elt) + unat (cbs_len c')"
    if g: "CBS_get_bytes n c = (Some elt, c')" and n: "0 < unat hl" "unat hl \<le> unat n" for n
    using get_bytes_len [OF g] n by (auto simp: word_le_nat_alt unat_sub_if_size)
  have num: "unat (ucast (lb AND 0x7f) :: size_t) \<le> 127"
    using mod_less_divisor [of 128 "unat lb"] by (simp add: unat_and_7f)
  note res = assms [unfolded cbs_get_any_asn1_element_def h prod.case option.case Let_def]
  have long: "0 < unat hl \<and> unat hl \<le> unat (cbs_len elt) \<and> unat (cbs_len c) = unat (cbs_len elt) + unat (cbs_len c')"
    if g: "CBS_get_bytes (len + (?hl + ucast (lb AND 0x7f))) c = (Some elt, c')"
      and e: "hl = ?hl + ucast (lb AND 0x7f)" and w: "\<not> len + ?hl + ucast (lb AND 0x7f) < len" for len
  proof -
    have u: "unat hl = unat ?hl + unat (ucast (lb AND 0x7f) :: size_t)"
      using hl2 num by (simp add: e unat_word_ariths)
    have "unat hl \<le> unat (len + hl)"
    proof (rule ccontr)
      assume no: "\<not> unat hl \<le> unat (len + hl)"
      then have wrap: "\<not> unat len + unat hl < 2 ^ 64"
        by (auto simp: unat_word_ariths)
      then have "unat (len + hl) = unat len + unat hl - 2 ^ 64"
        using unat_less_64 [of len] unat_less_64 [of hl] by (simp add: unat_word_ariths mod_if)
      then have "len + hl < len" using unat_less_64 [of hl] wrap
        by (simp add: word_less_nat_alt)
      with w show False by (simp add: e add.assoc)
    qed
    with u hl2 show ?thesis by (intro fin [OF g]) (simp_all add: e)
  qed
  show ?thesis
  proof (cases "lb AND 0x80 = 0")
    case True
    with res have g: "CBS_get_bytes (ucast lb + ?hl) c = (Some elt, c')" and e: "hl = ?hl"
      by (auto simp: and_then_def cbs_return_def split: prod.splits option.splits)
    have "unat (ucast lb + ?hl) = unat lb + unat ?hl"
      using hl2 unat_less_256 [of lb] by (simp add: unat_word_ariths del: unat_less_256)
    with e hl2 show ?thesis by (intro fin [OF g]) simp_all
  next
    case False
    show ?thesis
    proof (cases "(ber_ok \<and> t AND CBS_ASN1_CONSTRUCTED \<noteq> 0 \<and> ucast (lb AND 0x7f) = (0 :: size_t))")
      case True
      from res [unfolded if_not_P [OF False] if_P [OF True] and_then_def cbs_return_def]
      have g: "CBS_get_bytes ?hl c = (Some elt, c')" and e: "hl = ?hl"
        by (auto split: prod.splits option.splits)
      with hl2 show ?thesis by (intro fin [OF g]) simp_all
    next
      case no_indef: False
      show ?thesis
      proof (cases "ucast (lb AND 0x7f) = (0 :: size_t) \<or> 4 < (ucast (lb AND 0x7f) :: size_t)")
        case True
        from res [unfolded if_not_P [OF False] if_not_P [OF no_indef] if_P [OF True]] show ?thesis by simp
      next
        case some_bytes: False
        note r = res [unfolded if_not_P [OF False] if_not_P [OF no_indef] if_not_P [OF some_bytes]]
        then obtain len h' where l: "cbs_get_u (ucast (lb AND 0x7f)) header = (Some len, h')"
          by (cases "cbs_get_u (ucast (lb AND 0x7f)) header"; cases "fst (cbs_get_u (ucast (lb AND 0x7f)) header)")
            auto
        from r [unfolded l prod.case option.case] have w: "\<not> len + ?hl + ucast (lb AND 0x7f) < len"
          and "and_then (CBS_get_bytes (len + (?hl + ucast (lb AND 0x7f))))
            (\<lambda>out. cbs_return (out, t, ?hl + ucast (lb AND 0x7f))) c = (Some (elt, tag, hl), c')"
          by (auto split: if_splits)
        then show ?thesis
          by (intro long [OF _ _ w]) (auto simp: and_then_def cbs_return_def split: prod.splits option.splits)
      qed
    qed
  qed
qed

section \<open>The code\<close>

definition kMaxDepth :: nat where
  "kMaxDepth = 2048"

definition is_string_type :: "u32 \<Rightarrow> bool" where
  "is_string_type tag =
     (let t = tag AND NOT CBS_ASN1_CONSTRUCTED in
      t = 0x3 \<or> t = CBS_ASN1_OCTETSTRING \<or> t = 0xc \<or> t = 0x12 \<or> t = 0x13 \<or> t = 0x14 \<or> t = 0x15 \<or>
      t = 0x16 \<or> t = 0x19 \<or> t = 0x1a \<or> t = 0x1b \<or> t = 0x1c \<or> t = 0x1e)"

text \<open>The test \<open>CBS_len(&contents) == header_len && header_len > 0 && \<dots>[header_len-1] == 0x80\<close>.\<close>

definition is_indefinite :: "cbs \<Rightarrow> size_t \<Rightarrow> bool" where
  "is_indefinite elt header_len \<longleftrightarrow>
     Cbs.CBS_len elt = header_len \<and> 0 < header_len \<and>
     Cbs.CBS_data elt ! unat (header_len - 1) = 0x80"

text \<open>
  \<open>cbs_find_ber\<close>: the loop, with the flag \<open>*ber_found\<close> as it stands; a nested call clears it. The result
  is the flag, or \<open>None\<close> when the function returns zero.
\<close>

lemma skip_len: "CBS_skip n c = (Some u, c') \<Longrightarrow> n \<le> cbs_len c \<and> cbs_len c' = cbs_len c - n"
  by (auto simp: CBS_skip_def and_then_def cbs_return_def cbs_get_def split: if_splits)

lemma body_shorter:
  assumes "CBS_get_any_ber_asn1_element c = (Some (elt, tag, hl), c')" and "CBS_skip hl elt = (Some u, body)"
  shows "unat (cbs_len body) < unat (cbs_len c)"
  using element_shorter [OF assms(1) [unfolded CBS_get_any_ber_asn1_element_def]] skip_len [OF assms(2)]
  by (auto simp: unat_sub_if_size word_le_nat_alt)

lemma ber_element_shorter:
  "CBS_get_any_ber_asn1_element c = (Some (elt, tag, hl), c') \<Longrightarrow> unat (cbs_len c') < unat (cbs_len c)"
  using element_shorter [of True c elt tag hl c'] by (simp add: CBS_get_any_ber_asn1_element_def)

function find_ber_loop :: "nat \<Rightarrow> bool \<Rightarrow> cbs \<Rightarrow> bool option" where
  "find_ber_loop depth found c =
     (if Cbs.CBS_len c = 0 then Some found
      else
        (case CBS_get_any_ber_asn1_element c of
           (None, _) \<Rightarrow> None
         | (Some (elt, tag, header_len), c') \<Rightarrow>
             if is_indefinite elt header_len then Some True
             else if tag AND CBS_ASN1_CONSTRUCTED \<noteq> 0 then
               if is_string_type tag then Some True
               else
                 (case CBS_skip header_len elt of
                    (None, _) \<Rightarrow> None
                  | (Some _, body) \<Rightarrow>
                      (case (if kMaxDepth < depth + 1 then None else find_ber_loop (depth + 1) False body) of
                         None \<Rightarrow> None
                       | Some found' \<Rightarrow> find_ber_loop depth found' c'))
             else find_ber_loop depth found c'))"
  by pat_completeness auto
termination
  by (relation "measure (\<lambda>(depth, found, c). unat (cbs_len c))")
    (auto dest: sym ber_element_shorter body_shorter)

declare find_ber_loop.simps [simp del]

definition cbs_find_ber :: "cbs \<Rightarrow> nat \<Rightarrow> bool option" where
  "cbs_find_ber orig_in depth =
     (if kMaxDepth < depth then None
      else find_ber_loop depth False (CBS_init (Cbs.CBS_data orig_in) (Cbs.CBS_len orig_in)))"

definition is_eoc :: "size_t \<Rightarrow> cbs \<Rightarrow> bool" where
  "is_eoc header_len elt \<longleftrightarrow>
     header_len = 2 \<and> Cbs.CBS_len elt = 2 \<and> take 2 (Cbs.CBS_data elt) = [0, 0]"


text \<open>
  Where the contents of the next element go: the \<open>CBB\<close> to write to and the string tag for its children.
\<close>

definition ber_open :: "allocator \<Rightarrow> nat \<Rightarrow> u32 \<Rightarrow> u32 \<Rightarrow> cbb \<Rightarrow> (nat \<times> u32) option \<times> cbb" where
  "ber_open malloc k string_tag tag out =
     (if string_tag \<noteq> 0 then
        (if tag AND NOT CBS_ASN1_CONSTRUCTED \<noteq> string_tag then (None, out) else (Some (k, string_tag), out))
      else
        let (out_tag, child_string_tag) =
              (if tag AND CBS_ASN1_CONSTRUCTED \<noteq> 0 \<and> is_string_type tag
               then (tag AND NOT CBS_ASN1_CONSTRUCTED, tag AND NOT CBS_ASN1_CONSTRUCTED)
               else (tag, string_tag))
        in case CBB_add_asn1 malloc k out_tag out of
             (False, out') \<Rightarrow> (None, out')
           | (True, out') \<Rightarrow> (Some (Suc k, child_string_tag), out'))"

text \<open>
  A result is whether the call succeeded, and what is left of \<open>*in\<close> and \<open>*out\<close>. After a failed call the
  function returns zero, else it goes on with these.
\<close>

type_synonym ber_result = "bool \<times> cbs \<times> cbb"

definition ber_seq :: "ber_result \<Rightarrow> (cbs \<Rightarrow> cbb \<Rightarrow> ber_result) \<Rightarrow> ber_result" where
  "ber_seq r f = (case r of (ok, c, out) \<Rightarrow> if ok then f c out else (False, c, out))"

lemma ber_seq_cong [fundef_cong]:
  "r = r' \<Longrightarrow> (\<And>c out. r' = (True, c, out) \<Longrightarrow> f c out = g c out) \<Longrightarrow> ber_seq r f = ber_seq r' g"
  by (auto simp: ber_seq_def split: prod.split)

text \<open>
  \<open>cbs_convert_ber\<close>: the loop; its test of the depth, made once per call in the code, is repeated at
  every turn.
\<close>

function (domintros) cbs_convert_ber ::
    "allocator \<Rightarrow> nat \<Rightarrow> u32 \<Rightarrow> bool \<Rightarrow> nat \<Rightarrow> cbs \<Rightarrow> cbb \<Rightarrow> ber_result" where
  "cbs_convert_ber malloc depth string_tag looking_for_eoc k c out =
     (if kMaxDepth < depth then (False, c, out)
      else if Cbs.CBS_len c = 0 then (\<not> looking_for_eoc, c, out)
      else
        (case CBS_get_any_ber_asn1_element c of
           (None, c1) \<Rightarrow> (False, c1, out)
         | (Some (elt, tag, header_len), c1) \<Rightarrow>
             if is_eoc header_len elt then (looking_for_eoc, c1, out)
             else
               (case ber_open malloc k string_tag tag out of
                  (None, out1) \<Rightarrow> (False, c1, out1)
                | (Some (k', child_string_tag), out1) \<Rightarrow>
                    ber_seq
                      (if is_indefinite elt header_len then
                         cbs_convert_ber malloc (depth + 1) child_string_tag True k' c1 out1
                       else
                         (case CBS_skip header_len elt of
                            (None, _) \<Rightarrow> (False, c1, out1)
                          | (Some _, body) \<Rightarrow>
                              if tag AND CBS_ASN1_CONSTRUCTED \<noteq> 0 then
                                (case cbs_convert_ber malloc (depth + 1) child_string_tag False k' body out1 of
                                   (ok, _, out2) \<Rightarrow> (ok, c1, out2))
                              else
                                (case CBB_add_bytes malloc k' (Cbs.CBS_data body) (Cbs.CBS_len body) out1 of
                                   (ok, out2) \<Rightarrow> (ok, c1, out2))))
                      (\<lambda>c2 out2.
                         case CBB_flush malloc k out2 of
                           (False, out3) \<Rightarrow> (False, c2, out3)
                         | (True, out3) \<Rightarrow> cbs_convert_ber malloc depth string_tag looking_for_eoc k c2 out3))))"
  by pat_completeness auto

text \<open>The input only shrinks, which makes the recursion terminate.\<close>

definition rest_len :: "ber_result \<Rightarrow> nat" where
  "rest_len r = unat (cbs_len (fst (snd r)))"

lemma rest_len_seq:
  "rest_len r \<le> n \<Longrightarrow> (\<And>c out. r = (True, c, out) \<Longrightarrow> rest_len (f c out) \<le> unat (cbs_len c)) \<Longrightarrow>
     rest_len (ber_seq r f) \<le> n"
  by (cases r) (fastforce simp: ber_seq_def rest_len_def)

lemma get_bytes_fails: "CBS_get_bytes n c = (None, c') \<Longrightarrow> c' = c"
  by (auto simp: CBS_get_bytes_def and_then_def cbs_return_def cbs_get_def split: if_splits)

lemma ber_element_fails: "CBS_get_any_ber_asn1_element c = (None, c') \<Longrightarrow> c' = c"
  unfolding CBS_get_any_ber_asn1_element_def cbs_get_any_asn1_element_def Let_def
  by (auto simp: and_then_def cbs_return_def split: prod.splits option.splits if_splits dest: get_bytes_fails)

lemma convert_len:
  assumes "cbs_convert_ber_dom (malloc, depth, st, eoc, k, c, out)"
  shows "rest_len (cbs_convert_ber malloc depth st eoc k c out) \<le> unat (cbs_len c)"
  using assms
proof (induction malloc depth st eoc k c out rule: cbs_convert_ber.pinduct)
  case (1 malloc depth st eoc k c out)
  note IH = "1.IH"
  show ?case
  proof (cases "kMaxDepth < depth \<or> Cbs.CBS_len c = 0")
    case True
    with "1.hyps" show ?thesis by (auto simp: cbs_convert_ber.psimps rest_len_def)
  next
    case go: False
    obtain r c1 where g: "CBS_get_any_ber_asn1_element c = (r, c1)" by fastforce
    show ?thesis
    proof (cases r)
      case None
      with g go "1.hyps" ber_element_fails [of c c1] show ?thesis by (simp add: cbs_convert_ber.psimps rest_len_def)
    next
      case (Some e)
      obtain elt tag hl where e: "e = (elt, tag, hl)" by (cases e)
      with g Some have short: "unat (cbs_len c1) < unat (cbs_len c)" by (auto dest: ber_element_shorter)
      obtain oo out1 where o: "ber_open malloc k st tag out = (oo, out1)" by fastforce
      show ?thesis
      proof (cases "is_eoc hl elt \<or> oo = None")
        case True
        with go g Some e short o "1.hyps" show ?thesis by (auto simp: cbs_convert_ber.psimps rest_len_def)
      next
        case False': False
        then obtain k' cst where oo: "oo = Some (k', cst)" by auto
        have Some': "r = Some (elt, tag, hl)" using Some e by simp
        have p: "\<not> kMaxDepth < depth" "Cbs.CBS_len c \<noteq> 0" "\<not> is_eoc hl elt" using go False' by auto
        note pre = p(1,2) g [symmetric] Some' refl refl p(3) o [symmetric] oo refl
        let ?X = "if is_indefinite elt hl then cbs_convert_ber malloc (depth + 1) cst True k' c1 out1
          else (case CBS_skip hl elt of
                  (None, _) \<Rightarrow> (False, c1, out1)
                | (Some _, body) \<Rightarrow>
                    if tag AND CBS_ASN1_CONSTRUCTED \<noteq> 0 then
                      (case cbs_convert_ber malloc (depth + 1) cst False k' body out1 of
                         (ok, _, out2) \<Rightarrow> (ok, c1, out2))
                    else
                      (case CBB_add_bytes malloc k' (Cbs.CBS_data body) (Cbs.CBS_len body) out1 of
                         (ok, out2) \<Rightarrow> (ok, c1, out2)))"
        let ?Y = "\<lambda>c2 out2. case CBB_flush malloc k out2 of
            (False, out3) \<Rightarrow> (False, c2, out3)
          | (True, out3) \<Rightarrow> cbs_convert_ber malloc depth st eoc k c2 out3"
        have eq: "cbs_convert_ber malloc depth st eoc k c out = ber_seq ?X ?Y"
          using go g Some e o oo False' by (simp add: cbs_convert_ber.psimps [OF "1.hyps"])
        have "rest_len ?X \<le> unat (cbs_len c)"
        proof (cases "is_indefinite elt hl")
          case True
          with short IH(1) [OF pre True]
          show ?thesis by simp
        next
          case False
          with short show ?thesis by (auto simp: rest_len_def split: prod.split option.split)
        qed
        then have "rest_len (ber_seq ?X ?Y) \<le> unat (cbs_len c)"
        proof (rule rest_len_seq)
          fix c2 out2
          assume X: "?X = (True, c2, out2)"
          show "rest_len (?Y c2 out2) \<le> unat (cbs_len c2)"
          proof (cases "CBB_flush malloc k out2")
            case (Pair ok out3)
            show ?thesis
            proof (cases ok)
              case True
              with Pair IH(3) [OF pre X Pair [symmetric]]
              show ?thesis by simp
            next
              case False
              with Pair show ?thesis by (simp add: rest_len_def)
            qed
          qed
        qed
        with eq show ?thesis by simp
      qed
    qed
  qed
qed

termination cbs_convert_ber
proof (relation "measure (\<lambda>(malloc, depth, st, eoc, k, c, out). unat (cbs_len c))", goal_cases)
  case 1
  show ?case by simp
next
  case 2
  then show ?case by (auto dest: sym ber_element_shorter)
next
  case 3
  then show ?case by (auto dest: sym ber_element_shorter body_shorter)
next
  case (4 malloc depth string_tag looking_for_eoc k c out x y x2 xa ya xb yb xc yaa x2a xd yab ca outa xe yc)
  from 4(3-6) have short: "unat (cbs_len y) < unat (cbs_len c)" by (auto dest: sym ber_element_shorter)
  show ?case
  proof (cases "is_indefinite xa yb")
    case True
    with 4(11) have "ca = fst (snd (cbs_convert_ber malloc (depth + 1) yab True xd y yaa))" by simp
    with convert_len [OF 4(15) [OF True]] short show ?thesis by (simp add: rest_len_def)
  next
    case False
    with 4(11) have "ca = y" by (auto split: prod.splits option.splits if_splits)
    with short show ?thesis by simp
  qed
qed

declare cbs_convert_ber.simps [simp del]

text \<open>
  \<open>CBS_asn1_ber_to_der\<close>: the element, as \<open>*out\<close>, and the allocated \<open>*out_storage\<close>.
\<close>

definition CBS_asn1_ber_to_der :: "allocator \<Rightarrow> (cbs \<times> heap_block option) cbs_op" where
  "CBS_asn1_ber_to_der malloc c =
     (case cbs_find_ber c 0 of
        None \<Rightarrow> (None, c)
      | Some conversion_needed \<Rightarrow>
          if \<not> conversion_needed then
            (case CBS_get_any_asn1_element c of
               (None, c') \<Rightarrow> (None, c')
             | (Some (elt, _, _), c') \<Rightarrow> (Some (elt, None), c'))
          else
            (case CBB_init malloc (Cbs.CBS_len c) of
               (False, _) \<Rightarrow> (None, c)
             | (True, cbb) \<Rightarrow>
                 (case cbs_convert_ber malloc 0 0 False 0 c cbb of
                    (False, c', _) \<Rightarrow> (None, c')
                  | (True, c', cbb') \<Rightarrow>
                      (case CBB_finish malloc 0 True True cbb' of
                         (None, _) \<Rightarrow> (None, c')
                       | (Some (out_storage, n), _) \<Rightarrow>
                           (Some (result_cbs (out_storage, n), out_storage), c')))))"

lemma get_asn1_shorter:
  "CBS_get_asn1 tag c = (Some b, c') \<Longrightarrow> unat (cbs_len c') < unat (cbs_len c)"
  using element_shorter [of False c]
  by (auto simp: CBS_get_asn1_def cbs_get_asn1_def CBS_get_any_asn1_element_def and_then_def
    cbs_return_def cbs_fail_def split: prod.splits option.splits if_splits)

text \<open>The loop that appends the chunks of a constructed string.\<close>

function add_chunks :: "allocator \<Rightarrow> u32 \<Rightarrow> cbs \<Rightarrow> cbb \<Rightarrow> bool \<times> cbb" where
  "add_chunks malloc inner_tag child result =
     (if Cbs.CBS_len child = 0 then (True, result)
      else
        (case CBS_get_asn1 inner_tag child of
           (None, _) \<Rightarrow> (False, result)
         | (Some chunk, child') \<Rightarrow>
             cbb_seq (CBB_add_bytes malloc 0 (Cbs.CBS_data chunk) (Cbs.CBS_len chunk))
               (add_chunks malloc inner_tag child') result))"
  by pat_completeness auto
termination
  by (relation "measure (\<lambda>(malloc, inner_tag, child, result). unat (cbs_len child))")
    (auto dest: sym get_asn1_shorter)

declare add_chunks.simps [simp del]

definition CBS_get_asn1_implicit_string :: "allocator \<Rightarrow> u32 \<Rightarrow> u32 \<Rightarrow> (cbs \<times> heap_block option) cbs_op" where
  "CBS_get_asn1_implicit_string malloc outer_tag inner_tag c =
     (if CBS_peek_asn1_tag c outer_tag then
        (case CBS_get_asn1 outer_tag c of
           (None, c') \<Rightarrow> (None, c')
         | (Some out, c') \<Rightarrow> (Some (out, None), c'))
      else
        (case CBB_init malloc (Cbs.CBS_len c) of
           (False, _) \<Rightarrow> (None, c)
         | (True, result) \<Rightarrow>
             (case CBS_get_asn1 (outer_tag OR CBS_ASN1_CONSTRUCTED) c of
                (None, c') \<Rightarrow> (None, c')
              | (Some child, c') \<Rightarrow>
                  (case add_chunks malloc inner_tag child result of
                     (False, _) \<Rightarrow> (None, c')
                   | (True, result') \<Rightarrow>
                       (case CBB_finish malloc 0 True True result' of
                          (None, _) \<Rightarrow> (None, c')
                        | (Some (data, n), _) \<Rightarrow> (Some (result_cbs (data, n), data), c'))))))"


section \<open>Constructed strings\<close>

definition chunks_of :: "u32 \<Rightarrow> bytes \<Rightarrow> bytes list \<Rightarrow> bool" where
  "chunks_of tag bs chunks \<longleftrightarrow> bs = concat (map (asn1_enc tag) chunks) \<and> list_all (\<lambda>b. length b < 2 ^ 32) chunks"

lemma add_chunks_sound:
  "valid child \<Longrightarrow> fst (add_chunks malloc tag child c) \<Longrightarrow> \<exists>chunks. chunks_of tag (cbs_bytes child) chunks"
proof (induction malloc tag child c rule: add_chunks.induct)
  case (1 malloc tag child c)
  show ?case
  proof (cases "Cbs.CBS_len child = 0")
    case True
    with "1.prems"(1) have "chunks_of tag (cbs_bytes child) []"
      by (simp add: CBS_len_0 chunks_of_def)
    then show ?thesis ..
  next
    case False
    obtain r child' where g: "CBS_get_asn1 tag child = (r, child')" by fastforce
    with "1.prems"(2) False obtain chunk where r: "r = Some chunk"
      by (cases r) (auto simp: add_chunks.simps [of malloc tag child c])
    obtain ok c1 where a: "CBB_add_bytes malloc 0 (Cbs.CBS_data chunk) (Cbs.CBS_len chunk) c = (ok, c1)"
      by fastforce
    with "1.prems"(2) False g r have ok: ok and rest: "fst (add_chunks malloc tag child' c1)"
      by (auto simp: add_chunks.simps [of malloc tag child c] cbb_seq_def split: bool.splits)
    from get_asn1.get_sound [OF "1.prems"(1) g [unfolded r]] obtain b where
      b: "length b < 2 ^ 32" "cbs_bytes child = asn1_enc tag b @ cbs_bytes child'"
      by auto
    from get_asn1.get_complete [OF "1.prems"(1) b] g r have v: "valid child'" by auto
    from "1.IH" [OF False g [symmetric] r v rest] obtain chunks where
      "chunks_of tag (cbs_bytes child') chunks" ..
    with b have "chunks_of tag (cbs_bytes child) (b # chunks)" by (simp add: chunks_of_def)
    then show ?thesis ..
  qed
qed

lemma add_chunks_continues:
  assumes "malloc_sane malloc" and "valid child" and "chunks_of tag (cbs_bytes child) chunks"
  shows "continues (add_chunks malloc tag child) 0 (concat chunks) (length (concat chunks))"
  using assms(2,3)
proof (induction chunks arbitrary: child)
  case Nil
  then have "add_chunks malloc tag child = (\<lambda>c. (True, c))"
    by (auto simp: fun_eq_iff add_chunks.simps chunks_of_def CBS_len_0)
  then show ?case by (simp add: continues_nothing)
next
  case (Cons b chunks)
  then have b: "length b < 2 ^ 32" "cbs_bytes child = asn1_enc tag b @ concat (map (asn1_enc tag) chunks)"
    by (simp_all add: chunks_of_def)
  from get_asn1.get_complete [OF Cons.prems(1) b] obtain x child' where
    g: "CBS_get_asn1 tag child = (Some x, child')" "out_cbs child x b" "valid child'"
    "cbs_bytes child' = concat (map (asn1_enc tag) chunks)"
    by auto
  have "Cbs.CBS_len child \<noteq> 0"
    using get_asn1_shorter [OF g(1)] by (auto simp: Cbs.CBS_len_def)
  with g(1) have eq: "add_chunks malloc tag child =
      cbb_seq (CBB_add_bytes malloc 0 (Cbs.CBS_data x) (Cbs.CBS_len x)) (add_chunks malloc tag child')"
    by (simp add: fun_eq_iff add_chunks.simps [of malloc tag child])
  have x: "valid x" "cbs_bytes x = b"
    using g(2) Cons.prems(1) by (auto simp: out_cbs_def intro: window_valid)
  have len: "unat (Cbs.CBS_len x) = length b"
    using length_cbs_bytes [OF x(1)] by (simp add: x(2) Cbs.CBS_len_def)
  then have "continues (CBB_add_bytes malloc 0 (Cbs.CBS_data x) (Cbs.CBS_len x)) 0 b (length b)"
    using add_bytes_writes [OF assms(1), of "Cbs.CBS_len x" "Cbs.CBS_data x" 0] x b(1)
    by (intro writes_continues) (auto simp: valid_def cbs_bytes_def Cbs.CBS_len_def Cbs.CBS_data_def)
  from continues_seq [OF this Cons.IH [OF g(3)]] g(4) Cons.prems(2) eq
  show ?case by (simp add: chunks_of_def)
qed


text \<open>The function builds the chunks into a buffer as large as its input, which always is enough.\<close>

lemma implicit_string_build:
  "CBS_get_asn1_implicit_string malloc outer inner c =
     (if CBS_peek_asn1_tag c outer then
        (case CBS_get_asn1 outer c of (None, c') \<Rightarrow> (None, c') | (Some out, c') \<Rightarrow> (Some (out, None), c'))
      else if fst (CBB_init malloc (Cbs.CBS_len c)) then
        (case CBS_get_asn1 (outer OR CBS_ASN1_CONSTRUCTED) c of
           (None, c') \<Rightarrow> (None, c')
         | (Some child, c') \<Rightarrow>
             (map_option (\<lambda>r. (result_cbs r, fst r))
                (cbb_build malloc (Cbs.CBS_len c) (add_chunks malloc inner child)), c'))
      else (None, c))"
  by (auto simp: CBS_get_asn1_implicit_string_def cbb_build_def split: prod.split option.split bool.split)

lemma chunks_length:
  "chunks_of tag bs chunks \<Longrightarrow> length (concat chunks) \<le> length bs"
proof (induction chunks arbitrary: bs)
  case (Cons b chunks)
  then have "chunks_of tag (concat (map (asn1_enc tag) chunks)) chunks" by (simp add: chunks_of_def)
  from Cons.IH [OF this] Cons.prems show ?case by (simp add: chunks_of_def asn1_enc_eq)
qed (simp add: chunks_of_def)

lemma chunk_build:
  assumes sane: "malloc_sane malloc" and v: "valid child" and ch: "chunks_of tag (cbs_bytes child) chunks"
    and init: "fst (CBB_init malloc cap)" and cap: "length (cbs_bytes child) \<le> unat cap" "unat cap < 2 ^ 62"
  shows "\<exists>r. cbb_build malloc cap (add_chunks malloc tag child) = Some r \<and>
    valid (result_cbs r) \<and> cbs_bytes (result_cbs r) = concat chunks"
proof -
  obtain cbb where i: "CBB_init malloc cap = (True, cbb)"
    using init by (cases "CBB_init malloc cap") simp
  note cont = add_chunks_continues [OF sane v ch]
  from build_complete [OF sane cont i _ cap(2)] chunks_length [OF ch] cap(1)
  obtain r where r: "cbb_build malloc cap (add_chunks malloc tag child) = Some r" by auto
  from build_writes [OF sane cap(2) cont r] r show ?thesis
    by (simp add: result_cbs_ok)
qed

text \<open>The constructed form.\<close>

lemma implicit_string_constructed:
  assumes "valid c" and "malloc_sane malloc" and "unat (Cbs.CBS_len c) < 2 ^ 62"
    and "\<not> CBS_peek_asn1_tag c outer" and "fst (CBB_init malloc (Cbs.CBS_len c))"
  shows "(\<exists>out st c'. CBS_get_asn1_implicit_string malloc outer inner c = (Some (out, st), c') \<and>
      cbs_bytes out = b \<and> cbs_bytes c' = rest) \<longleftrightarrow>
    (\<exists>chunks. list_all (\<lambda>b. length b < 2 ^ 32) chunks \<and> concat chunks = b \<and>
      length (concat (map (asn1_enc inner) chunks)) < 2 ^ 32 \<and>
      cbs_bytes c = asn1_enc (outer OR CBS_ASN1_CONSTRUCTED) (concat (map (asn1_enc inner) chunks)) @ rest)"
  (is "?l = ?r")
proof
  assume ?l
  then obtain child c' r where g: "CBS_get_asn1 (outer OR CBS_ASN1_CONSTRUCTED) c = (Some child, c')"
    and r: "cbb_build malloc (Cbs.CBS_len c) (add_chunks malloc inner child) = Some r"
    and res: "cbs_bytes (result_cbs r) = b" "cbs_bytes c' = rest"
    using assms(4,5) by (auto simp: implicit_string_build split: prod.splits option.splits)
  from get_asn1.get_sound [OF assms(1) g] obtain y where
    y: "length y < 2 ^ 32" "out_cbs c child y" "cbs_bytes c = asn1_enc (outer OR CBS_ASN1_CONSTRUCTED) y @ rest"
    using res(2) by auto
  then have child: "valid child" "cbs_bytes child = y"
    using assms(1) by (auto simp: out_cbs_def intro: window_valid)
  from r obtain c1 c2 where "add_chunks malloc inner child c1 = (True, c2)"
    by (auto simp: cbb_build_def split: prod.splits bool.splits)
  with add_chunks_sound [OF child(1), of malloc inner c1] obtain chunks where
    ch: "chunks_of inner (cbs_bytes child) chunks" by auto
  have "length (cbs_bytes child) \<le> unat (Cbs.CBS_len c)"
    using length_cbs_bytes [OF assms(1)] by (simp add: child(2) y(3) asn1_enc_eq Cbs.CBS_len_def)
  from chunk_build [OF assms(2) child(1) ch assms(5) this assms(3)] r res(1) have "concat chunks = b" by auto
  with ch y child(2) show ?r by (auto simp: chunks_of_def)
next
  assume ?r
  then obtain chunks where ch: "list_all (\<lambda>b. length b < 2 ^ 32) chunks" "concat chunks = b"
    "length (concat (map (asn1_enc inner) chunks)) < 2 ^ 32"
    "cbs_bytes c = asn1_enc (outer OR CBS_ASN1_CONSTRUCTED) (concat (map (asn1_enc inner) chunks)) @ rest"
    by auto
  from get_asn1.get_complete [OF assms(1) ch(3,4)] obtain child c' where
    g: "CBS_get_asn1 (outer OR CBS_ASN1_CONSTRUCTED) c = (Some child, c')" "cbs_bytes c' = rest"
    "out_cbs c child (concat (map (asn1_enc inner) chunks))" by auto
  then have child: "valid child" "chunks_of inner (cbs_bytes child) chunks"
    using assms(1) ch(1) by (auto simp: out_cbs_def chunks_of_def intro: window_valid)
  have "length (cbs_bytes child) \<le> unat (Cbs.CBS_len c)"
    using length_cbs_bytes [OF assms(1)] g(3) by (simp add: ch(4) out_cbs_def asn1_enc_eq Cbs.CBS_len_def)
  from chunk_build [OF assms(2) child assms(5) this assms(3)] g ch(2) assms(4,5) show ?l
    by (auto simp: implicit_string_build)
qed

text \<open>The tag decides between the two forms: the outer tag itself never has the constructed bit.\<close>

lemma peek_enc:
  assumes "valid c" and "cbs_bytes c = asn1_enc t b @ rest"
  shows "CBS_peek_asn1_tag c tag \<longleftrightarrow> t = tag"
  by (simp add: peek_tag [OF assms(1)] assms(2) asn1_enc_eq tag_codec.dec_enc)

lemma constructed_neq:
  assumes "tag AND CBS_ASN1_CONSTRUCTED = 0"
  shows "tag OR CBS_ASN1_CONSTRUCTED \<noteq> tag"
proof
  assume "tag OR CBS_ASN1_CONSTRUCTED = tag"
  then have "tag AND CBS_ASN1_CONSTRUCTED = (tag OR CBS_ASN1_CONSTRUCTED) AND CBS_ASN1_CONSTRUCTED" by simp
  then have "CBS_ASN1_CONSTRUCTED = 0" using assms by (simp add: word_ao_absorbs)
  moreover have "CBS_ASN1_CONSTRUCTED \<noteq> 0" by code_simp
  ultimately show False by simp
qed

lemma implicit_string_primitive:
  assumes "valid c" and "CBS_peek_asn1_tag c outer"
  shows "(\<exists>out c'. CBS_get_asn1_implicit_string malloc outer inner c = (Some (out, st), c') \<and>
      cbs_bytes out = b \<and> cbs_bytes c' = rest) \<longleftrightarrow>
    st = None \<and> length b < 2 ^ 32 \<and> cbs_bytes c = asn1_enc outer b @ rest"
  (is "?l = ?r")
proof
  assume ?l
  then obtain out c' where g: "CBS_get_asn1 outer c = (Some out, c')" "st = None"
    "cbs_bytes out = b" "cbs_bytes c' = rest"
    using assms(2) by (auto simp: CBS_get_asn1_implicit_string_def split: prod.splits option.splits)
  from get_asn1.get_sound [OF assms(1) g(1)] g show ?r by (auto simp: out_cbs_def)
next
  assume r: ?r
  with get_asn1.get_complete [OF assms(1), of b outer rest] obtain out c' where
    "CBS_get_asn1 outer c = (Some out, c')" "out_cbs c out b" "cbs_bytes c' = rest" by auto
  with r assms(2) show ?l by (auto simp: CBS_get_asn1_implicit_string_def out_cbs_def)
qed

text \<open>
  C22: \<open>CBS_get_asn1_implicit_string\<close> reads an implicitly tagged string in either form and nothing else.
  Under the outer tag itself it returns the contents of the element, without its header and without
  storage of its own; under the outer tag with the constructed bit it returns the concatenation of the
  contents of its chunks, each an element of the inner tag. The outer tag has no constructed bit (the
  code asserts it), and the builder the second form needs can be allocated.
\<close>

theorem implicit_string_exact:
  assumes "valid c" and "malloc_sane malloc" and "unat (Cbs.CBS_len c) < 2 ^ 62"
    and "outer AND CBS_ASN1_CONSTRUCTED = 0" and "fst (CBB_init malloc (Cbs.CBS_len c))"
  shows "((\<exists>out st c'. CBS_get_asn1_implicit_string malloc outer inner c = (Some (out, st), c') \<and>
        cbs_bytes out = b \<and> cbs_bytes c' = rest) \<longleftrightarrow>
      length b < 2 ^ 32 \<and> cbs_bytes c = asn1_enc outer b @ rest \<or>
      (\<exists>chunks. list_all (\<lambda>b. length b < 2 ^ 32) chunks \<and> concat chunks = b \<and>
        length (concat (map (asn1_enc inner) chunks)) < 2 ^ 32 \<and>
        cbs_bytes c = asn1_enc (outer OR CBS_ASN1_CONSTRUCTED) (concat (map (asn1_enc inner) chunks)) @ rest)) \<and>
    (length b < 2 ^ 32 \<and> cbs_bytes c = asn1_enc outer b @ rest \<longrightarrow>
      (\<exists>out c'. CBS_get_asn1_implicit_string malloc outer inner c = (Some (out, None), c') \<and>
        cbs_bytes out = b \<and> cbs_bytes c' = rest))"
    (is "(?read \<longleftrightarrow> ?prim \<or> ?cons) \<and> (?prim \<longrightarrow> ?plain)")
proof -
  note prim = implicit_string_primitive [OF assms(1), of outer malloc inner _ b rest]
    and cons = implicit_string_constructed [OF assms(1-3) _ assms(5), of outer inner b rest]
  have p: "CBS_peek_asn1_tag c outer" if ?prim
    using that peek_enc [OF assms(1), of outer b rest] by simp
  then have plain: ?plain if ?prim
    using that prim [of None] by simp
  have "?read \<longleftrightarrow> ?prim \<or> ?cons"
  proof (cases "CBS_peek_asn1_tag c outer")
    case True
    have "\<not> ?cons"
      using True peek_enc [OF assms(1), of "outer OR CBS_ASN1_CONSTRUCTED" _ rest outer]
        constructed_neq [OF assms(4)] by auto
    moreover have ?prim if ?read
      using that prim [OF True] by auto
    ultimately show ?thesis using plain by auto
  next
    case False
    with p cons show ?thesis by auto
  qed
  with plain show ?thesis by simp
qed

theorem implicit_string_exact_witness:
  "(\<exists>out st c'. CBS_get_asn1_implicit_string small_malloc 0x80000000 4
      (CBS_init [0xa0, 6, 4, 1, 7, 4, 1, 9, 5] 9) = (Some (out, st), c') \<and>
    cbs_bytes out = [7, 9] \<and> cbs_bytes c' = [5]) \<and>
   (\<exists>out c'. CBS_get_asn1_implicit_string small_malloc 0x80000000 4
      (CBS_init [0x80, 2, 7, 9, 5] 5) = (Some (out, None), c') \<and>
    cbs_bytes out = [7, 9] \<and> cbs_bytes c' = [5])"
proof
  let ?c = "CBS_init [0xa0, 6, 4, 1, 7, 4, 1, 9, 5] 9"
  have outer: "0x80000000 AND CBS_ASN1_CONSTRUCTED = 0" by code_simp
  have v: "valid ?c" "unat (Cbs.CBS_len ?c) < 2 ^ 62" "fst (CBB_init small_malloc (Cbs.CBS_len ?c))"
    by code_simp+
  have "list_all (\<lambda>b. length b < 2 ^ 32) [[7 :: u8], [9]]" "concat [[7 :: u8], [9]] = [7, 9]"
    "length (concat (map (asn1_enc 4) [[7], [9]])) < 2 ^ 32"
    "cbs_bytes ?c = asn1_enc (0x80000000 OR CBS_ASN1_CONSTRUCTED) (concat (map (asn1_enc 4) [[7], [9]])) @ [5]"
    by code_simp+
  with implicit_string_exact [OF v(1) small_malloc_sane v(2) outer v(3), where inner = 4 and b = "[7, 9]" and rest = "[5]"]
  show "\<exists>out st c'. CBS_get_asn1_implicit_string small_malloc 0x80000000 4 ?c = (Some (out, st), c') \<and>
    cbs_bytes out = [7, 9] \<and> cbs_bytes c' = [5]" by blast
  let ?p = "CBS_init [0x80, 2, 7, 9, 5] 5"
  have p: "valid ?p" "unat (Cbs.CBS_len ?p) < 2 ^ 62" "fst (CBB_init small_malloc (Cbs.CBS_len ?p))"
    "length [7 :: u8, 9] < 2 ^ 32" "cbs_bytes ?p = asn1_enc 0x80000000 [7, 9] @ [5]"
    by code_simp+
  show "\<exists>out c'. CBS_get_asn1_implicit_string small_malloc 0x80000000 4 ?p = (Some (out, None), c') \<and>
    cbs_bytes out = [7, 9] \<and> cbs_bytes c' = [5]"
    using implicit_string_exact [OF p(1) small_malloc_sane p(2) outer p(3), where inner = 4 and b = "[7, 9]" and rest = "[5]"]
      p(4,5) by blast
qed

section \<open>The search\<close>

lemma last_len_enc_0: "last (elem_header (t, Some [])) = 0" "elem_header (t, Some []) \<noteq> []"
  by (simp_all add: elem_header_def len_enc_def)

lemma definite_not_indefinite:
  assumes "valid c" and out: "out_elem c (elt, tag, hl) (tag, Some b)"
  shows "\<not> is_indefinite elt hl"
proof
  assume ind: "is_indefinite elt hl"
  from out have w: "window elt c" and bytes: "cbs_bytes elt = elem_header (tag, Some b) @ b"
    and hl: "unat hl = length (elem_header (tag, Some b))"
    by (simp_all add: out_elem_def elem_enc_def elem_body_def)
  have v: "valid elt" by (rule window_valid [OF w assms(1)])
  have "length (cbs_bytes elt) = unat hl"
    using ind length_cbs_bytes [OF v] by (simp add: is_indefinite_def Cbs.CBS_len_def)
  then have b: "b = []" and n: "unat (cbs_len elt) = unat hl"
    using length_cbs_bytes [OF v] by (simp_all add: bytes hl)
  have "unat (hl - 1) = unat hl - 1" and pos: "0 < unat hl"
    using ind by (auto simp: is_indefinite_def unat_sub_if_size word_less_nat_alt)
  then have "cbs_data elt ! unat (hl - 1) = cbs_bytes elt ! (unat hl - 1)"
    by (simp add: cbs_bytes_def n)
  also have "\<dots> = last (elem_header (tag, Some []))"
    using pos by (simp add: bytes b hl last_conv_nth)
  finally show False
    using ind by (simp add: is_indefinite_def Cbs.CBS_data_def last_len_enc_0)
qed

lemma find_ber_definite:
  assumes v: "valid c" and c: "cbs_bytes c = asn1_enc tag b @ rest" and b: "length b < 2 ^ 32"
  obtains body c' where "valid body" "cbs_bytes body = b" "valid c'" "cbs_bytes c' = rest"
    "\<And>depth found. find_ber_loop depth found c =
      (if tag AND CBS_ASN1_CONSTRUCTED = 0 then find_ber_loop depth found c'
       else if is_string_type tag then Some True
       else if kMaxDepth < depth + 1 then None
       else Option.bind (find_ber_loop (depth + 1) False body) (\<lambda>f. find_ber_loop depth f c'))"
proof -
  have "elem_ok True (tag, Some b)" using b by (simp add: elem_ok_def)
  from any_ber_element.get_complete [OF v this] c obtain x c' where
    g: "CBS_get_any_ber_asn1_element c = (Some x, c')" and out: "out_elem c x (tag, Some b)"
    and c': "cbs_bytes c' = rest" "valid c'"
    by (auto simp: asn1_enc_def)
  obtain elt hl where x: "x = (elt, tag, hl)" using out by (cases x) (auto simp: out_elem_def)
  obtain body where body: "CBS_skip hl elt = (Some (), body)" "out_cbs c body b"
    using skip_header [OF v out [unfolded x]] by (auto simp: elem_body_def)
  have "Cbs.CBS_len c \<noteq> 0"
    using ber_element_shorter [OF g [unfolded x]] by (auto simp: Cbs.CBS_len_def)
  with g x body definite_not_indefinite [OF v out [unfolded x]]
  have "find_ber_loop depth found c =
      (if tag AND CBS_ASN1_CONSTRUCTED = 0 then find_ber_loop depth found c'
       else if is_string_type tag then Some True
       else if kMaxDepth < depth + 1 then None
       else Option.bind (find_ber_loop (depth + 1) False body) (\<lambda>f. find_ber_loop depth f c'))" for depth found
    by (simp add: find_ber_loop.simps [of depth found c] split: option.split)
  with body(2) c' v show ?thesis
    by (intro that [of body c']) (auto simp: out_cbs_def intro: window_valid)
qed

lemma find_ber_end: "valid c \<Longrightarrow> cbs_bytes c = [] \<Longrightarrow> find_ber_loop depth found c = Some found"
  by (simp add: find_ber_loop.simps [of depth found c] CBS_len_0)

definition sequence_tag :: u32 where
  "sequence_tag = 0x20000010"

lemma sequence_tag: "sequence_tag AND CBS_ASN1_CONSTRUCTED \<noteq> 0" "\<not> is_string_type sequence_tag"
  by (simp_all add: sequence_tag_def CBS_ASN1_CONSTRUCTED_def CBS_ASN1_TAG_SHIFT_def is_string_type_def
    CBS_ASN1_OCTETSTRING_def)

text \<open>A walk whose last element is an empty SEQUENCE finds nothing.\<close>

lemma find_ber_last_sequence:
  assumes v: "valid c" and c: "cbs_bytes c = asn1_enc tag b @ asn1_enc sequence_tag []"
    and b: "length b < 2 ^ 32" and tag: "tag AND CBS_ASN1_CONSTRUCTED \<noteq> 0" "\<not> is_string_type tag"
    and ok: "\<And>body. valid body \<Longrightarrow> cbs_bytes body = b \<Longrightarrow> find_ber_loop (depth + 1) False body \<noteq> None"
    and depth: "depth < kMaxDepth"
  shows "find_ber_loop depth found c = Some False"
proof -
  obtain body c1 where 1: "valid body" "cbs_bytes body = b" "valid c1" "cbs_bytes c1 = asn1_enc sequence_tag []"
    "\<And>depth found. find_ber_loop depth found c =
      (if tag AND CBS_ASN1_CONSTRUCTED = 0 then find_ber_loop depth found c1
       else if is_string_type tag then Some True
       else if kMaxDepth < depth + 1 then None
       else Option.bind (find_ber_loop (depth + 1) False body) (\<lambda>f. find_ber_loop depth f c1))"
    using find_ber_definite [OF v c b] by metis
  obtain body2 c2 where 2: "valid body2" "cbs_bytes body2 = []" "valid c2" "cbs_bytes c2 = []"
    "\<And>depth found. find_ber_loop depth found c1 =
      (if sequence_tag AND CBS_ASN1_CONSTRUCTED = 0 then find_ber_loop depth found c2
       else if is_string_type sequence_tag then Some True
       else if kMaxDepth < depth + 1 then None
       else Option.bind (find_ber_loop (depth + 1) False body2) (\<lambda>f. find_ber_loop depth f c2))"
    using find_ber_definite [OF 1(3), of sequence_tag "[]" "[]"] 1(4) by (metis append_Nil2 list.size(3) zero_less_numeral zero_less_power)
  have "find_ber_loop depth f c1 = Some False" for f
    using sequence_tag depth 2 by (simp add: find_ber_end)
  with 1 tag depth ok [OF 1(1,2)] show ?thesis by auto
qed


lemma find_ber_string:
  assumes v: "valid c" and c: "cbs_bytes c = asn1_enc tag b @ rest" and b: "length b < 2 ^ 32"
    and tag: "tag AND CBS_ASN1_CONSTRUCTED \<noteq> 0" "is_string_type tag"
  shows "find_ber_loop depth found c = Some True"
  using find_ber_definite [OF v c b] tag by metis

text \<open>
  C23: the search for constructs that need converting misses some. A constructed string or an indefinite
  length nested in one element is forgotten when the walk goes on to a constructed sibling, whose
  own walk clears the flag. So a SEQUENCE of a SEQUENCE that starts with a constructed string and
  of an empty SEQUENCE comes back from the converter as it is.
\<close>

theorem find_ber_forgets:
  assumes "valid c"
    and "cbs_bytes c = asn1_enc sequence_tag
      (asn1_enc sequence_tag (asn1_enc tag b @ rest) @ asn1_enc sequence_tag [])"
    and "tag AND CBS_ASN1_CONSTRUCTED \<noteq> 0" "is_string_type tag"
    and "length (cbs_bytes c) < 2 ^ 32"
  shows "cbs_find_ber c 0 = Some False \<and>
    (\<exists>elt c'. CBS_asn1_ber_to_der malloc c = (Some (elt, None), c') \<and> cbs_bytes elt = cbs_bytes c)"
proof -
  let ?in = "asn1_enc sequence_tag (asn1_enc tag b @ rest) @ asn1_enc sequence_tag []"
  have len: "length ?in < 2 ^ 32" "length (asn1_enc tag b @ rest) < 2 ^ 32" "length b < 2 ^ 32"
    using assms(5) unfolding assms(2) by (simp_all add: asn1_enc_eq)
  have 0: "(0 :: nat) < kMaxDepth" "0 + 1 < kMaxDepth" by (simp_all add: kMaxDepth_def)
  have inner: "find_ber_loop (0 + 1) False body = Some False" if "valid body" "cbs_bytes body = ?in" for body
    using that find_ber_string [OF _ _ len(3) assms(3,4)] sequence_tag 0
    by (intro find_ber_last_sequence [where b = "asn1_enc tag b @ rest" and tag = sequence_tag] len) auto
  have copy: "valid (CBS_init (Cbs.CBS_data c) (Cbs.CBS_len c))"
    "cbs_bytes (CBS_init (Cbs.CBS_data c) (Cbs.CBS_len c)) = asn1_enc sequence_tag ?in @ []"
    using assms(1,2)
    by (simp_all add: CBS_init_def Cbs.CBS_data_def Cbs.CBS_len_def valid_def cbs_bytes_def)
  have 1: "cbs_find_ber c 0 = Some False"
    by (rule find_ber_definite [OF copy len(1)])
      (use inner sequence_tag 0 in \<open>auto simp: cbs_find_ber_def find_ber_end\<close>)
  have "elem_ok False (sequence_tag, Some ?in)" using len by (simp add: elem_ok_def)
  from any_element.get_complete [OF assms(1) this] assms(2) obtain x c' where
    "CBS_get_any_asn1_element c = (Some x, c')" "out_elem c x (sequence_tag, Some ?in)"
    by (auto simp: asn1_enc_def)
  with 1 assms(2) show ?thesis
    by (cases x) (auto simp: CBS_asn1_ber_to_der_def out_elem_def asn1_enc_def)
qed

theorem find_ber_forgets_witness:
  "cbs_find_ber (CBS_init [0x30, 6, 0x30, 2, 0x24, 0, 0x30, 0] 8) 0 = Some False"
proof -
  let ?c = "CBS_init [0x30, 6, 0x30, 2, 0x24, 0, 0x30, 0] 8"
  have "valid ?c" "length (cbs_bytes ?c) < 2 ^ 32"
    by (simp_all add: valid_def CBS_init_def cbs_bytes_def)
  moreover have "cbs_bytes ?c = asn1_enc sequence_tag
      (asn1_enc sequence_tag (asn1_enc 0x20000004 [] @ []) @ asn1_enc sequence_tag [])"
    by code_simp
  moreover have "0x20000004 AND CBS_ASN1_CONSTRUCTED \<noteq> 0" "is_string_type 0x20000004"
    by (simp_all add: CBS_ASN1_CONSTRUCTED_def CBS_ASN1_TAG_SHIFT_def is_string_type_def CBS_ASN1_OCTETSTRING_def)
  ultimately show ?thesis
    using find_ber_forgets [where c = ?c and tag = "0x20000004" and b = "[]" and rest = "[]"] by blast
qed

end
