(* ===== verification/Pb_Stream.thy ===== *)
theory Pb_Stream
  imports Codec "HOL-Library.Code_Target_Nat"
begin

text \<open>
  The streams of nanopb (\<open>pb_decode.c\<close>, \<open>pb_encode.c\<close>) and the wire-level codec on them: varints,
  zig-zag integers, fixed-width integers, field keys, length-delimited strings, skipping and
  substreams. A call that returns \<open>false\<close> is \<open>None\<close>; it may have consumed input and set the error
  message, so every call returns the stream as well.
\<close>

section \<open>Input streams\<close>

text \<open>
  The callback and its \<open>state\<close>. \<open>Buffer bs\<close> is \<open>buf_read\<close> with a state that points at \<open>bs\<close>. A callback
  of the library's user gets its state and a byte count and reads or fails; it signals the
  end of its input by setting \<open>bytes_left\<close> to 0 as it fails, which is the flag of \<open>Failed\<close>.
\<close>

datatype 's read_result = Read_Bytes bytes 's | Failed bool 's

datatype 's pb_source = Buffer bytes | Reader "'s \<Rightarrow> size_t \<Rightarrow> 's read_result" 's

record 's pb_istream =
  is_source :: "'s pb_source"
  is_bytes_left :: size_t
  is_errmsg :: "string option"

type_synonym ('s, 'a) pb_in = "'s pb_istream \<Rightarrow> 'a option \<times> 's pb_istream"

definition in_return :: "'a \<Rightarrow> ('s, 'a) pb_in" where
  "in_return x s = (Some x, s)"

definition in_then :: "('s, 'a) pb_in \<Rightarrow> ('a \<Rightarrow> ('s, 'b) pb_in) \<Rightarrow> ('s, 'b) pb_in" where
  "in_then m f s = (case m s of (None, s') \<Rightarrow> (None, s') | (Some x, s') \<Rightarrow> f x s')"

text \<open>\<open>PB_SET_ERROR\<close> and \<open>PB_RETURN_ERROR\<close>: the first message stays.\<close>

definition set_error :: "string option \<Rightarrow> string \<Rightarrow> string option" where
  "set_error errmsg msg = (case errmsg of None \<Rightarrow> Some msg | Some m \<Rightarrow> Some m)"

definition in_error :: "string \<Rightarrow> ('s, 'a) pb_in" where
  "in_error msg s = (None, s\<lparr>is_errmsg := set_error (is_errmsg s) msg\<rparr>)"

text \<open>\<open>stream->callback(stream, buf, count)\<close>.\<close>

definition read_callback :: "size_t \<Rightarrow> ('s, bytes) pb_in" where
  "read_callback count s =
     (case is_source s of
        Buffer bs \<Rightarrow> (Some (take (unat count) bs), s\<lparr>is_source := Buffer (drop (unat count) bs)\<rparr>)
      | Reader f st \<Rightarrow>
          (case f st count of
             Read_Bytes bs st' \<Rightarrow> (Some bs, s\<lparr>is_source := Reader f st'\<rparr>)
           | Failed eof st' \<Rightarrow>
               (None, s\<lparr>is_source := Reader f st',
                  is_bytes_left := (if eof then 0 else is_bytes_left s)\<rparr>)))"

text \<open>\<open>pb_read\<close> into a buffer, and with a null buffer.\<close>

definition pb_read :: "size_t \<Rightarrow> ('s, bytes) pb_in" where
  "pb_read count s =
     (if count = 0 then (Some [], s)
      else if is_bytes_left s < count then in_error ''end-of-stream'' s
      else
        (case read_callback count s of
           (None, s') \<Rightarrow> in_error ''io error'' s'
         | (Some bs, s') \<Rightarrow> (Some bs, s'\<lparr>is_bytes_left := is_bytes_left s' - count\<rparr>)))"

function skip_chunks :: "size_t \<Rightarrow> ('s, unit) pb_in" where
  "skip_chunks count s =
     (if 16 < count then
        (case pb_read 16 s of
           (None, s') \<Rightarrow> (None, s')
         | (Some _, s') \<Rightarrow> skip_chunks (count - 16) s')
      else
        (case pb_read count s of
           (None, s') \<Rightarrow> (None, s')
         | (Some _, s') \<Rightarrow> (Some (), s')))"
  by pat_completeness auto
termination
  by (relation "measure (unat \<circ> fst)") (auto simp: unat_sub_if_size word_less_nat_alt)

declare skip_chunks.simps [simp del]

definition pb_read_null :: "size_t \<Rightarrow> ('s, unit) pb_in" where
  "pb_read_null count s =
     (if count = 0 then (Some (), s)
      else
        (case is_source s of
           Buffer _ \<Rightarrow> in_then (pb_read count) (\<lambda>_. in_return ()) s
         | Reader _ _ \<Rightarrow> skip_chunks count s))"

definition pb_readbyte :: "('s, u8) pb_in" where
  "pb_readbyte s =
     (if is_bytes_left s = 0 then in_error ''end-of-stream'' s
      else
        (case read_callback 1 s of
           (None, s') \<Rightarrow> in_error ''io error'' s'
         | (Some bs, s') \<Rightarrow> (Some (hd bs), s'\<lparr>is_bytes_left := is_bytes_left s' - 1\<rparr>)))"

definition pb_istream_from_buffer :: "bytes \<Rightarrow> size_t \<Rightarrow> 's pb_istream" where
  "pb_istream_from_buffer buf bufsize =
     \<lparr>is_source = Buffer buf, is_bytes_left = bufsize, is_errmsg = None\<rparr>"

lemma readbyte_shorter:
  "pb_readbyte s = (Some b, s') \<Longrightarrow> unat (is_bytes_left s) = Suc (unat (is_bytes_left s'))"
  by (auto simp: pb_readbyte_def in_error_def read_callback_def unat_sub_if_size unat_gt_0 Suc_le_eq
    split: if_splits option.splits prod.splits pb_source.splits read_result.splits)

section \<open>Reading integers\<close>

text \<open>
  The multibyte case of \<open>pb_decode_varint32_eof\<close>: the loop, which returns \<open>result\<close>, \<open>bitpos\<close> and the
  last byte. \<open>uint_fast8_t\<close> has eight bits on the targets, so \<open>bitpos\<close> wraps.
\<close>

function varint32_loop :: "u32 \<Rightarrow> u8 \<Rightarrow> ('s, u32 \<times> u8 \<times> u8) pb_in" where
  "varint32_loop result bitpos s =
     (case pb_readbyte s of
        (None, s') \<Rightarrow> (None, s')
      | (Some byte, s') \<Rightarrow>
          let sign_extension = (if bitpos < 63 then 0xFF else 0x01) in
          if 32 \<le> bitpos \<and> byte AND 0x7F \<noteq> 0 \<and> (drop_bit 31 result = 0 \<or> byte \<noteq> sign_extension)
          then in_error ''varint overflow'' s'
          else
            let result =
                  (if 32 \<le> bitpos then result
                   else result OR push_bit (unat bitpos) (ucast (byte AND 0x7F)));
                bitpos = bitpos + 7
            in if byte AND 0x80 \<noteq> 0 then varint32_loop result bitpos s'
               else (Some (result, bitpos, byte), s'))"
  by pat_completeness auto
termination
  by (relation "measure (\<lambda>(result, bitpos, s). unat (is_bytes_left s))") (auto dest!: readbyte_shorter [OF sym])

declare varint32_loop.simps [simp del]

text \<open>The second component of the result says whether \<open>*eof\<close> was set.\<close>

definition pb_decode_varint32_eof :: "'s pb_istream \<Rightarrow> u32 option \<times> bool \<times> 's pb_istream" where
  "pb_decode_varint32_eof s =
     (case pb_readbyte s of
        (None, s') \<Rightarrow> (None, is_bytes_left s' = 0, s')
      | (Some byte, s') \<Rightarrow>
          if byte AND 0x80 = 0 then (Some (ucast byte), False, s')
          else
            (case varint32_loop (ucast (byte AND 0x7F)) 7 s' of
               (None, s'') \<Rightarrow> (None, False, s'')
             | (Some (result, bitpos, byte), s'') \<Rightarrow>
                 if bitpos = 35 \<and> byte AND 0x70 \<noteq> 0
                 then (case in_error ''varint overflow'' s'' of (r, s3) \<Rightarrow> (r, False, s3))
                 else (Some result, False, s'')))"

definition pb_decode_varint32 :: "('s, u32) pb_in" where
  "pb_decode_varint32 s = (case pb_decode_varint32_eof s of (r, _, s') \<Rightarrow> (r, s'))"

function varint_loop :: "u64 \<Rightarrow> u8 \<Rightarrow> ('s, u64) pb_in" where
  "varint_loop result bitpos s =
     (if 64 \<le> bitpos then in_error ''varint overflow'' s
      else
        (case pb_readbyte s of
           (None, s') \<Rightarrow> (None, s')
         | (Some byte, s') \<Rightarrow>
             let result = result OR push_bit (unat bitpos) (ucast (byte AND 0x7F));
                 bitpos = bitpos + 7
             in if byte AND 0x80 \<noteq> 0 then varint_loop result bitpos s' else (Some result, s')))"
  by pat_completeness auto
termination
  by (relation "measure (\<lambda>(result, bitpos, s). unat (is_bytes_left s))") (auto dest!: readbyte_shorter [OF sym])

declare varint_loop.simps [simp del]

definition pb_decode_varint :: "('s, u64) pb_in" where
  "pb_decode_varint = varint_loop 0 0"

definition pb_decode_svarint :: "('s, u64) pb_in" where
  "pb_decode_svarint =
     in_then pb_decode_varint (\<lambda>value.
       in_return (if value AND 1 \<noteq> 0 then NOT (drop_bit 1 value) else drop_bit 1 value))"

definition pb_decode_bool :: "('s, bool) pb_in" where
  "pb_decode_bool = in_then pb_decode_varint32 (\<lambda>value. in_return (value \<noteq> 0))"

definition pb_decode_fixed32 :: "('s, u32) pb_in" where
  "pb_decode_fixed32 =
     in_then (pb_read 4) (\<lambda>bytes. in_return
       (push_bit 0 (ucast (bytes ! 0)) OR push_bit 8 (ucast (bytes ! 1)) OR
        push_bit 16 (ucast (bytes ! 2)) OR push_bit 24 (ucast (bytes ! 3))))"

definition pb_decode_fixed64 :: "('s, u64) pb_in" where
  "pb_decode_fixed64 =
     in_then (pb_read 8) (\<lambda>bytes. in_return
       (push_bit 0 (ucast (bytes ! 0)) OR push_bit 8 (ucast (bytes ! 1)) OR
        push_bit 16 (ucast (bytes ! 2)) OR push_bit 24 (ucast (bytes ! 3)) OR
        push_bit 32 (ucast (bytes ! 4)) OR push_bit 40 (ucast (bytes ! 5)) OR
        push_bit 48 (ucast (bytes ! 6)) OR push_bit 56 (ucast (bytes ! 7))))"

section \<open>Fields on the wire\<close>

text \<open>Wire types; the code keeps the three low bits of a key in the \<open>enum\<close>, whatever they are.\<close>

definition PB_WT_VARINT :: u32 where "PB_WT_VARINT = 0"
definition PB_WT_64BIT :: u32 where "PB_WT_64BIT = 1"
definition PB_WT_STRING :: u32 where "PB_WT_STRING = 2"
definition PB_WT_32BIT :: u32 where "PB_WT_32BIT = 5"

lemma pb_read_1_shorter:
  "pb_read 1 s = (Some bs, s') \<Longrightarrow> unat (is_bytes_left s) = Suc (unat (is_bytes_left s'))"
  by (auto simp: pb_read_def in_error_def read_callback_def unat_sub_if_size word_less_nat_alt Suc_le_eq
    split: if_splits option.splits prod.splits pb_source.splits read_result.splits)

function pb_skip_varint :: "('s, unit) pb_in" where
  "pb_skip_varint s =
     (case pb_read 1 s of
        (None, s') \<Rightarrow> (None, s')
      | (Some bs, s') \<Rightarrow> if hd bs AND 0x80 \<noteq> 0 then pb_skip_varint s' else (Some (), s'))"
  by pat_completeness auto
termination
  by (relation "measure (\<lambda>s. unat (is_bytes_left s))") (auto dest!: pb_read_1_shorter [OF sym])

declare pb_skip_varint.simps [simp del]

definition pb_skip_string :: "('s, unit) pb_in" where
  "pb_skip_string = in_then pb_decode_varint32 (\<lambda>n. pb_read_null (ucast n))"

text \<open>The wire type and the tag, and \<open>*eof\<close>.\<close>

definition pb_decode_tag :: "'s pb_istream \<Rightarrow> (u32 \<times> u32) option \<times> bool \<times> 's pb_istream" where
  "pb_decode_tag s =
     (case pb_decode_varint32_eof s of
        (None, eof, s') \<Rightarrow> (None, eof, s')
      | (Some temp, eof, s') \<Rightarrow>
          if temp = 0 then (None, True, s')
          else (Some (temp AND 7, drop_bit 3 temp), eof, s'))"

definition pb_skip_field :: "u32 \<Rightarrow> ('s, unit) pb_in" where
  "pb_skip_field wire_type =
     (if wire_type = PB_WT_VARINT then pb_skip_varint
      else if wire_type = PB_WT_64BIT then pb_read_null 8
      else if wire_type = PB_WT_STRING then pb_skip_string
      else if wire_type = PB_WT_32BIT then pb_read_null 4
      else in_error ''invalid wire_type'')"

text \<open>\<open>read_raw_value\<close>: the bytes stored in the buffer; their number is \<open>*size\<close>.\<close>

fun raw_varint :: "nat \<Rightarrow> ('s, bytes) pb_in" where
  "raw_varint 0 s = (None, s)"
| "raw_varint (Suc room) s =
     (case pb_read 1 s of
        (None, s') \<Rightarrow> (None, s')
      | (Some bs, s') \<Rightarrow>
          if hd bs AND 0x80 \<noteq> 0
          then in_then (raw_varint room) (\<lambda>rest. in_return (bs @ rest)) s'
          else (Some bs, s'))"

definition read_raw_value :: "u32 \<Rightarrow> nat \<Rightarrow> ('s, bytes) pb_in" where
  "read_raw_value wire_type max_size =
     (if wire_type = PB_WT_VARINT then raw_varint max_size
      else if wire_type = PB_WT_64BIT then pb_read 8
      else if wire_type = PB_WT_32BIT then pb_read 4
      else in_error ''invalid wire_type'')"

text \<open>The substream is the result; the stream keeps its state until the substream is closed.\<close>

definition pb_make_string_substream :: "('s, 's pb_istream) pb_in" where
  "pb_make_string_substream =
     in_then pb_decode_varint32 (\<lambda>n s.
       if is_bytes_left s < ucast n then in_error ''parent stream too short'' s
       else (Some (s\<lparr>is_bytes_left := ucast n\<rparr>), s\<lparr>is_bytes_left := is_bytes_left s - ucast n\<rparr>))"

definition pb_close_string_substream :: "'s pb_istream \<Rightarrow> ('s, unit) pb_in" where
  "pb_close_string_substream substream s =
     (case (if is_bytes_left substream \<noteq> 0 then pb_read_null (is_bytes_left substream) substream
            else (Some (), substream)) of
        (None, substream') \<Rightarrow> (None, s)
      | (Some _, substream') \<Rightarrow>
          (Some (), s\<lparr>is_source := is_source substream', is_errmsg := is_errmsg substream'\<rparr>))"

section \<open>The contract of a read\<close>

text \<open>
  What a source holds. For a user callback, \<open>view\<close> gives what its state still holds, and \<open>reads f view\<close>
  states that the callback reads from the front of that.
\<close>

definition reads :: "('s \<Rightarrow> size_t \<Rightarrow> 's read_result) \<Rightarrow> ('s \<Rightarrow> bytes) \<Rightarrow> bool" where
  "reads f view \<longleftrightarrow>
     (\<forall>st n. unat n \<le> length (view st) \<longrightarrow>
        (\<exists>st'. f st n = Read_Bytes (take (unat n) (view st)) st' \<and> view st' = drop (unat n) (view st)))"

definition source_bytes :: "('s \<Rightarrow> bytes) \<Rightarrow> 's pb_source \<Rightarrow> bytes" where
  "source_bytes view src = (case src of Buffer bs \<Rightarrow> bs | Reader f st \<Rightarrow> view st)"

definition stream_ok :: "('s \<Rightarrow> bytes) \<Rightarrow> 's pb_istream \<Rightarrow> bool" where
  "stream_ok view s \<longleftrightarrow>
     unat (is_bytes_left s) \<le> length (source_bytes view (is_source s)) \<and>
     (case is_source s of Buffer bs \<Rightarrow> True | Reader f st \<Rightarrow> reads f view)"

text \<open>The bytes the stream still gives access to.\<close>

definition stream_bytes :: "('s \<Rightarrow> bytes) \<Rightarrow> 's pb_istream \<Rightarrow> bytes" where
  "stream_bytes view s = take (unat (is_bytes_left s)) (source_bytes view (is_source s))"

text \<open>\<open>s'\<close> is \<open>s\<close> after \<open>n\<close> bytes have been read.\<close>

definition advanced :: "('s \<Rightarrow> bytes) \<Rightarrow> nat \<Rightarrow> 's pb_istream \<Rightarrow> 's pb_istream \<Rightarrow> bool" where
  "advanced view n s s' \<longleftrightarrow>
     n \<le> unat (is_bytes_left s) \<and> unat (is_bytes_left s') = unat (is_bytes_left s) - n \<and>
     source_bytes view (is_source s') = drop n (source_bytes view (is_source s)) \<and>
     is_errmsg s' = is_errmsg s \<and> stream_ok view s'"

definition reads_as :: "('s, 'a) pb_in \<Rightarrow> 'a decoder \<Rightarrow> ('s \<Rightarrow> bytes) \<Rightarrow> 's pb_istream \<Rightarrow> bool" where
  "reads_as get spec view s \<longleftrightarrow>
     (case spec (stream_bytes view s) of
        None \<Rightarrow> fst (get s) = None
      | Some (x, rest) \<Rightarrow>
          \<exists>n s'. get s = (Some x, s') \<and> advanced view n s s' \<and> rest = drop n (stream_bytes view s))"

lemma length_stream_bytes: "stream_ok view s \<Longrightarrow> length (stream_bytes view s) = unat (is_bytes_left s)"
  by (simp add: stream_ok_def stream_bytes_def)

lemma advanced_bytes: "advanced view n s s' \<Longrightarrow> stream_bytes view s' = drop n (stream_bytes view s)"
  by (simp add: advanced_def stream_bytes_def drop_take)

lemma advanced_ok: "advanced view n s s' \<Longrightarrow> stream_ok view s'"
  by (simp add: advanced_def)

lemma advanced_trans: "advanced view m s s1 \<Longrightarrow> advanced view n s1 s2 \<Longrightarrow> advanced view (m + n) s s2"
  by (auto simp: advanced_def add.commute)

lemma advanced_refl: "stream_ok view s \<Longrightarrow> advanced view 0 s s"
  by (simp add: advanced_def)

text \<open>Readings compose.\<close>

definition d_then :: "'a decoder \<Rightarrow> ('a \<Rightarrow> 'b decoder) \<Rightarrow> 'b decoder" where
  "d_then p q bs = Option.bind (p bs) (\<lambda>(x, rest). q x rest)"

definition d_return :: "'a \<Rightarrow> 'a decoder" where
  "d_return x bs = Some (x, bs)"

lemma reads_as_return: "stream_ok view s \<Longrightarrow> reads_as (in_return x) (d_return x) view s"
  unfolding reads_as_def in_return_def d_return_def by (auto intro!: exI [of _ 0] advanced_refl)

lemma reads_as_error: "reads_as (in_error msg) (\<lambda>bs. None) view s"
  by (simp add: reads_as_def in_error_def)

lemma reads_as_then:
  assumes m: "reads_as m p view s" and f: "\<And>x s'. stream_ok view s' \<Longrightarrow> reads_as (f x) (q x) view s'"
  shows "reads_as (in_then m f) (d_then p q) view s"
proof (cases "p (stream_bytes view s)")
  case None
  with m show ?thesis
    by (auto simp: reads_as_def in_then_def d_then_def split: prod.split option.split)
next
  case (Some r)
  obtain x rest where r: "r = (x, rest)" by (cases r)
  with m Some obtain n s' where 1: "m s = (Some x, s')" "advanced view n s s'" "rest = drop n (stream_bytes view s)"
    by (auto simp: reads_as_def)
  note b = advanced_bytes [OF 1(2)]
  show ?thesis
  proof (cases "q x rest")
    case None
    with f [OF advanced_ok [OF 1(2)], of x] 1 b Some r show ?thesis
      by (simp add: reads_as_def in_then_def d_then_def)
  next
    case (Some t)
    obtain y rest' where t: "t = (y, rest')" by (cases t)
    with f [OF advanced_ok [OF 1(2)], of x] 1 b Some obtain k s2 where
      2: "f x s' = (Some y, s2)" "advanced view k s' s2" "rest' = drop k rest"
      by (auto simp: reads_as_def)
    from advanced_trans [OF 1(2) 2(2)] 1 2 Some r t \<open>p _ = Some r\<close> show ?thesis
      by (auto simp: reads_as_def in_then_def d_then_def add.commute)
  qed
qed

lemma reads_as_step:
  assumes "advanced view n s s'" and "reads_as get' p' view s'" and "get s = get' s'"
    and "p (stream_bytes view s) = p' (stream_bytes view s')"
  shows "reads_as get p view s"
  using assms(2) advanced_bytes [OF assms(1)] unfolding reads_as_def assms(3,4)
  by (auto split: option.splits simp: add.commute intro!: exI advanced_trans [OF assms(1)])

section \<open>Reading bytes\<close>

definition take_n :: "nat \<Rightarrow> bytes decoder" where
  "take_n n bs = (if length bs < n then None else Some (take n bs, drop n bs))"

definition byte_dec :: "u8 decoder" where
  "byte_dec bs = (case bs of [] \<Rightarrow> None | b # r \<Rightarrow> Some (b, r))"

lemma read_callback_ok:
  assumes ok: "stream_ok view s" and n: "unat n \<le> unat (is_bytes_left s)"
  obtains s' where "read_callback n s = (Some (take (unat n) (stream_bytes view s)), s')"
    "is_bytes_left s' = is_bytes_left s" "is_errmsg s' = is_errmsg s"
    "advanced view (unat n) s (s'\<lparr>is_bytes_left := is_bytes_left s' - n\<rparr>)"
proof -
  have left: "unat (is_bytes_left s - n) = unat (is_bytes_left s) - unat n"
    using n by (simp add: unat_sub_if_size)
  show ?thesis
  proof (cases "is_source s")
    case (Buffer bs)
    with ok n left show ?thesis
      by (intro that [of "s\<lparr>is_source := Buffer (drop (unat n) bs)\<rparr>"])
        (auto simp: read_callback_def advanced_def stream_ok_def source_bytes_def stream_bytes_def min_absorb1)
  next
    case (Reader f st)
    with ok have r: "reads f view" and le: "unat (is_bytes_left s) \<le> length (view st)"
      by (auto simp: stream_ok_def source_bytes_def)
    from r n le obtain st' where st': "f st n = Read_Bytes (take (unat n) (view st)) st'"
      "view st' = drop (unat n) (view st)"
      unfolding reads_def by (meson le_trans)
    with Reader ok n left r show ?thesis
      by (intro that [of "s\<lparr>is_source := Reader f st'\<rparr>"])
        (auto simp: read_callback_def advanced_def stream_ok_def source_bytes_def stream_bytes_def min_absorb1)
  qed
qed

lemma pb_read_reads: "stream_ok view s \<Longrightarrow> reads_as (pb_read n) (take_n (unat n)) view s"
proof -
  assume ok: "stream_ok view s"
  show ?thesis
  proof (cases "is_bytes_left s < n")
    case True
    then have "n \<noteq> 0" "length (stream_bytes view s) < unat n"
      using length_stream_bytes [OF ok] by (auto simp: word_less_nat_alt)
    with True show ?thesis
      by (simp add: reads_as_def pb_read_def take_n_def in_error_def)
  next
    case False
    then have n: "unat n \<le> unat (is_bytes_left s)" by (simp add: word_less_nat_alt)
    obtain s' where s': "read_callback n s = (Some (take (unat n) (stream_bytes view s)), s')"
      "advanced view (unat n) s (s'\<lparr>is_bytes_left := is_bytes_left s' - n\<rparr>)"
      by (rule read_callback_ok [OF ok n])
    have t: "take_n (unat n) (stream_bytes view s) =
        Some (take (unat n) (stream_bytes view s), drop (unat n) (stream_bytes view s))"
      using n length_stream_bytes [OF ok] by (simp add: take_n_def)
    show ?thesis
    proof (cases "n = 0")
      case True
      with t advanced_refl [OF ok] show ?thesis
        by (auto simp: reads_as_def pb_read_def intro!: exI [of _ 0])
    next
      case nz: False
      with t s' False show ?thesis
        by (auto simp: reads_as_def pb_read_def)
    qed
  qed
qed

lemma pb_readbyte_reads: "stream_ok view s \<Longrightarrow> reads_as pb_readbyte byte_dec view s"
proof -
  assume ok: "stream_ok view s"
  show ?thesis
  proof (cases "is_bytes_left s = 0")
    case True
    then show ?thesis
      by (simp add: reads_as_def pb_readbyte_def byte_dec_def in_error_def stream_bytes_def)
  next
    case False
    then have n: "unat (1 :: size_t) \<le> unat (is_bytes_left s)" by (simp add: Suc_le_eq unat_gt_0)
    obtain s' where s': "read_callback 1 s = (Some (take (unat (1 :: size_t)) (stream_bytes view s)), s')"
      "advanced view (unat (1 :: size_t)) s (s'\<lparr>is_bytes_left := is_bytes_left s' - 1\<rparr>)"
      by (rule read_callback_ok [OF ok n])
    obtain b r where b: "stream_bytes view s = b # r"
      using length_stream_bytes [OF ok] n by (cases "stream_bytes view s") auto
    with s' False show ?thesis
      by (auto simp: reads_as_def pb_readbyte_def byte_dec_def)
  qed
qed

text \<open>Skipping with a null buffer reads and drops, whatever the source.\<close>

definition skip_n :: "nat \<Rightarrow> unit decoder" where
  "skip_n n = d_then (take_n n) (\<lambda>_. d_return ())"

lemma skip_n_eq: "skip_n n bs = (if length bs < n then None else Some ((), drop n bs))"
  by (simp add: skip_n_def d_then_def take_n_def d_return_def)

lemma skip_once: "stream_ok view s \<Longrightarrow> reads_as (in_then (pb_read n) (\<lambda>_. in_return ())) (skip_n (unat n)) view s"
  unfolding skip_n_def by (intro reads_as_then pb_read_reads reads_as_return)

lemma reads_as_cong: "reads_as get p view s \<Longrightarrow> get s = get' s \<Longrightarrow> p (stream_bytes view s) = q (stream_bytes view s) \<Longrightarrow>
    reads_as get' q view s"
  unfolding reads_as_def by (auto split: option.splits)

lemma skip_chunks_reads: "stream_ok view s \<Longrightarrow> reads_as (skip_chunks n) (skip_n (unat n)) view s"
proof (induction n arbitrary: s rule: measure_induct_rule [of unat])
  case (less n)
  show ?case
  proof (cases "16 < n")
    case True
    then have lt: "unat (n - 16) < unat n" "unat n = unat (n - 16) + 16"
      by (simp_all add: unat_sub_if_size word_less_nat_alt)
    have "reads_as (pb_read 16) (take_n 16) view s"
      using pb_read_reads [OF less.prems, of 16] by simp
    then have "reads_as (in_then (pb_read 16) (\<lambda>_. skip_chunks (n - 16)))
      (d_then (take_n 16) (\<lambda>_. skip_n (unat (n - 16)))) view s"
      by (rule reads_as_then) (rule less.IH [OF lt(1)])
    then show ?thesis
      by (rule reads_as_cong)
        (auto simp: skip_chunks.simps [of n] in_then_def True skip_n_eq d_then_def take_n_def lt(2)
          split: prod.split option.split)
  next
    case False
    show ?thesis
      by (rule reads_as_cong [OF skip_once [OF less.prems]])
        (simp_all add: skip_chunks.simps [of n] in_then_def in_return_def False split: prod.split option.split)
  qed
qed

lemma pb_read_null_reads: "stream_ok view s \<Longrightarrow> reads_as (pb_read_null n) (skip_n (unat n)) view s"
proof -
  assume ok: "stream_ok view s"
  consider "n = 0" | "n \<noteq> 0" "\<exists>bs. is_source s = Buffer bs" | "n \<noteq> 0" "\<exists>f st. is_source s = Reader f st"
    by (cases "is_source s") auto
  then show ?thesis
  proof cases
    case 1
    then show ?thesis
      by (intro reads_as_cong [OF reads_as_return [OF ok]])
        (simp_all add: pb_read_null_def in_return_def skip_n_eq d_return_def)
  next
    case 2
    then show ?thesis
      by (intro reads_as_cong [OF skip_once [OF ok]]) (auto simp: pb_read_null_def)
  next
    case 3
    then show ?thesis
      by (intro reads_as_cong [OF skip_chunks_reads [OF ok]]) (auto simp: pb_read_null_def)
  qed
qed

section \<open>The contract\<close>

text \<open>A read operation that, on any well-formed stream, does what \<open>spec\<close> does on its bytes.\<close>

locale pb_get =
  fixes get :: "('s, 'a) pb_in" and spec :: "'a decoder"
  assumes get_reads: "stream_ok view s \<Longrightarrow> reads_as get spec view s"
begin

lemma get_Some:
  assumes "stream_ok view s" and "get s = (Some x, s')"
  shows "\<exists>n. advanced view n s s' \<and> spec (stream_bytes view s) = Some (x, stream_bytes view s')"
  using get_reads [OF assms(1)] assms(2)
  by (auto simp: reads_as_def advanced_bytes split: option.splits)

lemma spec_Some:
  assumes "stream_ok view s" and "spec (stream_bytes view s) = Some (x, rest)"
  shows "\<exists>n s'. get s = (Some x, s') \<and> advanced view n s s' \<and> stream_bytes view s' = rest"
  using get_reads [OF assms(1)] assms(2) by (auto simp: reads_as_def advanced_bytes)

lemma get_iff:
  assumes "stream_ok view s"
  shows "(\<exists>s'. get s = (Some x, s') \<and> stream_bytes view s' = rest) \<longleftrightarrow>
    spec (stream_bytes view s) = Some (x, rest)"
  using get_Some [OF assms] spec_Some [OF assms] by blast

lemma spec_None: "stream_ok view s \<Longrightarrow> spec (stream_bytes view s) = None \<Longrightarrow> fst (get s) = None"
  using get_reads [of view s] by (simp add: reads_as_def)

end

text \<open>Reading back what an encoder wrote.\<close>

fun read_list :: "('s, 'a) pb_in \<Rightarrow> nat \<Rightarrow> ('s, 'a list) pb_in" where
  "read_list get 0 = in_return []"
| "read_list get (Suc n) = in_then get (\<lambda>x. in_then (read_list get n) (\<lambda>xs. in_return (x # xs)))"

locale pb_codec = pb_get get spec + prefix_codec enc spec ok
  for get :: "('s, 'a) pb_in" and spec enc ok
begin

lemma get_enc:
  assumes "stream_ok view s" and "ok x" and "stream_bytes view s = enc x @ rest"
  shows "\<exists>s'. get s = (Some x, s') \<and> advanced view (length (enc x)) s s' \<and> stream_bytes view s' = rest"
proof -
  from spec_Some [OF assms(1)] dec_enc [OF assms(2)] assms(3) obtain n s' where
    1: "get s = (Some x, s')" "advanced view n s s'" "stream_bytes view s' = rest" by metis
  have "length (enc x) = n"
    using 1(2,3) length_stream_bytes [OF assms(1)] length_stream_bytes [OF advanced_ok [OF 1(2)]] assms(3)
    by (auto simp: advanced_def)
  with 1 show ?thesis by auto
qed

lemma read_list_enc:
  assumes "stream_ok view s" and "list_all ok xs" and "stream_bytes view s = concat (map enc xs) @ rest"
  shows "\<exists>s'. read_list get (length xs) s = (Some xs, s') \<and>
    advanced view (length (concat (map enc xs))) s s' \<and> stream_bytes view s' = rest"
  using assms
proof (induction xs arbitrary: s)
  case Nil
  then show ?case by (simp add: in_return_def advanced_refl)
next
  case (Cons x xs)
  then obtain s1 where 1: "get s = (Some x, s1)" "advanced view (length (enc x)) s s1"
    "stream_bytes view s1 = concat (map enc xs) @ rest"
    using get_enc [of view s x] by auto
  with Cons.IH [OF advanced_ok [OF 1(2)]] Cons.prems(2) advanced_trans [OF 1(2)] show ?case
    by (fastforce simp: in_then_def in_return_def)
qed

end

interpretation readbyte: pb_get pb_readbyte byte_dec
  by unfold_locales (rule pb_readbyte_reads)

interpretation read: pb_get "pb_read n" "take_n (unat n)" for n
  by unfold_locales (rule pb_read_reads)

interpretation read_null: pb_get "pb_read_null n" "skip_n (unat n)" for n
  by unfold_locales (rule pb_read_null_reads)

end
