(* ===== verification/Pb_Wire.thy ===== *)
theory Pb_Wire
  imports Pb_Stream
begin

text \<open>
  What the wire-level readers of theory \<open>Pb_Stream\<close> compute: every one of them reads, from any
  well-formed stream, what a decoder on byte strings reads.
\<close>

section \<open>Varints\<close>

text \<open>The base-128 encoding, least significant group first, and its reading within \<open>n\<close> bytes.\<close>

fun varint_enc :: "nat \<Rightarrow> bytes" where
  "varint_enc n = (if n < 128 then [of_nat n] else of_nat (128 + n mod 128) # varint_enc (n div 128))"

declare varint_enc.simps [simp del]

primrec leb_dec :: "nat \<Rightarrow> nat decoder" where
  "leb_dec 0 = (\<lambda>bs. None)"
| "leb_dec (Suc n) = d_then byte_dec (\<lambda>b.
     if unat b < 128 then d_return (unat b)
     else d_then (leb_dec n) (\<lambda>v. d_return (unat b mod 128 + 128 * v)))"

lemma leb_dec_enc: "v < 128 ^ n \<Longrightarrow> 0 < n \<Longrightarrow> leb_dec n (varint_enc v @ rest) = Some (v, rest)"
proof (induction n arbitrary: v)
  case 0
  then show ?case by simp
next
  case (Suc n)
  show ?case
  proof (cases "v < 128")
    case True
    then have "unat (of_nat v :: u8) = v" by (intro unat_of_nat_less) simp
    with True show ?thesis
      by (simp add: varint_enc.simps [of v] d_then_def byte_dec_def d_return_def)
  next
    case False
    have "unat (of_nat (128 + v mod 128) :: u8) = 128 + v mod 128" by (intro unat_of_nat_less) simp
    moreover have "v div 128 < 128 ^ n" using Suc.prems by (simp add: div_less_iff_less_mult mult.commute)
    moreover have "0 < n" using Suc.prems(1) False by (cases n) auto
    ultimately show ?thesis
      using Suc.IH [of "v div 128"] False
      by (simp add: varint_enc.simps [of v] d_then_def byte_dec_def d_return_def del: of_nat_add)
  qed
qed

lemma low_7: "ucast ((b :: u8) AND 0x7F) = (of_nat (unat b mod 128) :: 'a::len word)"
  by (simp add: unsigned_ucast_eq of_nat_take_bit flip: unat_and_7f)

lemma low_7_bits: "take_bit 7 (ucast ((b :: u8) AND 0x7F)) = (ucast (b AND 0x7F) :: 'a::len word)"
proof (rule bit_word_eqI)
  have "\<not> bit (0x7F :: u8) 7" by simp
  then show "bit (take_bit 7 (ucast (b AND 0x7F)) :: 'a::len word) n = bit (ucast (b AND 0x7F) :: 'a word) n" for n
    by (cases "n = 7") (auto simp: bit_simps less_Suc_eq numeral_eq_Suc)
qed

text \<open>The group at bit \<open>k\<close> joins a result that is shorter than \<open>k\<close> bits.\<close>

lemma or_group:
  fixes r :: "'a::len word" and b :: u8
  assumes "take_bit k r = r"
  shows "r OR push_bit k (ucast (b AND 0x7F)) = r + push_bit k (of_nat (unat b mod 128))"
    and "take_bit (7 + k) (r OR push_bit k (ucast (b AND 0x7F))) = r OR push_bit k (ucast (b AND 0x7F))"
proof -
  show "r OR push_bit k (ucast (b AND 0x7F)) = r + push_bit k (of_nat (unat b mod 128))"
    using or_eq_plus_push [OF assms, of "ucast (b AND 0x7F)"]
    by (simp add: or.commute add.commute low_7)
  have "take_bit (7 + k) r = r"
    by (metis assms take_bit_tightened take_bit_take_bit min.absorb2 le_add2)
  then show "take_bit (7 + k) (r OR push_bit k (ucast (b AND 0x7F))) = r OR push_bit k (ucast (b AND 0x7F))"
    by (simp add: take_bit_or take_bit_push_bit low_7_bits)
qed

lemma varint_loop_reads:
  "stream_ok view s \<Longrightarrow> i + n = 10 \<Longrightarrow> take_bit (7 * i) r = r \<Longrightarrow>
     reads_as (varint_loop r (of_nat (7 * i)))
       (d_then (leb_dec n) (\<lambda>v. d_return (r + push_bit (7 * i) (of_nat v)))) view s"
proof (induction n arbitrary: i r s)
  case 0
  then show ?case
    by (intro reads_as_cong [OF reads_as_error [of "''varint overflow''"]])
      (simp_all add: varint_loop.simps d_then_def)
next
  case (Suc n)
  let ?bp = "of_nat (7 * i) :: u8"
  let ?next = "\<lambda>b :: u8. r OR push_bit (7 * i) (ucast (b AND 0x7F))"
  have i: "i \<le> 9" using Suc.prems(2) by simp
  then have bp: "unat ?bp = 7 * i" by (intro unat_of_nat_less) simp
  then have small: "\<not> 64 \<le> ?bp" using i by (simp add: word_le_nat_alt del: of_nat_mult)
  have "reads_as (in_then pb_readbyte (\<lambda>b.
      if b AND 0x80 \<noteq> 0 then varint_loop (?next b) (of_nat (7 * Suc i)) else in_return (?next b)))
    (d_then byte_dec (\<lambda>b.
       if unat b < 128 then d_return (?next b)
       else d_then (leb_dec n) (\<lambda>v. d_return (?next b + push_bit (7 * Suc i) (of_nat v))))) view s"
  proof (rule reads_as_then [OF pb_readbyte_reads [OF Suc.prems(1)]])
    fix b s'
    assume ok: "stream_ok view s'"
    have "take_bit (7 * Suc i) (?next b) = ?next b"
      using or_group(2) [OF Suc.prems(3), of b] by (simp add: add.commute)
    from Suc.IH [OF ok _ this] Suc.prems(2)
    show "reads_as (if b AND 0x80 \<noteq> 0 then varint_loop (?next b) (of_nat (7 * Suc i)) else in_return (?next b))
      (if unat b < 128 then d_return (?next b)
       else d_then (leb_dec n) (\<lambda>v. d_return (?next b + push_bit (7 * Suc i) (of_nat v)))) view s'"
      using reads_as_return [OF ok] by (auto simp: and_80 not_less)
  qed
  then show ?case
  proof (rule reads_as_cong)
    have bp': "?bp + 7 = of_nat (7 * Suc i)" by simp
    show "in_then pb_readbyte (\<lambda>b.
        if b AND 0x80 \<noteq> 0 then varint_loop (?next b) (of_nat (7 * Suc i)) else in_return (?next b)) s =
      varint_loop r ?bp s"
      unfolding varint_loop.simps [of r ?bp] bp' bp if_not_P [OF small] Let_def in_then_def in_return_def
      by (auto split: prod.split option.split)
    have *: "?next b + push_bit (7 * Suc i) (of_nat v) =
        r + push_bit (7 * i) (of_nat (unat b mod 128 + 128 * v))" for b v
      unfolding or_group(1) [OF Suc.prems(3)] by (simp add: push_bit_eq_mult power_add algebra_simps)
    have "?next b = r + push_bit (7 * i) (of_nat (unat b mod 128))" for b
      by (rule or_group(1) [OF Suc.prems(3)])
    then show "d_then byte_dec (\<lambda>b.
         if unat b < 128 then d_return (?next b)
         else d_then (leb_dec n) (\<lambda>v. d_return (?next b + push_bit (7 * Suc i) (of_nat v)))) (stream_bytes view s) =
       d_then (leb_dec (Suc n)) (\<lambda>v. d_return (r + push_bit (7 * i) (of_nat v))) (stream_bytes view s)"
      unfolding * by (simp add: d_then_def d_return_def split: bind_splits)
  qed
qed

text \<open>The decoder keeps the value modulo \<open>2 ^ 64\<close>.\<close>

definition varint_dec :: "u64 decoder" where
  "varint_dec = d_then (leb_dec 10) (\<lambda>v. d_return (of_nat v))"

lemma pb_decode_varint_reads: "stream_ok view s \<Longrightarrow> reads_as pb_decode_varint varint_dec view s"
  using varint_loop_reads [of view s 0 10 0] by (simp add: pb_decode_varint_def varint_dec_def)


lemma varint_dec_enc: "varint_dec (varint_enc (unat v) @ rest) = Some (v, rest)"
proof -
  have "unat v < 128 ^ 10" by (rule less_trans [OF unsigned_less]) simp
  then show ?thesis by (simp add: varint_dec_def d_then_def leb_dec_enc d_return_def)
qed

interpretation decode_varint: pb_codec pb_decode_varint varint_dec "\<lambda>v. varint_enc (unat v)" "\<lambda>_. True"
  by unfold_locales (simp_all add: varint_dec_enc pb_decode_varint_reads)

section \<open>Varints of 32 bits\<close>

primrec v32_rest :: "u32 \<Rightarrow> u8 \<Rightarrow> bytes \<Rightarrow> ((u32 \<times> u8 \<times> u8) \<times> bytes) option" where
  "v32_rest r bitpos [] = None"
| "v32_rest r bitpos (b # bs) =
     (if 32 \<le> bitpos \<and> b AND 0x7F \<noteq> 0 \<and> (drop_bit 31 r = 0 \<or> b \<noteq> (if bitpos < 63 then 0xFF else 0x01))
      then None
      else
        let r = (if 32 \<le> bitpos then r else r OR push_bit (unat bitpos) (ucast (b AND 0x7F)))
        in if b AND 0x80 \<noteq> 0 then v32_rest r (bitpos + 7) bs else Some ((r, bitpos + 7, b), bs))"

definition varint32_dec :: "u32 decoder" where
  "varint32_dec = d_then byte_dec (\<lambda>b.
     if b AND 0x80 = 0 then d_return (ucast b)
     else d_then (v32_rest (ucast (b AND 0x7F)) 7) (\<lambda>(r, bitpos, b).
       if bitpos = 35 \<and> b AND 0x70 \<noteq> 0 then (\<lambda>bs. None) else d_return r))"

lemma varint32_loop_reads:
  "stream_ok view s \<Longrightarrow> reads_as (varint32_loop r bitpos) (v32_rest r bitpos) view s"
proof (induction r bitpos s rule: varint32_loop.induct)
  case (1 r bitpos s)
  note rb = pb_readbyte_reads [OF "1.prems"]
  show ?case
  proof (cases "stream_bytes view s")
    case Nil
    with rb show ?thesis
      by (auto simp: reads_as_def byte_dec_def varint32_loop.simps [of r bitpos s] split: prod.split option.split)
  next
    case (Cons b bs)
    with rb obtain n s' where s': "pb_readbyte s = (Some b, s')" "advanced view n s s'" "bs = drop n (b # bs)"
      by (auto simp: reads_as_def byte_dec_def)
    note ok = advanced_ok [OF s'(2)] and bytes = advanced_bytes [OF s'(2)]
    let ?ext = "if bitpos < 63 then 0xFF else 0x01 :: u8"
    show ?thesis
    proof (cases "32 \<le> bitpos \<and> b AND 0x7F \<noteq> 0 \<and> (drop_bit 31 r = 0 \<or> b \<noteq> ?ext)")
      case True
      then show ?thesis
        unfolding reads_as_def Cons v32_rest.simps varint32_loop.simps [of r bitpos s] s'(1) Let_def
        by (simp add: s'(1) in_error_def)
    next
      case False
      let ?r = "if 32 \<le> bitpos then r else r OR push_bit (unat bitpos) (ucast (b AND 0x7F))"
      show ?thesis
      proof (cases "b AND 0x80 = 0")
        case True
        with s'(1,2) Cons show ?thesis
          unfolding reads_as_def Cons v32_rest.simps if_not_P [OF False] varint32_loop.simps [of r bitpos s] Let_def
          by (simp add: if_not_P [OF False] del: if_split) (rule exI [of _ n], rule conjI [OF s'(2,3)])
      next
        case nz: False
        have IH: "reads_as (varint32_loop ?r (bitpos + 7)) (v32_rest ?r (bitpos + 7)) view s'"
          using "1.IH" [OF s'(1) [symmetric] refl refl False refl refl nz ok] .
        have get: "varint32_loop r bitpos s = varint32_loop ?r (bitpos + 7) s'"
          unfolding varint32_loop.simps [of r bitpos s] s'(1) prod.case option.case Let_def if_not_P [OF False]
          using nz by simp
        have dec: "v32_rest r bitpos (stream_bytes view s) = v32_rest ?r (bitpos + 7) (stream_bytes view s')"
          unfolding Cons v32_rest.simps Let_def if_not_P [OF False]
          using nz s'(3) bytes Cons by simp
        show ?thesis by (rule reads_as_step [OF s'(2) IH]) (rule get, rule dec)
      qed
    qed
  qed
qed


lemma varint32_eof_reads: "stream_ok view s \<Longrightarrow> reads_as pb_decode_varint32 varint32_dec view s"
proof -
  assume ok: "stream_ok view s"
  have "reads_as (in_then pb_readbyte (\<lambda>b.
      if b AND 0x80 = 0 then in_return (ucast b)
      else in_then (varint32_loop (ucast (b AND 0x7F)) 7) (\<lambda>(r, bitpos, b).
        if bitpos = 35 \<and> b AND 0x70 \<noteq> 0 then in_error ''varint overflow'' else in_return r)))
    varint32_dec view s"
    unfolding varint32_dec_def
    by (intro reads_as_then [OF pb_readbyte_reads [OF ok]])
      (auto intro!: reads_as_then varint32_loop_reads reads_as_return reads_as_error split: prod.split)
  then show ?thesis
    by (rule reads_as_cong)
      (auto simp: pb_decode_varint32_def pb_decode_varint32_eof_def in_then_def in_return_def in_error_def
        split: prod.split option.split)
qed

interpretation decode_varint32: pb_get pb_decode_varint32 varint32_dec
  by unfold_locales (rule varint32_eof_reads)

text \<open>What the encoder writes for a value below \<open>2 ^ 32\<close> is read back.\<close>

lemma and_70: "unat (b :: u8) < 16 \<Longrightarrow> b AND 0x70 = 0"
proof -
  assume "unat b < 16"
  then have "take_bit 4 b = b"
    by (simp add: word_unat_eq_iff unsigned_take_bit_eq take_bit_nat_eq_self)
  then have "b AND 0x70 = (b AND mask 4) AND 0x70" by (simp add: take_bit_eq_mask)
  also have "\<dots> = b AND (mask 4 AND 0x70)" by (simp only: and.assoc)
  also have "mask 4 AND 0x70 = (0 :: u8)" by (simp add: mask_numeral)
  finally show ?thesis by simp
qed

lemma v32_rest_enc:
  assumes "i + n = 5" and "1 \<le> i \<and> i \<le> 4" and "take_bit (7 * i) r = r" and "v < 2 ^ (32 - 7 * i)"
  shows "\<exists>bp b. v32_rest r (of_nat (7 * i)) (varint_enc v @ rest) =
      Some ((r + push_bit (7 * i) (of_nat v), bp, b), rest) \<and> (bp = 35 \<longrightarrow> b AND 0x70 = 0)"
  using assms
proof (induction n arbitrary: i r v)
  case 0
  then show ?case by simp
next
  case (Suc n)
  let ?bp = "of_nat (7 * i) :: u8"
  let ?r = "\<lambda>b :: u8. r OR push_bit (7 * i) (ucast (b AND 0x7F))"
  have i: "i \<le> 4" "i = 1 \<or> i = 2 \<or> i = 3 \<or> i = 4" using Suc.prems(1,2) by auto
  then have bp: "unat ?bp = 7 * i" by (intro unat_of_nat_less) auto
  then have small: "\<not> 32 \<le> ?bp" using i by (simp add: word_le_nat_alt del: of_nat_mult)
  show ?case
  proof (cases "v < 128")
    case True
    then have v: "unat (of_nat v :: u8) = v" by (intro unat_of_nat_less) simp
    then have "of_nat v AND 0x80 = (0 :: u8)" using True by (simp add: and_80)
    with small v True have "v32_rest r ?bp (varint_enc v @ rest) = Some ((?r (of_nat v), ?bp + 7, of_nat v), rest)"
      by (simp add: varint_enc.simps [of v] bp del: of_nat_mult)
    moreover have "?r (of_nat v) = r + push_bit (7 * i) (of_nat v)"
      unfolding or_group(1) [OF Suc.prems(3)] using True by (simp add: v)
    moreover have "of_nat v AND 0x70 = (0 :: u8)" if "?bp + 7 = 35"
    proof -
      from that have "unat (?bp + 7) = 35" by simp
      with i(2) bp have "i = 4" by (auto simp: unat_word_ariths)
      with Suc.prems(4) v show ?thesis by (simp add: and_70)
    qed
    ultimately show ?thesis by (auto simp del: of_nat_mult)
  next
    case False
    let ?b = "of_nat (128 + v mod 128) :: u8"
    have b: "unat ?b = 128 + v mod 128" by (intro unat_of_nat_less) simp
    have i3: "i \<le> 3" using False Suc.prems(4) i(2) by auto
    have "v div 128 < 2 ^ (32 - 7 * Suc i)"
      using Suc.prems(4) i(2) i3 by (auto simp: div_less_iff_less_mult)
    moreover have "take_bit (7 * Suc i) (?r ?b) = ?r ?b"
      using or_group(2) [OF Suc.prems(3), of ?b] by (simp add: add.commute)
    ultimately obtain bp' b' where
      IH: "v32_rest (?r ?b) (of_nat (7 * Suc i)) (varint_enc (v div 128) @ rest) =
        Some ((?r ?b + push_bit (7 * Suc i) (of_nat (v div 128)), bp', b'), rest)" "bp' = 35 \<longrightarrow> b' AND 0x70 = 0"
      using Suc.IH [of "Suc i" "?r ?b" "v div 128"] Suc.prems(1) i3 by auto
    have "?b AND 0x80 \<noteq> 0" using b by (simp only: and_80)
    moreover have "of_nat (7 * Suc i) = ?bp + 7" by simp
    moreover have "varint_enc v = ?b # varint_enc (v div 128)" using False by (simp add: varint_enc.simps [of v])
    ultimately have "v32_rest r ?bp (varint_enc v @ rest) =
        v32_rest (?r ?b) (of_nat (7 * Suc i)) (varint_enc (v div 128) @ rest)"
      using small by (simp add: bp del: of_nat_mult of_nat_add)
    moreover have "?r ?b + push_bit (7 * Suc i) (of_nat (v div 128)) = r + push_bit (7 * i) (of_nat v)"
    proof -
      have "v = v mod 128 + 128 * (v div 128)" by simp
      then have v: "(of_nat v :: u32) = of_nat (v mod 128) + 128 * of_nat (v div 128)"
        by (metis of_nat_add of_nat_mult of_nat_numeral)
      have "?r ?b = r + push_bit (7 * i) (of_nat (v mod 128))"
        unfolding or_group(1) [OF Suc.prems(3)] b by simp
      then show ?thesis
        unfolding v by (simp add: push_bit_eq_mult power_add algebra_simps del: of_nat_mod)
    qed
    ultimately show ?thesis using IH by auto
  qed
qed

lemma varint32_dec_enc: "varint32_dec (varint_enc (unat v) @ rest) = Some (v, rest)"
proof (cases "unat v < 128")
  case True
  then have b: "unat (ucast v :: u8) = unat v"
    by (simp add: unsigned_ucast_eq take_bit_nat_eq_self)
  then have "ucast v AND 0x80 = (0 :: u8)" using True by (simp only: and_80)
  moreover have "ucast (ucast v :: u8) = v"
    using b by (simp only: word_unat_eq_iff) (simp add: unsigned_ucast_eq unsigned_take_bit_eq take_bit_nat_eq_self)
  ultimately show ?thesis
    using True by (simp add: varint_enc.simps [of "unat v"] varint32_dec_def d_then_def byte_dec_def d_return_def)
next
  case False
  let ?b = "of_nat (128 + unat v mod 128) :: u8"
  have b: "unat ?b = 128 + unat v mod 128" by (intro unat_of_nat_less) simp
  have "?b AND 0x80 \<noteq> 0" using b by (simp only: and_80)
  moreover have "take_bit (7 * 1) (ucast (?b AND 0x7F) :: u32) = ucast (?b AND 0x7F)"
    using low_7_bits [of ?b] by simp
  moreover have "unat v div 128 < 2 ^ (32 - 7 * 1)"
    using unsigned_less [of v] by (simp add: div_less_iff_less_mult)
  moreover have "ucast (?b AND 0x7F) + push_bit (7 * 1) (of_nat (unat v div 128)) = v"
  proof -
    have "ucast (?b AND 0x7F) = (of_nat (unat v mod 128) :: u32)" unfolding low_7 b by simp
    moreover have "of_nat (unat v mod 128) + push_bit (7 * 1) (of_nat (unat v div 128)) =
        (of_nat (unat v mod 128 + 128 * (unat v div 128)) :: u32)"
      by (simp only: of_nat_add of_nat_mult) (simp add: push_bit_eq_mult)
    ultimately show ?thesis by (simp only: mod_mult_div_eq word_of_unat)
  qed
  ultimately obtain bp b where "v32_rest (ucast (?b AND 0x7F)) (of_nat (7 * 1)) (varint_enc (unat v div 128) @ rest) =
      Some ((v, bp, b), rest)" "bp = 35 \<longrightarrow> b AND 0x70 = 0"
    using v32_rest_enc [of 1 4 "ucast (?b AND 0x7F)" "unat v div 128" rest] by auto
  moreover have "varint_enc (unat v) = ?b # varint_enc (unat v div 128)"
    using False by (simp add: varint_enc.simps [of "unat v"])
  ultimately show ?thesis
    using \<open>?b AND 0x80 \<noteq> 0\<close>
    by (auto simp: varint32_dec_def d_then_def byte_dec_def d_return_def simp del: of_nat_add)
qed

section \<open>Skipping\<close>

primrec skip_varint_dec :: "unit decoder" where
  "skip_varint_dec [] = None"
| "skip_varint_dec (b # bs) = (if b AND 0x80 \<noteq> 0 then skip_varint_dec bs else Some ((), bs))"

lemma pb_read_1:
  assumes "stream_ok view s"
  shows "stream_bytes view s = [] \<and> fst (pb_read 1 s) = None \<or>
    (\<exists>b s'. pb_read 1 s = (Some [b], s') \<and> advanced view 1 s s' \<and> stream_bytes view s = b # stream_bytes view s')"
proof (cases "stream_bytes view s")
  case Nil
  with pb_read_reads [OF assms, of 1] show ?thesis by (simp add: reads_as_def take_n_def)
next
  case (Cons b bs)
  with pb_read_reads [OF assms, of 1] obtain n s' where
    1: "pb_read 1 s = (Some [b], s')" "advanced view n s s'" "bs = drop n (b # bs)"
    by (auto simp: reads_as_def take_n_def)
  have "length bs = Suc (length bs) - n"
    using arg_cong [OF 1(3), of length] by simp
  moreover have "n \<le> Suc (length bs)"
    using 1(2) Cons length_stream_bytes [OF assms] by (simp add: advanced_def)
  ultimately have "n = 1" by linarith
  with 1 Cons advanced_bytes [OF 1(2)] show ?thesis by auto
qed

lemma skip_varint_reads: "stream_ok view s \<Longrightarrow> reads_as pb_skip_varint skip_varint_dec view s"
proof (induction s rule: pb_skip_varint.induct)
  case (1 s)
  from pb_read_1 [OF "1.prems"] show ?case
  proof (elim disjE exE conjE)
    assume "stream_bytes view s = []" "fst (pb_read 1 s) = None"
    then show ?thesis
      by (auto simp: reads_as_def pb_skip_varint.simps [of s] split: prod.split option.split)
  next
    fix b s'
    assume r: "pb_read 1 s = (Some [b], s')" and adv: "advanced view 1 s s'"
      and bytes: "stream_bytes view s = b # stream_bytes view s'"
    show ?thesis
    proof (cases "b AND 0x80 = 0")
      case True
      with r adv bytes show ?thesis
        by (auto simp: reads_as_def pb_skip_varint.simps [of s] intro!: exI [of _ 1])
    next
      case False
      have "reads_as pb_skip_varint skip_varint_dec view s'"
        using "1.IH" [OF r [symmetric] refl] False advanced_ok [OF adv] by simp
      then show ?thesis
        by (rule reads_as_step [OF adv]) (use r bytes False in \<open>simp_all add: pb_skip_varint.simps [of s]\<close>)
    qed
  qed
qed

definition skip_string_dec :: "unit decoder" where
  "skip_string_dec = d_then varint32_dec (\<lambda>n. skip_n (unat n))"

definition skip_dec :: "u32 \<Rightarrow> unit decoder" where
  "skip_dec wire_type =
     (if wire_type = PB_WT_VARINT then skip_varint_dec
      else if wire_type = PB_WT_64BIT then skip_n 8
      else if wire_type = PB_WT_STRING then skip_string_dec
      else if wire_type = PB_WT_32BIT then skip_n 4
      else (\<lambda>bs. None))"

lemma unat_ucast_32 [simp]: "unat (ucast (v :: u32) :: u64) = unat v"
  using unat_less_32 [of v] by (simp add: unsigned_ucast_eq take_bit_nat_eq_self)

lemma skip_string_reads: "stream_ok view s \<Longrightarrow> reads_as pb_skip_string skip_string_dec view s"
  unfolding pb_skip_string_def skip_string_dec_def
proof (rule reads_as_then [OF varint32_eof_reads], assumption)
  fix n :: u32 and s' :: "'a pb_istream"
  assume "stream_ok view s'"
  from pb_read_null_reads [OF this, of "ucast n"]
  show "reads_as (pb_read_null (ucast n)) (skip_n (unat n)) view s'" by simp
qed

interpretation skip_field: pb_get "pb_skip_field wire_type" "skip_dec wire_type" for wire_type
proof unfold_locales
  fix view and s :: "'a pb_istream"
  assume ok: "stream_ok view s"
  show "reads_as (pb_skip_field wire_type) (skip_dec wire_type) view s"
    using pb_read_null_reads [OF ok, of 8] pb_read_null_reads [OF ok, of 4]
      skip_varint_reads [OF ok] skip_string_reads [OF ok]
    by (simp add: pb_skip_field_def skip_dec_def reads_as_error)
qed

text \<open>A varint, whatever its value, is skipped in one step.\<close>

lemma skip_varint_enc: "skip_varint_dec (varint_enc v @ rest) = Some ((), rest)"
proof (induction v rule: varint_enc.induct)
  case (1 v)
  show ?case
  proof (cases "v < 128")
    case True
    then have "(of_nat v :: u8) AND 0x80 = 0" by (simp add: and_80 unat_of_nat_u8)
    with True show ?thesis by (simp add: varint_enc.simps [of v])
  next
    case False
    have "(of_nat (128 + v mod 128) :: u8) AND 0x80 \<noteq> 0"
      by (simp only: and_80) (simp add: unat_of_nat_u8 del: of_nat_add)
    with False "1.IH" show ?thesis by (simp add: varint_enc.simps [of v] del: of_nat_add)
  qed
qed

section \<open>Substreams\<close>

text \<open>
  A substream of \<open>n\<close> bytes: the stream's bytes split at \<open>n\<close>. Once it has been read in part, closing it
  skips the rest and hands its position back to the stream.
\<close>

lemma substream:
  assumes ok: "stream_ok view s" and d: "varint32_dec (stream_bytes view s) = Some (n, rest)"
    and n: "unat n \<le> length rest"
  shows "\<exists>sub s1. pb_make_string_substream s = (Some sub, s1) \<and> stream_ok view sub \<and>
    stream_bytes view sub = take (unat n) rest \<and>
    (\<forall>k sub'. advanced view k sub sub' \<longrightarrow>
       (\<exists>m s2. pb_close_string_substream sub' s1 = (Some (), s2) \<and> advanced view m s s2 \<and>
          stream_bytes view s2 = drop (unat n) rest))"
proof -
  from decode_varint32.spec_Some [OF ok d] obtain m s0 where
    g: "pb_decode_varint32 s = (Some n, s0)" "advanced view m s s0" "stream_bytes view s0 = rest" by auto
  note ok0 = advanced_ok [OF g(2)]
  have left: "unat n \<le> unat (is_bytes_left s0)"
    using n length_stream_bytes [OF ok0] by (simp add: g(3))
  let ?sub = "s0\<lparr>is_bytes_left := ucast n\<rparr>" and ?s1 = "s0\<lparr>is_bytes_left := is_bytes_left s0 - ucast n\<rparr>"
  have left1: "unat (is_bytes_left s0 - ucast n) = unat (is_bytes_left s0) - unat n"
    using left by (simp add: unat_sub_if_size)
  have make: "pb_make_string_substream s = (Some ?sub, ?s1)"
    using g(1) left by (simp add: pb_make_string_substream_def in_then_def word_less_nat_alt)
  have sub: "stream_ok view ?sub" using ok0 left by (auto simp: stream_ok_def)
  have bytes: "stream_bytes view ?sub = take (unat n) rest"
    using left unfolding g(3) [symmetric] by (simp add: stream_bytes_def min_absorb1)
  have close: "\<exists>m s2. pb_close_string_substream sub' ?s1 = (Some (), s2) \<and> advanced view m s s2 \<and>
      stream_bytes view s2 = drop (unat n) rest" if adv: "advanced view k ?sub sub'" for k sub'
  proof -
    from adv have k: "k \<le> unat n" "unat (is_bytes_left sub') = unat n - k" by (auto simp: advanced_def)
    have len: "length (stream_bytes view sub') = unat n - k"
      using length_stream_bytes [OF advanced_ok [OF adv]] k by simp
    obtain sub2 where skip: "(if is_bytes_left sub' \<noteq> 0 then pb_read_null (is_bytes_left sub') sub'
        else (Some (), sub')) = (Some (), sub2)" "advanced view (unat n - k) sub' sub2"
    proof (cases "is_bytes_left sub' = 0")
      case True
      then have "unat n - k = 0" using k by simp
      with True advanced_refl [OF advanced_ok [OF adv]] show ?thesis by (intro that) auto
    next
      case False
      have "skip_n (unat (is_bytes_left sub')) (stream_bytes view sub') = Some ((), [])"
        using len k by (simp add: skip_n_eq)
      from read_null.spec_Some [OF advanced_ok [OF adv] this] obtain j sub2 where
        2: "pb_read_null (is_bytes_left sub') sub' = (Some (), sub2)" "advanced view j sub' sub2"
        "stream_bytes view sub2 = []" by auto
      have "j = unat n - k"
        using 2(2,3) k length_stream_bytes [OF advanced_ok [OF 2(2)]] by (auto simp: advanced_def)
      with 2 False show ?thesis by (intro that) auto
    qed
    let ?s2 = "?s1\<lparr>is_source := is_source sub2, is_errmsg := is_errmsg sub2\<rparr>"
    have both: "advanced view (unat n) ?sub sub2"
      using advanced_trans [OF adv skip(2)] k(1) by simp
    then have "stream_ok view ?s2"
      using ok0 left left1 by (auto simp: advanced_def stream_ok_def)
    with both left left1 have "advanced view (unat n) s0 ?s2" by (auto simp: advanced_def)
    from advanced_trans [OF g(2) this] advanced_bytes [OF this] g(3)
    show ?thesis
      using skip(1) by (auto simp: pb_close_string_substream_def)
  qed
  from make sub bytes close show ?thesis by blast
qed

end
