(* ===== verification/Pb_Out.thy ===== *)
theory Pb_Out
  imports Pb_Wire
begin

text \<open>
  The output streams of nanopb (\<open>pb_encode.c\<close>) and the wire-level encoders on them. A call returns
  whether it succeeded and the stream.
\<close>

section \<open>Output streams\<close>

text \<open>
  The callback and its \<open>state\<close>: none (a stream that only counts), \<open>buf_write\<close> with its place in a
  memory block, or a callback of the library's user, which takes the bytes or fails.
\<close>

datatype 's pb_sink = Sizing | To_Buffer bytes nat | Writer "'s \<Rightarrow> bytes \<Rightarrow> bool \<times> 's" 's

record 's pb_ostream =
  os_sink :: "'s pb_sink"
  os_max_size :: size_t
  os_bytes_written :: size_t
  os_errmsg :: "string option"

type_synonym 's pb_out = "'s pb_ostream \<Rightarrow> bool \<times> 's pb_ostream"

definition out_ok :: "'s pb_out" where
  "out_ok s = (True, s)"

definition out_then :: "'s pb_out \<Rightarrow> 's pb_out \<Rightarrow> 's pb_out" where
  "out_then m f s = (case m s of (ok, s') \<Rightarrow> if ok then f s' else (False, s'))"

definition out_error :: "string \<Rightarrow> 's pb_out" where
  "out_error msg s = (False, s\<lparr>os_errmsg := set_error (os_errmsg s) msg\<rparr>)"

text \<open>\<open>stream->callback(stream, buf, count)\<close>, with \<open>buf_write\<close> for a memory block.\<close>

definition write_callback :: "bytes \<Rightarrow> 's pb_out" where
  "write_callback buf s =
     (case os_sink s of
        Sizing \<Rightarrow> (True, s)
      | To_Buffer mem dest \<Rightarrow> (True, s\<lparr>os_sink := To_Buffer (blit mem dest buf) (dest + length buf)\<rparr>)
      | Writer f st \<Rightarrow> (case f st buf of (ok, st') \<Rightarrow> (ok, s\<lparr>os_sink := Writer f st'\<rparr>)))"

definition pb_ostream_from_buffer :: "bytes \<Rightarrow> size_t \<Rightarrow> 's pb_ostream" where
  "pb_ostream_from_buffer buf bufsize =
     \<lparr>os_sink = To_Buffer buf 0, os_max_size = bufsize, os_bytes_written = 0, os_errmsg = None\<rparr>"

definition PB_OSTREAM_SIZING :: "'s pb_ostream" where
  "PB_OSTREAM_SIZING = \<lparr>os_sink = Sizing, os_max_size = 0, os_bytes_written = 0, os_errmsg = None\<rparr>"

definition has_callback :: "'s pb_ostream \<Rightarrow> bool" where
  "has_callback s = (case os_sink s of Sizing \<Rightarrow> False | _ \<Rightarrow> True)"

text \<open>\<open>pb_write\<close>: of \<open>buf\<close>, only the \<open>count\<close> bytes; a stream that only counts may get none.\<close>

definition pb_write :: "bytes \<Rightarrow> size_t \<Rightarrow> 's pb_out" where
  "pb_write buf count s =
     (if 0 < count \<and> has_callback s then
        if os_bytes_written s + count < os_bytes_written s \<or> os_max_size s < os_bytes_written s + count
        then out_error ''stream full'' s
        else
          (case write_callback (take (unat count) buf) s of
             (False, s') \<Rightarrow> out_error ''io error'' s'
           | (True, s') \<Rightarrow> (True, s'\<lparr>os_bytes_written := os_bytes_written s' + count\<rparr>))
      else (True, s\<lparr>os_bytes_written := os_bytes_written s + count\<rparr>))"

section \<open>Writing integers\<close>

text \<open>The loop that fills \<open>buffer\<close>, and the buffer with the top bit of its last byte cleared.\<close>

function varint_groups :: "u64 \<Rightarrow> bytes" where
  "varint_groups value =
     (if value = 0 then []
      else ucast ((value AND 0x7F) OR 0x80) # varint_groups (drop_bit 7 value))"
  by pat_completeness auto
termination
proof (relation "measure unat")
  fix v :: u64
  assume "v \<noteq> 0"
  then have "0 < unat v" by (simp add: unat_gt_0)
  then show "(drop_bit 7 v, v) \<in> measure unat"
    by (simp add: drop_bit_eq_div unat_div_distrib)
qed simp

declare varint_groups.simps [simp del]

definition pb_encode_varint :: "u64 \<Rightarrow> 's pb_out" where
  "pb_encode_varint value =
     (if value \<le> 0x7F then pb_write [ucast value] 1
      else
        let buffer = varint_groups value;
            i = length buffer;
            buffer = buffer[i - 1 := buffer ! (i - 1) AND 0x7F]
        in pb_write buffer (of_nat i))"

definition pb_encode_svarint :: "u64 \<Rightarrow> 's pb_out" where
  "pb_encode_svarint value =
     (let zigzagged = (if sint value < 0 then NOT (push_bit 1 value) else push_bit 1 value)
      in pb_encode_varint zigzagged)"

definition pb_encode_fixed32 :: "u32 \<Rightarrow> 's pb_out" where
  "pb_encode_fixed32 val =
     pb_write [ucast (val AND 0xFF), ucast (drop_bit 8 val AND 0xFF), ucast (drop_bit 16 val AND 0xFF),
       ucast (drop_bit 24 val AND 0xFF)] 4"

definition pb_encode_fixed64 :: "u64 \<Rightarrow> 's pb_out" where
  "pb_encode_fixed64 val =
     pb_write [ucast (val AND 0xFF), ucast (drop_bit 8 val AND 0xFF), ucast (drop_bit 16 val AND 0xFF),
       ucast (drop_bit 24 val AND 0xFF), ucast (drop_bit 32 val AND 0xFF), ucast (drop_bit 40 val AND 0xFF),
       ucast (drop_bit 48 val AND 0xFF), ucast (drop_bit 56 val AND 0xFF)] 8"

definition pb_encode_tag :: "u32 \<Rightarrow> u32 \<Rightarrow> 's pb_out" where
  "pb_encode_tag wiretype field_number =
     pb_encode_varint (push_bit 3 (ucast field_number) OR ucast wiretype)"

definition pb_encode_string :: "bytes \<Rightarrow> size_t \<Rightarrow> 's pb_out" where
  "pb_encode_string buffer n = out_then (pb_encode_varint n) (pb_write buffer n)"

section \<open>The contract of a write\<close>

text \<open>
  What a sink has received. For a user callback, \<open>view\<close> gives the bytes its state has taken in, and
  \<open>takes f view\<close> states that it always takes them all.
\<close>

definition takes :: "('s \<Rightarrow> bytes \<Rightarrow> bool \<times> 's) \<Rightarrow> ('s \<Rightarrow> bytes) \<Rightarrow> bool" where
  "takes f view \<longleftrightarrow> (\<forall>st buf. \<exists>st'. f st buf = (True, st') \<and> view st' = view st @ buf)"

text \<open>The space that \<open>max_size\<close> leaves lies in the memory block.\<close>

definition sink_ok :: "('s \<Rightarrow> bytes) \<Rightarrow> 's pb_ostream \<Rightarrow> bool" where
  "sink_ok view s \<longleftrightarrow>
     (case os_sink s of
        Sizing \<Rightarrow> True
      | To_Buffer mem dest \<Rightarrow> dest + (unat (os_max_size s) - unat (os_bytes_written s)) \<le> length mem
      | Writer f st \<Rightarrow> takes f view)"

definition room_for :: "nat \<Rightarrow> 's pb_ostream \<Rightarrow> bool" where
  "room_for n s \<longleftrightarrow> has_callback s \<longrightarrow> n = 0 \<or> unat (os_bytes_written s) + n \<le> unat (os_max_size s)"

text \<open>\<open>s'\<close> is \<open>s\<close> after \<open>x\<close> has been written.\<close>

definition sent :: "('s \<Rightarrow> bytes) \<Rightarrow> bytes \<Rightarrow> 's pb_ostream \<Rightarrow> 's pb_ostream \<Rightarrow> bool" where
  "sent view x s s' \<longleftrightarrow>
     os_bytes_written s' = os_bytes_written s + of_nat (length x) \<and> os_max_size s' = os_max_size s \<and>
     os_errmsg s' = os_errmsg s \<and> sink_ok view s' \<and>
     (case (os_sink s, os_sink s') of
        (Sizing, Sizing) \<Rightarrow> True
      | (To_Buffer mem dest, To_Buffer mem' dest') \<Rightarrow>
          mem' = blit mem dest x \<and> dest' = dest + length x \<and> length mem' = length mem
      | (Writer f st, Writer f' st') \<Rightarrow> f' = f \<and> view st' = view st @ x
      | _ \<Rightarrow> False)"

definition safe :: "'s pb_ostream \<Rightarrow> 's pb_ostream \<Rightarrow> bool" where
  "safe s s' \<longleftrightarrow>
     (case os_sink s of
        To_Buffer mem dest \<Rightarrow> (\<exists>mem' dest'. os_sink s' = To_Buffer mem' dest' \<and> length mem' = length mem)
      | _ \<Rightarrow> True)"

definition puts :: "'s pb_out \<Rightarrow> bytes \<Rightarrow> ('s \<Rightarrow> bytes) \<Rightarrow> 's pb_ostream \<Rightarrow> bool" where
  "puts put x view s \<longleftrightarrow>
     (if room_for (length x) s then \<exists>s'. put s = (True, s') \<and> sent view x s s'
      else \<exists>s'. put s = (False, s') \<and> os_errmsg s' \<noteq> None \<and> safe s s')"

lemma safe_refl: "safe s s"
  by (simp add: safe_def split: pb_sink.split)

lemma safe_trans: "safe s s1 \<Longrightarrow> safe s1 s2 \<Longrightarrow> safe s s2"
  by (fastforce simp: safe_def split: pb_sink.splits)

lemma sent_safe: "sent view x s s' \<Longrightarrow> safe s s'"
  by (auto simp: sent_def safe_def split: pb_sink.splits)

lemma sent_ok: "sent view x s s' \<Longrightarrow> sink_ok view s'"
  by (simp add: sent_def)

lemma sent_callback: "sent view x s s' \<Longrightarrow> has_callback s' = has_callback s"
  by (auto simp: sent_def has_callback_def split: pb_sink.splits)

lemma blit_twice: "i + length x + length y \<le> length m \<Longrightarrow> blit (blit m i x) (i + length x) y = blit m i (x @ y)"
  by (simp add: blit_def min_absorb2 ac_simps)

lemma sent_written:
  assumes "sent view x s s'" and "room_for (length x) s" and "has_callback s"
  shows "unat (os_bytes_written s') = unat (os_bytes_written s) + length x"
proof (cases "x = []")
  case True
  with assms(1) show ?thesis by (simp add: sent_def)
next
  case False
  with assms(2,3) have "unat (os_bytes_written s) + length x < 2 ^ 64"
    using unat_less_64 [of "os_max_size s"] by (simp add: room_for_def)
  moreover have "os_bytes_written s' = of_nat (unat (os_bytes_written s) + length x)"
    using assms(1) by (simp add: sent_def)
  ultimately show ?thesis
    by (simp only: unat_of_nat_less len64)
qed

lemma room_append:
  assumes "sent view x s s'" and "room_for (length x) s"
  shows "room_for (length (x @ y)) s \<longleftrightarrow> room_for (length y) s'"
proof (cases "has_callback s")
  case True
  have "os_max_size s' = os_max_size s" using assms(1) by (simp add: sent_def)
  with True sent_written [OF assms True] sent_callback [OF assms(1)] assms(2) show ?thesis
    by (auto simp: room_for_def)
next
  case False
  with sent_callback [OF assms(1)] show ?thesis by (simp add: room_for_def)
qed

lemma sent_append:
  assumes "sent view x s s1" and "sent view y s1 s2" and "sink_ok view s" and "room_for (length (x @ y)) s"
  shows "sent view (x @ y) s s2"
proof -
  have "dest + length x + length y \<le> length mem" if "os_sink s = To_Buffer mem dest" for mem dest
    using assms(3,4) that
    by (cases "x = [] \<and> y = []") (auto simp: sink_ok_def room_for_def has_callback_def)
  with assms(1,2) show ?thesis
    by (auto simp: sent_def blit_twice split: pb_sink.splits)
qed

lemma puts_then:
  assumes "sink_ok view s" and a: "puts f x view s"
    and b: "\<And>s'. sent view x s s' \<Longrightarrow> sink_ok view s' \<Longrightarrow> puts g y view s'"
  shows "puts (out_then f g) (x @ y) view s"
proof (cases "room_for (length x) s")
  case True
  with a obtain s1 where 1: "f s = (True, s1)" "sent view x s s1" by (auto simp: puts_def)
  note 2 = b [OF 1(2) sent_ok [OF 1(2)]]
  show ?thesis
    using 1 2 room_append [OF 1(2) True, of y] sent_append [OF 1(2) _ assms(1)] sent_safe [OF 1(2)]
    by (auto simp: puts_def out_then_def intro: safe_trans split: if_splits)
next
  case False
  then have "\<not> room_for (length (x @ y)) s" by (auto simp: room_for_def)
  with a False show ?thesis by (auto simp: puts_def out_then_def)
qed

lemma pb_write_puts:
  assumes ok: "sink_ok view s" and n: "unat n \<le> length buf"
  shows "puts (pb_write buf n) (take (unat n) buf) view s"
proof (cases "0 < n \<and> has_callback s")
  case False
  then show ?thesis
    using ok n
    by (auto simp: puts_def room_for_def pb_write_def sent_def sink_ok_def has_callback_def min_absorb2
      blit_def word_gt_0 split: pb_sink.splits)
next
  case True
  then have pos: "0 < unat n" by (simp add: word_gt_0 unat_gt_0)
  show ?thesis
  proof (cases "os_bytes_written s + n < os_bytes_written s \<or> os_max_size s < os_bytes_written s + n")
    case full: True
    have "\<not> unat (os_bytes_written s) + unat n \<le> unat (os_max_size s)"
    proof
      assume le: "unat (os_bytes_written s) + unat n \<le> unat (os_max_size s)"
      then have "unat (os_bytes_written s + n) = unat (os_bytes_written s) + unat n"
        using unat_less_64 [of "os_max_size s"] by (simp add: unat_word_ariths)
      with full le show False by (auto simp: word_less_nat_alt)
    qed
    with True pos n full show ?thesis
      by (auto simp: puts_def room_for_def pb_write_def out_error_def set_error_def safe_def min_absorb2
        split: option.split pb_sink.split)
  next
    case fits: False
    then have sum: "unat (os_bytes_written s + n) = unat (os_bytes_written s) + unat n"
      by (metis unat_plus_simple not_less)
    with fits have le: "unat (os_bytes_written s) + unat n \<le> unat (os_max_size s)"
      by (simp add: word_less_nat_alt)
    have room: "room_for (length (take (unat n) buf)) s"
      using le n by (simp add: room_for_def min_absorb2)
    have "\<exists>s'. pb_write buf n s = (True, s') \<and> sent view (take (unat n) buf) s s'"
    proof (cases "os_sink s")
      case Sizing
      with True show ?thesis by (simp add: has_callback_def)
    next
      case (To_Buffer mem dest)
      with ok le n have "dest + unat n \<le> length mem" by (simp add: sink_ok_def)
      with To_Buffer ok True fits n le sum show ?thesis
        by (auto simp: pb_write_def write_callback_def sent_def sink_ok_def min_absorb2 length_blit)
    next
      case (Writer f st)
      with ok obtain st' where "f st (take (unat n) buf) = (True, st')" "view st' = view st @ take (unat n) buf"
        by (auto simp: sink_ok_def takes_def)
      with Writer ok True fits n show ?thesis
        by (auto simp: pb_write_def write_callback_def sent_def sink_ok_def min_absorb2)
    qed
    with room show ?thesis by (simp add: puts_def)
  qed
qed

section \<open>What the encoders write\<close>

lemma update_last: "xs \<noteq> [] \<Longrightarrow> (xs[length xs - 1 := f (xs ! (length xs - 1))]) = butlast xs @ [f (last xs)]"
  by (induction xs rule: rev_induct) (simp_all add: list_update_append)

lemma group_byte: "ucast (((v :: u64) AND 0x7F) OR 0x80) = (of_nat (128 + unat v mod 128) :: u8)"
proof -
  have "(v AND 0x7F) = take_bit 7 v" by (simp add: take_bit_eq_mask mask_numeral)
  then have "unat (v AND 0x7F) = unat v mod 128"
    by (simp only: unsigned_take_bit_eq) (simp add: take_bit_eq_mod)
  moreover have "(v AND 0x7F) OR 0x80 = (v AND 0x7F) + 0x80"
  proof (rule disjunctive_add [symmetric])
    fix n
    have "\<not> bit (0x7F :: u64) 7" by simp
    moreover have "bit (0x80 :: u64) n \<longleftrightarrow> n = 7"
      using bit_push_bit_iff [of 7 "1 :: u64" n] by (auto simp: bit_1_iff)
    ultimately show "\<not> bit (v AND 0x7F) n \<or> \<not> bit (0x80 :: u64) n"
      by (auto simp: bit_and_iff)
  qed
  ultimately have "unat ((v AND 0x7F) OR 0x80) = unat v mod 128 + 128"
    by (simp add: unat_word_ariths)
  then show ?thesis
    by (simp add: word_unat_eq_iff unsigned_ucast_eq unsigned_take_bit_eq unsigned_of_nat add.commute
      del: of_nat_add)
qed

lemma groups_enc:
  "v \<noteq> 0 \<Longrightarrow> varint_groups v \<noteq> [] \<and>
     butlast (varint_groups v) @ [last (varint_groups v) AND 0x7F] = varint_enc (unat v)"
proof (induction v rule: varint_groups.induct)
  case (1 v)
  let ?b = "ucast ((v AND 0x7F) OR 0x80) :: u8"
  have groups: "varint_groups v = ?b # varint_groups (drop_bit 7 v)"
    using "1.prems" by (simp add: varint_groups.simps [of v])
  have shift: "unat (drop_bit 7 v) = unat v div 128"
    by (simp add: drop_bit_eq_div unat_div_distrib)
  show ?case
  proof (cases "unat v < 128")
    case True
    then have z: "drop_bit 7 v = 0" using shift by (simp add: word_unat_eq_iff)
    have "unat ?b = 128 + unat v" unfolding group_byte using True by (simp add: unat_of_nat_u8 del: of_nat_add)
    then have "unat (?b AND 0x7F) = unat v" using True by (simp add: unat_and_7f)
    then have "?b AND 0x7F = of_nat (unat v)"
      using True by (simp only: word_unat_eq_iff) (subst unat_of_nat_u8, simp_all)
    with True groups z show ?thesis
      by (simp add: varint_enc.simps [of "unat v"] varint_groups.simps [of 0])
  next
    case False
    then have nz: "drop_bit 7 v \<noteq> 0" using shift by (auto simp: word_unat_eq_iff)
    from "1.IH" [OF "1.prems" nz] groups shift False group_byte [of v] show ?thesis
      by (simp add: varint_enc.simps [of "unat v"])
  qed
qed

lemma varint_enc_length: "v < 128 ^ Suc n \<Longrightarrow> length (varint_enc v) \<le> Suc n"
proof (induction n arbitrary: v)
  case 0
  then show ?case by (simp add: varint_enc.simps [of v])
next
  case (Suc n)
  then have "v div 128 < 128 ^ Suc n" by (simp add: div_less_iff_less_mult mult.commute)
  from Suc.IH [OF this] show ?case by (simp add: varint_enc.simps [of v])
qed

lemma varint_enc_length_64: "length (varint_enc (unat (v :: u64))) \<le> 10"
proof -
  have "unat v < 128 ^ Suc 9" by (rule less_trans [OF unat_less_64]) simp
  from varint_enc_length [OF this] show ?thesis by simp
qed

lemma encode_varint_puts:
  assumes "sink_ok view s"
  shows "puts (pb_encode_varint v) (varint_enc (unat v)) view s"
proof (cases "v \<le> 0x7F")
  case True
  then have "unat v < 128" by (simp add: word_le_nat_alt)
  then have "varint_enc (unat v) = [ucast v]" by (simp add: varint_enc.simps [of "unat v"])
  moreover have "puts (pb_write [ucast v] 1) (take (unat (1 :: size_t)) [ucast v]) view s"
    by (rule pb_write_puts [OF assms]) simp
  ultimately show ?thesis using True by (simp add: pb_encode_varint_def)
next
  case False
  then have nz: "v \<noteq> 0" by auto
  let ?g = "varint_groups v"
  let ?buf = "?g[length ?g - 1 := ?g ! (length ?g - 1) AND 0x7F]"
  from groups_enc [OF nz] have buf: "?buf = varint_enc (unat v)"
    by (simp add: update_last [where f = "\<lambda>b. b AND 0x7F"] del: One_nat_def)
  then have len: "length ?g = length (varint_enc (unat v))" by (metis length_list_update)
  then have "unat (of_nat (length ?g) :: size_t) = length (varint_enc (unat v))"
    using varint_enc_length_64 [of v] by (simp add: unat_of_nat_less)
  with pb_write_puts [OF assms, of "of_nat (length ?g)" ?buf] buf len False show ?thesis
    by (simp add: pb_encode_varint_def Let_def)
qed

text \<open>A write operation that sends the encoding of its argument, and the same for a list of arguments.\<close>

fun put_list :: "('a \<Rightarrow> 's pb_out) \<Rightarrow> 'a list \<Rightarrow> 's pb_out" where
  "put_list put [] = out_ok"
| "put_list put (x # xs) = out_then (put x) (put_list put xs)"

lemma puts_nothing: "sink_ok view s \<Longrightarrow> puts out_ok [] view s"
  by (auto simp: puts_def out_ok_def room_for_def sent_def sink_ok_def blit_def split: pb_sink.split)

locale pb_put =
  fixes put :: "'a \<Rightarrow> 's pb_out" and enc :: "'a \<Rightarrow> bytes" and ok :: "'a \<Rightarrow> bool"
  assumes put_puts: "ok x \<Longrightarrow> sink_ok view s \<Longrightarrow> puts (put x) (enc x) view s"
begin

lemma list_puts:
  "list_all ok xs \<Longrightarrow> sink_ok view s \<Longrightarrow> puts (put_list put xs) (concat (map enc xs)) view s"
  by (induction xs arbitrary: s) (auto intro!: puts_then put_puts puts_nothing)

lemma put_True:
  assumes "ok x" and "sink_ok view s" and "put x s = (True, s')"
  shows "sent view (enc x) s s' \<and> room_for (length (enc x)) s"
  using put_puts [OF assms(1,2)] assms(3) by (auto simp: puts_def split: if_splits)

lemma put_room: "ok x \<Longrightarrow> sink_ok view s \<Longrightarrow> fst (put x s) \<longleftrightarrow> room_for (length (enc x)) s"
  using put_puts [of x view s] by (auto simp: puts_def split: if_splits)

end

lemma sink_ok_buffer: "length buf = unat n \<Longrightarrow> sink_ok view (pb_ostream_from_buffer buf n)"
  by (simp add: sink_ok_def pb_ostream_from_buffer_def)

lemma buffer_puts:
  assumes "length buf = unat n" and "puts put x view (pb_ostream_from_buffer buf n)" (is "puts _ _ _ ?s")
    and "put (pb_ostream_from_buffer buf n) = (True, s')"
  shows "\<exists>mem. os_sink s' = To_Buffer mem (length x) \<and> take (length x) mem = x \<and> length mem = length buf \<and>
    unat (os_bytes_written s') = length x"
proof -
  have room: "room_for (length x) ?s" and sent: "sent view x ?s s'"
    using assms(2,3) by (auto simp: puts_def split: if_splits)
  have cb: "has_callback ?s" by (simp add: has_callback_def pb_ostream_from_buffer_def)
  from sent obtain mem where mem: "os_sink s' = To_Buffer mem (length x)" "mem = blit buf 0 x"
    "length mem = length buf"
    by (auto simp: sent_def pb_ostream_from_buffer_def split: pb_sink.splits)
  moreover have "take (length x) mem = x" by (simp add: mem(2) blit_def)
  moreover have "unat (os_bytes_written s') = length x"
    using sent_written [OF sent room cb] by (simp add: pb_ostream_from_buffer_def)
  ultimately show ?thesis by simp
qed

lemma stream_from_buffer:
  assumes "unat n \<le> length mem"
  shows "stream_ok view (pb_istream_from_buffer mem n)"
    and "stream_bytes view (pb_istream_from_buffer mem n) = take (unat n) mem"
  using assms by (simp_all add: stream_ok_def stream_bytes_def pb_istream_from_buffer_def source_bytes_def)

locale pb_round_trip = pb_put put enc ok + pb_codec get spec enc ok'
  for put :: "'a \<Rightarrow> 's pb_out" and enc ok and get :: "('t, 'a) pb_in" and spec ok' +
  assumes ok_ok': "ok x \<Longrightarrow> ok' x"
begin

lemma round_trip:
  assumes "list_all ok xs" and "length buf = unat n"
    and "put_list put xs (pb_ostream_from_buffer buf n) = (True, s')"
  shows "\<exists>mem dest t. os_sink s' = To_Buffer mem dest \<and>
    read_list get (length xs) (pb_istream_from_buffer mem (os_bytes_written s')) = (Some xs, t) \<and>
    is_bytes_left t = 0"
proof -
  let ?x = "concat (map enc xs)"
  have ok': "list_all ok' xs" using assms(1) ok_ok' by (auto simp: list.pred_set)
  note p = list_puts [OF assms(1) sink_ok_buffer [OF assms(2)], of "\<lambda>_. []"]
  from buffer_puts [OF assms(2) p assms(3)] obtain mem where
    mem: "os_sink s' = To_Buffer mem (length ?x)" "take (length ?x) mem = ?x"
    "unat (os_bytes_written s') = length ?x" by auto
  let ?t = "pb_istream_from_buffer mem (os_bytes_written s')"
  have "length ?x \<le> length mem" using mem(2) by (metis length_take min.cobounded1)
  note t = stream_from_buffer [of "os_bytes_written s'" mem "\<lambda>_. []", unfolded mem(3), OF this]
  from read_list_enc [OF t(1) ok', of "[]"] t(2) mem(2) obtain t' where
    "read_list get (length xs) ?t = (Some xs, t')" "advanced (\<lambda>_. []) (length ?x) ?t t'"
    by auto
  moreover have "is_bytes_left t' = 0"
    using calculation(2) mem(3) by (simp add: advanced_def pb_istream_from_buffer_def word_unat_eq_iff)
  ultimately show ?thesis using mem(1) by auto
qed

end

interpretation varint: pb_round_trip pb_encode_varint "\<lambda>v. varint_enc (unat v)" "\<lambda>_. True"
  pb_decode_varint varint_dec "\<lambda>_. True"
  by unfold_locales (simp_all add: encode_varint_puts)

section \<open>Signed integers\<close>

definition zigzag :: "u64 \<Rightarrow> u64" where
  "zigzag v = (if sint v < 0 then NOT (push_bit 1 v) else push_bit 1 v)"

definition unzigzag :: "u64 \<Rightarrow> u64" where
  "unzigzag v = (if v AND 1 \<noteq> 0 then NOT (drop_bit 1 v) else drop_bit 1 v)"

lemma sign_bit: "bit (v :: u64) 63 \<longleftrightarrow> sint v < 0"
  using bit_last_iff [of v] by simp

lemma and_1: "(v :: u64) AND 1 \<noteq> 0 \<longleftrightarrow> bit v 0"
  by (simp add: and_one_eq odd_iff_mod_2_eq_one bit_0)

lemma bit_zigzag: "n < 64 \<Longrightarrow> bit (zigzag v) n \<longleftrightarrow> (sint v < 0) \<noteq> (0 < n \<and> bit v (n - 1))"
  unfolding zigzag_def
  by (cases "sint v < 0") (auto simp only: bit_not_iff bit_push_bit_iff if_True if_False; auto simp: Suc_le_eq)+

lemma unzigzag_zigzag: "unzigzag (zigzag v) = v"
proof (cases "sint v < 0")
  case True
  then have odd: "zigzag v AND 1 \<noteq> 0" by (simp only: and_1) (simp add: bit_zigzag)
  have "NOT (drop_bit 1 (zigzag v)) = v"
  proof (rule bit_word_eqI)
    fix n
    assume n: "n < LENGTH(64)"
    then consider "n < 63" | "n = 63" by (simp add: less_Suc_eq numeral_eq_Suc) linarith
    then show "bit (NOT (drop_bit 1 (zigzag v))) n = bit v n"
      by cases (use True sign_bit [of v] in \<open>auto simp: bit_simps bit_zigzag dest: bit_imp_le_length\<close>)
  qed
  with odd show ?thesis by (simp add: unzigzag_def)
next
  case False
  then have even: "\<not> (zigzag v AND 1 \<noteq> 0)" by (simp only: and_1) (simp add: bit_zigzag)
  have "drop_bit 1 (zigzag v) = v"
  proof (rule bit_word_eqI)
    fix n
    assume n: "n < LENGTH(64)"
    then consider "n < 63" | "n = 63" by (simp add: less_Suc_eq numeral_eq_Suc) linarith
    then show "bit (drop_bit 1 (zigzag v)) n = bit v n"
      by cases (use False sign_bit [of v] in \<open>auto simp: bit_simps bit_zigzag dest: bit_imp_le_length\<close>)
  qed
  with even show ?thesis by (simp add: unzigzag_def)
qed

lemma unat_NOT: "unat (NOT (x :: u64)) = 2 ^ 64 - 1 - unat x"
proof -
  have "NOT x = - 1 - x" by (simp add: not_eq_complement)
  moreover have "unat (- 1 :: u64) = 2 ^ 64 - 1" by (simp only: unsigned_minus_1_eq_mask) (simp add: mask_numeral)
  moreover have "unat x < 2 ^ 64" by (rule unat_less_64)
  ultimately show ?thesis by (simp add: unat_sub_if_size)
qed

lemma unat_zigzag: "unat (zigzag v) = nat (if sint v < 0 then - 2 * sint v - 1 else 2 * sint v)"
proof -
  have lt: "unat v < 2 ^ 64" by (rule unat_less_64)
  have double: "unat (push_bit 1 v) = 2 * unat v mod 2 ^ 64"
    by (simp add: push_bit_eq_mult unat_word_ariths mult.commute)
  show ?thesis
  proof (cases "unat v < 2 ^ 63")
    case True
    then have "sint v = int (unat v)" by (simp add: sint_u64)
    with True double show ?thesis by (simp add: zigzag_def del: of_nat_unat)
  next
    case False
    then have s: "sint v = int (unat v) - 2 ^ 64" by (simp add: sint_u64)
    have "int (unat v) < 2 ^ 64" using lt by (simp del: of_nat_unat)
    with s have neg: "sint v < 0" by (simp del: of_nat_unat)
    have "2 * unat v mod 2 ^ 64 = 2 * unat v - 2 ^ 64"
      using False lt by (simp add: mod_if)
    then have "unat (NOT (push_bit 1 v)) = 2 ^ 64 - 1 - (2 * unat v - 2 ^ 64)"
      by (simp only: unat_NOT double)
    with neg s False lt show ?thesis by (simp add: zigzag_def del: of_nat_unat)
  qed
qed

definition svarint_dec :: "u64 decoder" where
  "svarint_dec = d_then varint_dec (\<lambda>v. d_return (unzigzag v))"

interpretation svarint: pb_round_trip pb_encode_svarint "\<lambda>v. varint_enc (unat (zigzag v))" "\<lambda>_. True"
  pb_decode_svarint svarint_dec "\<lambda>_. True"
proof unfold_locales
  fix view s v
  assume "sink_ok view s"
  then show "puts (pb_encode_svarint v) (varint_enc (unat (zigzag v))) view s"
    by (simp add: pb_encode_svarint_def zigzag_def [symmetric] encode_varint_puts)
next
  fix view s
  assume "stream_ok view s"
  then show "reads_as pb_decode_svarint svarint_dec view s"
    unfolding pb_decode_svarint_def svarint_dec_def unzigzag_def [abs_def]
    by (intro reads_as_then pb_decode_varint_reads reads_as_return)
next
  fix v rest
  show "svarint_dec (varint_enc (unat (zigzag v)) @ rest) = Some (v, rest)"
    by (simp add: svarint_dec_def d_then_def d_return_def varint_dec_enc unzigzag_zigzag)
qed simp

section \<open>Fixed-width integers\<close>

definition le_bytes :: "nat \<Rightarrow> nat \<Rightarrow> bytes" where
  "le_bytes n v = rev (be_bytes n v)"

lemma le_bytes_simps [simp]:
  "le_bytes 0 v = []" "le_bytes (Suc n) v = of_nat v # le_bytes n (v div 256)"
proof -
  have "(of_nat (v mod 256) :: u8) = of_nat v"
    by (simp add: word_unat_eq_iff unsigned_of_nat take_bit_eq_mod)
  then show "le_bytes (Suc n) v = of_nat v # le_bytes n (v div 256)" by (simp add: le_bytes_def)
qed (simp add: le_bytes_def)

lemma length_le_bytes [simp]: "length (le_bytes n v) = n"
  by (simp add: le_bytes_def)

lemma low_byte: "ucast ((v :: 'a::len word) AND 0xFF) = (ucast v :: u8)"
proof -
  have m: "(0xFF :: 'a word) = mask 8" by (simp add: mask_numeral)
  show ?thesis
    unfolding m
    by (rule bit_word_eqI) (auto simp only: bit_and_iff bit_mask_iff bit_ucast_iff; auto dest: bit_imp_le_length)+
qed

lemma byte_at: "(of_nat (unat v div 2 ^ k) :: u8) = ucast (drop_bit k (v :: 'a::len word))"
proof -
  have "unat (drop_bit k v) = drop_bit k (unat v)" by (rule unat_drop_bit_eq)
  then have "unat (drop_bit k v) = unat v div 2 ^ k" by (simp only: drop_bit_eq_div)
  then show ?thesis by (metis unsigned_of_nat of_nat_unat word_of_nat_eq_iff)
qed

lemma le_bytes_4: "le_bytes 4 n = [of_nat n, of_nat (n div 2 ^ 8), of_nat (n div 2 ^ 16), of_nat (n div 2 ^ 24)]"
proof -
  have "(4 :: nat) = Suc (Suc (Suc (Suc 0)))" by simp
  then show ?thesis by (simp only: le_bytes_simps) (simp add: div_mult2_eq [symmetric])
qed

lemma le_bytes_8: "le_bytes 8 n = le_bytes 4 n @ le_bytes 4 (n div 2 ^ 32)"
proof -
  have "(8 :: nat) = Suc (Suc (Suc (Suc (Suc (Suc (Suc (Suc 0)))))))" by simp
  then show ?thesis
    unfolding le_bytes_4 by (simp only: le_bytes_simps) (simp add: div_mult2_eq [symmetric])
qed

definition join32 :: "bytes \<Rightarrow> u32" where
  "join32 bytes =
     push_bit 0 (ucast (bytes ! 0)) OR push_bit 8 (ucast (bytes ! 1)) OR
     push_bit 16 (ucast (bytes ! 2)) OR push_bit 24 (ucast (bytes ! 3))"

lemma le_bytes_word: "le_bytes 4 (unat v) =
    [ucast v, ucast (drop_bit 8 v), ucast (drop_bit 16 v), ucast (drop_bit 24 v)]" for v :: "'a::len word"
  unfolding le_bytes_4 byte_at by simp

lemma join32: "join32 (le_bytes 4 (unat v)) = v"
proof (rule bit_word_eqI)
  fix n
  assume n: "n < LENGTH(32)"
  then consider "n < 8" | "8 \<le> n" "n < 16" | "16 \<le> n" "n < 24" | "24 \<le> n" "n < 32" by (simp, linarith)
  then show "bit (join32 (le_bytes 4 (unat v))) n = bit v n"
    by cases (auto simp: join32_def le_bytes_word bit_simps)
qed

definition join64 :: "bytes \<Rightarrow> u64" where
  "join64 bytes =
     push_bit 0 (ucast (bytes ! 0)) OR push_bit 8 (ucast (bytes ! 1)) OR
     push_bit 16 (ucast (bytes ! 2)) OR push_bit 24 (ucast (bytes ! 3)) OR
     push_bit 32 (ucast (bytes ! 4)) OR push_bit 40 (ucast (bytes ! 5)) OR
     push_bit 48 (ucast (bytes ! 6)) OR push_bit 56 (ucast (bytes ! 7))"

lemma le_bytes_word_8: "le_bytes 8 (unat v) =
    [ucast v, ucast (drop_bit 8 v), ucast (drop_bit 16 v), ucast (drop_bit 24 v),
     ucast (drop_bit 32 v), ucast (drop_bit 40 v), ucast (drop_bit 48 v), ucast (drop_bit 56 v)]"
  for v :: "'a::len word"
proof -
  have "unat v div 2 ^ 32 div 2 ^ k = unat v div 2 ^ (32 + k)" for k
    by (simp add: div_mult2_eq power_add)
  then show ?thesis
    unfolding le_bytes_8 le_bytes_4 by (simp only: byte_at) (simp flip: byte_at)
qed

lemma join64_be: "join64 [b0, b1, b2, b3, b4, b5, b6, b7] = be_read [b7, b6, b5, b4, b3, b2, b1, b0]"
  by (simp add: join64_def be_read_def be_step_def push_bit_or push_bit_push_bit or.commute or.left_commute)

lemma join64: "join64 (le_bytes 8 (unat v)) = v"
proof -
  have "join64 (le_bytes 8 (unat v)) = be_read (rev (le_bytes 8 (unat v)))"
    unfolding le_bytes_word_8 join64_be by simp
  also have "\<dots> = be_read (be_bytes 8 (unat v))"
    by (simp add: le_bytes_def)
  also have "\<dots> = v"
    using unat_less_64 [of v] by (simp add: word_unat_eq_iff unat_be_read)
  finally show ?thesis .
qed

definition fixed32_dec :: "u32 decoder" where
  "fixed32_dec = d_then (take_n 4) (\<lambda>bytes. d_return (join32 bytes))"

definition fixed64_dec :: "u64 decoder" where
  "fixed64_dec = d_then (take_n 8) (\<lambda>bytes. d_return (join64 bytes))"

interpretation fixed32: pb_round_trip pb_encode_fixed32 "\<lambda>v. le_bytes 4 (unat v)" "\<lambda>_. True"
  pb_decode_fixed32 fixed32_dec "\<lambda>_. True"
proof unfold_locales
  fix view s v
  assume "sink_ok view s"
  from pb_write_puts [OF this, of 4 "le_bytes 4 (unat v)"]
  show "puts (pb_encode_fixed32 v) (le_bytes 4 (unat v)) view s"
    by (simp add: pb_encode_fixed32_def low_byte le_bytes_word)
next
  fix view s
  assume ok: "stream_ok view s"
  from pb_read_reads [OF ok, of 4] have "reads_as (pb_read 4) (take_n 4) view s" by simp
  then show "reads_as pb_decode_fixed32 fixed32_dec view s"
    unfolding pb_decode_fixed32_def fixed32_dec_def join32_def [symmetric]
    by (rule reads_as_then) (rule reads_as_return)
next
  fix v rest
  show "fixed32_dec (le_bytes 4 (unat v) @ rest) = Some (v, rest)"
    by (simp add: fixed32_dec_def d_then_def d_return_def take_n_def join32)
qed simp

interpretation fixed64: pb_round_trip pb_encode_fixed64 "\<lambda>v. le_bytes 8 (unat v)" "\<lambda>_. True"
  pb_decode_fixed64 fixed64_dec "\<lambda>_. True"
proof unfold_locales
  fix view s v
  assume "sink_ok view s"
  from pb_write_puts [OF this, of 8 "le_bytes 8 (unat v)"]
  show "puts (pb_encode_fixed64 v) (le_bytes 8 (unat v)) view s"
    by (simp add: pb_encode_fixed64_def low_byte le_bytes_word_8)
next
  fix view s
  assume ok: "stream_ok view s"
  from pb_read_reads [OF ok, of 8] have "reads_as (pb_read 8) (take_n 8) view s" by simp
  then show "reads_as pb_decode_fixed64 fixed64_dec view s"
    unfolding pb_decode_fixed64_def fixed64_dec_def join64_def [symmetric]
    by (rule reads_as_then) (rule reads_as_return)
next
  fix v rest
  show "fixed64_dec (le_bytes 8 (unat v) @ rest) = Some (v, rest)"
    by (simp add: fixed64_dec_def d_then_def d_return_def take_n_def join64)
qed simp

section \<open>Keys and strings\<close>

lemma encode_string_puts:
  assumes "sink_ok view s" and "length x = unat n"
  shows "puts (pb_encode_string x n) (varint_enc (length x) @ x) view s"
proof -
  have "puts (pb_encode_varint n) (varint_enc (length x)) view s"
    using encode_varint_puts [OF assms(1), of n] assms(2) by simp
  moreover have "puts (pb_write x n) x view s'" if "sink_ok view s'" for s'
    using pb_write_puts [OF that, of n x] assms(2) by simp
  ultimately show ?thesis
    unfolding pb_encode_string_def by (intro puts_then [OF assms(1)]) auto
qed

text \<open>The key of a field: its tag above three bits of wire type.\<close>

definition key_word :: "u32 \<Rightarrow> u32 \<Rightarrow> u64" where
  "key_word wiretype tag = push_bit 3 (ucast tag) OR ucast wiretype"

lemma encode_tag_puts:
  "sink_ok view s \<Longrightarrow> puts (pb_encode_tag wiretype tag) (varint_enc (unat (key_word wiretype tag))) view s"
  unfolding pb_encode_tag_def key_word_def by (rule encode_varint_puts)

lemma unat_key_word:
  assumes "wiretype < 8"
  shows "unat (key_word wiretype tag) = unat tag * 8 + unat wiretype"
proof -
  have "unat wiretype < 8" using assms by (simp add: word_less_nat_alt)
  then have "take_bit 3 (ucast wiretype) = (ucast wiretype :: u64)"
    by (simp add: word_unat_eq_iff unsigned_take_bit_eq unsigned_ucast_eq take_bit_nat_eq_self)
  then have "key_word wiretype tag = push_bit 3 (ucast tag) + ucast wiretype"
    unfolding key_word_def by (rule or_eq_plus_push)
  moreover have "unat tag * 8 < 2 ^ 35" using unat_less_32 [of tag] by simp
  ultimately show ?thesis
    using \<open>unat wiretype < 8\<close>
    by (simp add: push_bit_eq_mult unat_word_ariths unsigned_ucast_eq take_bit_nat_eq_self)
qed

end
