(* ===== verification/Pb_Use.thy ===== *)
theory Pb_Use
  imports Pb_Out
begin

text \<open>
  The wire-level encoders and decoders of nanopb used together: round trips through a buffer, skipping
  what the encoders wrote, reading inside a length-delimited string, and the values that the 32-bit
  varint reader gets wrong.
\<close>

section \<open>Round trips\<close>

text \<open>
  C24: whatever list of 64-bit values is written with \<open>pb_encode_varint\<close> into a buffer, if every call
  returns true then \<open>pb_decode_varint\<close> reads the same list back and has then read all of it.
\<close>

theorem varint_round_trip:
  assumes "length buf = unat n"
    and "put_list pb_encode_varint vs (pb_ostream_from_buffer buf n) = (True, s')"
  shows "\<exists>mem dest t. os_sink s' = To_Buffer mem dest \<and>
    read_list pb_decode_varint (length vs) (pb_istream_from_buffer mem (os_bytes_written s') :: 't pb_istream) =
      (Some vs, t) \<and>
    is_bytes_left t = 0"
  by (rule varint.round_trip [OF _ assms]) (simp add: list.pred_True)

theorem varint_round_trip_witness:
  "\<exists>s' mem dest t. put_list pb_encode_varint [5, 300] (pb_ostream_from_buffer [0, 0, 0, 0] 4 :: unit pb_ostream) =
      (True, s') \<and>
    os_sink s' = To_Buffer mem dest \<and>
    read_list pb_decode_varint 2 (pb_istream_from_buffer mem (os_bytes_written s') :: unit pb_istream) =
      (Some [5, 300], t)"
proof -
  let ?r = "put_list pb_encode_varint [5, 300] (pb_ostream_from_buffer [0, 0, 0, 0] 4 :: unit pb_ostream)"
  have "fst ?r" by code_simp
  then have r: "?r = (True, snd ?r)" by (simp only: prod_eq_iff fst_conv snd_conv)
  have "length [0 :: u8, 0, 0, 0] = unat (4 :: size_t)" "length [5 :: u64, 300] = 2" by simp_all
  with varint_round_trip [OF this(1) r, where ?'t = unit] show ?thesis
    by (intro exI [of _ "snd ?r"]) (simp only: r [symmetric], blast)
qed

text \<open>
  The signed integer \<open>i\<close> goes on the wire as the varint of \<open>2 i\<close>, or of \<open>- 2 i - 1\<close> when it is
  negative, and \<open>pb_decode_svarint\<close> gives it back.
\<close>

theorem svarint_round_trip:
  assumes "length buf = unat n"
    and "put_list pb_encode_svarint vs (pb_ostream_from_buffer buf n) = (True, s')"
  shows "\<exists>mem dest t. os_sink s' = To_Buffer mem dest \<and>
    take (unat (os_bytes_written s')) mem =
      concat (map (\<lambda>v. varint_enc (nat (if sint v < 0 then - 2 * sint v - 1 else 2 * sint v))) vs) \<and>
    read_list pb_decode_svarint (length vs) (pb_istream_from_buffer mem (os_bytes_written s') :: 't pb_istream) =
      (Some vs, t) \<and>
    is_bytes_left t = 0"
proof -
  have all: "list_all (\<lambda>_. True) vs" by (simp add: list.pred_True)
  from svarint.round_trip [OF all assms] obtain mem dest t where
    "os_sink s' = To_Buffer mem dest"
    "read_list pb_decode_svarint (length vs) (pb_istream_from_buffer mem (os_bytes_written s') :: 't pb_istream) =
      (Some vs, t)"
    "is_bytes_left t = 0" by auto
  moreover from buffer_puts [OF assms(1) svarint.list_puts [OF all sink_ok_buffer [OF assms(1)], of "\<lambda>_. []"] assms(2)]
    calculation(1)
  have "take (unat (os_bytes_written s')) mem = concat (map (\<lambda>v. varint_enc (unat (zigzag v))) vs)"
    by auto
  ultimately show ?thesis by (auto simp: unat_zigzag)
qed

theorem svarint_round_trip_witness:
  "\<exists>s' mem dest t. put_list pb_encode_svarint [-2] (pb_ostream_from_buffer [0, 0] 2 :: unit pb_ostream) =
      (True, s') \<and>
    os_sink s' = To_Buffer mem dest \<and>
    read_list pb_decode_svarint 1 (pb_istream_from_buffer mem (os_bytes_written s') :: unit pb_istream) =
      (Some [-2], t)"
proof -
  let ?r = "put_list pb_encode_svarint [-2] (pb_ostream_from_buffer [0, 0] 2 :: unit pb_ostream)"
  have "fst ?r" by code_simp
  then have r: "?r = (True, snd ?r)" by (simp only: prod_eq_iff fst_conv snd_conv)
  have "length [0 :: u8, 0] = unat (2 :: size_t)" "length [- 2 :: u64] = 1" by simp_all
  with svarint_round_trip [OF this(1) r, where ?'t = unit] show ?thesis
    by (intro exI [of _ "snd ?r"]) (simp only: r [symmetric], blast)
qed

section \<open>Skipping\<close>

text \<open>What the encoders write after a key with the given wire type.\<close>

definition payload :: "u32 \<Rightarrow> bytes \<Rightarrow> bool" where
  "payload wire_type p \<longleftrightarrow>
     wire_type = PB_WT_VARINT \<and> (\<exists>v :: u64. p = varint_enc (unat v)) \<or>
     wire_type = PB_WT_64BIT \<and> (\<exists>v :: u64. p = le_bytes 8 (unat v)) \<or>
     wire_type = PB_WT_STRING \<and> (\<exists>x. length x < 2 ^ 32 \<and> p = varint_enc (length x) @ x) \<or>
     wire_type = PB_WT_32BIT \<and> (\<exists>v :: u32. p = le_bytes 4 (unat v))"

text \<open>
  C25: \<open>pb_skip_field\<close> reads over the contents of a field of any wire type as the encoders write them,
  no byte more and no byte less, from a buffer and from a callback stream alike.
\<close>

theorem skip_field_exact:
  assumes "stream_ok view s" and "payload wire_type p" and "stream_bytes view s = p @ rest"
  shows "\<exists>s'. pb_skip_field wire_type s = (Some (), s') \<and> stream_bytes view s' = rest \<and>
    advanced view (length p) s s'"
proof -
  have "skip_dec wire_type (p @ rest) = Some ((), rest)"
    using assms(2) unfolding payload_def
  proof (elim disjE conjE exE)
    fix x :: bytes
    assume "wire_type = PB_WT_STRING" "length x < 2 ^ 32" "p = varint_enc (length x) @ x"
    then show ?thesis
      using varint32_dec_enc [of "of_nat (length x)" "x @ rest"]
      by (simp add: skip_dec_def skip_string_dec_def d_then_def skip_n_eq unat_of_nat_less
        PB_WT_VARINT_def PB_WT_64BIT_def PB_WT_STRING_def)
  qed (simp_all add: skip_dec_def skip_varint_enc skip_n_eq PB_WT_VARINT_def PB_WT_64BIT_def
      PB_WT_STRING_def PB_WT_32BIT_def)
  with skip_field.spec_Some [OF assms(1), of wire_type] assms(3) obtain n s' where
    1: "pb_skip_field wire_type s = (Some (), s')" "advanced view n s s'" "stream_bytes view s' = rest"
    by auto
  have "n = length p"
    using 1(2,3) length_stream_bytes [OF assms(1)] length_stream_bytes [OF advanced_ok [OF 1(2)]] assms(3)
    by (auto simp: advanced_def)
  with 1 show ?thesis by auto
qed

theorem skip_field_exact_witness:
  "\<exists>s'. pb_skip_field 2 (pb_istream_from_buffer [3, 97, 98, 99, 7] 5) = (Some (), s') \<and>
     stream_bytes (\<lambda>_. []) s' = [7]"
proof -
  have "varint_enc (length [97 :: u8, 98, 99]) @ [97, 98, 99] = [3, 97, 98, 99]"
    by (simp add: varint_enc.simps [of "Suc (Suc (Suc 0))"])
  then have "payload 2 [3, 97, 98, 99]"
    unfolding payload_def PB_WT_STRING_def
    by (intro disjI2 disjI1 conjI exI [of _ "[97, 98, 99]"]) simp_all
  with skip_field_exact [OF stream_from_buffer(1) this, of 5 "[3, 97, 98, 99, 7]" "\<lambda>_. []" "[7]"]
  show ?thesis by (auto simp: stream_from_buffer)
qed

section \<open>Strings\<close>

text \<open>
  C26: a length-delimited field opened with \<open>pb_make_string_substream\<close> gives a stream of exactly its
  contents, and after any part of them has been read, \<open>pb_close_string_substream\<close> leaves the outer
  stream right behind the field.
\<close>

theorem substream_delimits:
  assumes "stream_ok view s" and "length x < 2 ^ 32" and "stream_bytes view s = varint_enc (length x) @ x @ rest"
  shows "\<exists>sub s1. pb_make_string_substream s = (Some sub, s1) \<and> stream_ok view sub \<and>
    stream_bytes view sub = x \<and>
    (\<forall>k sub'. advanced view k sub sub' \<longrightarrow>
       (\<exists>m s2. pb_close_string_substream sub' s1 = (Some (), s2) \<and> advanced view m s s2 \<and>
          stream_bytes view s2 = rest))"
proof -
  have n: "unat (of_nat (length x) :: u32) = length x" using assms(2) by (simp add: unat_of_nat_less)
  from varint32_dec_enc [of "of_nat (length x)" "x @ rest"]
  have "varint32_dec (stream_bytes view s) = Some (of_nat (length x), x @ rest)"
    unfolding n assms(3) .
  from substream [OF assms(1) this] show ?thesis by (simp add: n)
qed

theorem substream_delimits_witness:
  "\<exists>sub s1. pb_make_string_substream (pb_istream_from_buffer [2, 97, 98, 7] 4) = (Some sub, s1) \<and>
    stream_bytes (\<lambda>_. []) sub = [97, 98] \<and>
    (\<exists>s2. pb_close_string_substream sub s1 = (Some (), s2) \<and> stream_bytes (\<lambda>_. []) s2 = [7])"
proof -
  have "stream_bytes (\<lambda>_. []) (pb_istream_from_buffer [2, 97, 98, 7] 4) =
      varint_enc (length [97 :: u8, 98]) @ [97, 98] @ [7]"
    by (simp add: stream_from_buffer varint_enc.simps [of "Suc (Suc 0)"])
  from substream_delimits [OF stream_from_buffer(1) _ this] show ?thesis
    using advanced_refl by fastforce
qed

section \<open>The 32-bit varint reader\<close>

text \<open>
  A varint given by its groups of seven bits, least significant first, in the shortest form or not: the
  bytes on the wire and the number they mean.
\<close>

primrec varint_of :: "nat list \<Rightarrow> bytes" where
  "varint_of [] = []"
| "varint_of (d # ds) = (if ds = [] then [of_nat d] else of_nat (128 + d) # varint_of ds)"

primrec groups_value :: "nat list \<Rightarrow> nat" where
  "groups_value [] = 0"
| "groups_value (d # ds) = d + 128 * groups_value ds"

text \<open>
  What \<open>pb_decode_varint32\<close> accepts. Up to five groups, the number has to fit in 32 bits. Of a longer
  varint the groups from the sixth on are either zero or, when bit 31 of the result is set, a piece of
  the sign extension of a negative number: a byte \<open>0xFF\<close>, so not the last, among the groups below bit
  63, and a last byte 1 from there on.
\<close>

definition tail_ok :: "bool \<Rightarrow> nat \<Rightarrow> nat list \<Rightarrow> bool" where
  "tail_ok negative i ds \<longleftrightarrow>
     (\<forall>j<length ds. ds ! j = 0 \<or>
        negative \<and> (if i + j < 9 then ds ! j = 127 \<and> Suc j < length ds
                    else ds ! j = 1 \<and> Suc j = length ds))"

definition varint32_ok :: "nat list \<Rightarrow> bool" where
  "varint32_ok ds \<longleftrightarrow>
     (if length ds \<le> 5 then groups_value ds < 2 ^ 32
      else tail_ok (2 ^ 31 \<le> groups_value ds mod 2 ^ 32) 5 (drop 5 ds))"

lemma tail_ok_Nil: "tail_ok neg i []"
  by (simp add: tail_ok_def)

lemma tail_ok_Cons:
  "tail_ok neg i (d # ds) \<longleftrightarrow>
     (d = 0 \<or> neg \<and> (if i < 9 then d = 127 \<and> ds \<noteq> [] else d = 1 \<and> ds = [])) \<and> tail_ok neg (Suc i) ds"
proof -
  have "(\<forall>j<Suc (length ds). P j) \<longleftrightarrow> P 0 \<and> (\<forall>j<length ds. P (Suc j))" for P :: "nat \<Rightarrow> bool"
    by (auto simp: less_Suc_eq_0_disj)
  then show ?thesis by (simp add: tail_ok_def)
qed

lemma raw_group:
  assumes "d < 128"
  shows "unat (of_nat d :: u8) = d" "unat (of_nat (128 + d) :: u8) = 128 + d"
    "of_nat d AND 0x80 = (0 :: u8)" "of_nat (128 + d) AND 0x80 \<noteq> (0 :: u8)"
    "of_nat d AND 0x7F = (0 :: u8) \<longleftrightarrow> d = 0" "of_nat (128 + d) AND 0x7F = (0 :: u8) \<longleftrightarrow> d = 0"
    "ucast (of_nat d AND 0x7F :: u8) = (of_nat d :: u32)" "ucast (of_nat (128 + d) AND 0x7F :: u8) = (of_nat d :: u32)"
proof -
  show u: "unat (of_nat d :: u8) = d" "unat (of_nat (128 + d) :: u8) = 128 + d"
    using assms by (intro unat_of_nat_less; simp)+
  show "of_nat d AND 0x80 = (0 :: u8)" "of_nat (128 + d) AND 0x80 \<noteq> (0 :: u8)"
    using assms u by (simp_all only: and_80)
  show "of_nat d AND 0x7F = (0 :: u8) \<longleftrightarrow> d = 0" "of_nat (128 + d) AND 0x7F = (0 :: u8) \<longleftrightarrow> d = 0"
    using assms u by (simp_all only: word_unat_eq_iff unat_and_7f) simp_all
  show "ucast (of_nat d AND 0x7F :: u8) = (of_nat d :: u32)" "ucast (of_nat (128 + d) AND 0x7F :: u8) = (of_nat d :: u32)"
    using assms unfolding low_7 u by simp_all
qed

lemma v32_rest_tail:
  assumes "ds \<noteq> []" and "5 \<le> i" and "i + length ds \<le> 37" and "\<forall>d\<in>set ds. d < 128"
  shows "v32_rest r (of_nat (7 * i)) (varint_of ds @ rest) =
    (if tail_ok (2 ^ 31 \<le> unat r) i ds
     then Some ((r, of_nat (7 * (i + length ds)), of_nat (last ds)), rest) else None)"
  using assms
proof (induction ds arbitrary: i)
  case (Cons d ds)
  let ?bp = "of_nat (7 * i) :: u8"
  have d: "d < 128" using Cons.prems by simp
  note b = raw_group [OF d]
  have "7 * i < 256" using Cons.prems by simp
  then have bp: "unat ?bp = 7 * i" by (intro unat_of_nat_less) simp
  then have big: "32 \<le> ?bp" and sgn: "?bp < 63 \<longleftrightarrow> i < 9"
    using Cons.prems(2) by (simp_all add: word_le_nat_alt word_less_nat_alt del: of_nat_mult)
  have neg: "drop_bit 31 r = 0 \<longleftrightarrow> \<not> 2 ^ 31 \<le> unat r"
  proof -
    have "unat (drop_bit 31 r) = unat r div 2 ^ 31"
      by (simp only: unat_drop_bit_eq) (simp add: drop_bit_eq_div)
    then show ?thesis unfolding word_unat_eq_iff by (auto simp: div_eq_0_iff)
  qed
  have bp': "?bp + 7 = of_nat (7 * Suc i)" by simp
  show ?case
  proof (cases "ds = []")
    case True
    have "of_nat d \<noteq> (0xFF :: u8)" "of_nat d = (1 :: u8) \<longleftrightarrow> d = 1"
      using d b(1) by (auto simp: word_unat_eq_iff)
    then show ?thesis
      using b True big sgn neg
      by (auto simp: tail_ok_Cons tail_ok_Nil bp' simp del: of_nat_mult)
  next
    case False
    have eq: "of_nat (128 + d) = (0xFF :: u8) \<longleftrightarrow> d = 127" "of_nat (128 + d) \<noteq> (1 :: u8)"
      using d b(2) by (simp_all only: word_unat_eq_iff) simp_all
    have IH: "v32_rest r (?bp + 7) (varint_of ds @ rest) =
      (if tail_ok (2 ^ 31 \<le> unat r) (Suc i) ds
       then Some ((r, of_nat (7 * (i + length (d # ds))), of_nat (last ds)), rest) else None)"
      unfolding bp' using Cons.IH [of "Suc i"] Cons.prems False by (simp del: of_nat_mult)
    show ?thesis
      using b eq False big sgn neg
      by (auto simp: tail_ok_Cons IH simp del: of_nat_mult of_nat_add)
  qed
qed simp

lemma v32_rest_groups:
  assumes "ds \<noteq> []" and "1 \<le> i" and "i \<le> 5" and "i + length ds \<le> 37" and "\<forall>d\<in>set ds. d < 128"
    and "take_bit (7 * i) r = r"
  shows "v32_rest r (of_nat (7 * i)) (varint_of ds @ rest) =
    (let v = r + push_bit (7 * i) (of_nat (groups_value ds))
     in if i + length ds \<le> 5 \<or> tail_ok (2 ^ 31 \<le> unat v) 5 (drop (5 - i) ds)
        then Some ((v, of_nat (7 * (i + length ds)), of_nat (last ds)), rest) else None)"
  using assms
proof (induction ds arbitrary: i r)
  case (Cons d ds)
  show ?case
  proof (cases "i = 5")
    case True
    have "push_bit (7 * i) x = (0 :: u32)" for x
      by (rule bit_word_eqI) (simp add: True bit_simps)
    then show ?thesis
      using v32_rest_tail [of "d # ds" i r rest] Cons.prems True by (simp add: Let_def)
  next
    case False
    with Cons.prems(3) have i: "i \<le> 4" by simp
    let ?bp = "of_nat (7 * i) :: u8"
    have d: "d < 128" using Cons.prems by simp
    note b = raw_group [OF d]
    have bp: "unat ?bp = 7 * i" using i by (intro unat_of_nat_less) simp
    then have small: "\<not> 32 \<le> ?bp" using i by (simp add: word_le_nat_alt del: of_nat_mult)
    have bp': "?bp + 7 = of_nat (7 * Suc i)" by simp
    let ?r = "r + push_bit (7 * i) (of_nat d)"
    have or1: "r OR push_bit (7 * i) (of_nat d) = ?r" and or2: "take_bit (7 * Suc i) ?r = ?r"
      using or_group [OF Cons.prems(6), of "of_nat d"] b d by (simp_all add: add.commute)
    show ?thesis
    proof (cases "ds = []")
      case True
      then show ?thesis
        using b small i by (simp add: or1 bp bp' Let_def tail_ok_Nil del: of_nat_mult)
    next
      case F: False
      have v: "?r + push_bit (7 * Suc i) (of_nat (groups_value ds)) =
          r + push_bit (7 * i) (of_nat (groups_value (d # ds)))"
        by (simp add: push_bit_eq_mult power_add algebra_simps)
      have "v32_rest r ?bp (varint_of (d # ds) @ rest) = v32_rest ?r (of_nat (7 * Suc i)) (varint_of ds @ rest)"
        using b small F by (simp add: or1 bp bp' Let_def del: of_nat_mult of_nat_add)
      also have "\<dots> = (let v = r + push_bit (7 * i) (of_nat (groups_value (d # ds)))
         in if Suc i + length ds \<le> 5 \<or> tail_ok (2 ^ 31 \<le> unat v) 5 (drop (5 - Suc i) ds)
            then Some ((v, of_nat (7 * (Suc i + length ds)), of_nat (last ds)), rest) else None)"
        unfolding v [symmetric] using Cons.IH [of "Suc i" ?r] Cons.prems F i or2 by simp
      moreover have "drop (5 - i) (d # ds) = drop (5 - Suc i) ds"
      proof -
        have "5 - i = Suc (4 - i)" "5 - Suc i = 4 - i" using i by simp_all
        then show ?thesis by (simp only: drop_Suc_Cons)
      qed
      moreover have "last (d # ds) = last ds" using F by simp
      ultimately show ?thesis by (simp only: length_Cons add_Suc_right add_Suc)
    qed
  qed
qed simp

lemma groups_value_append:
  "groups_value (ds @ es) = groups_value ds + 128 ^ length ds * groups_value es"
  by (induction ds) (simp_all add: algebra_simps)

lemma groups_value_less: "\<forall>d\<in>set ds. d < 128 \<Longrightarrow> groups_value ds < 128 ^ length ds"
  by (induction ds) auto

lemma five_groups:
  assumes "\<forall>d\<in>set ds. d < 128" and "length ds = 5"
  shows "of_nat (last ds) AND 0x70 = (0 :: u8) \<longleftrightarrow> groups_value ds < 2 ^ 32"
proof -
  obtain es d where ds: "ds = es @ [d]" "length es = 4" "d < 128"
    using assms by (cases ds rule: rev_cases) auto
  have less: "groups_value es < 2 ^ 28" using groups_value_less [of es] assms(1) by (simp add: ds)
  have v: "groups_value ds = groups_value es + 2 ^ 28 * d" by (simp add: ds groups_value_append)
  have "groups_value ds < 2 ^ 32 \<longleftrightarrow> d < 16" using less unfolding v by auto
  moreover have "list_all (\<lambda>d. (of_nat d AND 0x70 = (0 :: u8)) = (d < 16)) [0..<128]" by code_simp
  then have "of_nat d AND 0x70 = (0 :: u8) \<longleftrightarrow> d < 16" using ds(3) by (simp add: list_all_iff)
  ultimately show ?thesis by (simp add: ds)
qed

lemma varint32_dec_groups:
  assumes "ds \<noteq> []" and "length ds \<le> 37" and "\<forall>d\<in>set ds. d < 128"
  shows "varint32_dec (varint_of ds @ rest) =
    (if varint32_ok ds then Some (of_nat (groups_value ds), rest) else None)"
proof -
  obtain d es where ds: "ds = d # es" using assms(1) by (cases ds) auto
  have d: "d < 128" using assms(3) by (simp add: ds)
  note b = raw_group [OF d]
  show ?thesis
  proof (cases "es = []")
    case True
    have "ucast (of_nat d :: u8) = (of_nat d :: u32)"
    proof -
      have "take_bit 32 d = d" using d by (intro take_bit_nat_eq_self) simp
      then show ?thesis
        using b(1) d by (simp only: word_unat_eq_iff) (simp add: unsigned_ucast_eq unsigned_take_bit_eq unat_of_nat)
    qed
    with True b d show ?thesis
      by (simp add: ds varint32_dec_def d_then_def byte_dec_def d_return_def varint32_ok_def)
  next
    case False
    let ?v = "of_nat (groups_value ds) :: u32"
    have r: "take_bit (7 * 1) (of_nat d) = (of_nat d :: u32)"
    proof -
      have "take_bit (7 * 1) d = d" using d by (intro take_bit_nat_eq_self) simp
      then show ?thesis by (simp only: take_bit_of_nat)
    qed
    have v: "of_nat d + push_bit (7 * 1) (of_nat (groups_value es)) = ?v"
      by (simp add: ds push_bit_eq_mult)
    have ok: "(length ds \<le> 5 \<or> tail_ok (2 ^ 31 \<le> unat ?v) 5 (drop 5 ds)) \<and>
        (length ds = 5 \<longrightarrow> groups_value ds < 2 ^ 32) \<longleftrightarrow> varint32_ok ds"
    proof (cases "length ds < 5")
      case True
      have "groups_value ds < 128 ^ length ds" by (rule groups_value_less [OF assms(3)])
      also have "\<dots> \<le> 128 ^ 4" using True by (intro power_increasing) auto
      finally show ?thesis using True by (simp add: varint32_ok_def)
    qed (auto simp: varint32_ok_def unat_of_nat tail_ok_Nil)
    have last: "of_nat (last es) AND 0x70 \<noteq> (0 :: u8) \<longleftrightarrow> \<not> groups_value ds < 2 ^ 32" if "length ds = 5"
      using five_groups [OF assms(3) that] False by (simp add: ds)
    have bp: "of_nat (7 * length ds) = (35 :: u8) \<longleftrightarrow> length ds = 5"
    proof -
      have "of_nat (7 * length ds) = (35 :: u8) \<longleftrightarrow> 7 * length ds mod 256 = 35"
        by (simp only: word_unat_eq_iff unat_of_nat) simp
      moreover have "length ds = 37 \<or> 7 * length ds < 256" using assms(2) by linarith
      ultimately show ?thesis by auto
    qed
    have "v32_rest (of_nat d) (of_nat (7 * 1)) (varint_of es @ rest) =
      (if length ds \<le> 5 \<or> tail_ok (2 ^ 31 \<le> unat ?v) 5 (drop 5 ds)
       then Some ((?v, of_nat (7 * length ds), of_nat (last es)), rest) else None)"
      using v32_rest_groups [of es 1 "of_nat d" rest] False assms(2,3) r v by (simp add: ds Let_def)
    moreover have "varint32_dec (varint_of ds @ rest) =
      (case v32_rest (of_nat d) (of_nat (7 * 1)) (varint_of es @ rest) of
         None \<Rightarrow> None
       | Some ((r, bitpos, b), bs) \<Rightarrow> if bitpos = 35 \<and> b AND 0x70 \<noteq> 0 then None else Some (r, bs))"
      using b(4,8) False
      by (simp add: ds varint32_dec_def d_then_def byte_dec_def d_return_def del: of_nat_add split: bind_splits option.split)
    ultimately have "varint32_dec (varint_of ds @ rest) =
      (if (length ds \<le> 5 \<or> tail_ok (2 ^ 31 \<le> unat ?v) 5 (drop 5 ds)) \<and>
          \<not> (of_nat (7 * length ds) = (35 :: u8) \<and> of_nat (last es) AND 0x70 \<noteq> (0 :: u8))
       then Some (?v, rest) else None)"
      by simp
    moreover have "(of_nat (7 * length ds) = (35 :: u8) \<and> of_nat (last es) AND 0x70 \<noteq> (0 :: u8)) \<longleftrightarrow>
        \<not> (length ds = 5 \<longrightarrow> groups_value ds < 2 ^ 32)"
      using last bp by blast
    ultimately show ?thesis by (simp only: not_not ok)
  qed
qed

text \<open>
  C27: what \<open>pb_decode_varint32\<close> makes of a varint of up to 37 groups, where \<open>bitpos\<close> has not wrapped
  yet, on every stream: which varints it accepts, and that the result is the number modulo
  \<open>2\<^sup>3\<^sup>2\<close>, with the rest of the stream left. So the overflow check is complete for up to five
  groups only: of a fifth group that is not the last, the three bits beyond bit 31 are dropped, and for
  every \<open>v < 2\<^sup>3\<^sup>5\<close> the varint of \<open>v\<close> with zero groups behind its fifth is read as
  \<open>v mod 2\<^sup>3\<^sup>2\<close>. It fails on every other varint.
\<close>

theorem varint32_exact:
  assumes "stream_ok view s" and "stream_bytes view s = varint_of ds @ rest"
    and "ds \<noteq> []" and "length ds \<le> 37" and "\<forall>d\<in>set ds. d < 128"
  shows "if varint32_ok ds
    then \<exists>s'. pb_decode_varint32 s = (Some (of_nat (groups_value ds)), s') \<and> stream_bytes view s' = rest
    else fst (pb_decode_varint32 s) = None"
  using decode_varint32.spec_Some [OF assms(1)] decode_varint32.spec_None [OF assms(1)]
  by (auto simp: assms(2) varint32_dec_groups [OF assms(3-5)])

theorem varint32_exact_witness:
  "fst (pb_decode_varint32 (pb_istream_from_buffer [0x80, 0x80, 0x80, 0x80, 0xf0, 0] 6 :: 's pb_istream)) = Some 0 \<and>
   groups_value [0, 0, 0, 0, 0x70, 0] = 7 * 2 ^ 32 \<and>
   fst (pb_decode_varint32 (pb_istream_from_buffer [0x80, 0x80, 0x80, 0x80, 0x70] 5 :: 's pb_istream)) = None"
proof (intro conjI)
  let ?view = "\<lambda>_ :: 's. [] :: bytes"
  let ?long = "[0x80, 0x80, 0x80, 0x80, 0xf0, 0] :: bytes" and ?short = "[0x80, 0x80, 0x80, 0x80, 0x70] :: bytes"
  show v: "groups_value [0, 0, 0, 0, 0x70, 0] = 7 * 2 ^ 32" by code_simp
  have "unat (6 :: size_t) \<le> length ?long" "unat (5 :: size_t) \<le> length ?short" by simp_all
  note ok = this [THEN stream_from_buffer(1), where view = ?view] and bytes = this [THEN stream_from_buffer(2), where view = ?view]
  have "take (unat (6 :: size_t)) ?long = varint_of [0, 0, 0, 0, 0x70, 0] @ []"
    "take (unat (5 :: size_t)) ?short = varint_of [0, 0, 0, 0, 0x70] @ []" by code_simp+
  note exact = varint32_exact [OF ok(1) trans [OF bytes(1) this(1)]] varint32_exact [OF ok(2) trans [OF bytes(2) this(2)]]
  have "varint32_ok [0, 0, 0, 0, 0x70, 0]" "\<not> varint32_ok [0, 0, 0, 0, 0x70]" by code_simp+
  note v32 = this
  show "fst (pb_decode_varint32 (pb_istream_from_buffer ?long 6 :: 's pb_istream)) = Some 0"
    using exact(1) by (simp only: v32 if_True v) auto
  show "fst (pb_decode_varint32 (pb_istream_from_buffer ?short 5 :: 's pb_istream)) = None"
    using exact(2) by (simp only: v32 if_False) simp
qed

text \<open>After 37 groups \<open>bitpos\<close> has wrapped at 256, and the next group is taken as bits 3 to 9.\<close>

lemma varint32_wraps:
  "fst (pb_decode_varint32 (pb_istream_from_buffer (replicate 37 0x80 @ [1]) 38 :: 's pb_istream)) = Some 8"
proof -
  have "varint32_dec (replicate 37 0x80 @ [1]) = Some (8, [])" by code_simp
  moreover have "unat (38 :: size_t) \<le> length (replicate 37 0x80 @ [1 :: u8])" by simp
  note this [THEN stream_from_buffer(1), where view = "\<lambda>_ :: 's. []"]
    this [THEN stream_from_buffer(2), where view = "\<lambda>_ :: 's. []"]
  moreover have "take (unat (38 :: size_t)) (replicate 37 0x80 @ [1 :: u8]) = replicate 37 0x80 @ [1]" by simp
  ultimately show ?thesis using decode_varint32.spec_Some by (metis fst_conv)
qed

end
