(* ===== verification/Pb_Common.thy ===== *)
theory Pb_Common
  imports Pb_Out
begin

text \<open>
  The message descriptors of nanopb (\<open>pb.h\<close>) and the iterator over them (\<open>pb_common.c\<close>), as the app
  builds them: \<open>PB_FIELD_32BIT\<close>, 64-bit pointers. A descriptor array is a list; past its end, as at
  its end in the program, stands \<open>PB_LAST_FIELD\<close>. Pointers to it are indices, every other pointer is
  an address.
\<close>

section \<open>Field types\<close>

named_theorems pb_consts "the constants of pb.h"

definition PB_LTYPE_BOOL :: u8 where [pb_consts]: "PB_LTYPE_BOOL = 0x00"
definition PB_LTYPE_VARINT :: u8 where [pb_consts]: "PB_LTYPE_VARINT = 0x01"
definition PB_LTYPE_UVARINT :: u8 where [pb_consts]: "PB_LTYPE_UVARINT = 0x02"
definition PB_LTYPE_SVARINT :: u8 where [pb_consts]: "PB_LTYPE_SVARINT = 0x03"
definition PB_LTYPE_FIXED32 :: u8 where [pb_consts]: "PB_LTYPE_FIXED32 = 0x04"
definition PB_LTYPE_FIXED64 :: u8 where [pb_consts]: "PB_LTYPE_FIXED64 = 0x05"
definition PB_LTYPE_LAST_PACKABLE :: u8 where [pb_consts]: "PB_LTYPE_LAST_PACKABLE = 0x05"
definition PB_LTYPE_BYTES :: u8 where [pb_consts]: "PB_LTYPE_BYTES = 0x06"
definition PB_LTYPE_STRING :: u8 where [pb_consts]: "PB_LTYPE_STRING = 0x07"
definition PB_LTYPE_SUBMESSAGE :: u8 where [pb_consts]: "PB_LTYPE_SUBMESSAGE = 0x08"
definition PB_LTYPE_EXTENSION :: u8 where [pb_consts]: "PB_LTYPE_EXTENSION = 0x09"
definition PB_LTYPE_FIXED_LENGTH_BYTES :: u8 where [pb_consts]: "PB_LTYPE_FIXED_LENGTH_BYTES = 0x0A"

definition PB_HTYPE_REQUIRED :: u8 where [pb_consts]: "PB_HTYPE_REQUIRED = 0x00"
definition PB_HTYPE_OPTIONAL :: u8 where [pb_consts]: "PB_HTYPE_OPTIONAL = 0x10"
definition PB_HTYPE_REPEATED :: u8 where [pb_consts]: "PB_HTYPE_REPEATED = 0x20"
definition PB_HTYPE_ONEOF :: u8 where [pb_consts]: "PB_HTYPE_ONEOF = 0x30"

definition PB_ATYPE_STATIC :: u8 where [pb_consts]: "PB_ATYPE_STATIC = 0x00"
definition PB_ATYPE_POINTER :: u8 where [pb_consts]: "PB_ATYPE_POINTER = 0x80"
definition PB_ATYPE_CALLBACK :: u8 where [pb_consts]: "PB_ATYPE_CALLBACK = 0x40"

definition PB_ATYPE :: "u8 \<Rightarrow> u8" where "PB_ATYPE x = x AND 0xC0"
definition PB_HTYPE :: "u8 \<Rightarrow> u8" where "PB_HTYPE x = x AND 0x30"
definition PB_LTYPE :: "u8 \<Rightarrow> u8" where "PB_LTYPE x = x AND 0x0F"

definition PB_SIZE_MAX :: u32 where "PB_SIZE_MAX = - 1"

section \<open>Descriptors\<close>

text \<open>
  \<open>fd_size_offset\<close> is signed, in two's complement. \<open>fd_ptr\<close> is the address of the descriptor of a
  submessage, or of a default value.
\<close>

record pb_field =
  fd_tag :: u32
  fd_type :: u8
  fd_data_offset :: u32
  fd_size_offset :: u32
  fd_data_size :: u32
  fd_array_size :: u32
  fd_ptr :: u64

definition PB_LAST_FIELD :: pb_field where
  "PB_LAST_FIELD = \<lparr>fd_tag = 0, fd_type = 0, fd_data_offset = 0, fd_size_offset = 0, fd_data_size = 0,
     fd_array_size = 0, fd_ptr = 0\<rparr>"

definition field_at :: "pb_field list \<Rightarrow> nat \<Rightarrow> pb_field" where
  "field_at fs i = (if i < length fs then fs ! i else PB_LAST_FIELD)"

abbreviation ltype :: "pb_field \<Rightarrow> u8" where "ltype field \<equiv> PB_LTYPE (fd_type field)"
abbreviation htype :: "pb_field \<Rightarrow> u8" where "htype field \<equiv> PB_HTYPE (fd_type field)"
abbreviation atype :: "pb_field \<Rightarrow> u8" where "atype field \<equiv> PB_ATYPE (fd_type field)"

lemma htype_oneof:
  assumes "htype field \<noteq> PB_HTYPE_REQUIRED" and "htype field \<noteq> PB_HTYPE_OPTIONAL"
    and "htype field \<noteq> PB_HTYPE_REPEATED"
  shows "htype field = PB_HTYPE_ONEOF"
proof -
  let ?t = "take_bit 2 (drop_bit 4 (fd_type field))"
  have mask: "(0x30 :: u8) = push_bit 4 (mask 2)" by (simp add: mask_eq_exp_minus_1)
  have eq: "htype field = push_bit 4 ?t"
    unfolding PB_HTYPE_def mask by (rule bit_word_eqI) (auto simp: bit_simps)
  have "unat ?t < 4" by (simp only: unsigned_take_bit_eq) (simp add: take_bit_eq_mod)
  then have "?t = 0 \<or> ?t = 1 \<or> ?t = 2 \<or> ?t = 3" by (auto simp: word_unat_eq_iff)
  then show ?thesis using assms by (auto simp: eq pb_consts)
qed

section \<open>The iterator\<close>

record pb_field_iter =
  it_start :: "pb_field list"
  it_pos :: nat
  it_required :: u32
  it_dest :: u64
  it_pData :: u64
  it_pSize :: u64

abbreviation it_field :: "pb_field_iter \<Rightarrow> pb_field" where
  "it_field it \<equiv> field_at (it_start it) (it_pos it)"

definition pb_field_iter_begin :: "pb_field list \<Rightarrow> u64 \<Rightarrow> bool \<times> pb_field_iter" where
  "pb_field_iter_begin fs dest_struct =
     (let pos = field_at fs 0;
          pData = dest_struct + ucast (fd_data_offset pos)
      in (fd_tag pos \<noteq> 0,
          \<lparr>it_start = fs, it_pos = 0, it_required = 0, it_dest = dest_struct, it_pData = pData,
           it_pSize = pData + scast (fd_size_offset pos)\<rparr>))"

definition prev_size :: "pb_field \<Rightarrow> u64" where
  "prev_size field =
     (if atype field = PB_ATYPE_STATIC \<and> htype field = PB_HTYPE_REPEATED then
        ucast (fd_data_size field) * ucast (fd_array_size field)
      else if atype field = PB_ATYPE_POINTER then 8
      else ucast (fd_data_size field))"

definition pb_field_iter_next :: "pb_field_iter \<Rightarrow> bool \<times> pb_field_iter" where
  "pb_field_iter_next it =
     (let prev_field = it_field it;
          it1 = it\<lparr>it_pos := it_pos it + 1\<rparr>;
          pos = it_field it1
      in
        if fd_tag prev_field = 0 then (False, it)
        else if fd_tag pos = 0 then (False, snd (pb_field_iter_begin (it_start it) (it_dest it)))
        else if htype prev_field = PB_HTYPE_ONEOF \<and> htype pos = PB_HTYPE_ONEOF \<and>
            fd_data_offset pos = PB_SIZE_MAX then (True, it1)
        else
          let pData = it_pData it + prev_size prev_field + ucast (fd_data_offset pos) in
          (True, it1\<lparr>
             it_required := (if htype prev_field = PB_HTYPE_REQUIRED then it_required it + 1 else it_required it),
             it_pData := pData, it_pSize := pData + scast (fd_size_offset pos)\<rparr>))"

text \<open>
  The search loop of \<open>pb_field_iter_find\<close> and \<open>find_extension_field\<close>: forward, around the end, and
  back to where it began. The first argument bounds the rounds; one more than the array has fields
  are never used up (lemma \<open>find_loop_finds\<close>).
\<close>

primrec find_loop :: "nat \<Rightarrow> (pb_field \<Rightarrow> bool) \<Rightarrow> nat \<Rightarrow> pb_field_iter \<Rightarrow> bool \<times> pb_field_iter" where
  "find_loop 0 found start it = (False, it)"
| "find_loop (Suc n) found start it =
     (if found (it_field it) then (True, it)
      else
        let it1 = snd (pb_field_iter_next it) in
        if it_pos it1 = start then (False, it1) else find_loop n found start it1)"

definition pb_field_iter_find :: "u32 \<Rightarrow> pb_field_iter \<Rightarrow> bool \<times> pb_field_iter" where
  "pb_field_iter_find tag it =
     find_loop (Suc (length (it_start it)))
       (\<lambda>pos. fd_tag pos = tag \<and> ltype pos \<noteq> PB_LTYPE_EXTENSION) (it_pos it) it"

definition find_extension_field :: "pb_field_iter \<Rightarrow> bool \<times> pb_field_iter" where
  "find_extension_field it =
     find_loop (Suc (length (it_start it))) (\<lambda>pos. ltype pos = PB_LTYPE_EXTENSION) (it_pos it) it"

section \<open>What the iterator visits\<close>

text \<open>The fields before the terminator, and the iterator at each of them.\<close>

definition n_fields :: "pb_field list \<Rightarrow> nat" where
  "n_fields fs = length (takeWhile (\<lambda>f. fd_tag f \<noteq> 0) fs)"

primrec iter_at :: "pb_field list \<Rightarrow> u64 \<Rightarrow> nat \<Rightarrow> pb_field_iter" where
  "iter_at fs dest 0 = snd (pb_field_iter_begin fs dest)"
| "iter_at fs dest (Suc i) = snd (pb_field_iter_next (iter_at fs dest i))"

lemma n_fields_le: "n_fields fs \<le> length fs"
  by (simp add: n_fields_def length_takeWhile_le)

lemma field_tag: "i < n_fields fs \<Longrightarrow> fd_tag (field_at fs i) \<noteq> 0"
proof -
  assume i: "i < n_fields fs"
  then have "takeWhile (\<lambda>f. fd_tag f \<noteq> 0) fs ! i \<in> set (takeWhile (\<lambda>f. fd_tag f \<noteq> 0) fs)"
    by (simp add: n_fields_def)
  then show ?thesis
    using i n_fields_le [of fs] set_takeWhileD
    by (fastforce simp: field_at_def n_fields_def takeWhile_nth)
qed

lemma terminator_tag: "fd_tag (field_at fs (n_fields fs)) = 0"
  using nth_length_takeWhile [of "\<lambda>f. fd_tag f \<noteq> 0" fs]
  by (auto simp: field_at_def n_fields_def PB_LAST_FIELD_def)

lemma begin_simps [simp]:
  "it_start (snd (pb_field_iter_begin fs dest)) = fs"
  "it_pos (snd (pb_field_iter_begin fs dest)) = 0"
  "it_dest (snd (pb_field_iter_begin fs dest)) = dest"
  "fst (pb_field_iter_begin fs dest) \<longleftrightarrow> fd_tag (field_at fs 0) \<noteq> 0"
  by (simp_all add: pb_field_iter_begin_def Let_def)

lemma next_simps:
  "it_start (snd (pb_field_iter_next it)) = it_start it"
  "it_dest (snd (pb_field_iter_next it)) = it_dest it"
  "fst (pb_field_iter_next it) \<longleftrightarrow>
    fd_tag (it_field it) \<noteq> 0 \<and> fd_tag (field_at (it_start it) (Suc (it_pos it))) \<noteq> 0"
  "fst (pb_field_iter_next it) \<Longrightarrow> it_pos (snd (pb_field_iter_next it)) = Suc (it_pos it)"
  unfolding pb_field_iter_next_def Let_def by (simp_all split: if_splits)

lemma next_forward:
  assumes "pb_field_iter_next it = (True, it')"
  shows "length (it_start it') - it_pos it' < length (it_start it) - it_pos it"
proof -
  have n: "fst (pb_field_iter_next it)" "it' = snd (pb_field_iter_next it)" using assms by simp_all
  then have "fd_tag (field_at (it_start it) (Suc (it_pos it))) \<noteq> 0" by (simp add: next_simps)
  then have "Suc (it_pos it) < length (it_start it)"
    by (auto simp: field_at_def PB_LAST_FIELD_def split: if_splits)
  with n show ?thesis by (simp add: next_simps)
qed

lemma begin_nonempty: "fst (pb_field_iter_begin fs dest) \<longleftrightarrow> 0 < n_fields fs"
  using field_tag [of 0 fs] terminator_tag [of fs] by (cases "n_fields fs") auto

lemma iter_at_simps [simp]:
  "it_start (iter_at fs dest i) = fs" "it_dest (iter_at fs dest i) = dest"
  by (induction i) (simp_all add: next_simps)

lemma iter_at_pos: "i < n_fields fs \<Longrightarrow> it_pos (iter_at fs dest i) = i"
proof (induction i)
  case (Suc i)
  then have "it_pos (iter_at fs dest i) = i" by simp
  moreover from Suc.prems have "fst (pb_field_iter_next (iter_at fs dest i))"
    using field_tag [of i fs] field_tag [of "Suc i" fs] calculation by (simp add: next_simps)
  ultimately show ?case by (simp add: next_simps)
qed simp

lemma next_at:
  assumes "i < n_fields fs"
  shows "pb_field_iter_next (iter_at fs dest i) =
    (if Suc i < n_fields fs then (True, iter_at fs dest (Suc i)) else (False, iter_at fs dest 0))"
proof (cases "Suc i < n_fields fs")
  case True
  with assms have "fst (pb_field_iter_next (iter_at fs dest i))"
    using field_tag [of i fs] field_tag [of "Suc i" fs] by (simp add: next_simps iter_at_pos)
  with True show ?thesis by (cases "pb_field_iter_next (iter_at fs dest i)") simp
next
  case False
  with assms have "Suc i = n_fields fs" by simp
  with assms have "it_field (iter_at fs dest i) = field_at fs i"
    "field_at fs (Suc i) = field_at fs (n_fields fs)" by (simp_all add: iter_at_pos)
  with assms False show ?thesis
    using field_tag [of i fs] terminator_tag [of fs]
    by (simp add: pb_field_iter_next_def Let_def iter_at_pos)
qed

lemma field_at_iter: "i < n_fields fs \<Longrightarrow> it_field (iter_at fs dest i) = field_at fs i"
  by (simp add: iter_at_pos)

lemma next_around:
  assumes "i < n_fields fs"
  shows "snd (pb_field_iter_next (iter_at fs dest i)) = iter_at fs dest (Suc i mod n_fields fs)"
proof (cases "Suc i < n_fields fs")
  case False
  with assms have "Suc i = n_fields fs" by simp
  then show ?thesis by (simp add: next_at [OF assms])
next
  case True
  then show ?thesis by (simp only: next_at [OF assms]) simp
qed

text \<open>\<open>m\<close> fields after the one the search began at.\<close>

lemma find_loop_around:
  assumes "start < n_fields fs" and "m < n_fields fs" and "n_fields fs - m \<le> k"
  shows "\<exists>j < n_fields fs.
    snd (find_loop k found start (iter_at fs dest ((start + m) mod n_fields fs))) = iter_at fs dest j \<and>
    (if fst (find_loop k found start (iter_at fs dest ((start + m) mod n_fields fs)))
     then found (field_at fs j)
     else j = start \<and> (\<forall>i. m \<le> i \<and> i < n_fields fs \<longrightarrow> \<not> found (field_at fs ((start + i) mod n_fields fs))))"
  using assms(2,3)
proof (induction k arbitrary: m)
  case 0
  then show ?case by simp
next
  case (Suc k)
  let ?n = "n_fields fs" and ?i = "(start + m) mod n_fields fs"
  have i: "?i < ?n" using Suc.prems(1) by simp
  note at = field_at_iter [OF i] next_around [OF i]
  show ?case
  proof (cases "found (field_at fs ?i)")
    case True
    with i at show ?thesis by (auto intro!: exI [of _ ?i])
  next
    case no: False
    have step: "Suc ?i mod ?n = (start + Suc m) mod ?n" by (simp add: mod_Suc_eq)
    show ?thesis
    proof (cases "Suc m = ?n")
      case True
      then have last: "Suc ?i mod ?n = start" using assms(1) by (simp add: step)
      have "\<forall>i. m \<le> i \<and> i < ?n \<longrightarrow> \<not> found (field_at fs ((start + i) mod ?n))"
      proof (intro allI impI)
        fix i
        assume "m \<le> i \<and> i < ?n"
        with True have "i = m" by simp
        with no show "\<not> found (field_at fs ((start + i) mod ?n))" by simp
      qed
      then show ?thesis
        using no assms(1) by (auto simp: at last iter_at_pos)
    next
      case False
      with Suc.prems have m: "Suc m < ?n" "?n - Suc m \<le> k" by auto
      have "(start + Suc m) mod ?n \<noteq> start"
        using m(1) assms(1) by (auto simp: mod_if le_mod_geq)
      moreover have "(start + Suc m) mod ?n < ?n" using m(1) by simp
      ultimately have go: "find_loop (Suc k) found start (iter_at fs dest ?i) =
          find_loop k found start (iter_at fs dest ((start + Suc m) mod ?n))"
        using no by (simp add: at step iter_at_pos)
      have eq: "(\<forall>i. Suc m \<le> i \<and> i < ?n \<longrightarrow> \<not> found (field_at fs ((start + i) mod ?n))) \<longleftrightarrow>
          (\<forall>i. m \<le> i \<and> i < ?n \<longrightarrow> \<not> found (field_at fs ((start + i) mod ?n)))"
        using no by (metis Suc_leI le_less Suc_leD)
      from Suc.IH [OF m] show ?thesis unfolding go eq .
    qed
  qed
qed

lemma find_loop_finds:
  assumes "start < n_fields fs" and "n_fields fs \<le> k"
  obtains j where "j < n_fields fs" and "find_loop k found start (iter_at fs dest start) = (True, iter_at fs dest j)"
      and "found (field_at fs j)"
  | "find_loop k found start (iter_at fs dest start) = (False, iter_at fs dest start)"
      and "\<And>j. j < n_fields fs \<Longrightarrow> \<not> found (field_at fs j)"
proof -
  from assms(1) have "0 < n_fields fs" by simp
  from find_loop_around [OF assms(1) this, of k found dest] assms
  obtain j where j: "j < n_fields fs"
    "snd (find_loop k found start (iter_at fs dest start)) = iter_at fs dest j"
    "if fst (find_loop k found start (iter_at fs dest start)) then found (field_at fs j)
     else j = start \<and> (\<forall>i < n_fields fs. \<not> found (field_at fs ((start + i) mod n_fields fs)))"
    by auto
  show ?thesis
  proof (cases "fst (find_loop k found start (iter_at fs dest start))")
    case True
    with j that(1) [of j] show ?thesis by (simp add: prod_eq_iff)
  next
    case False
    have "\<not> found (field_at fs i)" if i: "i < n_fields fs" for i
    proof -
      let ?m = "(i + (n_fields fs - start)) mod n_fields fs"
      have "(start + ?m) mod n_fields fs = i"
        using i assms(1) by (simp add: mod_add_right_eq)
      moreover have "?m < n_fields fs" using i by simp
      ultimately show ?thesis using j(3) False by auto
    qed
    with j False that(2) show ?thesis by (simp add: prod_eq_iff)
  qed
qed

end
