(* ===== verification/Pb_Memory.thy ===== *)
theory Pb_Memory
  imports Pb_Common
begin

text \<open>
  The memory of the process that the message encoder and decoder of nanopb work on: little-endian
  loads and stores of the C integer types.
\<close>

section \<open>Loads\<close>

type_synonym memory = "u64 \<Rightarrow> u8"

definition load_bytes :: "memory \<Rightarrow> u64 \<Rightarrow> nat \<Rightarrow> bytes" where
  "load_bytes mem p n = map (\<lambda>i. mem (p + of_nat i)) [0..<n]"

definition load16 :: "memory \<Rightarrow> u64 \<Rightarrow> u16" where
  "load16 mem p = ucast (mem p) OR push_bit 8 (ucast (mem (p + 1)))"

definition load32 :: "memory \<Rightarrow> u64 \<Rightarrow> u32" where
  "load32 mem p = join32 (load_bytes mem p 4)"

definition load64 :: "memory \<Rightarrow> u64 \<Rightarrow> u64" where
  "load64 mem p = join64 (load_bytes mem p 8)"

lemma length_load_bytes [simp]: "length (load_bytes mem p n) = n"
  by (simp add: load_bytes_def)

lemma unat_ucast_64 [simp]: "unat (ucast (n :: u32) :: u64) = unat n"
  using unat_less_32 [of n] by (simp add: unsigned_ucast_eq take_bit_nat_eq_self)

lemma ucast_u8_eq: "(\<And>n. n < 8 \<Longrightarrow> bit v n = bit b n) \<Longrightarrow> ucast v = (b :: u8)" for v :: "'a::len word"
  by (rule bit_word_eqI) (simp add: bit_simps)

lemma bit_beyond: "8 \<le> k \<Longrightarrow> \<not> bit (b :: u8) (k + n)"
  by (auto dest: bit_imp_le_length)

lemma le_bytes_join32: "le_bytes 4 (unat (join32 [b0, b1, b2, b3])) = [b0, b1, b2, b3]"
  unfolding le_bytes_word join32_def
  by (auto intro!: ucast_u8_eq simp: bit_simps bit_beyond dest: bit_imp_le_length)

lemma le_bytes_join64:
  "le_bytes 8 (unat (join64 [b0, b1, b2, b3, b4, b5, b6, b7])) = [b0, b1, b2, b3, b4, b5, b6, b7]"
  unfolding le_bytes_word_8 join64_def
  by (auto intro!: ucast_u8_eq simp: bit_simps bit_beyond dest: bit_imp_le_length)

lemma load_bytes_fixed:
  "load_bytes mem p 4 = le_bytes 4 (unat (load32 mem p))"
  "load_bytes mem p 8 = le_bytes 8 (unat (load64 mem p))"
proof -
  have "[0..<4] = [0, 1, 2, 3]" "[0..<8] = [0, 1, 2, 3, 4, 5, 6, 7]" by (simp_all add: upt_rec)
  then show "load_bytes mem p 4 = le_bytes 4 (unat (load32 mem p))"
    "load_bytes mem p 8 = le_bytes 8 (unat (load64 mem p))"
    by (simp_all add: load32_def load64_def load_bytes_def le_bytes_join32 le_bytes_join64)
qed


section \<open>Stores\<close>

definition store_bytes :: "u64 \<Rightarrow> bytes \<Rightarrow> memory \<Rightarrow> memory" where
  "store_bytes p bs mem = (\<lambda>q. if unat (q - p) < length bs then bs ! unat (q - p) else mem q)"

definition store16 :: "u64 \<Rightarrow> u16 \<Rightarrow> memory \<Rightarrow> memory" where
  "store16 p v = store_bytes p [ucast v, ucast (drop_bit 8 v)]"

definition store32 :: "u64 \<Rightarrow> u32 \<Rightarrow> memory \<Rightarrow> memory" where
  "store32 p v = store_bytes p (le_bytes 4 (unat v))"

definition store64 :: "u64 \<Rightarrow> u64 \<Rightarrow> memory \<Rightarrow> memory" where
  "store64 p v = store_bytes p (le_bytes 8 (unat v))"

lemma load_store_bytes:
  assumes "length bs < 2 ^ 64"
  shows "load_bytes (store_bytes p bs mem) p (length bs) = bs"
proof (rule nth_equalityI)
  fix i
  assume "i < length (load_bytes (store_bytes p bs mem) p (length bs))"
  then have i: "i < length bs" by simp
  with assms have "unat (of_nat i :: u64) = i" by (simp add: unat_of_nat_less)
  with i show "load_bytes (store_bytes p bs mem) p (length bs) ! i = bs ! i"
    by (simp add: load_bytes_def store_bytes_def)
qed simp

lemma load_store32: "load32 (store32 p v mem) p = v"
  using load_store_bytes [of "le_bytes 4 (unat v)" p mem]
  by (simp add: load32_def store32_def join32)

lemma load_store64: "load64 (store64 p v mem) p = v"
  using load_store_bytes [of "le_bytes 8 (unat v)" p mem]
  by (simp add: load64_def store64_def join64)

lemma store_outside: "length bs \<le> unat (q - p) \<Longrightarrow> store_bytes p bs mem q = mem q"
  by (simp add: store_bytes_def)

end
