(* ===== verification/Pb_Encode.thy ===== *)
theory Pb_Encode
  imports Pb_Memory
begin

text \<open>
  Encoding whole messages (\<open>pb_encode.c\<close>): the walk over the fields of a struct in memory, arrays,
  optional, oneof, pointer and callback fields, extensions and submessages. The struct is read from
  the memory of the process, at the offsets its descriptors give; descriptors, and the functions of
  the library's user, are found by their addresses.
\<close>

section \<open>The process\<close>

text \<open>
  What an encoder is given: the memory, the descriptor arrays, and what the code at an address does
  when it is called as the \<open>encode\<close> function of a \<open>pb_callback_t\<close> (with the field and the address of
  the callback's \<open>arg\<close>) or of a \<open>pb_extension_type_t\<close> (with the address of the extension).
\<close>

record 's pb_process =
  memory :: memory
  descriptors :: "u64 \<Rightarrow> pb_field list"
  callback_code :: "u64 \<Rightarrow> pb_field \<Rightarrow> u64 \<Rightarrow> 's pb_out"
  extension_code :: "u64 \<Rightarrow> u64 \<Rightarrow> 's pb_out"

text \<open>
  An encoder of messages returns \<open>None\<close> when its calls nest deeper than the bound it is given, or a
  chain of extensions is longer than that.
\<close>

type_synonym 's pb_enc = "'s pb_ostream \<Rightarrow> (bool \<times> 's pb_ostream) option"

definition out_call :: "'s pb_out \<Rightarrow> 's pb_enc" where
  "out_call m s = Some (m s)"

definition enc_then :: "'s pb_enc \<Rightarrow> 's pb_enc \<Rightarrow> 's pb_enc" where
  "enc_then m f s =
     (case m s of
        None \<Rightarrow> None
      | Some (ok, s') \<Rightarrow> if ok then f s' else Some (False, s'))"

abbreviation enc_ok :: "'s pb_enc" where "enc_ok \<equiv> out_call out_ok"
abbreviation enc_error :: "string \<Rightarrow> 's pb_enc" where "enc_error msg \<equiv> out_call (out_error msg)"

section \<open>The field encoders\<close>

definition safe_read_bool :: "'s pb_process \<Rightarrow> u64 \<Rightarrow> bool" where
  "safe_read_bool pr pSize \<longleftrightarrow> memory pr pSize \<noteq> 0"

definition pb_encode_tag_for_field :: "pb_field \<Rightarrow> 's pb_out" where
  "pb_encode_tag_for_field field =
     (let t = ltype field in
      if t \<in> {PB_LTYPE_BOOL, PB_LTYPE_VARINT, PB_LTYPE_UVARINT, PB_LTYPE_SVARINT} then
        pb_encode_tag PB_WT_VARINT (fd_tag field)
      else if t = PB_LTYPE_FIXED32 then pb_encode_tag PB_WT_32BIT (fd_tag field)
      else if t = PB_LTYPE_FIXED64 then pb_encode_tag PB_WT_64BIT (fd_tag field)
      else if t \<in> {PB_LTYPE_BYTES, PB_LTYPE_STRING, PB_LTYPE_SUBMESSAGE, PB_LTYPE_FIXED_LENGTH_BYTES} then
        pb_encode_tag PB_WT_STRING (fd_tag field)
      else out_error ''invalid field type'')"

definition pb_enc_bool :: "'s pb_process \<Rightarrow> pb_field \<Rightarrow> u64 \<Rightarrow> 's pb_out" where
  "pb_enc_bool pr field src = pb_encode_varint (if safe_read_bool pr src then 1 else 0)"

text \<open>Signed values are loaded with their sign; \<open>value\<close> is in two's complement.\<close>

definition pb_enc_varint :: "'s pb_process \<Rightarrow> pb_field \<Rightarrow> u64 \<Rightarrow> 's pb_out" where
  "pb_enc_varint pr field src =
     (if fd_data_size field = 1 then pb_encode_varint (scast (memory pr src))
      else if fd_data_size field = 2 then pb_encode_varint (scast (load16 (memory pr) src))
      else if fd_data_size field = 4 then pb_encode_varint (scast (load32 (memory pr) src))
      else if fd_data_size field = 8 then pb_encode_varint (load64 (memory pr) src)
      else out_error ''invalid data_size'')"

definition pb_enc_uvarint :: "'s pb_process \<Rightarrow> pb_field \<Rightarrow> u64 \<Rightarrow> 's pb_out" where
  "pb_enc_uvarint pr field src =
     (if fd_data_size field = 1 then pb_encode_varint (ucast (memory pr src))
      else if fd_data_size field = 2 then pb_encode_varint (ucast (load16 (memory pr) src))
      else if fd_data_size field = 4 then pb_encode_varint (ucast (load32 (memory pr) src))
      else if fd_data_size field = 8 then pb_encode_varint (load64 (memory pr) src)
      else out_error ''invalid data_size'')"

definition pb_enc_svarint :: "'s pb_process \<Rightarrow> pb_field \<Rightarrow> u64 \<Rightarrow> 's pb_out" where
  "pb_enc_svarint pr field src =
     (if fd_data_size field = 1 then pb_encode_svarint (scast (memory pr src))
      else if fd_data_size field = 2 then pb_encode_svarint (scast (load16 (memory pr) src))
      else if fd_data_size field = 4 then pb_encode_svarint (scast (load32 (memory pr) src))
      else if fd_data_size field = 8 then pb_encode_svarint (load64 (memory pr) src)
      else out_error ''invalid data_size'')"

definition pb_enc_fixed64 :: "'s pb_process \<Rightarrow> pb_field \<Rightarrow> u64 \<Rightarrow> 's pb_out" where
  "pb_enc_fixed64 pr field src = pb_encode_fixed64 (load64 (memory pr) src)"

definition pb_enc_fixed32 :: "'s pb_process \<Rightarrow> pb_field \<Rightarrow> u64 \<Rightarrow> 's pb_out" where
  "pb_enc_fixed32 pr field src = pb_encode_fixed32 (load32 (memory pr) src)"

text \<open>\<open>pb_bytes_array_t\<close>: the 32-bit size, and the bytes four bytes further.\<close>

definition pb_enc_bytes :: "'s pb_process \<Rightarrow> pb_field \<Rightarrow> u64 \<Rightarrow> 's pb_out" where
  "pb_enc_bytes pr field src =
     (if src = 0 then pb_encode_string [] 0
      else
        let n = load32 (memory pr) src;
            allocsize = ucast n + 4 :: size_t
        in
          if allocsize < ucast n \<or> atype field = PB_ATYPE_STATIC \<and> ucast (fd_data_size field) < allocsize
          then out_error ''bytes size exceeded''
          else pb_encode_string (load_bytes (memory pr) (src + 4) (unat n)) (ucast n))"

lemma unat_Suc_less: "unat n < unat m \<Longrightarrow> unat (n + 1) = Suc (unat n)" for n m :: u64
  using unat_less_64 [of m] by (simp add: unat_word_ariths)

text \<open>
  The length of a string: up to its null byte, or \<open>max_size\<close> bytes. The loop may go once around the
  address space, but not further.
\<close>

function string_size :: "memory \<Rightarrow> size_t \<Rightarrow> u64 \<Rightarrow> size_t \<Rightarrow> size_t" where
  "string_size mem max_size p n =
     (if n < max_size \<and> mem p \<noteq> 0 then string_size mem max_size (p + 1) (n + 1) else n)"
  by pat_completeness auto
termination
  by (relation "measure (\<lambda>(mem, max_size, p, n). unat max_size - unat n)")
    (auto simp: word_less_nat_alt unat_Suc_less)

declare string_size.simps [simp del]

definition pb_enc_string :: "'s pb_process \<Rightarrow> pb_field \<Rightarrow> u64 \<Rightarrow> 's pb_out" where
  "pb_enc_string pr field src =
     (let max_size = (if atype field = PB_ATYPE_POINTER then - 1 else ucast (fd_data_size field));
          n = (if src = 0 then 0 else string_size (memory pr) max_size src 0)
      in pb_encode_string (load_bytes (memory pr) src (unat n)) n)"

definition pb_enc_fixed_length_bytes :: "'s pb_process \<Rightarrow> pb_field \<Rightarrow> u64 \<Rightarrow> 's pb_out" where
  "pb_enc_fixed_length_bytes pr field src =
     pb_encode_string (load_bytes (memory pr) src (unat (fd_data_size field))) (ucast (fd_data_size field))"

section \<open>Submessages\<close>

text \<open>
  \<open>sub fields src\<close> stands for the call of \<open>pb_encode\<close>, which is defined below from these.
\<close>

definition write_submessage :: "(u64 \<Rightarrow> u64 \<Rightarrow> 's pb_enc) \<Rightarrow> u64 \<Rightarrow> u64 \<Rightarrow> size_t \<Rightarrow> 's pb_enc" where
  "write_submessage sub submsg src n stream =
     (if os_max_size stream < os_bytes_written stream + n then enc_error ''stream full'' stream
      else
        (case sub submsg src
           \<lparr>os_sink = os_sink stream, os_max_size = n, os_bytes_written = 0, os_errmsg = None\<rparr> of
           None \<Rightarrow> None
         | Some (status, substream) \<Rightarrow>
             let stream = stream\<lparr>os_bytes_written := os_bytes_written stream + os_bytes_written substream,
                   os_sink := os_sink substream, os_errmsg := os_errmsg substream\<rparr>
             in if os_bytes_written substream \<noteq> n then enc_error ''submsg size changed'' stream
                else Some (status, stream)))"

definition pb_encode_submessage :: "(u64 \<Rightarrow> u64 \<Rightarrow> 's pb_enc) \<Rightarrow> u64 \<Rightarrow> u64 \<Rightarrow> 's pb_enc" where
  "pb_encode_submessage sub submsg src stream =
     (case sub submsg src PB_OSTREAM_SIZING of
        None \<Rightarrow> None
      | Some (False, substream) \<Rightarrow> Some (False, stream\<lparr>os_errmsg := os_errmsg substream\<rparr>)
      | Some (True, substream) \<Rightarrow>
          let n = os_bytes_written substream in
          enc_then (out_call (pb_encode_varint n))
            (\<lambda>stream.
               if \<not> has_callback stream then out_call (pb_write [] n) stream
               else write_submessage sub submsg src n stream)
            stream)"

definition pb_enc_submessage :: "(u64 \<Rightarrow> u64 \<Rightarrow> 's pb_enc) \<Rightarrow> pb_field \<Rightarrow> u64 \<Rightarrow> 's pb_enc" where
  "pb_enc_submessage sub field src =
     (if fd_ptr field = 0 then enc_error ''invalid field descriptor''
      else pb_encode_submessage sub (fd_ptr field) src)"

text \<open>
  The table \<open>PB_ENCODERS\<close>. It has no entry for extensions and none beyond its end; no descriptor of a
  field has these types, and a call through such an entry, which the program does not survive, is
  \<open>None\<close>.
\<close>

definition PB_ENCODERS :: "'s pb_process \<Rightarrow> (u64 \<Rightarrow> u64 \<Rightarrow> 's pb_enc) \<Rightarrow> u8 \<Rightarrow> pb_field \<Rightarrow> u64 \<Rightarrow> 's pb_enc" where
  "PB_ENCODERS pr sub t field src =
     (if t = PB_LTYPE_BOOL then out_call (pb_enc_bool pr field src)
      else if t = PB_LTYPE_VARINT then out_call (pb_enc_varint pr field src)
      else if t = PB_LTYPE_UVARINT then out_call (pb_enc_uvarint pr field src)
      else if t = PB_LTYPE_SVARINT then out_call (pb_enc_svarint pr field src)
      else if t = PB_LTYPE_FIXED32 then out_call (pb_enc_fixed32 pr field src)
      else if t = PB_LTYPE_FIXED64 then out_call (pb_enc_fixed64 pr field src)
      else if t = PB_LTYPE_BYTES then out_call (pb_enc_bytes pr field src)
      else if t = PB_LTYPE_STRING then out_call (pb_enc_string pr field src)
      else if t = PB_LTYPE_SUBMESSAGE then pb_enc_submessage sub field src
      else if t = PB_LTYPE_FIXED_LENGTH_BYTES then out_call (pb_enc_fixed_length_bytes pr field src)
      else (\<lambda>s. None))"

section \<open>Fields\<close>

text \<open>The loop over the entries of an array: \<open>n\<close> of them, \<open>step\<close> bytes apart.\<close>

primrec encode_each :: "(u64 \<Rightarrow> 's pb_enc) \<Rightarrow> u64 \<Rightarrow> nat \<Rightarrow> u64 \<Rightarrow> 's pb_enc" where
  "encode_each func step 0 p = enc_ok"
| "encode_each func step (Suc n) p = enc_then (func p) (encode_each func step n (p + step))"

definition packed_size :: "pb_field \<Rightarrow> size_t \<Rightarrow> u64 \<Rightarrow> (u64 \<Rightarrow> 's pb_enc) \<Rightarrow> size_t option option" where
  "packed_size field count pData func =
     (if ltype field = PB_LTYPE_FIXED32 then Some (Some (4 * count))
      else if ltype field = PB_LTYPE_FIXED64 then Some (Some (8 * count))
      else
        (case encode_each func (ucast (fd_data_size field)) (unat count) pData PB_OSTREAM_SIZING of
           None \<Rightarrow> None
         | Some (False, sizestream) \<Rightarrow> Some None
         | Some (True, sizestream) \<Rightarrow> Some (Some (os_bytes_written sizestream))))"

definition encode_array ::
    "'s pb_process \<Rightarrow> pb_field \<Rightarrow> u64 \<Rightarrow> size_t \<Rightarrow> (pb_field \<Rightarrow> u64 \<Rightarrow> 's pb_enc) \<Rightarrow> 's pb_enc" where
  "encode_array pr field pData count func =
     (if count = 0 then enc_ok
      else if atype field \<noteq> PB_ATYPE_POINTER \<and> ucast (fd_array_size field) < count then
        enc_error ''array max size exceeded''
      else if ltype field \<le> PB_LTYPE_LAST_PACKABLE then
        enc_then (out_call (pb_encode_tag PB_WT_STRING (fd_tag field)))
          (\<lambda>stream.
             case packed_size field count pData (func field) of
               None \<Rightarrow> None
             | Some None \<Rightarrow> Some (False, stream)
             | Some (Some n) \<Rightarrow>
                 enc_then (out_call (pb_encode_varint n))
                   (\<lambda>stream.
                      if \<not> has_callback stream then out_call (pb_write [] n) stream
                      else encode_each (func field) (ucast (fd_data_size field)) (unat count) pData stream)
                   stream)
      else
        encode_each
          (\<lambda>p. enc_then (out_call (pb_encode_tag_for_field field))
             (if atype field = PB_ATYPE_POINTER \<and> (ltype field = PB_LTYPE_STRING \<or> ltype field = PB_LTYPE_BYTES)
              then func field (load64 (memory pr) p) else func field p))
          (ucast (fd_data_size field)) (unat count) pData)"

text \<open>
  A loop over the fields of a message, of which each may end it. The loop ends because the position
  grows.
\<close>

function each_default :: "(pb_field \<Rightarrow> u64 \<Rightarrow> bool option) \<Rightarrow> pb_field_iter \<Rightarrow> bool option" where
  "each_default check it =
     (case check (it_field it) (it_pData it) of
        None \<Rightarrow> None
      | Some False \<Rightarrow> Some False
      | Some True \<Rightarrow>
          (case pb_field_iter_next it of
             (True, it') \<Rightarrow> each_default check it'
           | (False, it') \<Rightarrow> Some True))"
  by pat_completeness auto
termination
  by (relation "measure (\<lambda>(check, it). length (it_start it) - it_pos it)") (auto dest!: next_forward [OF sym])

declare each_default.simps [simp del]

definition all_zero :: "memory \<Rightarrow> u64 \<Rightarrow> nat \<Rightarrow> bool" where
  "all_zero mem p n \<longleftrightarrow> list_all (\<lambda>b. b = 0) (load_bytes mem p n)"

text \<open>Submessages nested deeper than the first argument give \<open>None\<close>.\<close>

primrec pb_check_proto3_default_value :: "nat \<Rightarrow> 's pb_process \<Rightarrow> pb_field \<Rightarrow> u64 \<Rightarrow> bool option" where
  "pb_check_proto3_default_value 0 pr field pData = None"
| "pb_check_proto3_default_value (Suc d) pr field pData =
     (let pSize = pData + scast (fd_size_offset field);
          catch_all = Some (all_zero (memory pr) pData (unat (fd_data_size field)));
          pointer_or_all =
            (if atype field = PB_ATYPE_POINTER \<and> PB_LTYPE_LAST_PACKABLE < ltype field
             then Some (load64 (memory pr) pData = 0) else catch_all);
          singular =
            (if atype field = PB_ATYPE_STATIC then
               if ltype field = PB_LTYPE_BYTES then Some (load32 (memory pr) pData = 0)
               else if ltype field = PB_LTYPE_STRING then Some (memory pr pData = 0)
               else if ltype field = PB_LTYPE_FIXED_LENGTH_BYTES then Some (fd_data_size field = 0)
               else if ltype field = PB_LTYPE_SUBMESSAGE then
                 (case pb_field_iter_begin (descriptors pr (fd_ptr field)) pData of
                    (True, it) \<Rightarrow> each_default (pb_check_proto3_default_value d pr) it
                  | (False, it) \<Rightarrow> Some True)
               else pointer_or_all
             else pointer_or_all)
      in
        if htype field = PB_HTYPE_REQUIRED then Some False
        else if htype field = PB_HTYPE_REPEATED then
          if fd_size_offset field \<noteq> 0 then Some (load32 (memory pr) pSize = 0)
          else if atype field = PB_ATYPE_STATIC then Some False
          else singular
        else if htype field = PB_HTYPE_ONEOF then Some (load32 (memory pr) pSize = 0)
        else if htype field = PB_HTYPE_OPTIONAL \<and> fd_size_offset field \<noteq> 0 then
          Some (\<not> safe_read_bool pr pSize)
        else singular)"

text \<open>
  \<open>pSize\<close> points to the local \<open>implicit_has\<close> where the field has no \<open>size_offset\<close>: \<open>has\<close> is the bool
  read through it. The other reads through \<open>pSize\<close> are of fields that have a \<open>size_offset\<close>; of a
  oneof field without one, the code reads beyond \<open>implicit_has\<close>, and there is no outcome.
\<close>

definition encode_basic_field ::
    "nat \<Rightarrow> 's pb_process \<Rightarrow> (u64 \<Rightarrow> u64 \<Rightarrow> 's pb_enc) \<Rightarrow> pb_field \<Rightarrow> u64 \<Rightarrow> 's pb_enc" where
  "encode_basic_field d pr sub field pData0 =
     (let func = PB_ENCODERS pr sub (ltype field);
          pSize = pData0 + scast (fd_size_offset field);
          pData = (if atype field = PB_ATYPE_POINTER then load64 (memory pr) pData0 else pData0);
          default = (if fd_size_offset field = 0 \<and> htype field = PB_HTYPE_OPTIONAL
            then pb_check_proto3_default_value d pr field pData0 else Some False)
      in
        case default of
          None \<Rightarrow> (\<lambda>s. None)
        | Some is_default \<Rightarrow>
            let implicit_has = (if atype field = PB_ATYPE_POINTER then pData \<noteq> 0 else \<not> is_default);
                has = (if fd_size_offset field \<noteq> 0 then safe_read_bool pr pSize else implicit_has);
                write = enc_then (out_call (pb_encode_tag_for_field field)) (func field pData)
            in
              if htype field = PB_HTYPE_REQUIRED then
                if pData = 0 then enc_error ''missing required field'' else write
              else if htype field = PB_HTYPE_OPTIONAL then
                if has then write else enc_ok
              else if htype field = PB_HTYPE_REPEATED then
                let count = (if fd_size_offset field \<noteq> 0 then load32 (memory pr) pSize else fd_array_size field)
                in encode_array pr field pData (ucast count) func
              else if fd_size_offset field = 0 then (\<lambda>s. None)
              else if load32 (memory pr) pSize = fd_tag field then write
              else enc_ok)"

text \<open>\<open>pb_callback_t\<close>: the code address, and \<open>arg\<close> eight bytes further.\<close>

definition encode_callback_field :: "'s pb_process \<Rightarrow> pb_field \<Rightarrow> u64 \<Rightarrow> 's pb_enc" where
  "encode_callback_field pr field pData stream =
     (let code = load64 (memory pr) pData in
      if code \<noteq> 0 then
        case callback_code pr code field (pData + 8) stream of
          (True, stream) \<Rightarrow> enc_ok stream
        | (False, stream) \<Rightarrow> enc_error ''callback error'' stream
      else enc_ok stream)"

definition encode_field ::
    "nat \<Rightarrow> 's pb_process \<Rightarrow> (u64 \<Rightarrow> u64 \<Rightarrow> 's pb_enc) \<Rightarrow> pb_field \<Rightarrow> u64 \<Rightarrow> 's pb_enc" where
  "encode_field d pr sub field pData =
     (if atype field = PB_ATYPE_STATIC \<or> atype field = PB_ATYPE_POINTER then
        encode_basic_field d pr sub field pData
      else if atype field = PB_ATYPE_CALLBACK then encode_callback_field pr field pData
      else enc_error ''invalid field type'')"

section \<open>Extensions\<close>

text \<open>
  \<open>pb_extension_t\<close>: the type, \<open>dest\<close>, and \<open>next\<close>, eight bytes each; \<open>pb_extension_type_t\<close>: the code
  addresses of \<open>decode\<close> and \<open>encode\<close>, and \<open>arg\<close>.
\<close>

definition default_extension_encoder ::
    "nat \<Rightarrow> 's pb_process \<Rightarrow> (u64 \<Rightarrow> u64 \<Rightarrow> 's pb_enc) \<Rightarrow> u64 \<Rightarrow> 's pb_enc" where
  "default_extension_encoder d pr sub extension =
     (let extension_type = load64 (memory pr) extension;
          field = field_at (descriptors pr (load64 (memory pr) (extension_type + 16))) 0
      in
        if atype field = PB_ATYPE_POINTER then encode_field d pr sub field (extension + 8)
        else encode_field d pr sub field (load64 (memory pr) (extension + 8)))"

primrec encode_extensions ::
    "nat \<Rightarrow> nat \<Rightarrow> 's pb_process \<Rightarrow> (u64 \<Rightarrow> u64 \<Rightarrow> 's pb_enc) \<Rightarrow> u64 \<Rightarrow> 's pb_enc" where
  "encode_extensions 0 d pr sub extension = (\<lambda>s. if extension = 0 then enc_ok s else None)"
| "encode_extensions (Suc n) d pr sub extension =
     (if extension = 0 then enc_ok
      else
        let code = load64 (memory pr) (load64 (memory pr) extension + 8) in
        enc_then
          (if code \<noteq> 0 then out_call (extension_code pr code extension)
           else default_extension_encoder d pr sub extension)
          (encode_extensions n d pr sub (load64 (memory pr) (extension + 16))))"

definition encode_extension_field ::
    "nat \<Rightarrow> 's pb_process \<Rightarrow> (u64 \<Rightarrow> u64 \<Rightarrow> 's pb_enc) \<Rightarrow> u64 \<Rightarrow> 's pb_enc" where
  "encode_extension_field d pr sub pData = encode_extensions d d pr sub (load64 (memory pr) pData)"

section \<open>Messages\<close>

function each_field :: "(pb_field \<Rightarrow> u64 \<Rightarrow> 's pb_enc) \<Rightarrow> pb_field_iter \<Rightarrow> 's pb_enc" where
  "each_field op it =
     enc_then (op (it_field it) (it_pData it))
       (case pb_field_iter_next it of
          (True, it') \<Rightarrow> each_field op it'
        | (False, it') \<Rightarrow> enc_ok)"
  by pat_completeness auto
termination
  by (relation "measure (\<lambda>(op, it). length (it_start it) - it_pos it)") (auto dest!: next_forward [OF sym])

declare each_field.simps [simp del]

definition encode_message_field ::
    "nat \<Rightarrow> 's pb_process \<Rightarrow> (u64 \<Rightarrow> u64 \<Rightarrow> 's pb_enc) \<Rightarrow> pb_field \<Rightarrow> u64 \<Rightarrow> 's pb_enc" where
  "encode_message_field d pr sub field pData =
     (if ltype field = PB_LTYPE_EXTENSION then encode_extension_field d pr sub pData
      else encode_field d pr sub field pData)"

primrec pb_encode :: "nat \<Rightarrow> 's pb_process \<Rightarrow> u64 \<Rightarrow> u64 \<Rightarrow> 's pb_enc" where
  "pb_encode 0 pr fs src_struct = (\<lambda>s. None)"
| "pb_encode (Suc d) pr fs src_struct =
     (case pb_field_iter_begin (descriptors pr fs) src_struct of
        (True, it) \<Rightarrow> each_field (encode_message_field d pr (pb_encode d pr)) it
      | (False, it) \<Rightarrow> enc_ok)"

definition pb_encode_delimited :: "nat \<Rightarrow> 's pb_process \<Rightarrow> u64 \<Rightarrow> u64 \<Rightarrow> 's pb_enc" where
  "pb_encode_delimited d pr fs src_struct = pb_encode_submessage (pb_encode d pr) fs src_struct"

definition pb_encode_nullterminated :: "nat \<Rightarrow> 's pb_process \<Rightarrow> u64 \<Rightarrow> u64 \<Rightarrow> 's pb_enc" where
  "pb_encode_nullterminated d pr fs src_struct =
     enc_then (pb_encode d pr fs src_struct) (out_call (pb_write [0] 1))"

definition pb_get_encoded_size :: "nat \<Rightarrow> 's pb_process \<Rightarrow> u64 \<Rightarrow> u64 \<Rightarrow> size_t option option" where
  "pb_get_encoded_size d pr fs src_struct =
     (case pb_encode d pr fs src_struct PB_OSTREAM_SIZING of
        None \<Rightarrow> None
      | Some (ok, stream) \<Rightarrow> Some (if ok then Some (os_bytes_written stream) else None))"

end
