(* ===== verification/Pb_Message.thy ===== *)
theory Pb_Message
  imports Pb_Encode
begin

text \<open>
  What a message looks like on the wire, as a function of the memory it is in, and the proof that
  \<open>pb_encode\<close> sends just that to a stream of any kind.
\<close>

section \<open>Encodings\<close>

text \<open>
  What an encoder writes, and whether it succeeds then. \<open>None\<close> makes no statement: the message nests
  too deep for the bound given, or takes \<open>2\<^sup>6\<^sup>2\<close> bytes or more, or the code has no defined behaviour.
\<close>

type_synonym wire = "(bytes \<times> bool) option"

definition wire :: "bytes \<Rightarrow> wire" where
  "wire x = (if length x < 2 ^ 62 then Some (x, True) else None)"

definition w_error :: wire where
  "w_error = Some ([], False)"

definition w_then :: "wire \<Rightarrow> wire \<Rightarrow> wire" where
  "w_then a b =
     (case a of
        Some (x, True) \<Rightarrow>
          (case b of
             None \<Rightarrow> None
           | Some (y, ok) \<Rightarrow> if length x + length y < 2 ^ 62 then Some (x @ y, ok) else None)
      | _ \<Rightarrow> a)"

definition w_concat :: "wire list \<Rightarrow> wire" where
  "w_concat ws = foldr w_then ws (wire [])"

text \<open>An encoding behind its length; one that fails is not begun.\<close>

definition delimited :: "wire \<Rightarrow> wire" where
  "delimited a =
     (case a of
        None \<Rightarrow> None
      | Some (x, ok) \<Rightarrow> if ok then wire (varint_enc (length x) @ x) else w_error)"

lemma w_concat_simps [simp]:
  "w_concat [] = wire []" "w_concat (a # ws) = w_then a (w_concat ws)"
  by (simp_all add: w_concat_def)

lemma wire_nothing: "wire [] = Some ([], True)"
  by (simp add: wire_def)

lemma wire_SomeD: "wire x = Some (y, ok) \<Longrightarrow> y = x \<and> ok \<and> length x < 2 ^ 62"
  by (simp add: wire_def split: if_splits)

section \<open>The contract of an encoder\<close>

text \<open>
  A stream in a state an encoder meets: nothing beyond \<open>max_size\<close> written, no error yet.
\<close>

definition good :: "('s \<Rightarrow> bytes) \<Rightarrow> 's pb_ostream \<Rightarrow> bool" where
  "good view s \<longleftrightarrow>
     sink_ok view s \<and> os_errmsg s = None \<and> (has_callback s \<longrightarrow> os_bytes_written s \<le> os_max_size s)"

text \<open>
  On every stream in such a state, the encoder writes the bytes if there is room, and fails if not.
  Whatever happens, a memory block is not written beyond its end.
\<close>

definition encodes :: "'s pb_enc \<Rightarrow> wire \<Rightarrow> ('s \<Rightarrow> bytes) \<Rightarrow> 's pb_ostream \<Rightarrow> bool" where
  "encodes m w view s \<longleftrightarrow>
     (case w of
        None \<Rightarrow> True
      | Some (x, ok) \<Rightarrow>
          (has_callback s \<longrightarrow> unat (os_bytes_written s) + length x < 2 ^ 64) \<longrightarrow>
          (if ok \<and> room_for (length x) s then \<exists>s'. m s = Some (True, s') \<and> sent view x s s'
           else \<exists>s'. m s = Some (False, s') \<and> safe s s'))"

definition writes_as :: "('s \<Rightarrow> bytes) \<Rightarrow> 's pb_enc \<Rightarrow> wire \<Rightarrow> bool" where
  "writes_as view m w \<longleftrightarrow> (\<forall>s. good view s \<longrightarrow> encodes m w view s)"

lemma writes_asD: "writes_as view m w \<Longrightarrow> good view s \<Longrightarrow> encodes m w view s"
  by (simp add: writes_as_def)

lemma writes_as_None [simp]: "writes_as view m None"
  by (simp add: writes_as_def encodes_def)

lemma sent_good:
  assumes "good view s" and "sent view x s s'" and "room_for (length x) s"
  shows "good view s'"
proof -
  have "os_bytes_written s' \<le> os_max_size s'" if "has_callback s'"
  proof -
    from that have cb: "has_callback s" using sent_callback [OF assms(2)] by simp
    have max: "os_max_size s' = os_max_size s" using assms(2) by (simp add: sent_def)
    show ?thesis
    proof (cases "x = []")
      case True
      with assms(1,2) cb show ?thesis by (simp add: sent_def good_def)
    next
      case False
      with assms(3) cb sent_written [OF assms(2,3) cb] show ?thesis
        by (simp add: word_le_nat_alt max room_for_def)
    qed
  qed
  with assms show ?thesis by (simp add: good_def sent_def)
qed

lemma puts_writes:
  assumes "\<And>s. sink_ok view s \<Longrightarrow> puts m x view s"
  shows "writes_as view (out_call m) (wire x)"
  unfolding writes_as_def
proof (intro allI impI)
  fix s
  assume "good view s"
  then have "puts m x view s" by (intro assms) (simp add: good_def)
  then show "encodes (out_call m) (wire x) view s"
    by (auto simp: encodes_def wire_def out_call_def puts_def)
qed

lemma writes_as_error: "writes_as view (enc_error msg) w_error"
  by (simp add: writes_as_def encodes_def w_error_def out_call_def out_error_def safe_def split: pb_sink.split)

lemma writes_as_ok: "writes_as view enc_ok (wire [])"
  by (rule puts_writes) (rule puts_nothing)

lemma writes_as_then:
  assumes a: "writes_as view f v" and b: "writes_as view g w"
  shows "writes_as view (enc_then f g) (w_then v w)"
  unfolding writes_as_def
proof (intro allI impI)
  fix s
  assume s: "good view s"
  note f = writes_asD [OF a s]
  show "encodes (enc_then f g) (w_then v w) view s"
  proof (cases v)
    case None
    then show ?thesis by (simp add: w_then_def encodes_def)
  next
    case v: (Some xo)
    obtain x ok where xo: "xo = (x, ok)" by (cases xo)
    show ?thesis
    proof (cases ok)
      case False
      with f v xo show ?thesis by (auto simp: encodes_def w_then_def enc_then_def)
    next
      case True
      show ?thesis
      proof (cases w)
        case None
        with v xo True show ?thesis by (simp add: w_then_def encodes_def)
      next
        case w: (Some yo)
        obtain y ok' where yo: "yo = (y, ok')" by (cases yo)
        show ?thesis
        proof (cases "has_callback s \<longrightarrow> unat (os_bytes_written s) + length (x @ y) < 2 ^ 64")
          case False
          with v xo True w yo show ?thesis by (auto simp: encodes_def w_then_def)
        next
          case bound: True
          show ?thesis
          proof (cases "room_for (length x) s")
            case False
            then have "\<not> room_for (length x + length y) s" by (auto simp: room_for_def)
            with False f v xo True w yo bound show ?thesis
              by (auto simp: encodes_def w_then_def enc_then_def)
          next
            case room: True
            with f v xo True bound obtain s1 where s1: "f s = Some (True, s1)" "sent view x s s1"
              by (auto simp: encodes_def)
            note good = sent_good [OF s s1(2) room]
            note cb = sent_callback [OF s1(2)]
            have "has_callback s1 \<longrightarrow> unat (os_bytes_written s1) + length y < 2 ^ 64"
              using bound sent_written [OF s1(2) room] cb by auto
            with writes_asD [OF b good] w yo have
              "if ok' \<and> room_for (length y) s1 then \<exists>s'. g s1 = Some (True, s') \<and> sent view y s1 s'
               else \<exists>s'. g s1 = Some (False, s') \<and> safe s1 s'"
              by (simp add: encodes_def)
            moreover have "room_for (length x + length y) s \<longleftrightarrow> room_for (length y) s1"
              using room_append [OF s1(2) room, of y] by simp
            moreover have "sent view (x @ y) s s'" if "sent view y s1 s'" "room_for (length y) s1" for s'
              using sent_append [OF s1(2) that(1)] that(2) s calculation(2) by (simp add: good_def)
            ultimately show ?thesis
              using v xo True w yo s1 sent_safe [OF s1(2)]
              by (auto simp: encodes_def w_then_def enc_then_def intro: safe_trans split: if_splits)
          qed
        qed
      qed
    qed
  qed
qed


section \<open>Sizes in advance\<close>

lemma good_sizing: "good view PB_OSTREAM_SIZING"
  by (simp add: good_def sink_ok_def PB_OSTREAM_SIZING_def has_callback_def)

lemma sizing_pass:
  assumes "writes_as view m (Some (x, ok))"
  shows "\<exists>s'. m PB_OSTREAM_SIZING = Some (ok, s') \<and> (ok \<longrightarrow> os_bytes_written s' = of_nat (length x))"
proof -
  have no: "\<not> has_callback PB_OSTREAM_SIZING" by (simp add: PB_OSTREAM_SIZING_def has_callback_def)
  from writes_asD [OF assms good_sizing] no show ?thesis
    by (cases ok) (auto simp: encodes_def room_for_def sent_def PB_OSTREAM_SIZING_def)
qed

lemma pb_write_sizing: "\<not> has_callback s \<Longrightarrow> pb_write [] n s = (True, s\<lparr>os_bytes_written := os_bytes_written s + n\<rparr>)"
  by (simp add: pb_write_def)

lemma skip_or_write:
  assumes "\<And>s. good view s \<Longrightarrow> has_callback s \<Longrightarrow> encodes m (Some (x, True)) view s"
    and "n = of_nat (length x)"
  shows "writes_as view (\<lambda>s. if \<not> has_callback s then out_call (pb_write [] n) s else m s) (Some (x, True))"
  unfolding writes_as_def
proof (intro allI impI)
  fix s
  assume s: "good view s"
  show "encodes (\<lambda>s. if \<not> has_callback s then out_call (pb_write [] n) s else m s) (Some (x, True)) view s"
  proof (cases "has_callback s")
    case True
    with assms(1) [OF s] show ?thesis by (simp add: encodes_def)
  next
    case False
    then have "os_sink s = Sizing" by (simp add: has_callback_def split: pb_sink.splits)
    with False s show ?thesis
      by (simp add: encodes_def out_call_def pb_write_sizing room_for_def sent_def assms(2) good_def sink_ok_def)
  qed
qed

text \<open>The length prefix in front of what follows.\<close>

lemma behind_length:
  assumes "writes_as view m (Some (x, True))" and "length x < 2 ^ 62"
  shows "writes_as view (enc_then (out_call (pb_encode_varint (of_nat (length x)))) m) (delimited (Some (x, True)))"
proof -
  have n: "unat (of_nat (length x) :: u64) = length x"
    using assms(2) by (simp add: unat_of_nat_less)
  have "writes_as view (out_call (pb_encode_varint (of_nat (length x)))) (wire (varint_enc (length x)))"
    using puts_writes [OF encode_varint_puts, of view "of_nat (length x)"] unfolding n .
  from writes_as_then [OF this assms(1)] show ?thesis
    by (auto simp: w_then_def delimited_def wire_def)
qed

text \<open>The substream of a submessage takes just as many bytes as the sizing pass has counted.\<close>

lemma write_submessage_encodes:
  assumes w: "writes_as view (sub submsg src) (Some (x, True))" and len: "length x < 2 ^ 62"
    and s: "good view s" and cb: "has_callback s" and of_nat: "n = of_nat (length x)"
  shows "encodes (write_submessage sub submsg src n) (Some (x, True)) view s"
    (is "encodes ?m _ _ _")
proof (cases "unat (os_bytes_written s) + length x < 2 ^ 64")
  case False
  with cb show ?thesis by (simp add: encodes_def)
next
  case bound: True
  have n: "unat n = length x" using len of_nat by (simp add: unat_of_nat_less)
  with bound have sum: "unat (os_bytes_written s + n) = unat (os_bytes_written s) + length x"
    by (simp add: unat_word_ariths)
  have le: "os_bytes_written s \<le> os_max_size s" using s cb by (simp add: good_def)
  show ?thesis
  proof (cases "room_for (length x) s")
    case False
    then have "unat (os_max_size s) < unat (os_bytes_written s) + length x" by (auto simp: room_for_def)
    then have "os_max_size s < os_bytes_written s + n" by (simp add: word_less_nat_alt sum)
    then have "?m s = Some (False, s\<lparr>os_errmsg := set_error (os_errmsg s) ''stream full''\<rparr>)"
      by (simp add: write_submessage_def out_call_def out_error_def)
    with False show ?thesis
      by (simp add: encodes_def safe_def split: pb_sink.split)
  next
    case True
    with cb le have fits: "unat (os_bytes_written s) + length x \<le> unat (os_max_size s)"
      by (auto simp: room_for_def word_le_nat_alt)
    then have full: "\<not> os_max_size s < os_bytes_written s + n" by (simp add: word_less_nat_alt sum)
    let ?s = "\<lparr>os_sink = os_sink s, os_max_size = n, os_bytes_written = 0, os_errmsg = None\<rparr>"
    have "sink_ok view s" using s by (simp add: good_def)
    with fits have good: "good view ?s"
      by (auto simp: good_def sink_ok_def n split: pb_sink.splits)
    have room: "room_for (length x) ?s" by (simp add: room_for_def n)
    from writes_asD [OF w good] room len obtain s' where
      s': "sub submsg src ?s = Some (True, s')" "sent view x ?s s'"
      by (auto simp: encodes_def)
    from s'(2) of_nat have n': "os_bytes_written s' = n" by (simp add: sent_def)
    let ?t = "s\<lparr>os_bytes_written := os_bytes_written s + n, os_sink := os_sink s', os_errmsg := os_errmsg s'\<rparr>"
    have run: "?m s = Some (True, ?t)" using full s'(1) n' by (simp add: write_submessage_def)
    have "sink_ok view ?t"
      using s'(2) \<open>sink_ok view s\<close> fits sum n
      by (auto simp: sent_def sink_ok_def split: pb_sink.splits)
    with s'(2) of_nat s have "sent view x s ?t" by (simp add: sent_def good_def)
    with True run show ?thesis by (auto simp: encodes_def)
  qed
qed

lemma submessage_writes:
  assumes w: "writes_as view (sub submsg src) w"
  shows "writes_as view (pb_encode_submessage sub submsg src) (delimited w)"
proof (cases w)
  case None
  then show ?thesis by (simp add: delimited_def)
next
  case (Some xo)
  obtain x ok where xo: "w = Some (x, ok)" using Some by (cases xo) simp
  from sizing_pass [OF w [unfolded xo]] obtain s' where
    s': "sub submsg src PB_OSTREAM_SIZING = Some (ok, s')" "ok \<Longrightarrow> os_bytes_written s' = of_nat (length x)"
    by auto
  show ?thesis
  proof (cases ok)
    case False
    with s' show ?thesis
      unfolding xo
      by (auto simp: delimited_def writes_as_def encodes_def w_error_def pb_encode_submessage_def safe_def
        split: pb_sink.split)
  next
    case ok: True
    show ?thesis
    proof (cases "length x < 2 ^ 62")
      case False
      with ok show ?thesis by (simp add: xo delimited_def wire_def)
    next
      case len: True
      have step: "pb_encode_submessage sub submsg src =
          enc_then (out_call (pb_encode_varint (of_nat (length x))))
            (\<lambda>s. if \<not> has_callback s then out_call (pb_write [] (of_nat (length x))) s
              else write_submessage sub submsg src (of_nat (length x)) s)"
        using s'(1) ok by (simp add: fun_eq_iff pb_encode_submessage_def Let_def s'(2) [OF ok] cong: if_cong)
      show ?thesis
        unfolding step xo using ok w xo
        by (auto intro!: behind_length skip_or_write write_submessage_encodes len)
    qed
  qed
qed


section \<open>The encoding of a value\<close>

definition signed_at :: "memory \<Rightarrow> u64 \<Rightarrow> u32 \<Rightarrow> int option" where
  "signed_at mem p n =
     (if n = 1 then Some (sint (mem p)) else if n = 2 then Some (sint (load16 mem p))
      else if n = 4 then Some (sint (load32 mem p)) else if n = 8 then Some (sint (load64 mem p))
      else None)"

definition unsigned_at :: "memory \<Rightarrow> u64 \<Rightarrow> u32 \<Rightarrow> nat option" where
  "unsigned_at mem p n =
     (if n = 1 then Some (unat (mem p)) else if n = 2 then Some (unat (load16 mem p))
      else if n = 4 then Some (unat (load32 mem p)) else if n = 8 then Some (unat (load64 mem p))
      else None)"

definition wire_of :: "'a option \<Rightarrow> ('a \<Rightarrow> bytes) \<Rightarrow> wire" where
  "wire_of v enc = (case v of None \<Rightarrow> w_error | Some v \<Rightarrow> wire (enc v))"

definition c_string :: "'s pb_process \<Rightarrow> pb_field \<Rightarrow> u64 \<Rightarrow> bytes" where
  "c_string pr field p =
     (if p = 0 then []
      else load_bytes (memory pr) p (unat (string_size (memory pr)
        (if atype field = PB_ATYPE_POINTER then - 1 else ucast (fd_data_size field)) p 0)))"

text \<open>The bytes of a \<open>pb_bytes_array_t\<close>, unless they would lie outside the static field.\<close>

definition bytes_array :: "'s pb_process \<Rightarrow> pb_field \<Rightarrow> u64 \<Rightarrow> bytes option" where
  "bytes_array pr field p =
     (if p = 0 then Some []
      else let n = unat (load32 (memory pr) p) in
        if atype field = PB_ATYPE_STATIC \<and> unat (fd_data_size field) < n + 4 then None
        else Some (load_bytes (memory pr) (p + 4) n))"

definition value_wire ::
    "'s pb_process \<Rightarrow> (u64 \<Rightarrow> u64 \<Rightarrow> wire) \<Rightarrow> pb_field \<Rightarrow> u64 \<Rightarrow> wire" where
  "value_wire pr sub field p =
     (let t = ltype field; mem = memory pr; n = fd_data_size field in
      if t = PB_LTYPE_BOOL then wire (varint_enc (of_bool (mem p \<noteq> 0)))
      else if t = PB_LTYPE_VARINT then wire_of (signed_at mem p n) (\<lambda>v. varint_enc (nat (v mod 2 ^ 64)))
      else if t = PB_LTYPE_UVARINT then wire_of (unsigned_at mem p n) varint_enc
      else if t = PB_LTYPE_SVARINT then
        wire_of (signed_at mem p n) (\<lambda>v. varint_enc (nat (if v < 0 then - 2 * v - 1 else 2 * v)))
      else if t = PB_LTYPE_FIXED32 then wire (load_bytes mem p 4)
      else if t = PB_LTYPE_FIXED64 then wire (load_bytes mem p 8)
      else if t = PB_LTYPE_BYTES then wire_of (bytes_array pr field p) (\<lambda>x. varint_enc (length x) @ x)
      else if t = PB_LTYPE_STRING then
        let x = c_string pr field p in wire (varint_enc (length x) @ x)
      else if t = PB_LTYPE_SUBMESSAGE then
        if fd_ptr field = 0 then w_error else delimited (sub (fd_ptr field) p)
      else if t = PB_LTYPE_FIXED_LENGTH_BYTES then
        let x = load_bytes mem p (unat n) in wire (varint_enc (length x) @ x)
      else None)"

lemma unat_scast: "unat (scast w :: u64) = nat (sint w mod 2 ^ 64)" for w :: "'a::len word"
proof -
  have "scast w = (word_of_int (sint w) :: u64)" by simp
  then have "uint (scast w :: u64) = sint w mod 2 ^ 64"
    by (simp only: uint_word_of_int) simp
  then show ?thesis by (simp flip: nat_uint_eq)
qed

lemma sint_scast:
  "sint (scast (b :: u8) :: u64) = sint b" "sint (scast (h :: u16) :: u64) = sint h"
  "sint (scast (w :: u32) :: u64) = sint w"
  using sint_greater_eq [of b] sint_less [of b] sint_greater_eq [of h] sint_less [of h]
    sint_greater_eq [of w] sint_less [of w]
  by (simp_all add: signed_scast_eq signed_take_bit_int_eq_self_iff)


lemma varint_writes: "writes_as view (out_call (pb_encode_varint v)) (wire (varint_enc (unat v)))"
  by (rule puts_writes) (rule encode_varint_puts)

lemma svarint_writes:
  "writes_as view (out_call (pb_encode_svarint v))
    (wire (varint_enc (nat (if sint v < 0 then - 2 * sint v - 1 else 2 * sint v))))"
  unfolding unat_zigzag [symmetric] by (rule puts_writes) (rule svarint.put_puts [OF TrueI])

lemma string_writes:
  assumes "unat n = length x"
  shows "writes_as view (out_call (pb_encode_string x n)) (wire (varint_enc (length x) @ x))"
  by (rule puts_writes) (simp add: encode_string_puts assms)

lemma signed_writes:
  assumes "\<And>v. writes_as view (out_call (op v)) (wire (f (sint v)))"
  shows "writes_as view
    (out_call (if n = 1 then op (scast (mem p)) else if n = 2 then op (scast (load16 mem p))
      else if n = 4 then op (scast (load32 mem p)) else if n = 8 then op (load64 mem p)
      else out_error msg))
    (wire_of (signed_at mem p n) f)"
  using assms [of "scast (mem p)"] assms [of "scast (load16 mem p)"] assms [of "scast (load32 mem p)"]
    assms [of "load64 mem p"]
  by (simp add: signed_at_def wire_of_def sint_scast writes_as_error)

lemma unat_sint: "unat (v :: u64) = nat (sint v mod 2 ^ 64)"
  using unat_scast [of v] by simp

lemma unsigned_writes:
  "writes_as view
    (out_call (if n = 1 then pb_encode_varint (ucast (mem p)) else if n = 2 then pb_encode_varint (ucast (load16 mem p))
      else if n = 4 then pb_encode_varint (ucast (load32 mem p)) else if n = 8 then pb_encode_varint (load64 mem p)
      else out_error msg))
    (wire_of (unsigned_at mem p n) varint_enc)"
proof -
  have "unat (ucast (b :: u8) :: u64) = unat b" "unat (ucast (h :: u16) :: u64) = unat h" for b h
    by (simp_all add: unsigned_ucast_eq take_bit_nat_eq_self less_trans [OF unat_less_256] less_trans [OF unsigned_less])
  then show ?thesis
    using varint_writes [of view "ucast (mem p)"] varint_writes [of view "ucast (load16 mem p)"]
      varint_writes [of view "ucast (load32 mem p)"] varint_writes [of view "load64 mem p"]
    by (simp add: unsigned_at_def wire_of_def writes_as_error)
qed

lemma bytes_writes:
  "writes_as view (out_call (pb_enc_bytes pr field p))
    (wire_of (bytes_array pr field p) (\<lambda>x. varint_enc (length x) @ x))"
proof (cases "p = 0")
  case True
  then show ?thesis
    using string_writes [of 0 "[]" view] by (simp add: pb_enc_bytes_def bytes_array_def wire_of_def)
next
  case False
  let ?n = "load32 (memory pr) p"
  have "unat ?n + 4 < 2 ^ 64" using unat_less_32 [of ?n] by simp
  then have "unat (ucast ?n + 4 :: u64) = unat ?n + 4" by (simp add: unat_word_ariths)
  with False show ?thesis
    using string_writes [of "ucast ?n" "load_bytes (memory pr) (p + 4) (unat ?n)" view]
    by (auto simp: pb_enc_bytes_def bytes_array_def wire_of_def Let_def word_less_nat_alt writes_as_error)
qed

lemma c_string_writes:
  "writes_as view (out_call (pb_enc_string pr field p))
    (wire (varint_enc (length (c_string pr field p)) @ c_string pr field p))"
proof -
  let ?max = "if atype field = PB_ATYPE_POINTER then - 1 else ucast (fd_data_size field)"
  let ?n = "if p = 0 then 0 else string_size (memory pr) ?max p 0"
  have "load_bytes (memory pr) p (unat ?n) = c_string pr field p"
    by (simp add: c_string_def load_bytes_def)
  moreover have "unat ?n = length (c_string pr field p)" by (simp add: c_string_def)
  ultimately show ?thesis
    using string_writes [of ?n "c_string pr field p" view] by (simp add: pb_enc_string_def Let_def)
qed

lemma bool_writes:
  "writes_as view (out_call (pb_enc_bool pr field p)) (wire (varint_enc (of_bool (memory pr p \<noteq> 0))))"
  using varint_writes [of view 0] varint_writes [of view 1]
  by (cases "memory pr p = 0") (simp_all add: pb_enc_bool_def safe_read_bool_def)

lemma fixed32_writes:
  "writes_as view (out_call (pb_enc_fixed32 pr field p)) (wire (load_bytes (memory pr) p 4))"
  unfolding pb_enc_fixed32_def load_bytes_fixed by (rule puts_writes) (rule fixed32.put_puts [OF TrueI])

lemma fixed64_writes:
  "writes_as view (out_call (pb_enc_fixed64 pr field p)) (wire (load_bytes (memory pr) p 8))"
  unfolding pb_enc_fixed64_def load_bytes_fixed by (rule puts_writes) (rule fixed64.put_puts [OF TrueI])

lemma fixed_length_writes:
  "writes_as view (out_call (pb_enc_fixed_length_bytes pr field p))
    (wire (varint_enc (unat (fd_data_size field)) @ load_bytes (memory pr) p (unat (fd_data_size field))))"
  using string_writes [of "ucast (fd_data_size field)" "load_bytes (memory pr) p (unat (fd_data_size field))" view]
  by (simp add: pb_enc_fixed_length_bytes_def)

lemma value_writes:
  assumes "\<And>submsg src. writes_as view (sub submsg src) (subw submsg src)"
  shows "writes_as view (PB_ENCODERS pr sub (ltype field) field p) (value_wire pr subw field p)"
proof -
  have "writes_as view (out_call (pb_enc_varint pr field p))
      (wire_of (signed_at (memory pr) p (fd_data_size field)) (\<lambda>v. varint_enc (nat (v mod 2 ^ 64))))"
    unfolding pb_enc_varint_def
    by (rule signed_writes) (simp only: unat_sint [symmetric] varint_writes)
  moreover have "writes_as view (out_call (pb_enc_uvarint pr field p))
      (wire_of (unsigned_at (memory pr) p (fd_data_size field)) varint_enc)"
    unfolding pb_enc_uvarint_def by (rule unsigned_writes)
  moreover have "writes_as view (out_call (pb_enc_svarint pr field p))
      (wire_of (signed_at (memory pr) p (fd_data_size field))
        (\<lambda>v. varint_enc (nat (if v < 0 then - 2 * v - 1 else 2 * v))))"
    unfolding pb_enc_svarint_def by (rule signed_writes) (rule svarint_writes)
  moreover have "writes_as view (pb_enc_submessage sub field p)
      (if fd_ptr field = 0 then w_error else delimited (subw (fd_ptr field) p))"
    by (simp add: pb_enc_submessage_def writes_as_error submessage_writes assms)
  ultimately show ?thesis
    by (simp add: PB_ENCODERS_def value_wire_def Let_def bool_writes fixed32_writes fixed64_writes bytes_writes
      c_string_writes fixed_length_writes)
qed


section \<open>The encoding of a field\<close>

definition wire_type :: "u8 \<Rightarrow> u32 option" where
  "wire_type t =
     (if t \<le> PB_LTYPE_SVARINT then Some PB_WT_VARINT
      else if t = PB_LTYPE_FIXED32 then Some PB_WT_32BIT
      else if t = PB_LTYPE_FIXED64 then Some PB_WT_64BIT
      else if t \<in> {PB_LTYPE_BYTES, PB_LTYPE_STRING, PB_LTYPE_SUBMESSAGE, PB_LTYPE_FIXED_LENGTH_BYTES}
      then Some PB_WT_STRING else None)"

definition key_bytes :: "pb_field \<Rightarrow> u32 \<Rightarrow> bytes" where
  "key_bytes field wt = varint_enc (unat (fd_tag field) * 8 + unat wt)"

definition key_wire :: "pb_field \<Rightarrow> wire" where
  "key_wire field = wire_of (wire_type (ltype field)) (key_bytes field)"

text \<open>The elements of an array, packed behind one key or each behind its own.\<close>

definition array_wire ::
    "'s pb_process \<Rightarrow> (pb_field \<Rightarrow> u64 \<Rightarrow> wire) \<Rightarrow> pb_field \<Rightarrow> u64 \<Rightarrow> nat \<Rightarrow> wire" where
  "array_wire pr item field p count =
     (let elements = map (\<lambda>i. p + of_nat i * ucast (fd_data_size field)) [0..<count] in
      if count = 0 then wire []
      else if atype field \<noteq> PB_ATYPE_POINTER \<and> unat (fd_array_size field) < count then w_error
      else if ltype field \<le> PB_LTYPE_LAST_PACKABLE then
        w_then (wire (key_bytes field PB_WT_STRING)) (delimited (w_concat (map (item field) elements)))
      else
        w_concat (map (\<lambda>p. w_then (key_wire field)
          (item field (if atype field = PB_ATYPE_POINTER \<and>
             (ltype field = PB_LTYPE_STRING \<or> ltype field = PB_LTYPE_BYTES)
             then load64 (memory pr) p else p))) elements))"

definition basic_wire ::
    "nat \<Rightarrow> 's pb_process \<Rightarrow> (u64 \<Rightarrow> u64 \<Rightarrow> wire) \<Rightarrow> pb_field \<Rightarrow> u64 \<Rightarrow> wire" where
  "basic_wire d pr sub field p0 =
     (let p = (if atype field = PB_ATYPE_POINTER then load64 (memory pr) p0 else p0);
          pSize = p0 + scast (fd_size_offset field);
          sized = (fd_size_offset field \<noteq> 0);
          write = w_then (key_wire field) (value_wire pr sub field p)
      in
        if htype field = PB_HTYPE_REQUIRED then if p = 0 then w_error else write
        else if htype field = PB_HTYPE_OPTIONAL then
          if sized then if memory pr pSize \<noteq> 0 then write else wire []
          else
            (case pb_check_proto3_default_value d pr field p0 of
               None \<Rightarrow> None
             | Some zero \<Rightarrow>
                 if atype field = PB_ATYPE_POINTER \<and> p = 0 \<or> atype field \<noteq> PB_ATYPE_POINTER \<and> zero
                 then wire [] else write)
        else if htype field = PB_HTYPE_REPEATED then
          array_wire pr (value_wire pr sub) field p
            (unat (if sized then load32 (memory pr) pSize else fd_array_size field))
        else if \<not> sized then None
        else if load32 (memory pr) pSize = fd_tag field then write else wire [])"

text \<open>
  What the functions of the library's user write: \<open>cbw\<close> and \<open>extw\<close> give the encodings for
  the code addresses.
\<close>

definition callback_wire ::
    "'s pb_process \<Rightarrow> (u64 \<Rightarrow> pb_field \<Rightarrow> u64 \<Rightarrow> wire) \<Rightarrow> pb_field \<Rightarrow> u64 \<Rightarrow> wire" where
  "callback_wire pr cbw field p =
     (let code = load64 (memory pr) p in if code = 0 then wire [] else cbw code field (p + 8))"

definition field_wire ::
    "nat \<Rightarrow> 's pb_process \<Rightarrow> (u64 \<Rightarrow> pb_field \<Rightarrow> u64 \<Rightarrow> wire) \<Rightarrow> (u64 \<Rightarrow> u64 \<Rightarrow> wire) \<Rightarrow> pb_field \<Rightarrow> u64 \<Rightarrow> wire" where
  "field_wire d pr cbw sub field p =
     (if atype field = PB_ATYPE_STATIC \<or> atype field = PB_ATYPE_POINTER then basic_wire d pr sub field p
      else if atype field = PB_ATYPE_CALLBACK then callback_wire pr cbw field p
      else w_error)"

text \<open>The extensions of a chain, of at most \<open>n\<close> links.\<close>

primrec extension_chain :: "memory \<Rightarrow> nat \<Rightarrow> u64 \<Rightarrow> u64 list option" where
  "extension_chain mem 0 extension = (if extension = 0 then Some [] else None)"
| "extension_chain mem (Suc n) extension =
     (if extension = 0 then Some []
      else map_option ((#) extension) (extension_chain mem n (load64 mem (extension + 16))))"

definition extension_wire ::
    "nat \<Rightarrow> 's pb_process \<Rightarrow> (u64 \<Rightarrow> pb_field \<Rightarrow> u64 \<Rightarrow> wire) \<Rightarrow> (u64 \<Rightarrow> u64 \<Rightarrow> wire) \<Rightarrow>
      (u64 \<Rightarrow> u64 \<Rightarrow> wire) \<Rightarrow> u64 \<Rightarrow> wire" where
  "extension_wire d pr cbw extw sub extension =
     (let etype = load64 (memory pr) extension;
          code = load64 (memory pr) (etype + 8);
          field = field_at (descriptors pr (load64 (memory pr) (etype + 16))) 0
      in
        if code \<noteq> 0 then extw code extension
        else field_wire d pr cbw sub field
          (if atype field = PB_ATYPE_POINTER then extension + 8 else load64 (memory pr) (extension + 8)))"

text \<open>A message: its fields, one after the other.\<close>

primrec message_wire ::
    "nat \<Rightarrow> 's pb_process \<Rightarrow> (u64 \<Rightarrow> pb_field \<Rightarrow> u64 \<Rightarrow> wire) \<Rightarrow> (u64 \<Rightarrow> u64 \<Rightarrow> wire) \<Rightarrow> u64 \<Rightarrow> u64 \<Rightarrow> wire" where
  "message_wire 0 pr cbw extw fs src = None"
| "message_wire (Suc d) pr cbw extw fs src =
     (let sub = message_wire d pr cbw extw; fs = descriptors pr fs in
      w_concat (map
        (\<lambda>i. let field = field_at fs i; p = it_pData (iter_at fs src i) in
           if ltype field = PB_LTYPE_EXTENSION then
             (case extension_chain (memory pr) d (load64 (memory pr) p) of
                None \<Rightarrow> None
              | Some extensions \<Rightarrow> w_concat (map (extension_wire d pr cbw extw sub) extensions))
           else field_wire d pr cbw sub field p)
        [0..<n_fields fs]))"


section \<open>The encoders write these encodings\<close>

lemma pb_tag_writes:
  assumes "wt < 8"
  shows "writes_as view (out_call (pb_encode_tag wt (fd_tag field))) (wire (key_bytes field wt))"
  unfolding key_bytes_def unat_key_word [OF assms, symmetric] by (rule puts_writes) (rule encode_tag_puts)

lemma key_writes: "writes_as view (out_call (pb_encode_tag_for_field field)) (key_wire field)"
proof -
  have varints: "ltype field \<in> {PB_LTYPE_BOOL, PB_LTYPE_VARINT, PB_LTYPE_UVARINT, PB_LTYPE_SVARINT} \<longleftrightarrow>
      ltype field \<le> PB_LTYPE_SVARINT"
    by (auto simp: pb_consts word_le_nat_alt word_unat_eq_iff)
  have "PB_WT_VARINT < 8" "PB_WT_64BIT < 8" "PB_WT_STRING < 8" "PB_WT_32BIT < 8"
    by (simp_all add: PB_WT_VARINT_def PB_WT_64BIT_def PB_WT_STRING_def PB_WT_32BIT_def)
  note tags = this [THEN pb_tag_writes, of view field]
  show ?thesis
    unfolding pb_encode_tag_for_field_def key_wire_def wire_type_def wire_of_def Let_def varints
    by (simp add: tags writes_as_error)
qed

lemma each_writes:
  assumes "\<And>p. writes_as view (func p) (item p)"
  shows "writes_as view (encode_each func step n p)
    (w_concat (map item (map (\<lambda>i. p + of_nat i * step) [0..<n])))"
proof (induction n arbitrary: p)
  case 0
  show ?case by (simp add: writes_as_ok)
next
  case (Suc n)
  have "map (\<lambda>i. p + of_nat i * step) [0..<Suc n] = p # map (\<lambda>i. p + step + of_nat i * step) [0..<n]"
    by (simp add: upt_conv_Cons map_Suc_upt [symmetric] algebra_simps del: upt_Suc)
  then show ?case
    using writes_as_then [OF assms Suc.IH [of "p + step"], of p] by (simp only: encode_each.simps list.map w_concat_simps)
qed

text \<open>The size of a packed array is known before its elements are written.\<close>

lemma packed_writes:
  assumes items: "writes_as view (encode_each func (ucast (fd_data_size field)) (unat count) p) w"
    and fixed: "\<And>x ok k. ltype field = PB_LTYPE_FIXED32 \<and> k = 4 \<or> ltype field = PB_LTYPE_FIXED64 \<and> k = 8 \<Longrightarrow>
      w = Some (x, ok) \<Longrightarrow> ok \<and> length x = k * unat count"
  shows "writes_as view
    (\<lambda>stream.
       case packed_size field count p func of
         None \<Rightarrow> None
       | Some None \<Rightarrow> Some (False, stream)
       | Some (Some n) \<Rightarrow>
           enc_then (out_call (pb_encode_varint n))
             (\<lambda>stream.
                if \<not> has_callback stream then out_call (pb_write [] n) stream
                else encode_each func (ucast (fd_data_size field)) (unat count) p stream)
             stream)
    (delimited w)"
proof (cases w)
  case None
  then show ?thesis by (simp add: delimited_def)
next
  case (Some xo)
  then obtain x ok where w: "w = Some (x, ok)" by (cases xo) simp
  from sizing_pass [OF items [unfolded w]] have
    size: "packed_size field count p func = Some (if ok then Some (of_nat (length x)) else None)"
    using fixed [OF _ w, of 4] fixed [OF _ w, of 8] by (auto simp: packed_size_def)
  show ?thesis
  proof (cases ok)
    case False
    then show ?thesis
      by (simp add: size w delimited_def writes_as_def encodes_def w_error_def safe_refl)
  next
    case ok: True
    show ?thesis
    proof (cases "length x < 2 ^ 62")
      case False
      with ok show ?thesis by (simp add: w delimited_def wire_def)
    next
      case True
      let ?n = "of_nat (length x) :: size_t"
      have "writes_as view
          (enc_then (out_call (pb_encode_varint ?n))
             (\<lambda>stream.
                if \<not> has_callback stream then out_call (pb_write [] ?n) stream
                else encode_each func (ucast (fd_data_size field)) (unat count) p stream)) (delimited w)"
        using ok w items True by (auto intro!: behind_length skip_or_write writes_asD)
      then show ?thesis by (simp add: size ok)
    qed
  qed
qed

lemma w_concat_fixed:
  assumes "w_concat (map item ps) = Some (x, ok)"
    and "\<And>p y ok. item p = Some (y, ok) \<Longrightarrow> ok \<and> length y = k"
  shows "ok \<and> length x = k * length ps"
  using assms(1)
proof (induction ps arbitrary: x ok)
  case Nil
  then show ?case by (simp add: wire_nothing)
next
  case (Cons p ps)
  then show ?case
    using assms(2) [of p] by (auto simp: w_then_def split: option.splits prod.splits bool.splits if_splits)
qed

lemma writes_as_if:
  "(c \<Longrightarrow> writes_as view f v) \<Longrightarrow> (\<not> c \<Longrightarrow> writes_as view g w) \<Longrightarrow>
    writes_as view (if c then f else g) (if c then v else w)"
  by simp

lemma array_writes:
  assumes "\<And>p. writes_as view (func field p) (item field p)"
    and "\<And>p x ok k. ltype field = PB_LTYPE_FIXED32 \<and> k = 4 \<or> ltype field = PB_LTYPE_FIXED64 \<and> k = 8 \<Longrightarrow>
      item field p = Some (x, ok) \<Longrightarrow> ok \<and> length x = k"
  shows "writes_as view (encode_array pr field p (ucast count) func) (array_wire pr item field p (unat (count :: u32)))"
proof -
  let ?ps = "map (\<lambda>i. p + of_nat i * ucast (fd_data_size field)) [0..<unat count]"
  note each = each_writes [of view "func field" "item field", OF assms(1)]
  have packed: "ok \<and> length x = k * unat (ucast count :: u64)"
    if "ltype field = PB_LTYPE_FIXED32 \<and> k = 4 \<or> ltype field = PB_LTYPE_FIXED64 \<and> k = 8"
      and "w_concat (map (item field) ?ps) = Some (x, ok)" for x ok k
    using w_concat_fixed [OF that(2) assms(2) [OF that(1)]] by simp
  have zero: "ucast count = (0 :: u64) \<longleftrightarrow> count = 0" "unat count = 0 \<longleftrightarrow> count = 0"
    "ucast (fd_array_size field) < (ucast count :: u64) \<longleftrightarrow> unat (fd_array_size field) < unat count"
    by (simp_all add: word_unat_eq_iff word_less_nat_alt)
  let ?at = "\<lambda>p. if atype field = PB_ATYPE_POINTER \<and>
      (ltype field = PB_LTYPE_STRING \<or> ltype field = PB_LTYPE_BYTES) then load64 (memory pr) p else p"
  have "writes_as view
      (if atype field = PB_ATYPE_POINTER \<and> (ltype field = PB_LTYPE_STRING \<or> ltype field = PB_LTYPE_BYTES)
       then func field (load64 (memory pr) p) else func field p) (item field (?at p))" for p
    by (auto simp: assms(1))
  note single = each_writes [OF writes_as_then [OF key_writes this], where step = "ucast (fd_data_size field)"
      and n = "unat count" and p = p]
  have "PB_WT_STRING < 8" by (simp add: PB_WT_STRING_def)
  note all = writes_as_then [OF pb_tag_writes [OF this] packed_writes [OF each [of _ "unat (ucast count :: u64)"]],
      OF packed]
  show ?thesis
    unfolding encode_array_def array_wire_def zero Let_def unat_ucast_64
    by (intro writes_as_if writes_as_ok writes_as_error single all [unfolded unat_ucast_64])
qed

lemma value_fixed:
  "ltype field = PB_LTYPE_FIXED32 \<and> k = 4 \<or> ltype field = PB_LTYPE_FIXED64 \<and> k = 8 \<Longrightarrow>
    value_wire pr sub field p = Some (x, ok) \<Longrightarrow> ok \<and> length x = k"
  by (auto simp: value_wire_def Let_def pb_consts dest!: wire_SomeD)

lemma basic_writes:
  assumes "\<And>submsg src. writes_as view (sub submsg src) (subw submsg src)"
  shows "writes_as view (encode_basic_field d pr sub field p0) (basic_wire d pr subw field p0)"
proof -
  define p where "p = (if atype field = PB_ATYPE_POINTER then load64 (memory pr) p0 else p0)"
  have put: "writes_as view
      (enc_then (out_call (pb_encode_tag_for_field field)) (PB_ENCODERS pr sub (ltype field) field p))
      (w_then (key_wire field) (value_wire pr subw field p))"
    by (intro writes_as_then key_writes value_writes assms)
  have array: "writes_as view
      (encode_array pr field p (ucast count) (PB_ENCODERS pr sub (ltype field)))
      (array_wire pr (value_wire pr subw) field p (unat count))" for count :: u32
    by (intro array_writes value_writes assms) (rule value_fixed)
  show ?thesis
  proof (cases "fd_size_offset field = 0 \<and> htype field = PB_HTYPE_OPTIONAL")
    case True
    then have "htype field \<noteq> PB_HTYPE_REQUIRED" by (simp add: pb_consts)
    with True show ?thesis
      unfolding encode_basic_field_def basic_wire_def Let_def p_def [symmetric]
      by (cases "pb_check_proto3_default_value d pr field p0")
        (simp_all add: put writes_as_ok)
  next
    case False
    then have "htype field = PB_HTYPE_OPTIONAL \<Longrightarrow> fd_size_offset field \<noteq> 0" by simp
    then show ?thesis
      unfolding encode_basic_field_def basic_wire_def Let_def if_not_P [OF False] option.case safe_read_bool_def
        p_def [symmetric]
      by (intro writes_as_if put writes_as_error) (simp_all add: put array writes_as_ok)
  qed
qed


text \<open>What is asked of the functions of the user: to write the same bytes on every stream.\<close>

definition user_code ::
    "('s \<Rightarrow> bytes) \<Rightarrow> 's pb_process \<Rightarrow> (u64 \<Rightarrow> pb_field \<Rightarrow> u64 \<Rightarrow> wire) \<Rightarrow> (u64 \<Rightarrow> u64 \<Rightarrow> wire) \<Rightarrow> bool" where
  "user_code view pr cbw extw \<longleftrightarrow>
     (\<forall>code field arg. writes_as view (out_call (callback_code pr code field arg)) (cbw code field arg)) \<and>
     (\<forall>code extension. writes_as view (out_call (extension_code pr code extension)) (extw code extension))"

lemma callback_writes:
  assumes "user_code view pr cbw extw"
  shows "writes_as view (encode_callback_field pr field p) (callback_wire pr cbw field p)"
proof (cases "load64 (memory pr) p = 0")
  case True
  then have "encode_callback_field pr field p = enc_ok"
    by (simp add: fun_eq_iff encode_callback_field_def)
  with True show ?thesis by (simp add: callback_wire_def writes_as_ok)
next
  case False
  let ?code = "callback_code pr (load64 (memory pr) p) field (p + 8)"
  have "writes_as view (out_call ?code) (cbw (load64 (memory pr) p) field (p + 8))"
    using assms by (simp add: user_code_def)
  moreover have "encodes (encode_callback_field pr field p) w view s" if "encodes (out_call ?code) w view s" for w s
  proof -
    have "safe s (s'\<lparr>os_errmsg := e\<rparr>)" if "safe s s'" for s' e
      using that by (simp add: safe_def split: pb_sink.splits)
    with that False show ?thesis
      by (auto simp: encodes_def encode_callback_field_def out_call_def out_ok_def out_error_def split: option.splits if_splits)
  qed
  ultimately show ?thesis
    using False by (simp add: writes_as_def callback_wire_def)
qed

lemma field_writes:
  assumes "user_code view pr cbw extw" and "\<And>submsg src. writes_as view (sub submsg src) (subw submsg src)"
  shows "writes_as view (encode_field d pr sub field p) (field_wire d pr cbw subw field p)"
  unfolding encode_field_def field_wire_def
  by (intro writes_as_if basic_writes callback_writes [OF assms(1)] writes_as_error assms)

lemma extension_writes:
  assumes "user_code view pr cbw extw" and "\<And>submsg src. writes_as view (sub submsg src) (subw submsg src)"
  shows "writes_as view
    (if load64 (memory pr) (load64 (memory pr) extension + 8) \<noteq> 0
     then out_call (extension_code pr (load64 (memory pr) (load64 (memory pr) extension + 8)) extension)
     else default_extension_encoder d pr sub extension)
    (extension_wire d pr cbw extw subw extension)"
  using assms(1) field_writes [OF assms]
  by (simp add: default_extension_encoder_def extension_wire_def Let_def user_code_def)

lemma extensions_writes:
  assumes "user_code view pr cbw extw" and "\<And>submsg src. writes_as view (sub submsg src) (subw submsg src)"
  shows "writes_as view (encode_extensions n d pr sub extension)
    (case extension_chain (memory pr) n extension of
       None \<Rightarrow> None
     | Some extensions \<Rightarrow> w_concat (map (extension_wire d pr cbw extw subw) extensions))"
proof (induction n arbitrary: extension)
  case 0
  then show ?case by (cases "extension = 0") (simp_all add: writes_as_ok)
next
  case (Suc n)
  show ?case
  proof (cases "extension = 0")
    case True
    then show ?thesis by (simp add: writes_as_ok)
  next
    case False
    let ?next = "load64 (memory pr) (extension + 16)"
    show ?thesis
    proof (cases "extension_chain (memory pr) n ?next")
      case None
      with False show ?thesis by simp
    next
      case (Some extensions)
      with writes_as_then [OF extension_writes [OF assms] Suc.IH [of ?next]] False show ?thesis
        by (simp add: Let_def)
    qed
  qed
qed

lemma each_field_writes:
  assumes "\<And>field p. writes_as view (op field p) (item field p)" and "i < n_fields fs"
  shows "writes_as view (each_field op (iter_at fs src i))
    (w_concat (map (\<lambda>i. item (field_at fs i) (it_pData (iter_at fs src i))) [i..<n_fields fs]))"
  using assms(2)
proof (induction "n_fields fs - i" arbitrary: i)
  case 0
  then show ?case by simp
next
  case (Suc k)
  let ?rest = "map (\<lambda>i. item (field_at fs i) (it_pData (iter_at fs src i))) [Suc i..<n_fields fs]"
  have "writes_as view
      (case pb_field_iter_next (iter_at fs src i) of (True, it') \<Rightarrow> each_field op it' | (False, it') \<Rightarrow> enc_ok)
      (w_concat ?rest)"
  proof (cases "Suc i < n_fields fs")
    case True
    have "k = n_fields fs - Suc i" using Suc.hyps(2) by simp
    from Suc.hyps(1) [OF this True] True show ?thesis
      unfolding next_at [OF Suc.prems] by (simp only: if_True prod.case bool.case)
  next
    case False
    then have "[Suc i..<n_fields fs] = []" by simp
    with False show ?thesis unfolding next_at [OF Suc.prems] by (simp add: writes_as_ok)
  qed
  from writes_as_then [OF assms(1) this] show ?case
    using Suc.prems by (simp add: each_field.simps [of op "iter_at fs src i"] upt_conv_Cons iter_at_pos)
qed

lemma message_writes:
  assumes "user_code view pr cbw extw"
  shows "writes_as view (pb_encode d pr fs src) (message_wire d pr cbw extw fs src)"
proof (induction d arbitrary: fs src)
  case 0
  show ?case by simp
next
  case (Suc d)
  let ?fs = "descriptors pr fs" and ?sub = "message_wire d pr cbw extw"
  have field: "writes_as view (encode_message_field d pr (pb_encode d pr) field p)
      (if ltype field = PB_LTYPE_EXTENSION then
         (case extension_chain (memory pr) d (load64 (memory pr) p) of
            None \<Rightarrow> None
          | Some extensions \<Rightarrow> w_concat (map (extension_wire d pr cbw extw ?sub) extensions))
       else field_wire d pr cbw ?sub field p)" for field p
    unfolding encode_message_field_def encode_extension_field_def
    by (intro writes_as_if extensions_writes [OF assms] field_writes [OF assms] Suc.IH)
  show ?case
  proof (cases "0 < n_fields ?fs")
    case True
    then have first: "pb_field_iter_begin ?fs src = (True, iter_at ?fs src 0)"
      using begin_nonempty [of ?fs src] by (simp add: prod_eq_iff)
    show ?thesis
      unfolding pb_encode.simps message_wire.simps Let_def first prod.case bool.case
      by (rule each_field_writes [OF field True])
  next
    case False
    then have "fst (pb_field_iter_begin ?fs src) = False" using begin_nonempty [of ?fs src] by simp
    with False show ?thesis by (cases "pb_field_iter_begin ?fs src") (simp add: writes_as_ok)
  qed
qed


section \<open>Enough depth\<close>

text \<open>
  The field encoders have an outcome whenever the calls for submessages have one. So a message type
  whose submessages nest \<open>d\<close> deep, without recursion and extensions, is encoded within depth \<open>d\<close>,
  whatever the memory holds.
\<close>

definition returns :: "'s pb_enc \<Rightarrow> bool" where
  "returns m \<longleftrightarrow> (\<forall>s. m s \<noteq> None)"

lemma returns_call [simp]: "returns (out_call m)"
  by (simp add: returns_def out_call_def)

lemma returns_then: "returns f \<Longrightarrow> returns g \<Longrightarrow> returns (enc_then f g)"
  by (auto simp: returns_def enc_then_def split: option.split)

lemma returns_if: "(c \<Longrightarrow> returns f) \<Longrightarrow> (\<not> c \<Longrightarrow> returns g) \<Longrightarrow> returns (if c then f else g)"
  by simp

lemma returns_each: "(\<And>p. returns (func p)) \<Longrightarrow> returns (encode_each func step n p)"
  by (induction n arbitrary: p) (simp_all add: returns_then)

lemma returnsD: "returns m \<Longrightarrow> \<exists>ok s'. m s = Some (ok, s')"
  by (fastforce simp: returns_def)

lemma returns_write_submessage: "(\<And>s. sub submsg src s \<noteq> None) \<Longrightarrow> returns (write_submessage sub submsg src n)"
  by (auto simp: returns_def write_submessage_def out_call_def Let_def simp del: not_None_eq split: option.split)

lemma returns_submessage:
  assumes "returns (sub submsg src)"
  shows "returns (pb_encode_submessage sub submsg src)"
proof -
  have body: "returns (enc_then (out_call (pb_encode_varint n))
      (\<lambda>s. if \<not> has_callback s then out_call (pb_write [] n) s else write_submessage sub submsg src n s))" for n
    using returns_write_submessage [of sub submsg src n] assms
    by (intro returns_then returns_call) (auto simp: returns_def out_call_def)
  then show ?thesis
    using returnsD [OF assms, of PB_OSTREAM_SIZING]
    by (auto simp: returns_def pb_encode_submessage_def Let_def split: bool.split)
qed

definition known_type :: "u8 \<Rightarrow> bool" where
  "known_type t \<longleftrightarrow> t \<le> PB_LTYPE_SUBMESSAGE \<or> t = PB_LTYPE_FIXED_LENGTH_BYTES"

lemma returns_encoder:
  assumes "ltype field = PB_LTYPE_SUBMESSAGE \<Longrightarrow> returns (sub (fd_ptr field) p)" and "known_type (ltype field)"
  shows "returns (PB_ENCODERS pr sub (ltype field) field p)"
proof -
  have "ltype field \<in> {PB_LTYPE_BOOL, PB_LTYPE_VARINT, PB_LTYPE_UVARINT, PB_LTYPE_SVARINT, PB_LTYPE_FIXED32,
      PB_LTYPE_FIXED64, PB_LTYPE_BYTES, PB_LTYPE_STRING, PB_LTYPE_SUBMESSAGE, PB_LTYPE_FIXED_LENGTH_BYTES}"
    using assms(2) by (auto simp: known_type_def pb_consts word_le_nat_alt word_unat_eq_iff)
  then show ?thesis
    unfolding PB_ENCODERS_def pb_enc_submessage_def
    by (intro returns_if returns_call returns_submessage assms(1)) auto
qed

lemma returns_array:
  assumes func: "\<And>p. returns (func field p)"
  shows "returns (encode_array pr field p count func)"
proof -
  have each: "encode_each (func field) step n p s \<noteq> None" for step n p s
    using returns_each [of "func field", OF func] by (simp add: returns_def)
  have packed: "packed_size field count p (func field) \<noteq> None"
    using each by (auto simp: packed_size_def simp del: not_None_eq split: option.split bool.split)
  have body: "returns (enc_then (out_call (pb_encode_varint n))
      (\<lambda>s. if \<not> has_callback s then out_call (pb_write [] n) s
        else encode_each (func field) (ucast (fd_data_size field)) (unat count) p s))" for n
    by (intro returns_then returns_call)
      (use each in \<open>auto simp: returns_def out_call_def simp del: not_None_eq\<close>)
  show ?thesis
    unfolding encode_array_def
    by (intro returns_if returns_call returns_then returns_each func)
      (use packed body in \<open>auto simp: returns_def split: option.split\<close>)
qed

lemma returns_each_field:
  assumes "\<And>i. i < n_fields fs \<Longrightarrow> returns (op (field_at fs i) (it_pData (iter_at fs src i)))"
    and "i < n_fields fs"
  shows "returns (each_field op (iter_at fs src i))"
  using assms(2)
proof (induction "n_fields fs - i" arbitrary: i)
  case 0
  then show ?case by simp
next
  case (Suc k)
  have "returns (case pb_field_iter_next (iter_at fs src i) of
      (True, it') \<Rightarrow> each_field op it' | (False, it') \<Rightarrow> enc_ok)"
  proof (cases "Suc i < n_fields fs")
    case True
    have "k = n_fields fs - Suc i" using Suc.hyps(2) by simp
    from Suc.hyps(1) [OF this True] True show ?thesis
      unfolding next_at [OF Suc.prems] by (simp only: if_True prod.case bool.case)
  next
    case False
    then show ?thesis unfolding next_at [OF Suc.prems] by simp
  qed
  with assms(1) [OF Suc.prems] show ?case
    using Suc.prems by (subst each_field.simps) (simp add: returns_then iter_at_pos)
qed


text \<open>
  A rank on the descriptors: that of a submessage is lower than that of the message it stands in.
  Every field has a type, oneof fields have a \<open>size_offset\<close>.
\<close>

definition ranked :: "'s pb_process \<Rightarrow> (u64 \<Rightarrow> nat) \<Rightarrow> bool" where
  "ranked pr rank \<longleftrightarrow>
     (\<forall>fs. \<forall>i < n_fields (descriptors pr fs). let field = field_at (descriptors pr fs) i in
        known_type (ltype field) \<and>
        (ltype field = PB_LTYPE_SUBMESSAGE \<longrightarrow> rank (fd_ptr field) < rank fs) \<and>
        (htype field = PB_HTYPE_ONEOF \<longrightarrow> fd_size_offset field \<noteq> 0))"

lemma each_default_returns:
  assumes "\<And>i. i < n_fields fs \<Longrightarrow> check (field_at fs i) (it_pData (iter_at fs src i)) \<noteq> None"
    and "i < n_fields fs"
  shows "each_default check (iter_at fs src i) \<noteq> None"
  using assms(2)
proof (induction "n_fields fs - i" arbitrary: i)
  case 0
  then show ?case by simp
next
  case (Suc k)
  have "(case pb_field_iter_next (iter_at fs src i) of
      (True, it') \<Rightarrow> each_default check it' | (False, it') \<Rightarrow> Some True) \<noteq> None"
  proof (cases "Suc i < n_fields fs")
    case True
    have "k = n_fields fs - Suc i" using Suc.hyps(2) by simp
    from Suc.hyps(1) [OF this True] True show ?thesis
      unfolding next_at [OF Suc.prems] by (simp only: if_True prod.case bool.case) simp
  next
    case False
    then show ?thesis unfolding next_at [OF Suc.prems] by simp
  qed
  with assms(1) [OF Suc.prems] show ?case
    using Suc.prems by (subst each_default.simps) (auto simp: iter_at_pos split: option.split bool.split)
qed

lemma not_None_if: "(c \<Longrightarrow> a \<noteq> None) \<Longrightarrow> (\<not> c \<Longrightarrow> b \<noteq> None) \<Longrightarrow> (if c then a else b) \<noteq> None"
  by simp

lemma default_returns:
  assumes "ranked pr rank" and "ltype field = PB_LTYPE_SUBMESSAGE \<Longrightarrow> rank (fd_ptr field) < d"
  shows "pb_check_proto3_default_value (Suc d) pr field p \<noteq> None"
  using assms(2)
proof (induction d arbitrary: field p)
  case 0
  then have "ltype field \<noteq> PB_LTYPE_SUBMESSAGE" by auto
  then show ?case
    unfolding pb_check_proto3_default_value.simps Let_def by (intro not_None_if option.simps) simp_all
next
  case (Suc d)
  let ?fs = "descriptors pr (fd_ptr field)"
  have "(case pb_field_iter_begin ?fs p of
      (True, it) \<Rightarrow> each_default (pb_check_proto3_default_value (Suc d) pr) it | (False, it) \<Rightarrow> Some True) \<noteq> None"
    if sub: "ltype field = PB_LTYPE_SUBMESSAGE"
  proof (cases "0 < n_fields ?fs")
    case True
    then have first: "pb_field_iter_begin ?fs p = (True, iter_at ?fs p 0)"
      using begin_nonempty [of ?fs p] by (simp add: prod_eq_iff)
    have "pb_check_proto3_default_value (Suc d) pr (field_at ?fs i) q \<noteq> None" if "i < n_fields ?fs" for i q
    proof (rule Suc.IH)
      assume "ltype (field_at ?fs i) = PB_LTYPE_SUBMESSAGE"
      then have "rank (fd_ptr (field_at ?fs i)) < rank (fd_ptr field)"
        using assms(1) that by (auto simp: ranked_def Let_def)
      with Suc.prems sub show "rank (fd_ptr (field_at ?fs i)) < d" by simp
    qed
    then show ?thesis
      unfolding first prod.case bool.case by (rule each_default_returns [OF _ True])
  next
    case False
    then have "fst (pb_field_iter_begin ?fs p) = False" using begin_nonempty [of ?fs p] by simp
    then show ?thesis by (cases "pb_field_iter_begin ?fs p") simp
  qed
  then show ?case
    unfolding pb_check_proto3_default_value.simps(2) [of "Suc d"] Let_def
    by (intro not_None_if) simp_all
qed

lemma returns_callback: "returns (encode_callback_field pr field p)"
  by (simp add: returns_def encode_callback_field_def out_call_def Let_def split: prod.split bool.split)

lemma returns_field:
  assumes rank: "ranked pr rank" and known: "known_type (ltype field)"
    and oneof: "htype field = PB_HTYPE_ONEOF \<Longrightarrow> fd_size_offset field \<noteq> 0"
    and low: "ltype field = PB_LTYPE_SUBMESSAGE \<Longrightarrow> rank (fd_ptr field) < d"
    and sub: "\<And>p. ltype field = PB_LTYPE_SUBMESSAGE \<Longrightarrow> returns (sub (fd_ptr field) p)"
  shows "returns (encode_field (Suc d) pr sub field p)"
proof -
  have func: "returns (PB_ENCODERS pr sub (ltype field) field p)" for p
    by (rule returns_encoder) (use sub known in auto)
  have "returns (encode_basic_field (Suc d) pr sub field p)"
  proof -
    let ?zero = "if fd_size_offset field = 0 \<and> htype field = PB_HTYPE_OPTIONAL
      then pb_check_proto3_default_value (Suc d) pr field p else Some False"
    have "?zero \<noteq> None" by (intro not_None_if default_returns [OF rank] low) simp_all
    then obtain zero where "?zero = Some zero" by (cases ?zero) simp_all
    then show ?thesis
      unfolding encode_basic_field_def Let_def
      by (simp only: option.case)
        (intro returns_if returns_then returns_call returns_array func; use oneof htype_oneof in blast)
  qed
  then show ?thesis
    unfolding encode_field_def by (intro returns_if returns_call returns_callback)
qed

lemma message_returns:
  assumes "ranked pr rank" and "rank fs + 1 < d"
  shows "returns (pb_encode d pr fs src)"
  using assms(2)
proof (induction d arbitrary: fs src)
  case 0
  then show ?case by simp
next
  case (Suc d)
  let ?fs = "descriptors pr fs"
  show ?case
  proof (cases "0 < n_fields ?fs")
    case True
    then have first: "pb_field_iter_begin ?fs src = (True, iter_at ?fs src 0)"
      using begin_nonempty [of ?fs src] by (simp add: prod_eq_iff)
    have "returns (encode_message_field d pr (pb_encode d pr) (field_at ?fs i) p)" if i: "i < n_fields ?fs" for i p
    proof -
      let ?f = "field_at ?fs i"
      have f: "known_type (ltype ?f)" "ltype ?f = PB_LTYPE_SUBMESSAGE \<Longrightarrow> rank (fd_ptr ?f) < rank fs"
        "htype ?f = PB_HTYPE_ONEOF \<Longrightarrow> fd_size_offset ?f \<noteq> 0"
        using assms(1) i by (auto simp: ranked_def Let_def)
      then have "ltype ?f \<noteq> PB_LTYPE_EXTENSION"
        by (auto simp: known_type_def pb_consts word_le_nat_alt)
      moreover obtain d' where d': "d = Suc d'" using Suc.prems by (cases d) auto
      ultimately show ?thesis
        using Suc.prems f by (auto simp: encode_message_field_def d' intro!: returns_field [OF assms(1)] Suc.IH [unfolded d'])
    qed
    then show ?thesis
      unfolding pb_encode.simps first prod.case bool.case by (rule returns_each_field [OF _ True])
  next
    case False
    then have "fst (pb_field_iter_begin ?fs src) = False" using begin_nonempty [of ?fs src] by simp
    then show ?thesis by (cases "pb_field_iter_begin ?fs src") simp
  qed
qed


section \<open>More depth\<close>

text \<open>A larger bound does not change an outcome: the bound stands for the stack, not for the result.\<close>

definition deeper :: "'s pb_enc \<Rightarrow> 's pb_enc \<Rightarrow> bool" where
  "deeper f g \<longleftrightarrow> (\<forall>s y. f s = Some y \<longrightarrow> g s = Some y)"

lemma deeperD: "deeper f g \<Longrightarrow> f s = Some y \<Longrightarrow> g s = Some y"
  unfolding deeper_def by blast

lemma deeper_refl [simp]: "deeper f f"
  by (simp add: deeper_def)

lemma deeper_None [simp]: "deeper (\<lambda>s. None) g"
  by (simp add: deeper_def)

lemma deeper_then: "deeper f f' \<Longrightarrow> deeper g g' \<Longrightarrow> deeper (enc_then f g) (enc_then f' g')"
  by (fastforce simp: deeper_def enc_then_def split: option.splits if_splits)

lemma deeper_if: "deeper f f' \<Longrightarrow> deeper g g' \<Longrightarrow> deeper (if c then f else g) (if c then f' else g')"
  by simp

lemma deeper_each:
  "(\<And>p. deeper (func p) (func' p)) \<Longrightarrow> deeper (encode_each func step n p) (encode_each func' step n p)"
  by (induction n arbitrary: p) (simp_all add: deeper_then)

lemma deeper_submessage:
  assumes "deeper (sub submsg src) (sub' submsg src)"
  shows "deeper (pb_encode_submessage sub submsg src) (pb_encode_submessage sub' submsg src)"
proof -
  have "deeper (write_submessage sub submsg src n) (write_submessage sub' submsg src n)" for n
    using assms by (auto simp: deeper_def write_submessage_def Let_def split: option.splits if_splits)
  then have body: "deeper
      (enc_then (out_call (pb_encode_varint n))
        (\<lambda>s. if \<not> has_callback s then out_call (pb_write [] n) s else write_submessage sub submsg src n s))
      (enc_then (out_call (pb_encode_varint n))
        (\<lambda>s. if \<not> has_callback s then out_call (pb_write [] n) s else write_submessage sub' submsg src n s))" for n
    by (intro deeper_then deeper_refl) (simp add: deeper_def)
  show ?thesis
    unfolding deeper_def
  proof (intro allI impI)
    fix s y
    assume run: "pb_encode_submessage sub submsg src s = Some y"
    then obtain ok s' where sizing: "sub submsg src PB_OSTREAM_SIZING = Some (ok, s')"
      by (auto simp: pb_encode_submessage_def split: option.splits)
    then have "sub' submsg src PB_OSTREAM_SIZING = Some (ok, s')"
      using assms by (simp add: deeper_def)
    with run sizing show "pb_encode_submessage sub' submsg src s = Some y"
      by (auto simp: pb_encode_submessage_def Let_def intro: deeperD [OF body] split: bool.splits)
  qed
qed

lemma deeper_encoder:
  assumes "\<And>submsg src. deeper (sub submsg src) (sub' submsg src)"
  shows "deeper (PB_ENCODERS pr sub t field p) (PB_ENCODERS pr sub' t field p)"
  unfolding PB_ENCODERS_def pb_enc_submessage_def
  by (intro deeper_if deeper_refl deeper_submessage assms)

lemma deeper_array:
  assumes func: "\<And>p. deeper (func field p) (func' field p)"
  shows "deeper (encode_array pr field p count func) (encode_array pr field p count func')"
proof -
  note each = deeper_each [of "func field" "func' field", OF func]
  have body: "deeper
      (enc_then (out_call (pb_encode_varint n))
        (\<lambda>s. if \<not> has_callback s then out_call (pb_write [] n) s else encode_each (func field) step k p s))
      (enc_then (out_call (pb_encode_varint n))
        (\<lambda>s. if \<not> has_callback s then out_call (pb_write [] n) s else encode_each (func' field) step k p s))"
    for n step k
    using each by (intro deeper_then deeper_refl) (simp add: deeper_def)
  have size: "packed_size field count p (func field) = Some n \<Longrightarrow> packed_size field count p (func' field) = Some n" for n
    using each by (auto simp: packed_size_def deeper_def split: option.splits bool.splits if_splits)
  show ?thesis
    unfolding encode_array_def
  proof (intro deeper_if deeper_then deeper_refl deeper_each func)
    show "deeper
      (\<lambda>s. case packed_size field count p (func field) of
         None \<Rightarrow> None
       | Some None \<Rightarrow> Some (False, s)
       | Some (Some n) \<Rightarrow> enc_then (out_call (pb_encode_varint n))
           (\<lambda>s. if \<not> has_callback s then out_call (pb_write [] n) s
              else encode_each (func field) (ucast (fd_data_size field)) (unat count) p s) s)
      (\<lambda>s. case packed_size field count p (func' field) of
         None \<Rightarrow> None
       | Some None \<Rightarrow> Some (False, s)
       | Some (Some n) \<Rightarrow> enc_then (out_call (pb_encode_varint n))
           (\<lambda>s. if \<not> has_callback s then out_call (pb_write [] n) s
              else encode_each (func' field) (ucast (fd_data_size field)) (unat count) p s) s)"
    proof (cases "packed_size field count p (func field)")
      case (Some n)
      with size [OF Some] body show ?thesis by (cases n) (simp_all add: deeper_def)
    qed simp
  qed
qed

lemma each_default_deeper:
  "each_default check it = Some y \<Longrightarrow> (\<And>f p y. check f p = Some y \<Longrightarrow> check' f p = Some y) \<Longrightarrow>
    each_default check' it = Some y"
proof (induction check it rule: each_default.induct)
  case (1 check it)
  note run = "1.prems"(1) [unfolded each_default.simps [of check it]]
  then obtain b where b: "check (it_field it) (it_pData it) = Some b" by (cases "check (it_field it) (it_pData it)") auto
  obtain more it' where it': "pb_field_iter_next it = (more, it')" by (cases "pb_field_iter_next it")
  show ?case
    unfolding each_default.simps [of check' it] "1.prems"(2) [OF b] it'
    using run b it' "1.IH" [OF b _ it' [symmetric]] "1.prems"(2) by (cases b; cases more) auto
qed

definition option_le :: "'a option \<Rightarrow> 'a option \<Rightarrow> bool" where
  "option_le a b \<longleftrightarrow> a = None \<or> a = b"

lemma option_le_refl [simp]: "option_le a a"
  by (simp add: option_le_def)

lemma option_le_if: "option_le a a' \<Longrightarrow> option_le b b' \<Longrightarrow> option_le (if c then a else b) (if c then a' else b')"
  by simp

lemma default_deeper:
  "option_le (pb_check_proto3_default_value d pr field p) (pb_check_proto3_default_value (Suc d) pr field p)"
proof (induction d arbitrary: field p)
  case 0
  then show ?case by (simp add: option_le_def)
next
  case (Suc d)
  obtain more it where first: "pb_field_iter_begin (descriptors pr (fd_ptr field)) p = (more, it)"
    by (cases "pb_field_iter_begin (descriptors pr (fd_ptr field)) p")
  have "each_default (pb_check_proto3_default_value (Suc d) pr) it = Some y"
    if "each_default (pb_check_proto3_default_value d pr) it = Some y" for y
    using that by (rule each_default_deeper) (metis Suc.IH option_le_def option.distinct(1))
  then have "option_le (each_default (pb_check_proto3_default_value d pr) it)
      (each_default (pb_check_proto3_default_value (Suc d) pr) it)"
    by (cases "each_default (pb_check_proto3_default_value d pr) it") (simp_all only: option_le_def simp_thms)
  then have "option_le
      (case (more, it) of (True, it) \<Rightarrow> each_default (pb_check_proto3_default_value d pr) it | (False, it) \<Rightarrow> Some True)
      (case (more, it) of (True, it) \<Rightarrow> each_default (pb_check_proto3_default_value (Suc d) pr) it | (False, it) \<Rightarrow> Some True)"
    by (cases more) (simp_all only: prod.case bool.case option_le_refl)
  then show ?case
    unfolding pb_check_proto3_default_value.simps(2) [of "Suc d" pr field p]
      pb_check_proto3_default_value.simps(2) [of d pr field p] Let_def first
    by (intro option_le_if option_le_refl)
qed

lemma deeper_field:
  assumes sub: "\<And>submsg src. deeper (sub submsg src) (sub' submsg src)"
  shows "deeper (encode_field d pr sub field p) (encode_field (Suc d) pr sub' field p)"
proof -
  let ?zero = "\<lambda>d. if fd_size_offset field = 0 \<and> htype field = PB_HTYPE_OPTIONAL
      then pb_check_proto3_default_value d pr field p else Some False"
  have "deeper (encode_basic_field d pr sub field p) (encode_basic_field (Suc d) pr sub' field p)"
  proof (cases "?zero d")
    case None
    then show ?thesis unfolding encode_basic_field_def Let_def by simp
  next
    case (Some zero)
    then have zero': "?zero (Suc d) = Some zero"
      using default_deeper [of d pr field p] by (auto simp: option_le_def split: if_splits)
    show ?thesis
      unfolding encode_basic_field_def Let_def Some zero' option.case
      by (intro deeper_if deeper_refl deeper_then deeper_array deeper_encoder sub)
  qed
  then show ?thesis
    unfolding encode_field_def by (intro deeper_if deeper_refl)
qed

lemma deeper_extensions:
  assumes sub: "\<And>submsg src. deeper (sub submsg src) (sub' submsg src)"
  shows "deeper (encode_extensions n d pr sub extension) (encode_extensions (Suc n) (Suc d) pr sub' extension)"
proof (induction n arbitrary: extension)
  case 0
  show ?case by (simp add: deeper_def)
next
  case (Suc n)
  have "deeper (default_extension_encoder d pr sub extension) (default_extension_encoder (Suc d) pr sub' extension)"
    unfolding default_extension_encoder_def Let_def by (intro deeper_if deeper_field sub)
  then show ?case
    unfolding encode_extensions.simps(2) [of n d pr sub extension]
      encode_extensions.simps(2) [of "Suc n" "Suc d" pr sub' extension] Let_def
    by (intro deeper_if deeper_refl deeper_then Suc.IH)
qed

lemma deeper_each_field:
  "(\<And>field p. deeper (op field p) (op' field p)) \<Longrightarrow> deeper (each_field op it) (each_field op' it)"
proof (induction op it rule: each_field.induct)
  case (1 op it)
  show ?case
    unfolding each_field.simps [of op it] each_field.simps [of op' it]
    by (intro deeper_then "1.prems") (use "1.IH" "1.prems" in \<open>auto split: prod.split bool.split\<close>)
qed

lemma encode_deeper: "deeper (pb_encode d pr fs src) (pb_encode (Suc d) pr fs src)"
proof (induction d arbitrary: fs src)
  case 0
  show ?case by simp
next
  case (Suc d)
  have "deeper (encode_message_field d pr (pb_encode d pr) field p)
      (encode_message_field (Suc d) pr (pb_encode (Suc d) pr) field p)" for field p
    unfolding encode_message_field_def encode_extension_field_def
    by (intro deeper_if deeper_extensions deeper_field Suc.IH)
  note each = deeper_each_field [of "encode_message_field d pr (pb_encode d pr)", OF this]
  obtain more it where "pb_field_iter_begin (descriptors pr fs) src = (more, it)"
    by (cases "pb_field_iter_begin (descriptors pr fs) src")
  then show ?case
    unfolding pb_encode.simps(2) [of d pr fs src] pb_encode.simps(2) [of "Suc d" pr fs src]
    by (cases more) (simp_all only: prod.case bool.case each deeper_refl)
qed

lemma encode_depth: "pb_encode d pr fs src s = Some y \<Longrightarrow> d \<le> d' \<Longrightarrow> pb_encode d' pr fs src s = Some y"
proof (induction "d' - d" arbitrary: d')
  case (Suc k)
  then obtain e where "d' = Suc e" "k = e - d" "d \<le> e" by (cases d') auto
  with Suc encode_deeper [of e pr fs src] show ?case by (simp only: deeper_def)
qed simp

end
