(* ===== verification/Pb_Message_Use.thy ===== *)
theory Pb_Message_Use
  imports Pb_Message
begin

text \<open>
  What the encoder of messages guarantees, for a buffer of the caller.
\<close>

section \<open>A message in memory\<close>

text \<open>
  A struct of a \<open>uint32\<close> and an optional submessage that holds a string, at 0x8000, with its two
  descriptors.
\<close>

definition sample_memory :: memory where
  "sample_memory p =
     (let struct = [0x2c, 0x01, 0, 0, 1, 0, 0, 0, 0x68, 0x69, 0, 0] in
      if 0x8000 \<le> p \<and> unat (p - 0x8000) < length struct then struct ! unat (p - 0x8000) else 0)"

definition outer_field :: pb_field where
  "outer_field = \<lparr>fd_tag = 1, fd_type = 0x02, fd_data_offset = 0, fd_size_offset = 0, fd_data_size = 4,
     fd_array_size = 0, fd_ptr = 0\<rparr>"

definition inner_message :: pb_field where
  "inner_message = \<lparr>fd_tag = 2, fd_type = 0x18, fd_data_offset = 4, fd_size_offset = - 4, fd_data_size = 4,
     fd_array_size = 0, fd_ptr = 0x2000\<rparr>"

definition inner_field :: pb_field where
  "inner_field = \<lparr>fd_tag = 1, fd_type = 0x07, fd_data_offset = 0, fd_size_offset = 0, fd_data_size = 4,
     fd_array_size = 0, fd_ptr = 0\<rparr>"

definition sample_process :: "unit pb_process" where
  "sample_process = \<lparr>memory = sample_memory,
     descriptors = (\<lambda>p. if p = 0x1000 then [outer_field, inner_message]
       else if p = 0x2000 then [inner_field] else []),
     callback_code = (\<lambda>code field arg. out_ok), extension_code = (\<lambda>code extension. out_ok)\<rparr>"

abbreviation no_callback :: "u64 \<Rightarrow> pb_field \<Rightarrow> u64 \<Rightarrow> wire" where
  "no_callback \<equiv> \<lambda>code field arg. wire []"

abbreviation no_extension :: "u64 \<Rightarrow> u64 \<Rightarrow> wire" where
  "no_extension \<equiv> \<lambda>code extension. wire []"

lemma sample_user_code: "user_code view sample_process no_callback no_extension"
  by (simp add: user_code_def sample_process_def writes_as_ok)

lemma sample_wire: "message_wire 3 sample_process no_callback no_extension 0x1000 0x8000 =
    Some ([0x08, 0xac, 0x02, 0x12, 0x04, 0x0a, 0x02, 0x68, 0x69], True)"
  by code_simp

section \<open>Encoding into a buffer\<close>

lemma good_buffer: "length buf = unat n \<Longrightarrow> good view (pb_ostream_from_buffer buf n)"
  by (simp add: good_def sink_ok_buffer) (simp add: pb_ostream_from_buffer_def)

lemma encode_buffer:
  assumes "user_code view pr cbw extw" and "message_wire d pr cbw extw fs src = Some (x, ok)"
    and "length buf = unat n" and "length x < 2 ^ 64"
  shows "if ok \<and> length x \<le> unat n
    then \<exists>s'. pb_encode d pr fs src (pb_ostream_from_buffer buf n) = Some (True, s') \<and>
      os_sink s' = To_Buffer (x @ drop (length x) buf) (length x) \<and> unat (os_bytes_written s') = length x
    else \<exists>s' mem dest. pb_encode d pr fs src (pb_ostream_from_buffer buf n) = Some (False, s') \<and>
      os_sink s' = To_Buffer mem dest \<and> length mem = length buf"
proof -
  let ?s = "pb_ostream_from_buffer buf n"
  have room: "room_for (length x) ?s \<longleftrightarrow> length x \<le> unat n"
    by (auto simp: room_for_def pb_ostream_from_buffer_def has_callback_def)
  have bw: "os_bytes_written ?s = 0" by (simp add: pb_ostream_from_buffer_def)
  from writes_asD [OF message_writes [OF assms(1)] good_buffer [OF assms(3)], of d fs src, unfolded assms(2)] assms(4)
  have run: "if ok \<and> length x \<le> unat n then \<exists>s'. pb_encode d pr fs src ?s = Some (True, s') \<and> sent view x ?s s'
     else \<exists>s'. pb_encode d pr fs src ?s = Some (False, s') \<and> safe ?s s'"
    by (simp add: encodes_def room bw)
  show ?thesis
  proof (cases "ok \<and> length x \<le> unat n")
    case True
    with run obtain s' where "pb_encode d pr fs src ?s = Some (True, s')" "sent view x ?s s'" by auto
    moreover have "os_sink s' = To_Buffer (x @ drop (length x) buf) (length x) \<and> unat (os_bytes_written s') = length x"
      using calculation(2) True assms(3,4)
      by (auto simp: sent_def pb_ostream_from_buffer_def blit_def unat_of_nat_less split: pb_sink.splits)
    ultimately show ?thesis using True by auto
  next
    case False
    with run obtain s' where "pb_encode d pr fs src ?s = Some (False, s')" "safe ?s s'" by (auto split: if_splits)
    then show ?thesis
      using False by (auto simp: safe_def pb_ostream_from_buffer_def)
  qed
qed

section \<open>Properties\<close>

text \<open>
  C28: \<open>pb_encode\<close> implements the wire format. A struct whose encoding is \<open>x\<close> is written to the front of a
  buffer that has room for it, and nothing behind it is touched. If the buffer is too small, or some
  field of the struct has no encoding, the call fails, and no byte outside the buffer is written.
  So the pass that only counts and the pass that writes never disagree about a submessage.
\<close>

theorem pb_encode_refines:
  assumes "user_code view pr cbw extw" and "message_wire d pr cbw extw fs src = Some (x, ok)"
    and "length buf = unat n" and "length x < 2 ^ 64"
  shows "if ok \<and> length x \<le> unat n
    then \<exists>s'. pb_encode d pr fs src (pb_ostream_from_buffer buf n) = Some (True, s') \<and>
      os_sink s' = To_Buffer (x @ drop (length x) buf) (length x) \<and> unat (os_bytes_written s') = length x
    else \<exists>s' mem dest. pb_encode d pr fs src (pb_ostream_from_buffer buf n) = Some (False, s') \<and>
      os_sink s' = To_Buffer mem dest \<and> length mem = length buf"
  using assms by (rule encode_buffer)

theorem pb_encode_refines_witness:
  "\<exists>s'. pb_encode 3 sample_process 0x1000 0x8000 (pb_ostream_from_buffer (replicate 10 7) 10) = Some (True, s') \<and>
     os_sink s' = To_Buffer [0x08, 0xac, 0x02, 0x12, 0x04, 0x0a, 0x02, 0x68, 0x69, 7] 9"
  using pb_encode_refines [OF sample_user_code sample_wire, where buf = "replicate 10 7" and n = 10] by auto

text \<open>
  C29: \<open>pb_get_encoded_size\<close> gives the number of bytes that \<open>pb_encode\<close> writes: a buffer of that size is
  enough, and no smaller one is. It fails just if no buffer is large enough.
\<close>

theorem encoded_size_exact:
  assumes "user_code view pr cbw extw" and "message_wire d pr cbw extw fs src = Some (x, ok)"
    and "length x < 2 ^ 64"
  shows "pb_get_encoded_size d pr fs src = Some (if ok then Some (of_nat (length x)) else None) \<and>
    (\<forall>buf n. length buf = unat n \<longrightarrow>
       (\<exists>s'. pb_encode d pr fs src (pb_ostream_from_buffer buf n) = Some (ok \<and> length x \<le> unat n, s')))"
proof
  from sizing_pass [of view "pb_encode d pr fs src" x ok] message_writes [OF assms(1), of d fs src] assms(2)
  show "pb_get_encoded_size d pr fs src = Some (if ok then Some (of_nat (length x)) else None)"
    by (auto simp: pb_get_encoded_size_def)
  show "\<forall>buf n. length buf = unat n \<longrightarrow>
       (\<exists>s'. pb_encode d pr fs src (pb_ostream_from_buffer buf n) = Some (ok \<and> length x \<le> unat n, s'))"
    using encode_buffer [OF assms(1,2) _ assms(3)] by (fastforce split: if_splits)
qed

theorem encoded_size_exact_witness:
  "pb_get_encoded_size 3 sample_process 0x1000 0x8000 = Some (Some 9) \<and>
   (\<exists>s'. pb_encode 3 sample_process 0x1000 0x8000 (pb_ostream_from_buffer [0, 0] 2) = Some (False, s'))"
proof -
  note exact = encoded_size_exact [OF sample_user_code sample_wire]
  have two: "length [0 :: u8, 0] = unat (2 :: size_t)" by simp
  from exact [THEN conjunct2, rule_format, OF _ two] exact [THEN conjunct1] show ?thesis by simp
qed

text \<open>
  C30: encoding returns. If submessages nest by a rank (no message type contains itself) and there are no
  extensions, \<open>pb_encode\<close> has an outcome on every stream and every memory once its depth is two more
  than the rank of the message, and no greater depth changes it.
\<close>

theorem pb_encode_returns:
  assumes "ranked pr rank" and "rank fs + 2 \<le> d"
  shows "\<exists>ok s'. \<forall>d' \<ge> d. pb_encode d' pr fs src s = Some (ok, s')"
proof -
  from assms(2) have "rank fs + 1 < d" by simp
  from returnsD [OF message_returns [OF assms(1) this], of src s]
  show ?thesis using encode_depth by blast
qed

theorem pb_encode_returns_witness:
  "\<forall>src s. \<exists>ok s'. \<forall>d' \<ge> 3. pb_encode d' sample_process 0x1000 src s = Some (ok, s')"
proof -
  have "ranked sample_process (\<lambda>fs. if fs = 0x1000 then 1 else 0)"
    unfolding ranked_def
  proof (intro allI impI)
    fix fs i
    assume i: "i < n_fields (descriptors sample_process fs)"
    then consider "fs = 0x1000" "i = 0 \<or> i = 1" | "fs = 0x2000" "i = 0"
      by (auto simp: sample_process_def n_fields_def outer_field_def inner_message_def inner_field_def less_Suc_eq
        split: if_splits)
    then show "let field = field_at (descriptors sample_process fs) i in known_type (ltype field) \<and>
        (ltype field = PB_LTYPE_SUBMESSAGE \<longrightarrow> (if fd_ptr field = 0x1000 then 1 else 0) < (if fs = 0x1000 then 1 else 0 :: nat)) \<and>
        (htype field = PB_HTYPE_ONEOF \<longrightarrow> fd_size_offset field \<noteq> 0)"
      by cases (auto simp: sample_process_def field_at_def outer_field_def inner_message_def inner_field_def Let_def
        known_type_def pb_consts PB_LTYPE_def PB_HTYPE_def)
  qed
  from pb_encode_returns [OF this, of "0x1000" 3] show ?thesis by simp
qed

text \<open>The other two ways to write a message, behind its length and in front of a null byte.\<close>

lemma delimited_writes:
  "user_code view pr cbw extw \<Longrightarrow>
    writes_as view (pb_encode_delimited d pr fs src) (delimited (message_wire d pr cbw extw fs src))"
  unfolding pb_encode_delimited_def by (intro submessage_writes message_writes)

lemma nullterminated_writes:
  assumes "user_code view pr cbw extw"
  shows "writes_as view (pb_encode_nullterminated d pr fs src) (w_then (message_wire d pr cbw extw fs src) (wire [0]))"
proof -
  have "writes_as view (out_call (pb_write [0] 1)) (wire [0])"
    using pb_write_puts [of view _ 1 "[0]"] by (intro puts_writes) simp
  then show ?thesis
    unfolding pb_encode_nullterminated_def by (intro writes_as_then message_writes [OF assms])
qed

end
