(* ===== verification/Pb_Release.thy ===== *)
theory Pb_Release
  imports Pb_Memory
begin

text \<open>
  What the message decoder of nanopb does to a struct apart from reading fields into it
  (\<open>pb_decode.c\<close>): allocation, default values, and the release of what was allocated.
\<close>

section \<open>The process\<close>

text \<open>
  The memory and the blocks that \<open>pb_realloc\<close> has given out and not taken back, with their sizes.
\<close>

record pb_world =
  w_memory :: memory
  w_blocks :: "u64 \<Rightarrow> size_t option"

text \<open>
  What does not change: the descriptor arrays, where the allocator puts a block (0: it has none), the
  address of the local variable \<open>fixed_count_size\<close> in a call, and what the code at an address does
  when it is called as the \<open>decode\<close> function of a \<open>pb_callback_t\<close> (with the field and the address
  of \<open>arg\<close>) or of a \<open>pb_extension_type_t\<close> (with the extension, tag and wire type).
\<close>

type_synonym 's user_decoder = "pb_world \<Rightarrow> 's pb_istream \<Rightarrow> bool \<times> pb_world \<times> 's pb_istream"

record 's pb_decoder =
  fields_at :: "u64 \<Rightarrow> pb_field list"
  malloc_place :: "pb_world \<Rightarrow> size_t \<Rightarrow> u64"
  count_place :: "nat \<Rightarrow> u64"
  decode_code :: "u64 \<Rightarrow> pb_field \<Rightarrow> u64 \<Rightarrow> 's user_decoder"
  extension_decode :: "u64 \<Rightarrow> u64 \<Rightarrow> u32 \<Rightarrow> u32 \<Rightarrow> 's user_decoder"

text \<open>\<open>None\<close>: the behaviour is undefined, or calls nest deeper than a bound.\<close>

type_synonym w_step = "pb_world \<Rightarrow> pb_world option"

definition w_then_step :: "w_step \<Rightarrow> w_step \<Rightarrow> w_step" where
  "w_then_step f g w = (case f w of None \<Rightarrow> None | Some w' \<Rightarrow> g w')"

definition w_put :: "(memory \<Rightarrow> memory) \<Rightarrow> w_step" where
  "w_put f w = Some (w\<lparr>w_memory := f (w_memory w)\<rparr>)"

definition w_skip :: w_step where
  "w_skip w = Some w"

section \<open>The allocator of the C library\<close>

text \<open>
  \<open>realloc\<close> moves a block with what it holds, as far as it fits; the rest of the new block holds
  whatever lay there. A pointer that is neither null nor to a live block is an error of the caller.
\<close>

definition pb_realloc :: "'s pb_decoder \<Rightarrow> u64 \<Rightarrow> size_t \<Rightarrow> pb_world \<Rightarrow> (u64 \<times> pb_world) option" where
  "pb_realloc de ptr n w =
     (let p = malloc_place de w n in
      if ptr = 0 then
        Some (if p = 0 then (0, w) else (p, w\<lparr>w_blocks := (w_blocks w)(p \<mapsto> n)\<rparr>))
      else
        (case w_blocks w ptr of
           None \<Rightarrow> None
         | Some m \<Rightarrow>
             Some (if p = 0 then (0, w)
               else (p, w\<lparr>w_memory := store_bytes p (load_bytes (w_memory w) ptr (min (unat m) (unat n))) (w_memory w),
                 w_blocks := (w_blocks w)(ptr := None, p \<mapsto> n)\<rparr>))))"

definition pb_free :: "u64 \<Rightarrow> w_step" where
  "pb_free ptr w =
     (if ptr = 0 then Some w
      else if w_blocks w ptr = None then None
      else Some (w\<lparr>w_blocks := (w_blocks w)(ptr := None)\<rparr>))"

section \<open>Default values\<close>

text \<open>
  \<open>iter_from_extension\<close>: the iterator of the one field an extension stands for. \<open>pb_extension_t\<close> holds the
  type, \<open>dest\<close>, \<open>next\<close>, and \<open>found\<close> at offset 24.
\<close>

definition iter_from_extension :: "'s pb_decoder \<Rightarrow> memory \<Rightarrow> u64 \<Rightarrow> pb_field_iter" where
  "iter_from_extension de mem extension =
     (let fs = fields_at de (load64 mem (load64 mem extension + 16));
          dest = load64 mem (extension + 8);
          it = snd (pb_field_iter_begin fs dest)
      in it\<lparr>it_pData := (if atype (field_at fs 0) = PB_ATYPE_POINTER then extension + 8 else dest),
           it_pSize := extension + 24\<rparr>)"

text \<open>A loop over the fields of a message.\<close>

function for_fields :: "(pb_field_iter \<Rightarrow> w_step) \<Rightarrow> pb_field_iter \<Rightarrow> w_step" where
  "for_fields op it =
     w_then_step (op it)
       (case pb_field_iter_next it of
          (True, it') \<Rightarrow> for_fields op it'
        | (False, it') \<Rightarrow> w_skip)"
  by pat_completeness auto
termination
  by (relation "measure (\<lambda>(op, it). length (it_start it) - it_pos it)") (auto dest!: next_forward [OF sym])

declare for_fields.simps [simp del]

definition for_message :: "'s pb_decoder \<Rightarrow> (pb_field_iter \<Rightarrow> w_step) \<Rightarrow> u64 \<Rightarrow> u64 \<Rightarrow> w_step" where
  "for_message de op fs dest_struct =
     (case pb_field_iter_begin (fields_at de fs) dest_struct of
        (True, it) \<Rightarrow> for_fields op it
      | (False, it) \<Rightarrow> w_skip)"

text \<open>A loop over a chain of extensions of at most \<open>n\<close> links; \<open>next\<close> is read after the body.\<close>

primrec for_extensions :: "nat \<Rightarrow> (u64 \<Rightarrow> w_step) \<Rightarrow> u64 \<Rightarrow> w_step" where
  "for_extensions 0 op ext = (\<lambda>w. if ext = 0 then Some w else None)"
| "for_extensions (Suc n) op ext =
     (if ext = 0 then w_skip
      else w_then_step (op ext) (\<lambda>w. for_extensions n op (load64 (w_memory w) (ext + 16)) w))"

text \<open>
  \<open>pb_field_set_to_default\<close>; \<open>pb_message_set_to_defaults\<close> is the loop over it, which the code calls for
  submessages. Extensions and submessages may nest as deep as the first argument.
\<close>

primrec pb_field_set_to_default :: "nat \<Rightarrow> 's pb_decoder \<Rightarrow> pb_field_iter \<Rightarrow> w_step" where
  "pb_field_set_to_default 0 de it = (\<lambda>w. None)"
| "pb_field_set_to_default (Suc d) de it =
     (let field = it_field it;
          init_data =
            (if ltype field = PB_LTYPE_SUBMESSAGE then
               for_message de (pb_field_set_to_default d de) (fd_ptr field) (it_pData it)
             else if fd_ptr field \<noteq> 0 then
               w_put (\<lambda>mem. store_bytes (it_pData it) (load_bytes mem (fd_ptr field) (unat (fd_data_size field))) mem)
             else w_put (store_bytes (it_pData it) (replicate (unat (fd_data_size field)) 0)))
      in
        if ltype field = PB_LTYPE_EXTENSION then
          (\<lambda>w. for_extensions d
             (\<lambda>ext. w_then_step (w_put (store_bytes (ext + 24) [0]))
                (\<lambda>w. pb_field_set_to_default d de (iter_from_extension de (w_memory w) ext) w))
             (load64 (w_memory w) (it_pData it)) w)
        else if atype field = PB_ATYPE_STATIC then
          if htype field = PB_HTYPE_OPTIONAL \<and> it_pSize it \<noteq> it_pData it then
            w_then_step (w_put (store_bytes (it_pSize it) [0])) init_data
          else if htype field = PB_HTYPE_REPEATED \<or> htype field = PB_HTYPE_ONEOF then
            w_put (store32 (it_pSize it) 0)
          else init_data
        else if atype field = PB_ATYPE_POINTER then
          w_then_step (w_put (store64 (it_pData it) 0))
            (if htype field = PB_HTYPE_REPEATED \<or> htype field = PB_HTYPE_ONEOF
             then w_put (store32 (it_pSize it) 0) else w_skip)
        else w_skip)"

definition pb_message_set_to_defaults :: "nat \<Rightarrow> 's pb_decoder \<Rightarrow> u64 \<Rightarrow> u64 \<Rightarrow> w_step" where
  "pb_message_set_to_defaults d de = for_message de (pb_field_set_to_default d de)"

section \<open>Release\<close>

text \<open>\<open>while (count--)\<close> over the items of an array, each \<open>step\<close> bytes long.\<close>

primrec for_items :: "nat \<Rightarrow> u64 \<Rightarrow> (u64 \<Rightarrow> w_step) \<Rightarrow> u64 \<Rightarrow> w_step" where
  "for_items 0 step op p = w_skip"
| "for_items (Suc n) step op p = w_then_step (op p) (for_items n step op (p + step))"

definition release_count :: "pb_field_iter \<Rightarrow> memory \<Rightarrow> u32" where
  "release_count it mem =
     (let field = it_field it in
      if htype field = PB_HTYPE_REPEATED then
        let count = (if atype field = PB_ATYPE_STATIC \<and> it_pSize it = it_pData it
              then fd_array_size field else load32 mem (it_pSize it))
        in if atype field = PB_ATYPE_STATIC \<and> fd_array_size field < count then fd_array_size field else count
      else 1)"

text \<open>\<open>pb_release_single_field\<close>; \<open>pb_release\<close>, which it calls for submessages, is the loop over it.\<close>

definition release_message :: "'s pb_decoder \<Rightarrow> (pb_field_iter \<Rightarrow> w_step) \<Rightarrow> u64 \<Rightarrow> u64 \<Rightarrow> w_step" where
  "release_message de op fs dest_struct = (if dest_struct = 0 then w_skip else for_message de op fs dest_struct)"

primrec pb_release_single_field :: "nat \<Rightarrow> 's pb_decoder \<Rightarrow> pb_field_iter \<Rightarrow> w_step" where
  "pb_release_single_field 0 de it = (\<lambda>w. None)"
| "pb_release_single_field (Suc d) de it =
     (let field = it_field it;
          contained =
            (if ltype field = PB_LTYPE_EXTENSION then
               (\<lambda>w. for_extensions d
                  (\<lambda>ext w. pb_release_single_field d de (iter_from_extension de (w_memory w) ext) w)
                  (load64 (w_memory w) (it_pData it)) w)
             else if ltype field = PB_LTYPE_SUBMESSAGE \<and> atype field \<noteq> PB_ATYPE_CALLBACK then
               (\<lambda>w.
                  let pItem = (if atype field = PB_ATYPE_POINTER then load64 (w_memory w) (it_pData it) else it_pData it);
                      count = release_count it (w_memory w)
                  in if pItem \<noteq> 0 then
                       for_items (unat count) (ucast (fd_data_size field))
                         (release_message de (pb_release_single_field d de) (fd_ptr field)) pItem w
                     else Some w)
             else w_skip);
          entries =
            (if htype field = PB_HTYPE_REPEATED \<and> (ltype field = PB_LTYPE_STRING \<or> ltype field = PB_LTYPE_BYTES) then
               (\<lambda>w. for_items (unat (load32 (w_memory w) (it_pSize it))) 8
                  (\<lambda>p. w_then_step (\<lambda>w. pb_free (load64 (w_memory w) p) w) (w_put (store64 p 0)))
                  (load64 (w_memory w) (it_pData it)) w)
             else w_skip);
          item =
            w_then_step
              (if htype field = PB_HTYPE_REPEATED then w_put (store32 (it_pSize it) 0) else w_skip)
              (w_then_step (\<lambda>w. pb_free (load64 (w_memory w) (it_pData it)) w) (w_put (store64 (it_pData it) 0)))
      in (\<lambda>w.
        if htype field = PB_HTYPE_ONEOF \<and> load32 (w_memory w) (it_pSize it) \<noteq> fd_tag field then Some w
        else
          w_then_step contained
            (if atype field = PB_ATYPE_POINTER then w_then_step entries item else w_skip) w))"

definition pb_release :: "nat \<Rightarrow> 's pb_decoder \<Rightarrow> u64 \<Rightarrow> u64 \<Rightarrow> w_step" where
  "pb_release d de = release_message de (pb_release_single_field d de)"

end
