(* ===== verification/Pb_Decode.thy ===== *)
theory Pb_Decode
  imports Pb_Release
begin

text \<open>
  Decoding whole messages (\<open>pb_decode.c\<close>), built with \<open>PB_ENABLE_MALLOC\<close> as in the app: the loop over
  the fields on the wire, the search for their descriptors, static, pointer and callback fields,
  arrays, extensions, submessages, and the check of required fields.
\<close>

section \<open>Decoders\<close>

text \<open>
  A decoder returns what the C function returns, the memory and the stream. \<open>None\<close>: undefined
  behaviour, or a bound exceeded.
\<close>

type_synonym 's pb_dec = "pb_world \<Rightarrow> 's pb_istream \<Rightarrow> (bool \<times> pb_world \<times> 's pb_istream) option"

definition dec_ok :: "'s pb_dec" where
  "dec_ok w s = Some (True, w, s)"

definition dec_error :: "string \<Rightarrow> 's pb_dec" where
  "dec_error msg w s = Some (False, w, s\<lparr>is_errmsg := set_error (is_errmsg s) msg\<rparr>)"

definition dec_then :: "'s pb_dec \<Rightarrow> 's pb_dec \<Rightarrow> 's pb_dec" where
  "dec_then f g w s =
     (case f w s of
        None \<Rightarrow> None
      | Some (ok, w', s') \<Rightarrow> if ok then g w' s' else Some (False, w', s'))"

text \<open>A read from the stream, with its result; a change of the memory; a look at it.\<close>

definition dec_in :: "('s, 'a) pb_in \<Rightarrow> ('a \<Rightarrow> 's pb_dec) \<Rightarrow> 's pb_dec" where
  "dec_in get f w s =
     (case get s of
        (None, s') \<Rightarrow> Some (False, w, s')
      | (Some x, s') \<Rightarrow> f x w s')"

definition dec_step :: "w_step \<Rightarrow> 's pb_dec" where
  "dec_step f w s = map_option (\<lambda>w'. (True, w', s)) (f w)"

definition dec_put :: "(memory \<Rightarrow> memory) \<Rightarrow> 's pb_dec" where
  "dec_put f = dec_step (w_put f)"

definition dec_mem :: "(memory \<Rightarrow> 's pb_dec) \<Rightarrow> 's pb_dec" where
  "dec_mem f w s = f (w_memory w) w s"

section \<open>Values\<close>

definition pb_dec_bool :: "pb_field \<Rightarrow> u64 \<Rightarrow> 's pb_dec" where
  "pb_dec_bool field dest =
     dec_in pb_decode_varint32 (\<lambda>v. dec_put (store_bytes dest [if v \<noteq> 0 then 1 else 0]))"

text \<open>
  The value is stored in the width of the field, and then compared with what was read: \<open>stored\<close> is
  read back from that width, with or without its sign.
\<close>

definition check_clamped :: "u64 \<Rightarrow> u64 \<Rightarrow> 's pb_dec" where
  "check_clamped stored v = (if stored \<noteq> v then dec_error ''integer too large'' else dec_ok)"

definition pb_dec_varint :: "pb_field \<Rightarrow> u64 \<Rightarrow> 's pb_dec" where
  "pb_dec_varint field dest =
     dec_in pb_decode_varint (\<lambda>v.
       let n = fd_data_size field;
           sv = (if n = 8 then v else scast (ucast v :: u32))
       in
         if n = 8 then dec_then (dec_put (store64 dest sv)) (check_clamped sv sv)
         else if n = 4 then dec_then (dec_put (store32 dest (ucast sv))) (check_clamped (scast (ucast sv :: u32)) sv)
         else if n = 2 then dec_then (dec_put (store16 dest (ucast sv))) (check_clamped (scast (ucast sv :: u16)) sv)
         else if n = 1 then dec_then (dec_put (store_bytes dest [ucast sv])) (check_clamped (scast (ucast sv :: u8)) sv)
         else dec_error ''invalid data_size'')"

definition pb_dec_uvarint :: "pb_field \<Rightarrow> u64 \<Rightarrow> 's pb_dec" where
  "pb_dec_uvarint field dest =
     dec_in pb_decode_varint (\<lambda>v.
       let n = fd_data_size field in
         if n = 8 then dec_then (dec_put (store64 dest v)) (check_clamped v v)
         else if n = 4 then dec_then (dec_put (store32 dest (ucast v))) (check_clamped (ucast (ucast v :: u32)) v)
         else if n = 2 then dec_then (dec_put (store16 dest (ucast v))) (check_clamped (ucast (ucast v :: u16)) v)
         else if n = 1 then dec_then (dec_put (store_bytes dest [ucast v])) (check_clamped (ucast (ucast v :: u8)) v)
         else dec_error ''invalid data_size'')"

definition pb_dec_svarint :: "pb_field \<Rightarrow> u64 \<Rightarrow> 's pb_dec" where
  "pb_dec_svarint field dest =
     dec_in pb_decode_svarint (\<lambda>v.
       let n = fd_data_size field in
         if n = 8 then dec_then (dec_put (store64 dest v)) (check_clamped v v)
         else if n = 4 then dec_then (dec_put (store32 dest (ucast v))) (check_clamped (scast (ucast v :: u32)) v)
         else if n = 2 then dec_then (dec_put (store16 dest (ucast v))) (check_clamped (scast (ucast v :: u16)) v)
         else if n = 1 then dec_then (dec_put (store_bytes dest [ucast v])) (check_clamped (scast (ucast v :: u8)) v)
         else dec_error ''invalid data_size'')"

definition pb_dec_fixed32 :: "pb_field \<Rightarrow> u64 \<Rightarrow> 's pb_dec" where
  "pb_dec_fixed32 field dest = dec_in pb_decode_fixed32 (\<lambda>v. dec_put (store32 dest v))"

definition pb_dec_fixed64 :: "pb_field \<Rightarrow> u64 \<Rightarrow> 's pb_dec" where
  "pb_dec_fixed64 field dest = dec_in pb_decode_fixed64 (\<lambda>v. dec_put (store64 dest v))"

section \<open>Allocated fields\<close>

text \<open>\<open>allocate_field\<close>, with its check that the product of the sizes does not wrap around.\<close>

definition allocate_field :: "'s pb_decoder \<Rightarrow> u64 \<Rightarrow> size_t \<Rightarrow> size_t \<Rightarrow> 's pb_dec" where
  "allocate_field de pData data_size array_size w s =
     (let ptr = load64 (w_memory w) pData;
          check_limit = push_bit 32 1 :: size_t
      in
        if data_size = 0 \<or> array_size = 0 then dec_error ''invalid size'' w s
        else if (check_limit \<le> data_size \<or> check_limit \<le> array_size) \<and> (- 1) div array_size < data_size then
          dec_error ''size too large'' w s
        else
          (case pb_realloc de ptr (array_size * data_size) w of
             None \<Rightarrow> None
           | Some (p, w') \<Rightarrow>
               if p = 0 then dec_error ''realloc failed'' w' s
               else dec_put (store64 pData p) w' s))"

definition initialize_pointer_field :: "nat \<Rightarrow> 's pb_decoder \<Rightarrow> u64 \<Rightarrow> pb_field \<Rightarrow> w_step" where
  "initialize_pointer_field d de pItem field =
     (if ltype field = PB_LTYPE_STRING \<or> ltype field = PB_LTYPE_BYTES then w_put (store64 pItem 0)
      else if ltype field = PB_LTYPE_SUBMESSAGE then
        w_then_step (w_put (store_bytes pItem (replicate (unat (fd_data_size field)) 0)))
          (pb_message_set_to_defaults d de (fd_ptr field) pItem)
      else w_skip)"

definition pb_dec_bytes :: "'s pb_decoder \<Rightarrow> pb_field \<Rightarrow> u64 \<Rightarrow> 's pb_dec" where
  "pb_dec_bytes de field dest =
     dec_in pb_decode_varint32 (\<lambda>n.
       let alloc_size = ucast n + 4 :: size_t;
           finish = (\<lambda>bdest. dec_then (dec_put (store32 bdest n))
             (dec_in (pb_read (ucast n)) (\<lambda>bs. dec_put (store_bytes (bdest + 4) bs))))
       in
         if alloc_size < ucast n then dec_error ''size too large''
         else if atype field = PB_ATYPE_POINTER then
           (\<lambda>w s.
              if is_bytes_left s < ucast n then dec_error ''end-of-stream'' w s
              else dec_then (allocate_field de dest alloc_size 1) (dec_mem (\<lambda>mem. finish (load64 mem dest))) w s)
         else if ucast (fd_data_size field) < alloc_size then dec_error ''bytes overflow''
         else finish dest)"

text \<open>\<open>size + 1\<close> is computed in 32 bits. The terminator is stored whether or not the read succeeds.\<close>

definition pb_dec_string :: "'s pb_decoder \<Rightarrow> pb_field \<Rightarrow> u64 \<Rightarrow> 's pb_dec" where
  "pb_dec_string de field dest =
     dec_in pb_decode_varint32 (\<lambda>n.
       let alloc_size = ucast (n + 1) :: size_t;
           finish = (\<lambda>dest w s.
             case dec_in (pb_read (ucast n)) (\<lambda>bs. dec_put (store_bytes dest bs)) w s of
               None \<Rightarrow> None
             | Some (status, w', s') \<Rightarrow>
                 Some (status, w'\<lparr>w_memory := store_bytes (dest + ucast n) [0] (w_memory w')\<rparr>, s'))
       in
         if alloc_size < ucast n then dec_error ''size too large''
         else if atype field = PB_ATYPE_POINTER then
           (\<lambda>w s.
              if is_bytes_left s < ucast n then dec_error ''end-of-stream'' w s
              else dec_then (allocate_field de dest alloc_size 1) (dec_mem (\<lambda>mem. finish (load64 mem dest))) w s)
         else if ucast (fd_data_size field) < alloc_size then dec_error ''string overflow''
         else finish dest)"

definition pb_dec_fixed_length_bytes :: "pb_field \<Rightarrow> u64 \<Rightarrow> 's pb_dec" where
  "pb_dec_fixed_length_bytes field dest =
     dec_in pb_decode_varint32 (\<lambda>n.
       if n = 0 then dec_put (store_bytes dest (replicate (unat (fd_data_size field)) 0))
       else if n \<noteq> fd_data_size field then dec_error ''incorrect fixed length bytes size''
       else dec_in (pb_read (ucast (fd_data_size field))) (\<lambda>bs. dec_put (store_bytes dest bs)))"

section \<open>Submessages\<close>

text \<open>
  \<open>pb_make_string_substream\<close>, the use of the substream, and its closing. \<open>use\<close> gives the status that is
  returned if the stream could be closed.
\<close>

definition with_substream :: "'s pb_dec \<Rightarrow> 's pb_dec" where
  "with_substream use =
     dec_in pb_make_string_substream (\<lambda>substream w s.
       case use w substream of
         None \<Rightarrow> None
       | Some (status, w', substream') \<Rightarrow>
           dec_in (pb_close_string_substream substream') (\<lambda>_ w s. Some (status, w, s)) w' s)"

text \<open>
  \<open>sub noinit fs dest\<close> stands for the calls of \<open>pb_decode\<close> and \<open>pb_decode_noinit\<close>, which are defined
  below from these.
\<close>

definition pb_dec_submessage :: "(bool \<Rightarrow> u64 \<Rightarrow> u64 \<Rightarrow> 's pb_dec) \<Rightarrow> pb_field \<Rightarrow> u64 \<Rightarrow> 's pb_dec" where
  "pb_dec_submessage sub field dest =
     (if fd_ptr field = 0 then
        dec_in pb_make_string_substream (\<lambda>_. dec_error ''invalid field descriptor'')
      else with_substream (sub (htype field \<noteq> PB_HTYPE_REPEATED) (fd_ptr field) dest))"

definition PB_DECODERS ::
    "'s pb_decoder \<Rightarrow> (bool \<Rightarrow> u64 \<Rightarrow> u64 \<Rightarrow> 's pb_dec) \<Rightarrow> u8 \<Rightarrow> pb_field \<Rightarrow> u64 \<Rightarrow> 's pb_dec" where
  "PB_DECODERS de sub t field dest =
     (if t = PB_LTYPE_BOOL then pb_dec_bool field dest
      else if t = PB_LTYPE_VARINT then pb_dec_varint field dest
      else if t = PB_LTYPE_UVARINT then pb_dec_uvarint field dest
      else if t = PB_LTYPE_SVARINT then pb_dec_svarint field dest
      else if t = PB_LTYPE_FIXED32 then pb_dec_fixed32 field dest
      else if t = PB_LTYPE_FIXED64 then pb_dec_fixed64 field dest
      else if t = PB_LTYPE_BYTES then pb_dec_bytes de field dest
      else if t = PB_LTYPE_STRING then pb_dec_string de field dest
      else if t = PB_LTYPE_SUBMESSAGE then pb_dec_submessage sub field dest
      else if t = PB_LTYPE_FIXED_LENGTH_BYTES then pb_dec_fixed_length_bytes field dest
      else (\<lambda>w s. None))"


section \<open>Fields\<close>

text \<open>The item of an array: the product is computed in 32 bits.\<close>

definition item_place :: "u64 \<Rightarrow> pb_field \<Rightarrow> u32 \<Rightarrow> u64" where
  "item_place pData field i = pData + ucast (fd_data_size field * i)"

text \<open>
  The loops over the entries of a packed array, in the substream. The first argument bounds the
  rounds; as every entry takes at least a byte, one more than there are bytes is enough.
\<close>

primrec packed_static :: "nat \<Rightarrow> (u64 \<Rightarrow> 's pb_dec) \<Rightarrow> pb_field_iter \<Rightarrow> 's pb_dec" where
  "packed_static 0 func it = (\<lambda>w substream. None)"
| "packed_static (Suc n) func it = (\<lambda>w substream.
     let k = load32 (w_memory w) (it_pSize it) in
     if 0 < is_bytes_left substream \<and> k < fd_array_size (it_field it) then
       dec_then (func (item_place (it_pData it) (it_field it) k))
         (dec_then (dec_put (\<lambda>mem. store32 (it_pSize it) (load32 mem (it_pSize it) + 1) mem)) (packed_static n func it))
         w substream
     else dec_ok w substream)"

definition decode_static_field ::
    "nat \<Rightarrow> 's pb_decoder \<Rightarrow> (bool \<Rightarrow> u64 \<Rightarrow> u64 \<Rightarrow> 's pb_dec) \<Rightarrow> u32 \<Rightarrow> pb_field_iter \<Rightarrow> 's pb_dec" where
  "decode_static_field d de sub wire_type it =
     (let field = it_field it;
          func = PB_DECODERS de sub (ltype field) field
      in
        if htype field = PB_HTYPE_REQUIRED then func (it_pData it)
        else if htype field = PB_HTYPE_OPTIONAL then
          dec_then (if it_pSize it \<noteq> it_pData it then dec_put (store_bytes (it_pSize it) [1]) else dec_ok)
            (func (it_pData it))
        else if htype field = PB_HTYPE_REPEATED then
          if wire_type = PB_WT_STRING \<and> ltype field \<le> PB_LTYPE_LAST_PACKABLE then
            dec_in pb_make_string_substream (\<lambda>substream w s.
              case packed_static (Suc (unat (is_bytes_left substream))) func it w substream of
                None \<Rightarrow> None
              | Some (status, w', substream') \<Rightarrow>
                  if is_bytes_left substream' \<noteq> 0 then dec_error ''array overflow'' w' s
                  else dec_in (pb_close_string_substream substream') (\<lambda>_ w s. Some (status, w, s)) w' s)
          else
            dec_mem (\<lambda>mem.
              let k = load32 mem (it_pSize it) in
              dec_then (dec_put (store32 (it_pSize it) (k + 1)))
                (if fd_array_size field \<le> k then dec_error ''array overflow''
                 else func (item_place (it_pData it) field k)))
        else
          dec_mem (\<lambda>mem.
            dec_then
              (if ltype field = PB_LTYPE_SUBMESSAGE \<and> load32 mem (it_pSize it) \<noteq> fd_tag field then
                 dec_then (dec_put (store_bytes (it_pData it) (replicate (unat (fd_data_size field)) 0)))
                   (dec_step (pb_message_set_to_defaults d de (fd_ptr field) (it_pData it)))
               else dec_ok)
              (dec_then (dec_put (store32 (it_pSize it) (fd_tag field))) (func (it_pData it)))))"

primrec packed_pointer ::
    "nat \<Rightarrow> nat \<Rightarrow> 's pb_decoder \<Rightarrow> (u64 \<Rightarrow> 's pb_dec) \<Rightarrow> pb_field_iter \<Rightarrow> size_t \<Rightarrow> 's pb_dec" where
  "packed_pointer 0 d de func it allocated = (\<lambda>w substream. None)"
| "packed_pointer (Suc n) d de func it allocated = (\<lambda>w substream.
     let k = load32 (w_memory w) (it_pSize it);
         field = it_field it;
         grow = (allocated < ucast k + 1);
         remain = (is_bytes_left substream - 1) div ucast (fd_data_size field) + 1;
         allocated' =
           (if grow then
              if remain < ucast PB_SIZE_MAX - allocated then allocated + remain else allocated + 1
            else allocated)
     in
       if is_bytes_left substream = 0 then dec_ok w substream
       else if k = PB_SIZE_MAX then Some (False, w, substream)
       else if grow \<and> fd_data_size field = 0 then None
       else
         dec_then
           (if grow then allocate_field de (it_pData it) (ucast (fd_data_size field)) allocated' else dec_ok)
           (dec_mem (\<lambda>mem.
              let pItem = item_place (load64 mem (it_pData it)) field k in
              dec_then (dec_step (initialize_pointer_field d de pItem field))
                (dec_then (func pItem)
                  (dec_then (dec_put (\<lambda>mem. store32 (it_pSize it) (load32 mem (it_pSize it) + 1) mem))
                    (packed_pointer n d de func it allocated')))))
           w substream)"

definition decode_pointer_field ::
    "nat \<Rightarrow> 's pb_decoder \<Rightarrow> (bool \<Rightarrow> u64 \<Rightarrow> u64 \<Rightarrow> 's pb_dec) \<Rightarrow> u32 \<Rightarrow> pb_field_iter \<Rightarrow> 's pb_dec" where
  "decode_pointer_field d de sub wire_type it =
     (let field = it_field it;
          func = PB_DECODERS de sub (ltype field) field
      in
        if htype field \<noteq> PB_HTYPE_REPEATED then
          dec_then
            (dec_mem (\<lambda>mem.
               if ltype field = PB_LTYPE_SUBMESSAGE \<and> load64 mem (it_pData it) \<noteq> 0
               then dec_step (pb_release_single_field d de it) else dec_ok))
            (dec_then
              (if htype field = PB_HTYPE_ONEOF then dec_put (store32 (it_pSize it) (fd_tag field)) else dec_ok)
              (if ltype field = PB_LTYPE_STRING \<or> ltype field = PB_LTYPE_BYTES then func (it_pData it)
               else
                 dec_then (allocate_field de (it_pData it) (ucast (fd_data_size field)) 1)
                   (dec_mem (\<lambda>mem.
                      dec_then (dec_step (initialize_pointer_field d de (load64 mem (it_pData it)) field))
                        (dec_mem (\<lambda>mem. func (load64 mem (it_pData it))))))))
        else if wire_type = PB_WT_STRING \<and> ltype field \<le> PB_LTYPE_LAST_PACKABLE then
          dec_mem (\<lambda>mem. let allocated = ucast (load32 mem (it_pSize it)) in
            dec_in pb_make_string_substream (\<lambda>substream w s.
              case packed_pointer (Suc (unat (is_bytes_left substream))) d de func it allocated w substream of
                None \<Rightarrow> None
              | Some (status, w', substream') \<Rightarrow>
                  dec_in (pb_close_string_substream substream') (\<lambda>_ w s. Some (status, w, s)) w'
                    (if \<not> status \<and> load32 (w_memory w') (it_pSize it) = PB_SIZE_MAX
                     then s\<lparr>is_errmsg := Some ''too many array entries''\<rparr> else s)))
        else
          dec_mem (\<lambda>mem.
            let k = load32 mem (it_pSize it) in
            if k = PB_SIZE_MAX then dec_error ''too many array entries''
            else
              dec_then (allocate_field de (it_pData it) (ucast (fd_data_size field)) (ucast (k + 1)))
                (dec_mem (\<lambda>mem.
                   let k = load32 mem (it_pSize it);
                       pItem = item_place (load64 mem (it_pData it)) field k
                   in
                     dec_then (dec_put (store32 (it_pSize it) (k + 1)))
                       (dec_then (dec_step (initialize_pointer_field d de pItem field)) (func pItem))))))"

text \<open>
  A callback that reads from a substream is called until it has read all of it; \<open>None\<close> if that takes
  more calls than the first argument says. \<open>pCallback->funcs.decode\<close> is read from the memory at every
  call.
\<close>

primrec call_until_empty :: "nat \<Rightarrow> 's user_decoder \<Rightarrow> 's pb_dec" where
  "call_until_empty 0 code = (\<lambda>w substream. None)"
| "call_until_empty (Suc n) code = (\<lambda>w substream.
     case code w substream of
       (False, w', substream') \<Rightarrow> Some (False, w', substream')
     | (True, w', substream') \<Rightarrow>
         if is_bytes_left substream' \<noteq> 0 then call_until_empty n code w' substream'
         else Some (True, w', substream'))"

definition decode_callback_field :: "nat \<Rightarrow> 's pb_decoder \<Rightarrow> u32 \<Rightarrow> pb_field_iter \<Rightarrow> 's pb_dec" where
  "decode_callback_field d de wire_type it =
     dec_mem (\<lambda>mem.
       let call = (\<lambda>w. decode_code de (load64 (w_memory w) (it_pData it)) (it_field it) (it_pData it + 8) w)
       in
         if it_pData it = 0 \<or> load64 mem (it_pData it) = 0 then dec_in (pb_skip_field wire_type) (\<lambda>_. dec_ok)
         else if wire_type = PB_WT_STRING then
           dec_in pb_make_string_substream (\<lambda>substream w s.
             case call_until_empty (Suc d + unat (is_bytes_left substream)) call w substream of
               None \<Rightarrow> None
             | Some (False, w', substream') \<Rightarrow> dec_error ''callback failed'' w' s
             | Some (True, w', substream') \<Rightarrow> dec_in (pb_close_string_substream substream') (\<lambda>_. dec_ok) w' s)
         else
           dec_in (read_raw_value wire_type 10) (\<lambda>bs w s.
             case call w (pb_istream_from_buffer bs (of_nat (length bs))) of
               (status, w', substream') \<Rightarrow> Some (status, w', s)))"

text \<open>
  \<open>pb_release_union_field\<close>, on the iterator it gets and leaves changed: searching for the old field moves
  it, searching for the new one should bring it back.
\<close>

definition pb_release_union_field :: "nat \<Rightarrow> 's pb_decoder \<Rightarrow> pb_field_iter \<Rightarrow> (pb_field_iter \<Rightarrow> 's pb_dec) \<Rightarrow> 's pb_dec" where
  "pb_release_union_field d de it f =
     dec_mem (\<lambda>mem.
       let old_tag = load32 mem (it_pSize it);
           new_tag = fd_tag (it_field it)
       in
         if old_tag = 0 \<or> old_tag = new_tag then f it
         else
           (case pb_field_iter_find old_tag it of
              (False, it1) \<Rightarrow> dec_error ''invalid union tag''
            | (True, it1) \<Rightarrow>
                dec_then (dec_step (pb_release_single_field d de it1))
                  (case pb_field_iter_find new_tag it1 of
                     (False, it2) \<Rightarrow> dec_error ''iterator error''
                   | (True, it2) \<Rightarrow>
                       dec_then
                         (if atype (it_field it2) = PB_ATYPE_POINTER
                          then dec_put (store64 (it_pData it2) 0) else dec_ok)
                         (f it2))))"

definition decode_field ::
    "nat \<Rightarrow> 's pb_decoder \<Rightarrow> (bool \<Rightarrow> u64 \<Rightarrow> u64 \<Rightarrow> 's pb_dec) \<Rightarrow> u32 \<Rightarrow> pb_field_iter \<Rightarrow> 's pb_dec" where
  "decode_field d de sub wire_type it =
     (let decode = (\<lambda>it.
        if atype (it_field it) = PB_ATYPE_STATIC then decode_static_field d de sub wire_type it
        else if atype (it_field it) = PB_ATYPE_POINTER then decode_pointer_field d de sub wire_type it
        else if atype (it_field it) = PB_ATYPE_CALLBACK then decode_callback_field d de wire_type it
        else dec_error ''invalid field type'')
      in
        if htype (it_field it) = PB_HTYPE_ONEOF then pb_release_union_field d de it decode else decode it)"

section \<open>Extensions\<close>

definition default_extension_decoder ::
    "nat \<Rightarrow> 's pb_decoder \<Rightarrow> (bool \<Rightarrow> u64 \<Rightarrow> u64 \<Rightarrow> 's pb_dec) \<Rightarrow> u64 \<Rightarrow> u32 \<Rightarrow> u32 \<Rightarrow> 's pb_dec" where
  "default_extension_decoder d de sub extension tag wire_type =
     dec_mem (\<lambda>mem.
       let field = field_at (fields_at de (load64 mem (load64 mem extension + 16))) 0 in
       if fd_tag field \<noteq> tag then dec_ok
       else
         let it = iter_from_extension de mem extension in
         dec_then (dec_put (store_bytes (extension + 24) [1])) (decode_field d de sub wire_type it))"

primrec decode_extensions ::
    "nat \<Rightarrow> nat \<Rightarrow> 's pb_decoder \<Rightarrow> (bool \<Rightarrow> u64 \<Rightarrow> u64 \<Rightarrow> 's pb_dec) \<Rightarrow> size_t \<Rightarrow> u32 \<Rightarrow> u32 \<Rightarrow> u64 \<Rightarrow> 's pb_dec" where
  "decode_extensions 0 d de sub pos tag wire_type extension = (\<lambda>w s. None)"
| "decode_extensions (Suc n) d de sub pos tag wire_type extension = (\<lambda>w s.
     if extension \<noteq> 0 \<and> pos = is_bytes_left s then
       let code = load64 (w_memory w) (load64 (w_memory w) extension) in
       dec_then
         (if code \<noteq> 0 then (\<lambda>w s. Some (extension_decode de code extension tag wire_type w s))
          else default_extension_decoder d de sub extension tag wire_type)
         (dec_mem (\<lambda>mem. decode_extensions n d de sub pos tag wire_type (load64 mem (extension + 16))))
         w s
     else dec_ok w s)"

definition decode_extension ::
    "nat \<Rightarrow> 's pb_decoder \<Rightarrow> (bool \<Rightarrow> u64 \<Rightarrow> u64 \<Rightarrow> 's pb_dec) \<Rightarrow> u32 \<Rightarrow> u32 \<Rightarrow> pb_field_iter \<Rightarrow> 's pb_dec" where
  "decode_extension d de sub tag wire_type it w s =
     decode_extensions (Suc d) d de sub (is_bytes_left s) tag wire_type (load64 (w_memory w) (it_pData it)) w s"


section \<open>Messages\<close>

text \<open>
  The local variables of \<open>pb_decode_noinit\<close> but \<open>fixed_count_size\<close>, of which the address is taken: the
  words of \<open>fields_seen\<close>, \<open>extension_range_start\<close>, the index of \<open>fixed_count_field\<close>, and the iterator.
\<close>

record pb_locals =
  l_seen :: "u32 list"
  l_extensions :: u32
  l_fixed :: "nat option"
  l_iter :: pb_field_iter

datatype loop_step = Go_On pb_locals | Message_End pb_locals | Message_Fails

type_synonym 's pb_loop = "pb_world \<Rightarrow> 's pb_istream \<Rightarrow> (loop_step \<times> pb_world \<times> 's pb_istream) option"

definition loop_after :: "pb_locals \<Rightarrow> 's pb_dec \<Rightarrow> 's pb_loop" where
  "loop_after l m w s =
     (case m w s of
        None \<Rightarrow> None
      | Some (ok, w', s') \<Rightarrow> Some (if ok then Go_On l else Message_Fails, w', s'))"

definition skip_unknown :: "u32 \<Rightarrow> pb_locals \<Rightarrow> 's pb_loop" where
  "skip_unknown wire_type l = loop_after l (dec_in (pb_skip_field wire_type) (\<lambda>_. dec_ok))"

text \<open>The field on the wire has no descriptor: an extension may take it, or it is skipped.\<close>

definition decode_unknown ::
    "nat \<Rightarrow> 's pb_decoder \<Rightarrow> (bool \<Rightarrow> u64 \<Rightarrow> u64 \<Rightarrow> 's pb_dec) \<Rightarrow> u32 \<Rightarrow> u32 \<Rightarrow> pb_locals \<Rightarrow> 's pb_loop" where
  "decode_unknown d de sub wire_type tag l w s =
     (if l_extensions l \<le> tag then
        (case find_extension_field (l_iter l) of (found, it) \<Rightarrow>
           let start = (if found then fd_tag (it_field it) else - 1);
               l1 = l\<lparr>l_iter := it, l_extensions := start\<rparr>
           in
             if start \<le> tag then
               (case decode_extension d de sub tag wire_type it w s of
                  None \<Rightarrow> None
                | Some (False, w', s') \<Rightarrow> Some (Message_Fails, w', s')
                | Some (True, w', s') \<Rightarrow>
                    if is_bytes_left s \<noteq> is_bytes_left s' then Some (Go_On l1, w', s')
                    else skip_unknown wire_type l1 w' s')
             else skip_unknown wire_type l1 w s)
      else skip_unknown wire_type l w s)"

text \<open>
  \<open>mark_seen\<close> sets the bit of a required field. \<open>union_iter\<close> is where \<open>pb_release_union_field\<close> leaves the
  iterator.
\<close>

definition mark_seen :: "u32 \<Rightarrow> u32 list \<Rightarrow> u32 list" where
  "mark_seen index seen =
     (let i = unat (drop_bit 5 index) in seen[i := seen ! i OR push_bit (unat (index AND 31)) 1])"

definition union_iter :: "memory \<Rightarrow> pb_field_iter \<Rightarrow> pb_field_iter" where
  "union_iter mem it =
     (let old_tag = load32 mem (it_pSize it); new_tag = fd_tag (it_field it) in
      if htype (it_field it) \<noteq> PB_HTYPE_ONEOF \<or> old_tag = 0 \<or> old_tag = new_tag then it
      else snd (pb_field_iter_find new_tag (snd (pb_field_iter_find old_tag it))))"

definition fixed_incomplete :: "u64 \<Rightarrow> pb_locals \<Rightarrow> memory \<Rightarrow> bool" where
  "fixed_incomplete place l mem \<longleftrightarrow>
     (case l_fixed l of
        None \<Rightarrow> False
      | Some j \<Rightarrow> load32 mem place \<noteq> fd_array_size (field_at (it_start (l_iter l)) j))"

definition decode_known ::
    "nat \<Rightarrow> 's pb_decoder \<Rightarrow> (bool \<Rightarrow> u64 \<Rightarrow> u64 \<Rightarrow> 's pb_dec) \<Rightarrow> u64 \<Rightarrow> u32 \<Rightarrow> pb_locals \<Rightarrow> 's pb_loop" where
  "decode_known d de sub place wire_type l w s =
     (let it = l_iter l;
          field = it_field it;
          fixed = (htype field = PB_HTYPE_REPEATED \<and> it_pSize it = it_pData it);
          fresh = (fixed \<and> l_fixed l \<noteq> Some (it_pos it));
          it1 = (if fixed then it\<lparr>it_pSize := place\<rparr> else it);
          l1 = l\<lparr>l_fixed := (if fixed then Some (it_pos it) else l_fixed l),
                 l_seen := (if htype field = PB_HTYPE_REQUIRED \<and> it_required it < 64
                   then mark_seen (it_required it) (l_seen l) else l_seen l)\<rparr>;
          w1 = (if fresh then w\<lparr>w_memory := store32 place 0 (w_memory w)\<rparr> else w)
      in
        if fresh \<and> fixed_incomplete place l (w_memory w) then
          loop_after l (dec_error ''wrong size for fixed count field'') w s
        else
          loop_after (l1\<lparr>l_iter := union_iter (w_memory w1) it1\<rparr>) (decode_field d de sub wire_type it1) w1 s)"

definition decode_next ::
    "nat \<Rightarrow> 's pb_decoder \<Rightarrow> (bool \<Rightarrow> u64 \<Rightarrow> u64 \<Rightarrow> 's pb_dec) \<Rightarrow> u64 \<Rightarrow> pb_locals \<Rightarrow> 's pb_loop" where
  "decode_next d de sub place l w s =
     (case pb_decode_tag s of
        (None, eof, s1) \<Rightarrow> Some (if eof then Message_End l else Message_Fails, w, s1)
      | (Some (wire_type, tag), eof, s1) \<Rightarrow>
          (case pb_field_iter_find tag (l_iter l) of
             (False, it) \<Rightarrow> decode_unknown d de sub wire_type tag (l\<lparr>l_iter := it\<rparr>) w s1
           | (True, it) \<Rightarrow> decode_known d de sub place wire_type (l\<lparr>l_iter := it\<rparr>) w s1))"

primrec message_loop ::
    "nat \<Rightarrow> nat \<Rightarrow> 's pb_decoder \<Rightarrow> (bool \<Rightarrow> u64 \<Rightarrow> u64 \<Rightarrow> 's pb_dec) \<Rightarrow> u64 \<Rightarrow> pb_locals \<Rightarrow> 's pb_loop" where
  "message_loop 0 d de sub place l = (\<lambda>w s. None)"
| "message_loop (Suc n) d de sub place l = (\<lambda>w s.
     if is_bytes_left s = 0 then Some (Message_End l, w, s)
     else
       (case decode_next d de sub place l w s of
          Some (Go_On l', w', s') \<Rightarrow> message_loop n d de sub place l' w' s'
        | outcome \<Rightarrow> outcome))"

text \<open>The number of required fields, the type of the last field, and the iterator behind the loop.\<close>

function last_field :: "pb_field_iter \<Rightarrow> u32 \<times> u8 \<times> pb_field_iter" where
  "last_field it =
     (case pb_field_iter_next it of
        (True, it') \<Rightarrow> last_field it'
      | (False, it') \<Rightarrow> (it_required it, fd_type (it_field it), it'))"
  by pat_completeness auto
termination
  by (relation "measure (\<lambda>it. length (it_start it) - it_pos it)") (auto dest!: next_forward [OF sym])

declare last_field.simps [simp del]

definition req_field_count :: "pb_field_iter \<Rightarrow> nat" where
  "req_field_count it =
     (case last_field it of (n, last_type, it') \<Rightarrow>
        let n' = (if PB_HTYPE last_type = PB_HTYPE_REQUIRED \<and> fd_tag (it_field it') \<noteq> 0 then n + 1 else n)
        in min (unat n') 64)"

definition all_required_seen :: "nat \<Rightarrow> u32 list \<Rightarrow> bool" where
  "all_required_seen n seen \<longleftrightarrow>
     (\<forall>i \<in> set [0..<n div 32]. seen ! i = - 1) \<and>
     (n mod 32 \<noteq> 0 \<longrightarrow> seen ! (n div 32) = drop_bit (32 - n mod 32) (- 1))"

definition finish_message :: "u64 \<Rightarrow> pb_locals \<Rightarrow> 's pb_dec" where
  "finish_message place l =
     dec_mem (\<lambda>mem.
       if fixed_incomplete place l mem then dec_error ''wrong size for fixed count field''
       else if all_required_seen (req_field_count (l_iter l)) (l_seen l) then dec_ok
       else dec_error ''missing required field'')"

definition decode_noinit_body ::
    "nat \<Rightarrow> 's pb_decoder \<Rightarrow> (bool \<Rightarrow> u64 \<Rightarrow> u64 \<Rightarrow> 's pb_dec) \<Rightarrow> u64 \<Rightarrow> u64 \<Rightarrow> 's pb_dec" where
  "decode_noinit_body d de sub fs dest_struct w s =
     (let place = count_place de d;
          l = \<lparr>l_seen = [0, 0], l_extensions = 0, l_fixed = None,
               l_iter = snd (pb_field_iter_begin (fields_at de fs) dest_struct)\<rparr>;
          w0 = w\<lparr>w_memory := store32 place 0 (w_memory w)\<rparr>
      in
        (case message_loop (Suc (unat (is_bytes_left s))) d de sub place l w0 s of
           Some (Message_End l', w', s') \<Rightarrow> finish_message place l' w' s'
         | Some (Message_Fails, w', s') \<Rightarrow> Some (False, w', s')
         | _ \<Rightarrow> None))"

definition decode_body ::
    "nat \<Rightarrow> 's pb_decoder \<Rightarrow> (bool \<Rightarrow> u64 \<Rightarrow> u64 \<Rightarrow> 's pb_dec) \<Rightarrow> u64 \<Rightarrow> u64 \<Rightarrow> 's pb_dec" where
  "decode_body d de sub fs dest_struct w s =
     (case pb_message_set_to_defaults d de fs dest_struct w of
        None \<Rightarrow> None
      | Some w1 \<Rightarrow>
          (case decode_noinit_body d de sub fs dest_struct w1 s of
             None \<Rightarrow> None
           | Some (True, w2, s') \<Rightarrow> Some (True, w2, s')
           | Some (False, w2, s') \<Rightarrow> map_option (\<lambda>w3. (False, w3, s')) (pb_release d de fs dest_struct w2)))"

text \<open>\<open>pb_decode_noinit\<close> and \<open>pb_decode\<close>, within a depth.\<close>

primrec decode_message :: "nat \<Rightarrow> 's pb_decoder \<Rightarrow> bool \<Rightarrow> u64 \<Rightarrow> u64 \<Rightarrow> 's pb_dec" where
  "decode_message 0 de noinit fs dest_struct = (\<lambda>w s. None)"
| "decode_message (Suc d) de noinit fs dest_struct =
     (if noinit then decode_noinit_body d de (decode_message d de) fs dest_struct
      else decode_body d de (decode_message d de) fs dest_struct)"

definition pb_decode_noinit :: "nat \<Rightarrow> 's pb_decoder \<Rightarrow> u64 \<Rightarrow> u64 \<Rightarrow> 's pb_dec" where
  "pb_decode_noinit d de = decode_message d de True"

definition pb_decode :: "nat \<Rightarrow> 's pb_decoder \<Rightarrow> u64 \<Rightarrow> u64 \<Rightarrow> 's pb_dec" where
  "pb_decode d de = decode_message d de False"

definition pb_decode_delimited_noinit :: "nat \<Rightarrow> 's pb_decoder \<Rightarrow> u64 \<Rightarrow> u64 \<Rightarrow> 's pb_dec" where
  "pb_decode_delimited_noinit d de fs dest_struct = with_substream (pb_decode_noinit d de fs dest_struct)"

definition pb_decode_delimited :: "nat \<Rightarrow> 's pb_decoder \<Rightarrow> u64 \<Rightarrow> u64 \<Rightarrow> 's pb_dec" where
  "pb_decode_delimited d de fs dest_struct = with_substream (pb_decode d de fs dest_struct)"

definition pb_decode_nullterminated :: "nat \<Rightarrow> 's pb_decoder \<Rightarrow> u64 \<Rightarrow> u64 \<Rightarrow> 's pb_dec" where
  "pb_decode_nullterminated = pb_decode"

end
