(* ===== verification/Pb_Tame.thy ===== *)
theory Pb_Tame
  imports Pb_Decode
begin

text \<open>
  Rules for decoders that always return and write to a region of the memory only: a reader is \<open>tame\<close>
  if it never raises the number of bytes left, a decoder if it also stays within the region.
\<close>

section \<open>Reads\<close>

text \<open>A callback stream never hands out more bytes than it was asked for.\<close>

definition exact_reader :: "('s \<Rightarrow> size_t \<Rightarrow> 's read_result) \<Rightarrow> bool" where
  "exact_reader f \<longleftrightarrow> (\<forall>st n bs st'. f st n = Read_Bytes bs st' \<longrightarrow> length bs \<le> unat n)"

definition exact :: "'s pb_istream \<Rightarrow> bool" where
  "exact s \<longleftrightarrow>
     (case is_source s of Buffer bs \<Rightarrow> True | Reader f st \<Rightarrow> exact_reader f)"

lemma exact_readerD: "exact_reader f \<Longrightarrow> f st n = Read_Bytes bs st' \<Longrightarrow> length bs \<le> unat n"
  unfolding exact_reader_def by blast

text \<open>A reader keeps this and does not raise \<open>bytes_left\<close>; most lower it when they succeed.\<close>

definition reads_on :: "'s pb_istream \<Rightarrow> 's pb_istream \<Rightarrow> bool" where
  "reads_on s s' \<longleftrightarrow> exact s' \<and> unat (is_bytes_left s') \<le> unat (is_bytes_left s)"

definition tame_in :: "('s, 'a) pb_in \<Rightarrow> bool" where
  "tame_in get \<longleftrightarrow> (\<forall>s. exact s \<longrightarrow> reads_on s (snd (get s)))"

definition eats_in :: "('s, 'a) pb_in \<Rightarrow> bool" where
  "eats_in get \<longleftrightarrow> (\<forall>s x s'. exact s \<longrightarrow> get s = (Some x, s') \<longrightarrow> unat (is_bytes_left s') < unat (is_bytes_left s))"

lemma reads_on_refl [simp]: "exact s \<Longrightarrow> reads_on s s"
  by (simp add: reads_on_def)

lemma reads_on_trans: "reads_on s s1 \<Longrightarrow> reads_on s1 s2 \<Longrightarrow> reads_on s s2"
  by (simp add: reads_on_def)

lemma reads_on_exact: "reads_on s s' \<Longrightarrow> exact s'"
  by (simp add: reads_on_def)

lemma tame_inD: "tame_in get \<Longrightarrow> exact s \<Longrightarrow> get s = (r, s') \<Longrightarrow> reads_on s s'"
  unfolding tame_in_def by (metis snd_conv)

lemma exact_errmsg [simp]: "exact (s\<lparr>is_errmsg := e\<rparr>) \<longleftrightarrow> exact s"
  "exact (s\<lparr>is_bytes_left := n\<rparr>) \<longleftrightarrow> exact s"
  by (simp_all add: exact_def)

lemma tame_in_error: "tame_in (in_error msg)"
  by (simp add: tame_in_def in_error_def reads_on_def)

lemma tame_in_return: "tame_in (in_return x)"
  by (simp add: tame_in_def in_return_def)

lemma tame_in_then: "tame_in m \<Longrightarrow> (\<And>x. tame_in (f x)) \<Longrightarrow> tame_in (in_then m f)"
  by (auto simp: tame_in_def in_then_def split: prod.split option.split
      intro: reads_on_trans dest: reads_on_exact) (metis reads_on_exact reads_on_trans snd_conv)+

lemma callback_reads_on:
  assumes "exact s" and "read_callback n s = (r, s')"
  shows "reads_on s s'" and "r = Some bs \<Longrightarrow> length bs \<le> unat n"
  using assms
  by (auto simp: read_callback_def exact_def reads_on_def split: pb_source.splits read_result.splits
    dest: exact_readerD)

lemma pb_read_reads_on:
  assumes "exact s" and "pb_read n s = (r, s')"
  shows "reads_on s s'" and "r = Some bs \<Longrightarrow> length bs \<le> unat n"
    and "r = Some bs \<Longrightarrow> unat n \<le> unat (is_bytes_left s)"
proof -
  have low: "unat (x - n) \<le> unat x" if "\<not> x < n" for x :: size_t
    using that by (simp add: unat_sub_if_size word_less_nat_alt)
  obtain q t where cb: "read_callback n s = (q, t)" by (cases "read_callback n s")
  note cb' = callback_reads_on [OF assms(1) cb]
  have left: "q = Some bs \<Longrightarrow> is_bytes_left t = is_bytes_left s" for bs
    using cb by (auto simp: read_callback_def split: pb_source.splits read_result.splits)
  show "reads_on s s'"
    using assms cb cb'(1) left low by (auto simp: pb_read_def in_error_def reads_on_def split: if_splits option.splits)
  show "r = Some bs \<Longrightarrow> length bs \<le> unat n"
    using assms cb cb'(2) by (auto simp: pb_read_def in_error_def split: if_splits option.splits)
  show "r = Some bs \<Longrightarrow> unat n \<le> unat (is_bytes_left s)"
    using assms by (auto simp: pb_read_def in_error_def word_less_nat_alt split: if_splits option.splits)
qed

lemma tame_pb_read: "tame_in (pb_read n)"
  unfolding tame_in_def by (metis pb_read_reads_on(1) surjective_pairing)

lemma tame_readbyte: "tame_in pb_readbyte"
proof -
  have "reads_on s s'" if s: "exact s" and r: "pb_readbyte s = (r, s')" for s r and s' :: "'s pb_istream"
  proof -
    obtain q t where cb: "read_callback 1 s = (q, t)" by (cases "read_callback 1 s")
    note cb' = callback_reads_on [OF s cb]
    have left: "q = Some bs \<Longrightarrow> is_bytes_left t = is_bytes_left s" for bs
      using cb by (auto simp: read_callback_def split: pb_source.splits read_result.splits)
    have "unat (x - 1) \<le> unat x" if "x \<noteq> 0" for x :: size_t
      using that by (simp add: unat_sub_if_size unat_gt_0 Suc_le_eq)
    with s r cb cb'(1) left show ?thesis
      by (auto simp: pb_readbyte_def in_error_def reads_on_def split: if_splits option.splits)
  qed
  then show ?thesis unfolding tame_in_def by (metis surjective_pairing)
qed


lemma reads_on_error [simp]: "exact s \<Longrightarrow> reads_on s (snd (in_error msg s))"
  by (simp add: in_error_def reads_on_def)

lemma readbyte_then:
  assumes "exact s" and "pb_readbyte s = (Some byte, s1)"
  shows "reads_on s s1" and "exact s1" and "unat (is_bytes_left s1) < unat (is_bytes_left s)"
  using tame_inD [OF tame_readbyte assms] readbyte_shorter [OF assms(2)] by (auto dest: reads_on_exact)

lemma tame_varint32_loop: "tame_in (varint32_loop result bitpos)"
proof -
  have "exact s \<Longrightarrow> reads_on s (snd (varint32_loop result bitpos s))" for result bitpos and s :: "'s pb_istream"
  proof (induction "unat (is_bytes_left s)" arbitrary: result bitpos s rule: less_induct)
    case less
    obtain r s1 where b: "pb_readbyte s = (r, s1)" by (cases "pb_readbyte s")
    note s1 = tame_inD [OF tame_readbyte less.prems b]
    show ?case
    proof (cases r)
      case None
      with b s1 show ?thesis by (simp add: varint32_loop.simps [of result bitpos s])
    next
      case (Some byte)
      note byte = readbyte_then [OF less.prems b [unfolded Some]]
      have "reads_on s (snd (varint32_loop r p s1))" for r p
        using reads_on_trans [OF byte(1) less.hyps [OF byte(3,2)]] .
      moreover have "reads_on s (snd (in_error msg s1))" for msg
        using reads_on_trans [OF byte(1) reads_on_error [OF byte(2)]] .
      ultimately show ?thesis
        unfolding varint32_loop.simps [of result bitpos s] b Some Let_def using s1
        by (simp add: in_error_def)
    qed
  qed
  then show ?thesis unfolding tame_in_def by blast
qed

lemma tame_varint_loop: "tame_in (varint_loop result bitpos)"
proof -
  have "exact s \<Longrightarrow> reads_on s (snd (varint_loop result bitpos s))" for result bitpos and s :: "'s pb_istream"
  proof (induction "unat (is_bytes_left s)" arbitrary: result bitpos s rule: less_induct)
    case less
    obtain r s1 where b: "pb_readbyte s = (r, s1)" by (cases "pb_readbyte s")
    note s1 = tame_inD [OF tame_readbyte less.prems b]
    show ?case
    proof (cases r)
      case None
      with b s1 less.prems show ?thesis by (simp add: varint_loop.simps [of result bitpos s])
    next
      case (Some byte)
      note byte = readbyte_then [OF less.prems b [unfolded Some]]
      have "reads_on s (snd (varint_loop r p s1))" for r p
        using reads_on_trans [OF byte(1) less.hyps [OF byte(3,2)]] .
      then show ?thesis
        unfolding varint_loop.simps [of result bitpos s] b Some Let_def using s1 less.prems by simp
    qed
  qed
  then show ?thesis unfolding tame_in_def by blast
qed

lemma tame_skip_varint: "tame_in pb_skip_varint"
proof -
  have "exact s \<Longrightarrow> reads_on s (snd (pb_skip_varint s))" for s :: "'s pb_istream"
  proof (induction "unat (is_bytes_left s)" arbitrary: s rule: less_induct)
    case less
    obtain r s1 where b: "pb_read 1 s = (r, s1)" by (cases "pb_read 1 s")
    note s1 = tame_inD [OF tame_pb_read less.prems b]
    show ?case
    proof (cases r)
      case None
      with b s1 show ?thesis by (simp add: pb_skip_varint.simps [of s])
    next
      case (Some bs)
      have "unat (is_bytes_left s1) < unat (is_bytes_left s)"
        using pb_read_1_shorter [OF b [unfolded Some]] by simp
      from reads_on_trans [OF s1 less.hyps [OF this reads_on_exact [OF s1]]] s1 show ?thesis
        unfolding pb_skip_varint.simps [of s] b Some by simp
    qed
  qed
  then show ?thesis unfolding tame_in_def by blast
qed

lemma tame_skip_chunks: "tame_in (skip_chunks n)"
proof -
  have "exact s \<Longrightarrow> reads_on s (snd (skip_chunks n s))" for n and s :: "'s pb_istream"
  proof (induction "unat n" arbitrary: n s rule: less_induct)
    case less
    have last: "reads_on s (snd (pb_read m s))" for m
      using tame_pb_read less.prems unfolding tame_in_def by blast
    show ?case
    proof (cases "16 < n")
      case True
      then have lt: "unat (n - 16) < unat n" by (simp add: unat_sub_if_size word_less_nat_alt)
      obtain r s1 where b: "pb_read 16 s = (r, s1)" by (cases "pb_read 16 s")
      note s1 = tame_inD [OF tame_pb_read less.prems b]
      from reads_on_trans [OF s1 less.hyps [OF lt reads_on_exact [OF s1]]] s1 show ?thesis
        unfolding skip_chunks.simps [of n s] using True b by (cases r) simp_all
    next
      case False
      obtain r s1 where b: "pb_read n s = (r, s1)" by (cases "pb_read n s")
      from last [of n] show ?thesis
        unfolding skip_chunks.simps [of n s] using False b by (cases r) simp_all
    qed
  qed
  then show ?thesis unfolding tame_in_def by blast
qed

lemma tame_read_null: "tame_in (pb_read_null n)"
  using tame_skip_chunks tame_in_then [OF tame_pb_read tame_in_return, of n "\<lambda>x. ()"]
  by (auto simp: tame_in_def pb_read_null_def split: pb_source.split)

definition snd3 :: "'a \<times> 'b \<times> 'c \<Rightarrow> 'c" where
  "snd3 x = snd (snd x)"

lemma varint32_eof_reads_on: "exact s \<Longrightarrow> reads_on s (snd3 (pb_decode_varint32_eof s))"
proof -
  assume s: "exact s"
  obtain r s1 where b: "pb_readbyte s = (r, s1)" by (cases "pb_readbyte s")
  note s1 = tame_inD [OF tame_readbyte s b]
  show ?thesis
  proof (cases r)
    case None
    with b s1 show ?thesis by (simp add: pb_decode_varint32_eof_def snd3_def)
  next
    case (Some byte)
    obtain q s2 where l: "varint32_loop (ucast (byte AND 0x7F)) 7 s1 = (q, s2)"
      by (cases "varint32_loop (ucast (byte AND 0x7F)) 7 s1")
    note s2 = reads_on_trans [OF s1 tame_inD [OF tame_varint32_loop reads_on_exact [OF s1] l]]
    have "reads_on s (s2\<lparr>is_errmsg := e\<rparr>)" for e using s2 by (simp add: reads_on_def)
    with b Some s1 l s2 show ?thesis
      by (auto simp: pb_decode_varint32_eof_def snd3_def in_error_def split: option.split)
  qed
qed

lemma varint32_eof_eats:
  assumes "pb_decode_varint32_eof s = (Some v, eof, s')" and "exact s"
  shows "unat (is_bytes_left s') < unat (is_bytes_left s)"
proof -
  obtain r s1 where b: "pb_readbyte s = (r, s1)" by (cases "pb_readbyte s")
  with assms(1) obtain byte where r: "r = Some byte"
    by (cases r) (simp_all add: pb_decode_varint32_eof_def)
  note byte = readbyte_then [OF assms(2) b [unfolded r]]
  show ?thesis
  proof (cases "byte AND 0x80 = 0")
    case True
    with assms(1) b r byte(3) show ?thesis by (simp add: pb_decode_varint32_eof_def)
  next
    case False
    obtain q s2 where l: "varint32_loop (ucast (byte AND 0x7F)) 7 s1 = (q, s2)"
      by (cases "varint32_loop (ucast (byte AND 0x7F)) 7 s1")
    from assms(1) b r False l have "s' = s2"
      by (auto simp: pb_decode_varint32_eof_def in_error_def split: option.splits prod.splits if_splits)
    with tame_inD [OF tame_varint32_loop byte(2) l] byte(3) show ?thesis by (simp add: reads_on_def)
  qed
qed

lemma tame_varint32: "tame_in pb_decode_varint32"
  using varint32_eof_reads_on unfolding tame_in_def snd3_def pb_decode_varint32_def
  by (auto simp: split_beta)

lemma eats_inI: "(\<And>s x s'. exact s \<Longrightarrow> get s = (Some x, s') \<Longrightarrow>
    unat (is_bytes_left s') < unat (is_bytes_left s)) \<Longrightarrow> eats_in get"
  unfolding eats_in_def by blast

lemma eats_in_then: "eats_in m \<Longrightarrow> tame_in m \<Longrightarrow> (\<And>x. tame_in (f x)) \<Longrightarrow> eats_in (in_then m f)"
proof (rule eats_inI)
  fix s x s'
  assume m: "eats_in m" "tame_in m" "\<And>x. tame_in (f x)" "exact s" and get: "in_then m f s = (Some x, s')"
  then obtain y s1 where y: "m s = (Some y, s1)" "f y s1 = (Some x, s')"
    by (auto simp: in_then_def split: prod.splits option.splits)
  note s1 = tame_inD [OF m(2,4) y(1)]
  from y(1) m(1,4) have "unat (is_bytes_left s1) < unat (is_bytes_left s)" unfolding eats_in_def by blast
  with tame_inD [OF m(3) reads_on_exact [OF s1] y(2)] show "unat (is_bytes_left s') < unat (is_bytes_left s)"
    by (simp add: reads_on_def)
qed

lemma eats_varint32: "eats_in pb_decode_varint32"
  by (auto simp: pb_decode_varint32_def split: prod.splits intro!: eats_inI dest: varint32_eof_eats)

lemma eats_read: "0 < n \<Longrightarrow> eats_in (pb_read n)"
proof (rule eats_inI)
  fix s x and s' :: "'s pb_istream"
  assume n: "0 < n" and s: "exact s" and r: "pb_read n s = (Some x, s')"
  then have "is_bytes_left s' = is_bytes_left s - n"
    by (auto simp: pb_read_def in_error_def read_callback_def split: if_splits option.splits pb_source.splits read_result.splits)
  with pb_read_reads_on(3) [OF s r refl] n show "unat (is_bytes_left s') < unat (is_bytes_left s)"
    by (simp add: unat_sub_if_size word_less_nat_alt)
qed

lemma eats_varint: "eats_in pb_decode_varint"
proof (rule eats_inI)
  fix s x and s' :: "'s pb_istream"
  assume s: "exact s" and v: "pb_decode_varint s = (Some x, s')"
  obtain r s1 where b: "pb_readbyte s = (r, s1)" by (cases "pb_readbyte s")
  from v b obtain byte where r: "r = Some byte"
    by (cases r) (simp_all add: pb_decode_varint_def varint_loop.simps [of 0 0 s])
  note byte = readbyte_then [OF s b [unfolded r]]
  show "unat (is_bytes_left s') < unat (is_bytes_left s)"
  proof (cases "byte AND 0x80 = 0")
    case True
    with v b r byte(3) show ?thesis by (simp add: pb_decode_varint_def varint_loop.simps [of 0 0 s])
  next
    case False
    with v b r have "varint_loop (0 OR push_bit (unat (0 :: u8)) (ucast (byte AND 0x7F))) (0 + 7) s1 = (Some x, s')"
      unfolding pb_decode_varint_def varint_loop.simps [of 0 0 s] Let_def by simp
    from tame_inD [OF tame_varint_loop byte(2) this] byte(3) show ?thesis by (simp add: reads_on_def)
  qed
qed

lemma tame_varint: "tame_in pb_decode_varint"
  by (simp add: pb_decode_varint_def tame_varint_loop)

lemma tame_svarint: "tame_in pb_decode_svarint"
  unfolding pb_decode_svarint_def by (intro tame_in_then tame_varint tame_in_return)

lemma eats_svarint: "eats_in pb_decode_svarint"
  unfolding pb_decode_svarint_def by (intro eats_in_then eats_varint tame_varint tame_in_return)

lemma tame_fixed: "tame_in pb_decode_fixed32" "tame_in pb_decode_fixed64"
  unfolding pb_decode_fixed32_def pb_decode_fixed64_def by (intro tame_in_then tame_pb_read tame_in_return)+

lemma eats_fixed: "eats_in pb_decode_fixed32" "eats_in pb_decode_fixed64"
  unfolding pb_decode_fixed32_def pb_decode_fixed64_def
  by (intro eats_in_then eats_read tame_pb_read tame_in_return; simp)+

lemma tame_skip_field: "tame_in (pb_skip_field wire_type)"
  unfolding pb_skip_field_def pb_skip_string_def
  by (auto intro!: tame_skip_varint tame_read_null tame_in_then tame_varint32 tame_in_error)

text \<open>A substream is as good as its stream, and closing it gives the stream back.\<close>

lemma make_substream_exact:
  assumes "exact s" and "pb_make_string_substream s = (Some sub, s')"
  shows "exact sub" and "exact s'" and "unat (is_bytes_left s') < unat (is_bytes_left s)"
proof -
  from assms(2) obtain n s1 where n: "pb_decode_varint32 s = (Some n, s1)"
    and sub: "sub = s1\<lparr>is_bytes_left := ucast n\<rparr>" "s' = s1\<lparr>is_bytes_left := is_bytes_left s1 - ucast n\<rparr>"
    and le: "\<not> is_bytes_left s1 < ucast n"
    by (auto simp: pb_make_string_substream_def in_then_def in_error_def split: prod.splits option.splits if_splits)
  from tame_inD [OF tame_varint32 assms(1) n] have "exact s1" by (rule reads_on_exact)
  with sub show "exact sub" "exact s'" by simp_all
  have "unat (is_bytes_left s1) < unat (is_bytes_left s)"
    using eats_varint32 assms(1) n unfolding eats_in_def by blast
  with sub(2) le show "unat (is_bytes_left s') < unat (is_bytes_left s)"
    by (simp add: unat_sub_if_size word_less_nat_alt)
qed

lemma tame_make_substream: "tame_in pb_make_string_substream"
  unfolding pb_make_string_substream_def
proof (rule tame_in_then [OF tame_varint32])
  show "tame_in (\<lambda>s. if is_bytes_left s < ucast n then in_error ''parent stream too short'' s
      else (Some (s\<lparr>is_bytes_left := ucast n\<rparr>), s\<lparr>is_bytes_left := is_bytes_left s - ucast n\<rparr>))" for n :: u32
    by (auto simp: tame_in_def reads_on_def unat_sub_if_size word_less_nat_alt in_error_def)
qed

lemma close_substream_exact:
  assumes "exact sub" and "exact s"
  shows "reads_on s (snd (pb_close_string_substream sub s))"
proof -
  obtain r sub' where n: "pb_read_null (is_bytes_left sub) sub = (r, sub')"
    by (cases "pb_read_null (is_bytes_left sub) sub")
  have "exact sub'" using tame_inD [OF tame_read_null assms(1) n] by (rule reads_on_exact)
  with assms n show ?thesis
    by (auto simp: pb_close_string_substream_def reads_on_def exact_def split: option.split)
qed

lemma tame_close_substream: "exact sub \<Longrightarrow> tame_in (pb_close_string_substream sub)"
  using close_substream_exact unfolding tame_in_def by blast

section \<open>Steps and decoders that stay in a region\<close>

definition span :: "u64 \<Rightarrow> nat \<Rightarrow> u64 set" where
  "span p n = {q. unat (q - p) < n}"

definition put_in :: "u64 set \<Rightarrow> (memory \<Rightarrow> memory) \<Rightarrow> bool" where
  "put_in R f \<longleftrightarrow> (\<forall>mem q. q \<notin> R \<longrightarrow> f mem q = mem q)"

definition within :: "u64 set \<Rightarrow> pb_world \<Rightarrow> pb_world \<Rightarrow> bool" where
  "within R w w' \<longleftrightarrow> (\<forall>q. q \<notin> R \<longrightarrow> w_memory w' q = w_memory w q) \<and> w_blocks w' = w_blocks w"

definition step_tame :: "u64 set \<Rightarrow> w_step \<Rightarrow> bool" where
  "step_tame R f \<longleftrightarrow> (\<forall>w. \<exists>w'. f w = Some w' \<and> within R w w')"

definition dec_tame :: "u64 set \<Rightarrow> 's pb_dec \<Rightarrow> bool" where
  "dec_tame R m \<longleftrightarrow> (\<forall>w s. exact s \<longrightarrow> (\<exists>ok w' s'. m w s = Some (ok, w', s') \<and> within R w w' \<and> reads_on s s'))"

definition dec_eats :: "'s pb_dec \<Rightarrow> bool" where
  "dec_eats m \<longleftrightarrow> (\<forall>w s w' s'. exact s \<longrightarrow> m w s = Some (True, w', s') \<longrightarrow>
     unat (is_bytes_left s') < unat (is_bytes_left s))"

lemma span_offset: "unat off + k \<le> n \<Longrightarrow> span (p + off) k \<subseteq> span p n"
proof
  fix q
  assume le: "unat off + k \<le> n" and "q \<in> span (p + off) k"
  then have "unat (q - (p + off)) < k" by (simp add: span_def)
  moreover have "unat (q - p) = unat (q - (p + off) + off)" by (simp add: algebra_simps)
  moreover have "unat (a + b) \<le> unat a + unat b" for a b :: u64 by (simp add: unat_word_ariths)
  from this [of "q - (p + off)" off]
  have "unat (q - (p + off) + off) \<le> unat (q - (p + off)) + unat off" .
  ultimately show "q \<in> span p n" using le by (simp add: span_def)
qed

lemma span_mono: "k \<le> n \<Longrightarrow> span p k \<subseteq> span p n"
  using span_offset [of 0 k n p] by simp

lemma put_in_store: "span p (length bs) \<subseteq> R \<Longrightarrow> put_in R (store_bytes p bs)"
  by (auto simp: put_in_def span_def store_bytes_def)

lemma put_in_store_le: "length bs \<le> n \<Longrightarrow> span p n \<subseteq> R \<Longrightarrow> put_in R (store_bytes p bs)"
  using span_mono [of "length bs" n p] by (intro put_in_store) simp

lemma put_in_fixed:
  "span p 2 \<subseteq> R \<Longrightarrow> put_in R (store16 p v2)"
  "span p 4 \<subseteq> R \<Longrightarrow> put_in R (store32 p v4)"
  "span p 8 \<subseteq> R \<Longrightarrow> put_in R (store64 p v8)"
  using put_in_store [of p "[ucast v2, ucast (drop_bit 8 v2)]" R]
  by (simp_all add: store16_def store32_def store64_def put_in_store numeral_2_eq_2)

lemma put_in_mem: "(\<And>mem. put_in R (f mem)) \<Longrightarrow> put_in R (\<lambda>mem. f mem mem)"
  by (simp add: put_in_def)

lemma within_refl [simp]: "within R w w"
  by (simp add: within_def)

lemma within_trans: "within R w w1 \<Longrightarrow> within R w1 w2 \<Longrightarrow> within R w w2"
  by (simp add: within_def)

lemma within_mono: "within R w w' \<Longrightarrow> R \<subseteq> R' \<Longrightarrow> within R' w w'"
  by (auto simp: within_def)

lemma within_put: "put_in R f \<Longrightarrow> within R w (w\<lparr>w_memory := f (w_memory w)\<rparr>)"
  by (simp add: within_def put_in_def)

subsection \<open>Rules for steps\<close>

lemma step_tame_put: "put_in R f \<Longrightarrow> step_tame R (w_put f)"
  by (simp add: step_tame_def w_put_def within_put)

lemma step_tame_skip: "step_tame R w_skip"
  by (simp add: step_tame_def w_skip_def)

lemma step_tame_then: "step_tame R f \<Longrightarrow> step_tame R g \<Longrightarrow> step_tame R (w_then_step f g)"
  unfolding step_tame_def
proof (intro allI)
  fix w
  assume f: "\<forall>w. \<exists>w'. f w = Some w' \<and> within R w w'" and g: "\<forall>w. \<exists>w'. g w = Some w' \<and> within R w w'"
  from f obtain w1 where w1: "f w = Some w1" "within R w w1" by blast
  from g obtain w2 where "g w1 = Some w2" "within R w1 w2" by blast
  with w1 within_trans [of R w w1 w2] show "\<exists>w'. w_then_step f g w = Some w' \<and> within R w w'"
    by (simp add: w_then_step_def)
qed

lemma step_tame_mono: "step_tame R f \<Longrightarrow> R \<subseteq> R' \<Longrightarrow> step_tame R' f"
  unfolding step_tame_def by (blast intro: within_mono)

lemma step_tame_mem: "(\<And>mem. step_tame R (f mem)) \<Longrightarrow> step_tame R (\<lambda>w. f (w_memory w) w)"
  by (simp add: step_tame_def)

subsection \<open>Rules for decoders\<close>

lemma dec_tameD:
  assumes "dec_tame R m" and "exact s"
  obtains ok w' s' where "m w s = Some (ok, w', s')" and "within R w w'" and "reads_on s s'"
  using assms unfolding dec_tame_def by blast

lemma dec_tame_mono: "dec_tame R m \<Longrightarrow> R \<subseteq> R' \<Longrightarrow> dec_tame R' m"
  unfolding dec_tame_def by (meson within_mono)

lemma dec_tame_ok: "dec_tame R dec_ok"
  by (auto simp: dec_tame_def dec_ok_def)

lemma dec_tame_error: "dec_tame R (dec_error msg)"
  by (auto simp: dec_tame_def dec_error_def reads_on_def)

lemma dec_tame_step: "step_tame R f \<Longrightarrow> dec_tame R (dec_step f)"
  by (fastforce simp: step_tame_def dec_tame_def dec_step_def)

lemma dec_tame_put: "put_in R f \<Longrightarrow> dec_tame R (dec_put f)"
  unfolding dec_put_def by (intro dec_tame_step step_tame_put)

lemma dec_tame_then:
  assumes "dec_tame R f" and "dec_tame R g"
  shows "dec_tame R (dec_then f g)"
  unfolding dec_tame_def
proof (intro allI impI)
  fix w and s :: "'a pb_istream"
  assume s: "exact s"
  obtain ok w1 s1 where f: "f w s = Some (ok, w1, s1)" "within R w w1" "reads_on s s1"
    by (rule dec_tameD [OF assms(1) s])
  obtain ok' w2 s2 where g: "g w1 s1 = Some (ok', w2, s2)" "within R w1 w2" "reads_on s1 s2"
    by (rule dec_tameD [OF assms(2) reads_on_exact [OF f(3)]])
  show "\<exists>ok w' s'. dec_then f g w s = Some (ok, w', s') \<and> within R w w' \<and> reads_on s s'"
    using f g within_trans [OF f(2) g(2)] reads_on_trans [OF f(3) g(3)]
    by (cases ok) (auto simp: dec_then_def)
qed

lemma dec_tame_in_info:
  assumes "tame_in get" and "\<And>s x s'. exact s \<Longrightarrow> get s = (Some x, s') \<Longrightarrow> P x" and "\<And>x. P x \<Longrightarrow> dec_tame R (f x)"
  shows "dec_tame R (dec_in get f)"
  unfolding dec_tame_def
proof (intro allI impI)
  fix w and s :: "'a pb_istream"
  assume s: "exact s"
  obtain r s1 where get: "get s = (r, s1)" by (cases "get s")
  note s1 = tame_inD [OF assms(1) s get]
  show "\<exists>ok w' s'. dec_in get f w s = Some (ok, w', s') \<and> within R w w' \<and> reads_on s s'"
  proof (cases r)
    case None
    with get s1 show ?thesis by (auto simp: dec_in_def)
  next
    case (Some x)
    obtain ok w2 s2 where "f x w s1 = Some (ok, w2, s2)" "within R w w2" "reads_on s1 s2"
      by (rule dec_tameD [OF assms(3) [OF assms(2) [OF s get [unfolded Some]]] reads_on_exact [OF s1]])
    with get Some reads_on_trans [OF s1] show ?thesis by (auto simp: dec_in_def)
  qed
qed

lemma dec_tame_in: "tame_in get \<Longrightarrow> (\<And>x. dec_tame R (f x)) \<Longrightarrow> dec_tame R (dec_in get f)"
  by (rule dec_tame_in_info [where P = "\<lambda>_. True"]) simp_all

lemma dec_tame_mem: "(\<And>mem. dec_tame R (f mem)) \<Longrightarrow> dec_tame R (dec_mem f)"
  by (simp add: dec_tame_def dec_mem_def)

lemma dec_tame_at: "(\<And>w s. dec_tame R (f w s)) \<Longrightarrow> dec_tame R (\<lambda>w s. f w s w s)"
  by (simp add: dec_tame_def)

lemma dec_tame_read:
  assumes "\<And>bs. length bs \<le> unat n \<Longrightarrow> dec_tame R (f bs)"
  shows "dec_tame R (dec_in (pb_read n) f)"
  by (rule dec_tame_in_info [OF tame_pb_read pb_read_reads_on(2) assms]) auto

text \<open>A store whatever the decoder before it returned.\<close>

lemma dec_tame_after:
  assumes "dec_tame R m" and "put_in R f"
  shows "dec_tame R (\<lambda>w s. case m w s of None \<Rightarrow> None
    | Some (status, w', s') \<Rightarrow> Some (status, w'\<lparr>w_memory := f (w_memory w')\<rparr>, s'))"
  unfolding dec_tame_def
proof (intro allI impI)
  fix w and s :: "'a pb_istream"
  assume s: "exact s"
  obtain ok w1 s1 where m: "m w s = Some (ok, w1, s1)" "within R w w1" "reads_on s s1"
    by (rule dec_tameD [OF assms(1) s])
  from within_trans [OF m(2) within_put [OF assms(2)]] m
  show "\<exists>ok w' s'. (case m w s of None \<Rightarrow> None
      | Some (status, w', s') \<Rightarrow> Some (status, w'\<lparr>w_memory := f (w_memory w')\<rparr>, s')) = Some (ok, w', s') \<and>
    within R w w' \<and> reads_on s s'"
    by auto
qed

text \<open>The use of a substream, and what is done with the outer stream after it.\<close>

lemma dec_tame_substream:
  assumes "dec_tame R m"
    and "\<And>status sub. exact sub \<Longrightarrow> dec_tame R (after status sub)"
  shows "dec_tame R (dec_in pb_make_string_substream (\<lambda>sub w s.
    case m w sub of None \<Rightarrow> None | Some (status, w', sub') \<Rightarrow> after status sub' w' s))"
proof (rule dec_tame_in_info [OF tame_make_substream make_substream_exact(1)])
  fix sub :: "'a pb_istream"
  assume sub: "exact sub"
  show "dec_tame R (\<lambda>w s. case m w sub of None \<Rightarrow> None | Some (status, w', sub') \<Rightarrow> after status sub' w' s)"
    unfolding dec_tame_def
  proof (intro allI impI)
    fix w and s :: "'a pb_istream"
    assume s: "exact s"
    obtain ok w1 sub1 where m: "m w sub = Some (ok, w1, sub1)" "within R w w1" "reads_on sub sub1"
      by (rule dec_tameD [OF assms(1) sub])
    obtain ok' w2 s2 where after: "after ok sub1 w1 s = Some (ok', w2, s2)" "within R w1 w2" "reads_on s s2"
      by (rule dec_tameD [OF assms(2) [OF reads_on_exact [OF m(3)]] s])
    have "(case m w sub of None \<Rightarrow> None | Some (status, w', sub') \<Rightarrow> after status sub' w' s) = Some (ok', w2, s2)"
      by (simp add: m(1) after(1))
    with within_trans [OF m(2) after(2)] after(3) show "\<exists>ok w' s'. (case m w sub of None \<Rightarrow> None
        | Some (status, w', sub') \<Rightarrow> after status sub' w' s) = Some (ok, w', s') \<and> within R w w' \<and> reads_on s s'"
      by blast
  qed
qed auto

lemma dec_tame_status: "dec_tame R (\<lambda>w s. Some (status, w, s))"
  by (simp add: dec_tame_def)

lemma dec_tame_close: "exact sub \<Longrightarrow> dec_tame R (dec_in (pb_close_string_substream sub) (\<lambda>_ w s. Some (status, w, s)))"
  by (intro dec_tame_in tame_close_substream dec_tame_status)

lemma with_substream_tame: "dec_tame R m \<Longrightarrow> dec_tame R (with_substream m)"
  unfolding with_substream_def by (intro dec_tame_substream dec_tame_close)

subsection \<open>Progress\<close>

lemma dec_eats_in: "eats_in get \<Longrightarrow> tame_in get \<Longrightarrow> (\<And>x. dec_tame UNIV (f x)) \<Longrightarrow> dec_eats (dec_in get f)"
  unfolding dec_eats_def
proof (intro allI impI)
  fix w s w' and s' :: "'a pb_istream"
  assume e: "eats_in get" "tame_in get" and f: "\<And>x. dec_tame UNIV (f x)" and s: "exact s"
    and ok: "dec_in get f w s = Some (True, w', s')"
  obtain r s1 where get: "get s = (r, s1)" by (cases "get s")
  with ok obtain x where r: "r = Some x" "f x w s1 = Some (True, w', s')"
    by (cases r) (simp_all add: dec_in_def)
  from e(1) s get r(1) have "unat (is_bytes_left s1) < unat (is_bytes_left s)"
    unfolding eats_in_def by blast
  moreover obtain ok' w2 s2 where "f x w s1 = Some (ok', w2, s2)" "reads_on s1 s2"
    by (rule dec_tameD [OF f reads_on_exact [OF tame_inD [OF e(2) s get]]])
  ultimately show "unat (is_bytes_left s') < unat (is_bytes_left s)"
    using r(2) by (simp add: reads_on_def)
qed

lemma dec_tame_if: "(c \<Longrightarrow> dec_tame R a) \<Longrightarrow> (\<not> c \<Longrightarrow> dec_tame R b) \<Longrightarrow> dec_tame R (if c then a else b)"
  by simp

lemmas tame_rules = dec_tame_in dec_tame_then dec_tame_put dec_tame_error dec_tame_ok dec_tame_if
  put_in_fixed tame_varint tame_svarint tame_varint32 tame_fixed

end
