(* ===== verification/Pb_Static.thy ===== *)
theory Pb_Static
  imports Pb_Tame
begin

text \<open>
  The decoder of nanopb on message types whose fields are all allocated statically (no pointers,
  callbacks or extensions): every field decoder, the defaults and the release stay in the struct.
\<close>

section \<open>Values\<close>

lemma check_clamped_tame: "dec_tame R (check_clamped stored v)"
  by (simp add: check_clamped_def dec_tame_error dec_tame_ok)

text \<open>A field is large enough for what its type stores without looking at the size.\<close>

definition value_fits :: "pb_field \<Rightarrow> bool" where
  "value_fits field \<longleftrightarrow>
     (if ltype field = PB_LTYPE_BOOL then 1 \<le> fd_data_size field
      else if ltype field = PB_LTYPE_FIXED32 then 4 \<le> fd_data_size field
      else if ltype field = PB_LTYPE_FIXED64 then 8 \<le> fd_data_size field
      else ltype field \<noteq> PB_LTYPE_EXTENSION \<and> ltype field \<le> PB_LTYPE_FIXED_LENGTH_BYTES)"

lemma varints_tame:
  assumes "span dest (unat (fd_data_size field)) \<subseteq> R"
  shows "dec_tame R (pb_dec_varint field dest)" and "dec_tame R (pb_dec_uvarint field dest)"
    and "dec_tame R (pb_dec_svarint field dest)"
proof -
  have "fd_data_size field = 8 \<Longrightarrow> span dest 8 \<subseteq> R" "fd_data_size field = 4 \<Longrightarrow> span dest 4 \<subseteq> R"
    "fd_data_size field = 2 \<Longrightarrow> span dest 2 \<subseteq> R" "fd_data_size field = 1 \<Longrightarrow> span dest (length [b]) \<subseteq> R" for b :: u8
    using assms by simp_all
  note spans = this
  show "dec_tame R (pb_dec_varint field dest)" "dec_tame R (pb_dec_uvarint field dest)"
    "dec_tame R (pb_dec_svarint field dest)"
    unfolding pb_dec_varint_def pb_dec_uvarint_def pb_dec_svarint_def Let_def
    by (intro tame_rules check_clamped_tame put_in_store; use spans in simp)+
qed

lemma fixed_tame:
  "span dest 1 \<subseteq> R \<Longrightarrow> dec_tame R (pb_dec_bool field dest)"
  "span dest 4 \<subseteq> R \<Longrightarrow> dec_tame R (pb_dec_fixed32 field dest)"
  "span dest 8 \<subseteq> R \<Longrightarrow> dec_tame R (pb_dec_fixed64 field dest)"
  unfolding pb_dec_bool_def pb_dec_fixed32_def pb_dec_fixed64_def
  by (intro tame_rules put_in_store; simp)+

lemma bytes_tame:
  assumes "span dest (unat (fd_data_size field)) \<subseteq> R" and "atype field = PB_ATYPE_STATIC"
  shows "dec_tame R (pb_dec_bytes de field dest)"
proof -
  have a: "\<not> atype field = PB_ATYPE_POINTER" using assms(2) by (simp add: pb_consts)
  have fin: "dec_tame R (dec_then (dec_put (store32 dest n))
      (dec_in (pb_read (ucast n)) (\<lambda>bs. dec_put (store_bytes (dest + 4) bs))))"
    if n: "\<not> ucast (fd_data_size field) < (ucast n + 4 :: size_t)" "\<not> (ucast n + 4 :: size_t) < ucast n" for n :: u32
  proof -
    have "unat (ucast n + 4 :: size_t) = unat n + 4"
      using unat_less_32 [of n] by (simp add: unat_word_ariths)
    with n(1) have le: "unat n + 4 \<le> unat (fd_data_size field)" by (simp add: word_less_nat_alt)
    have "span dest 4 \<subseteq> R" "span (dest + 4) (unat n) \<subseteq> R"
      using le span_mono [of 4 "unat (fd_data_size field)" dest] span_offset [of 4 "unat n" "unat (fd_data_size field)" dest] assms(1)
      by auto
    then show ?thesis
      by (intro dec_tame_then dec_tame_put put_in_fixed dec_tame_read) (simp_all add: put_in_store_le)
  qed
  show ?thesis
    unfolding pb_dec_bytes_def Let_def if_not_P [OF a]
    by (intro dec_tame_in tame_varint32 dec_tame_if dec_tame_error fin)
qed

lemma string_tame:
  assumes "span dest (unat (fd_data_size field)) \<subseteq> R" and "atype field = PB_ATYPE_STATIC"
  shows "dec_tame R (pb_dec_string de field dest)"
proof -
  have a: "\<not> atype field = PB_ATYPE_POINTER" using assms(2) by (simp add: pb_consts)
  have fin: "dec_tame R (\<lambda>w s. case dec_in (pb_read (ucast n)) (\<lambda>bs. dec_put (store_bytes dest bs)) w s of
        None \<Rightarrow> None
      | Some (status, w', s') \<Rightarrow>
          Some (status, w'\<lparr>w_memory := store_bytes (dest + ucast n) [0] (w_memory w')\<rparr>, s'))"
    if n: "\<not> ucast (fd_data_size field) < (ucast (n + 1) :: size_t)" "\<not> (ucast (n + 1) :: size_t) < ucast n" for n :: u32
  proof -
    have "unat (n + 1) = unat n + 1"
      using n(2) by (auto simp: word_less_nat_alt unat_word_ariths mod_Suc split: if_splits)
    with n(1) have le: "unat n + 1 \<le> unat (fd_data_size field)" by (simp add: word_less_nat_alt)
    have sub: "span dest (unat n) \<subseteq> R" "span (dest + ucast n) 1 \<subseteq> R"
      using le span_mono [of "unat n" "unat (fd_data_size field)" dest]
        span_offset [of "ucast n" 1 "unat (fd_data_size field)" dest] assms(1)
      by auto
    have read: "dec_tame R (dec_in (pb_read (ucast n)) (\<lambda>bs. dec_put (store_bytes dest bs)))"
      using put_in_store_le [OF _ sub(1)] by (intro dec_tame_read dec_tame_put) simp
    have put: "put_in R (store_bytes (dest + ucast n) [0])" using sub(2) by (intro put_in_store) simp
    show ?thesis by (rule dec_tame_after [OF read put])
  qed
  show ?thesis
    unfolding pb_dec_string_def Let_def if_not_P [OF a]
    by (intro dec_tame_in tame_varint32 dec_tame_if dec_tame_error fin)
qed

lemma fixed_length_bytes_tame:
  assumes "span dest (unat (fd_data_size field)) \<subseteq> R"
  shows "dec_tame R (pb_dec_fixed_length_bytes field dest)"
  unfolding pb_dec_fixed_length_bytes_def using assms
  by (intro tame_rules dec_tame_read put_in_store_le [where n = "unat (fd_data_size field)"]) simp_all

lemma ltype_cases:
  "x \<le> PB_LTYPE_FIXED_LENGTH_BYTES \<Longrightarrow> x \<in> {PB_LTYPE_BOOL, PB_LTYPE_VARINT, PB_LTYPE_UVARINT, PB_LTYPE_SVARINT,
     PB_LTYPE_FIXED32, PB_LTYPE_FIXED64, PB_LTYPE_BYTES, PB_LTYPE_STRING, PB_LTYPE_SUBMESSAGE, PB_LTYPE_EXTENSION,
     PB_LTYPE_FIXED_LENGTH_BYTES}"
  "x \<le> PB_LTYPE_LAST_PACKABLE \<Longrightarrow> x \<in> {PB_LTYPE_BOOL, PB_LTYPE_VARINT, PB_LTYPE_UVARINT, PB_LTYPE_SVARINT,
     PB_LTYPE_FIXED32, PB_LTYPE_FIXED64}"
  by (simp_all add: pb_consts word_le_nat_alt word_unat_eq_iff) arith+

lemma decoder_simps:
  "PB_DECODERS de sub PB_LTYPE_BOOL = pb_dec_bool" "PB_DECODERS de sub PB_LTYPE_VARINT = pb_dec_varint"
  "PB_DECODERS de sub PB_LTYPE_UVARINT = pb_dec_uvarint" "PB_DECODERS de sub PB_LTYPE_SVARINT = pb_dec_svarint"
  "PB_DECODERS de sub PB_LTYPE_FIXED32 = pb_dec_fixed32" "PB_DECODERS de sub PB_LTYPE_FIXED64 = pb_dec_fixed64"
  "PB_DECODERS de sub PB_LTYPE_BYTES = pb_dec_bytes de" "PB_DECODERS de sub PB_LTYPE_STRING = pb_dec_string de"
  "PB_DECODERS de sub PB_LTYPE_SUBMESSAGE = pb_dec_submessage sub"
  "PB_DECODERS de sub PB_LTYPE_FIXED_LENGTH_BYTES = pb_dec_fixed_length_bytes"
  by (intro ext; simp add: PB_DECODERS_def pb_consts)+

lemma decoders_tame:
  assumes R: "span dest (unat (fd_data_size field)) \<subseteq> R" and "atype field = PB_ATYPE_STATIC"
    and fits: "value_fits field"
    and "\<And>noinit. ltype field = PB_LTYPE_SUBMESSAGE \<Longrightarrow> dec_tame R (sub noinit (fd_ptr field) dest)"
  shows "dec_tame R (PB_DECODERS de sub (ltype field) field dest)"
proof -
  have small: "span dest n \<subseteq> R" if "n \<le> unat (fd_data_size field)" for n
    using span_mono [OF that] R by blast
  have 1: "ltype field = PB_LTYPE_BOOL \<Longrightarrow> span dest 1 \<subseteq> R"
    and 4: "ltype field = PB_LTYPE_FIXED32 \<Longrightarrow> span dest 4 \<subseteq> R"
    and 8: "ltype field = PB_LTYPE_FIXED64 \<Longrightarrow> span dest 8 \<subseteq> R"
    using fits by (auto intro!: small simp: value_fits_def pb_consts word_le_nat_alt)
  have "ltype field \<le> PB_LTYPE_FIXED_LENGTH_BYTES" "ltype field \<noteq> PB_LTYPE_EXTENSION"
    using fits by (auto simp: value_fits_def pb_consts split: if_splits)
  note known = ltype_cases(1) [OF this(1)] this(2)
  have sub: "ltype field = PB_LTYPE_SUBMESSAGE \<Longrightarrow> dec_tame R (pb_dec_submessage sub field dest)"
    unfolding pb_dec_submessage_def
    by (intro dec_tame_if dec_tame_in tame_make_substream dec_tame_error with_substream_tame assms(4))
  show ?thesis
    using known
    by (elim insertE emptyE)
      (simp_all add: decoder_simps varints_tame [OF R] bytes_tame [OF R assms(2)] string_tame [OF R assms(2)]
        fixed_length_bytes_tame [OF R] fixed_tame(1) [OF 1] fixed_tame(2) [OF 4] fixed_tame(3) [OF 8] sub
        del: One_nat_def)
qed

text \<open>The items of a packed array take at least a byte each.\<close>

lemma eats_value:
  assumes "ltype field \<le> PB_LTYPE_LAST_PACKABLE"
  shows "dec_eats (PB_DECODERS de sub (ltype field) field dest)"
proof -
  have "dec_eats (pb_dec_bool field dest)" "dec_eats (pb_dec_varint field dest)"
    "dec_eats (pb_dec_uvarint field dest)" "dec_eats (pb_dec_svarint field dest)"
    "dec_eats (pb_dec_fixed32 field dest)" "dec_eats (pb_dec_fixed64 field dest)"
    unfolding pb_dec_bool_def pb_dec_varint_def pb_dec_uvarint_def pb_dec_svarint_def
      pb_dec_fixed32_def pb_dec_fixed64_def Let_def
    by (intro dec_eats_in eats_varint32 eats_varint eats_svarint eats_fixed tame_rules check_clamped_tame
        put_in_store; simp)+
  with ltype_cases(2) [OF assms] show ?thesis by (elim insertE emptyE) (simp_all add: decoder_simps)
qed

section \<open>Static fields\<close>

definition extent :: "pb_field \<Rightarrow> nat" where
  "extent field = unat (fd_data_size field) * (if htype field = PB_HTYPE_REPEATED then unat (fd_array_size field) else 1)"

text \<open>
  The iterator is at a static field whose data, and whose flag or count if it has one, lie in a region.
\<close>

definition field_in :: "u64 set \<Rightarrow> pb_field_iter \<Rightarrow> bool" where
  "field_in R it \<longleftrightarrow>
     (let field = it_field it in
      atype field = PB_ATYPE_STATIC \<and> value_fits field \<and> extent field < 2 ^ 32 \<and>
      span (it_pData it) (extent field) \<subseteq> R \<and>
      (htype field = PB_HTYPE_OPTIONAL \<and> it_pSize it \<noteq> it_pData it \<longrightarrow> span (it_pSize it) 1 \<subseteq> R) \<and>
      (htype field = PB_HTYPE_REPEATED \<or> htype field = PB_HTYPE_ONEOF \<longrightarrow> span (it_pSize it) 4 \<subseteq> R))"

lemma item_in:
  assumes "field_in R it" and "htype (it_field it) = PB_HTYPE_REPEATED" and "k < fd_array_size (it_field it)"
  shows "span (item_place (it_pData it) (it_field it) k) (unat (fd_data_size (it_field it))) \<subseteq> R"
proof -
  let ?f = "it_field it" and ?n = "unat (fd_data_size (it_field it))"
  have ext: "extent ?f = ?n * unat (fd_array_size ?f)" "extent ?f < 2 ^ 32" "span (it_pData it) (extent ?f) \<subseteq> R"
    using assms(1,2) by (simp_all add: field_in_def Let_def extent_def)
  have k: "unat k < unat (fd_array_size ?f)" using assms(3) by (simp add: word_less_nat_alt)
  then have "?n * Suc (unat k) \<le> ?n * unat (fd_array_size ?f)" by (intro mult_le_mono) simp_all
  then have le: "?n * unat k + ?n \<le> extent ?f" by (simp add: ext(1))
  with ext(2) have "unat (fd_data_size ?f * k) = ?n * unat k" by (simp add: unat_word_ariths)
  with le have "span (item_place (it_pData it) ?f k) ?n \<subseteq> span (it_pData it) (extent ?f)"
    unfolding item_place_def by (intro span_offset) simp
  with ext(3) show ?thesis by blast
qed

lemma dec_eatsD: "dec_eats m \<Longrightarrow> exact s \<Longrightarrow> m w s = Some (True, w', s') \<Longrightarrow>
    unat (is_bytes_left s') < unat (is_bytes_left s)"
  unfolding dec_eats_def by blast

lemma if_app: "(if c then a else b) w s = (if c then a w s else b w s)"
  by simp

lemma packed_static_returns:
  assumes count: "span (it_pSize it) 4 \<subseteq> R"
    and item: "\<And>k. k < fd_array_size (it_field it) \<Longrightarrow> dec_tame R (func (item_place (it_pData it) (it_field it) k))"
    and eats: "\<And>p. dec_eats (func p)"
    and "exact s" and "unat (is_bytes_left s) < n"
  shows "\<exists>ok w' s'. packed_static n func it w s = Some (ok, w', s') \<and> within R w w' \<and> reads_on s s'"
  using assms(4,5)
proof (induction n arbitrary: w s)
  case (Suc n)
  let ?k = "load32 (w_memory w) (it_pSize it)"
  let ?up = "\<lambda>mem. store32 (it_pSize it) (load32 mem (it_pSize it) + 1) mem"
  show ?case
  proof (cases "0 < is_bytes_left s \<and> ?k < fd_array_size (it_field it)")
    case False
    with Suc.prems show ?thesis by (auto simp: dec_ok_def)
  next
    case True
    obtain ok w1 s1 where m: "func (item_place (it_pData it) (it_field it) ?k) w s = Some (ok, w1, s1)"
        "within R w w1" "reads_on s s1"
      using dec_tameD [OF item [of ?k] Suc.prems(1)] True by blast
    show ?thesis
    proof (cases ok)
      case False
      with True m show ?thesis by (auto simp: dec_then_def)
    next
      case ok: True
      then have ok_True: "ok = True" by simp
      let ?w = "w1\<lparr>w_memory := ?up (w_memory w1)\<rparr>"
      have "unat (is_bytes_left s1) < unat (is_bytes_left s)"
        by (rule dec_eatsD [OF eats Suc.prems(1) m(1) [unfolded ok_True]])
      then obtain ok' w' s' where rest: "packed_static n func it ?w s1 = Some (ok', w', s')" "within R ?w w'"
          "reads_on s1 s'"
        using Suc.IH [OF reads_on_exact [OF m(3)], of ?w] Suc.prems(2) by auto
      have "put_in R ?up" using put_in_fixed(2) [OF count] unfolding put_in_def by simp
      from within_trans [OF within_trans [OF m(2) within_put [OF this]] rest(2)] have "within R w w'" .
      with reads_on_trans [OF m(3) rest(3)] show ?thesis
        by (simp add: True m(1) ok rest(1) dec_then_def dec_put_def dec_step_def w_put_def)
    qed
  qed
qed simp

lemma dec_tame_bounded:
  assumes "\<And>w s. exact s \<Longrightarrow> \<exists>ok w' s'. m w s = Some (ok, w', s') \<and> within R w w' \<and> reads_on s s'"
  shows "dec_tame R m"
  using assms by (simp add: dec_tame_def)

lemma static_field_tame:
  assumes it: "field_in R it"
    and sub: "\<And>noinit dest. ltype (it_field it) = PB_LTYPE_SUBMESSAGE \<Longrightarrow>
      span dest (unat (fd_data_size (it_field it))) \<subseteq> R \<Longrightarrow> dec_tame R (sub noinit (fd_ptr (it_field it)) dest)"
    and init: "ltype (it_field it) = PB_LTYPE_SUBMESSAGE \<Longrightarrow>
      span (it_pData it) (unat (fd_data_size (it_field it))) \<subseteq> R \<Longrightarrow>
      step_tame R (pb_message_set_to_defaults d de (fd_ptr (it_field it)) (it_pData it))"
  shows "dec_tame R (decode_static_field d de sub wire_type it)"
proof -
  let ?f = "it_field it"
  let ?func = "PB_DECODERS de sub (ltype ?f) ?f"
  have f: "atype ?f = PB_ATYPE_STATIC" "value_fits ?f" and R: "span (it_pData it) (extent ?f) \<subseteq> R"
    using it by (simp_all add: field_in_def Let_def)
  have func: "dec_tame R (?func p)" if "span p (unat (fd_data_size ?f)) \<subseteq> R" for p
    using that f by (intro decoders_tame sub)
  have one: "span (it_pData it) (unat (fd_data_size ?f)) \<subseteq> R" if "htype ?f \<noteq> PB_HTYPE_REPEATED"
    using R that by (simp add: extent_def)
  have has: "htype ?f = PB_HTYPE_OPTIONAL \<Longrightarrow> it_pSize it \<noteq> it_pData it \<Longrightarrow> put_in R (store_bytes (it_pSize it) [1])"
    using it put_in_store [of "it_pSize it" "[1]" R] by (simp add: field_in_def Let_def)
  have count: "htype ?f = PB_HTYPE_REPEATED \<or> htype ?f = PB_HTYPE_ONEOF \<Longrightarrow> span (it_pSize it) 4 \<subseteq> R"
    using it by (auto simp: field_in_def Let_def)
  have zero: "htype ?f \<noteq> PB_HTYPE_REPEATED \<Longrightarrow>
      put_in R (store_bytes (it_pData it) (replicate (unat (fd_data_size ?f)) 0))"
    using one by (intro put_in_store) simp
  have packed: "dec_tame R (\<lambda>w substream. packed_static (Suc (unat (is_bytes_left substream))) ?func it w substream)"
    if rep: "htype ?f = PB_HTYPE_REPEATED" and "ltype ?f \<le> PB_LTYPE_LAST_PACKABLE"
    by (intro dec_tame_bounded packed_static_returns count func item_in [OF it rep] eats_value that disjI1) simp_all
  have packed_field: "dec_tame R (dec_in pb_make_string_substream (\<lambda>substream w s.
      case packed_static (Suc (unat (is_bytes_left substream))) ?func it w substream of
        None \<Rightarrow> None
      | Some (status, w', substream') \<Rightarrow>
          if is_bytes_left substream' \<noteq> 0 then dec_error ''array overflow'' w' s
          else dec_in (pb_close_string_substream substream') (\<lambda>_ w s. Some (status, w, s)) w' s))"
    if "htype ?f = PB_HTYPE_REPEATED" and "ltype ?f \<le> PB_LTYPE_LAST_PACKABLE"
  proof -
    have "dec_tame R (if is_bytes_left sub \<noteq> 0 then dec_error ''array overflow''
        else dec_in (pb_close_string_substream sub) (\<lambda>_ w s. Some (status, w, s)))" if "exact sub" for status sub
      using that by (intro dec_tame_if dec_tame_error dec_tame_close)
    from dec_tame_substream [OF packed [OF that] this] show ?thesis unfolding if_app .
  qed
  show ?thesis
    unfolding decode_static_field_def Let_def
    by (intro dec_tame_if dec_tame_then dec_tame_put dec_tame_ok dec_tame_error dec_tame_mem packed_field func one
        has zero put_in_fixed count dec_tame_step init item_in [OF it]) (use htype_oneof [of ?f] in \<open>auto simp: pb_consts not_le\<close>)
qed

section \<open>Message types\<close>

text \<open>
  A set \<open>T\<close> of message types, given by the addresses of their descriptors, with the size of their
  structs: every field is allocated statically and lies in the struct with its flag or count, and
  submessages are of types of the set of lower rank.
\<close>

definition static_field :: "u64 set \<Rightarrow> (u64 \<Rightarrow> nat) \<Rightarrow> (u64 \<Rightarrow> nat) \<Rightarrow> u64 \<Rightarrow> pb_field_iter \<Rightarrow> bool" where
  "static_field T size_of rank a it =
     (let field = it_field it in
      atype field = PB_ATYPE_STATIC \<and> value_fits field \<and> extent field < 2 ^ 32 \<and>
      unat (it_pData it) + extent field \<le> size_of a \<and>
      (htype field = PB_HTYPE_OPTIONAL \<and> it_pSize it \<noteq> it_pData it \<longrightarrow> unat (it_pSize it) + 1 \<le> size_of a) \<and>
      (htype field = PB_HTYPE_REPEATED \<or> htype field = PB_HTYPE_ONEOF \<longrightarrow> unat (it_pSize it) + 4 \<le> size_of a) \<and>
      (ltype field = PB_LTYPE_SUBMESSAGE \<longrightarrow>
         fd_ptr field \<in> T \<and> rank (fd_ptr field) < rank a \<and> size_of (fd_ptr field) \<le> unat (fd_data_size field)))"

definition static_types :: "'s pb_decoder \<Rightarrow> u64 set \<Rightarrow> (u64 \<Rightarrow> nat) \<Rightarrow> (u64 \<Rightarrow> nat) \<Rightarrow> bool" where
  "static_types de T size_of rank \<longleftrightarrow>
     (\<forall>a\<in>T. let fs = fields_at de a; n = n_fields fs in
        0 < n \<and> (\<forall>i\<in>set [0..<n]. static_field T size_of rank a (iter_at fs 0 i)))"

lemma iter_shift:
  "it_pos (iter_at fs dest i) = it_pos (iter_at fs 0 i) \<and>
   it_pData (iter_at fs dest i) = dest + it_pData (iter_at fs 0 i) \<and>
   it_pSize (iter_at fs dest i) = dest + it_pSize (iter_at fs 0 i)"
proof (induction i)
  case 0
  show ?case by (simp add: pb_field_iter_begin_def Let_def)
next
  case (Suc i)
  have "it_pData (snd (pb_field_iter_begin fs dest)) = dest + it_pData (snd (pb_field_iter_begin fs 0))"
    "it_pSize (snd (pb_field_iter_begin fs dest)) = dest + it_pSize (snd (pb_field_iter_begin fs 0))"
    by (simp_all add: pb_field_iter_begin_def Let_def)
  with Suc show ?case by (simp add: pb_field_iter_next_def Let_def)
qed

definition it_ok :: "pb_field list \<Rightarrow> u64 \<Rightarrow> u64 \<Rightarrow> pb_field_iter \<Rightarrow> bool" where
  "it_ok fs dest place it \<longleftrightarrow>
     (\<exists>i < n_fields fs. it = iter_at fs dest i \<or>
        htype (field_at fs i) = PB_HTYPE_REPEATED \<and> it = (iter_at fs dest i)\<lparr>it_pSize := place\<rparr>)"

lemma it_okE:
  assumes "it_ok fs dest place it"
  obtains i where "i < n_fields fs" and "it_field it = field_at fs i" and "it_pData it = it_pData (iter_at fs dest i)"
    and "it_pSize it = it_pSize (iter_at fs dest i) \<or> it_pSize it = place \<and> htype (field_at fs i) = PB_HTYPE_REPEATED"
  using assms unfolding it_ok_def by (auto simp: iter_at_pos)

lemma it_ok_at: "i < n_fields fs \<Longrightarrow> it_ok fs dest place (iter_at fs dest i)"
  by (auto simp: it_ok_def)

lemma it_ok_begin: "0 < n_fields fs \<Longrightarrow> it_ok fs dest place (snd (pb_field_iter_begin fs dest))"
  using it_ok_at [of 0 fs dest place] by simp

lemma it_ok_next:
  assumes "it_ok fs dest place it"
  shows "it_ok fs dest place (snd (pb_field_iter_next it))"
proof -
  from assms obtain i where i: "i < n_fields fs"
    and it: "it = iter_at fs dest i \<or>
      htype (field_at fs i) = PB_HTYPE_REPEATED \<and> it = (iter_at fs dest i)\<lparr>it_pSize := place\<rparr>"
    by (auto simp: it_ok_def)
  have "snd (pb_field_iter_next it) = snd (pb_field_iter_next (iter_at fs dest i))"
    using it
  proof
    assume "htype (field_at fs i) = PB_HTYPE_REPEATED \<and> it = (iter_at fs dest i)\<lparr>it_pSize := place\<rparr>"
    then have "htype (field_at fs i) \<noteq> PB_HTYPE_ONEOF" "it = (iter_at fs dest i)\<lparr>it_pSize := place\<rparr>"
      by (auto simp: pb_consts)
    with field_tag [OF i] i show ?thesis by (simp add: pb_field_iter_next_def Let_def iter_at_pos)
  qed simp
  moreover have "Suc i mod n_fields fs < n_fields fs" using i by simp
  ultimately show ?thesis using next_around [OF i] it_ok_at by simp
qed

lemma it_ok_find_loop: "it_ok fs dest place it \<Longrightarrow> it_ok fs dest place (snd (find_loop k found start it))"
  by (induction k arbitrary: it) (simp_all add: it_ok_next Let_def)

lemma it_ok_find: "it_ok fs dest place it \<Longrightarrow> it_ok fs dest place (snd (pb_field_iter_find tag it))"
  unfolding pb_field_iter_find_def by (rule it_ok_find_loop)

lemma find_loop_none:
  assumes "\<And>i. i < n_fields fs \<Longrightarrow> \<not> found (field_at fs i)" and "it_ok fs dest place it"
  shows "\<not> fst (find_loop k found start it)"
  using assms(2)
proof (induction k arbitrary: it)
  case (Suc k)
  obtain i where "i < n_fields fs" "it_field it = field_at fs i" using it_okE [OF Suc.prems] by metis
  with assms(1) Suc.IH [OF it_ok_next [OF Suc.prems]] show ?case by (simp add: Let_def)
qed simp

lemma static_fieldD:
  assumes "static_types de T size_of rank" and "a \<in> T"
  shows "0 < n_fields (fields_at de a)"
    and "i < n_fields (fields_at de a) \<Longrightarrow> static_field T size_of rank a (iter_at (fields_at de a) 0 i)"
  using assms by (auto simp: static_types_def Let_def)

text \<open>At such an iterator the decoder of static fields stays in the struct and the local count.\<close>

lemma field_in_at:
  assumes types: "static_types de T size_of rank" "a \<in> T" and i: "i < n_fields (fields_at de a)"
    and R: "span dest (size_of a) \<subseteq> R"
  shows "field_in R (iter_at (fields_at de a) dest i)"
proof -
  let ?fs = "fields_at de a"
  let ?f = "field_at ?fs i" and ?it = "iter_at ?fs 0 i"
  have in_struct: "span (dest + off) k \<subseteq> R" if "unat off + k \<le> size_of a" for off k
    using span_offset [OF that, of dest] R by blast
  have f: "atype ?f = PB_ATYPE_STATIC" "value_fits ?f" "extent ?f < 2 ^ 32"
    and data: "unat (it_pData ?it) + extent ?f \<le> size_of a"
    and flag: "htype ?f = PB_HTYPE_OPTIONAL \<Longrightarrow> it_pSize ?it \<noteq> it_pData ?it \<Longrightarrow> unat (it_pSize ?it) + 1 \<le> size_of a"
    and count: "htype ?f = PB_HTYPE_REPEATED \<or> htype ?f = PB_HTYPE_ONEOF \<Longrightarrow> unat (it_pSize ?it) + 4 \<le> size_of a"
    using static_fieldD(2) [OF types i] i by (auto simp: static_field_def Let_def iter_at_pos)
  have shift: "it_pData (iter_at ?fs dest i) = dest + it_pData ?it" "it_pSize (iter_at ?fs dest i) = dest + it_pSize ?it"
    using iter_shift [of ?fs dest i] by blast+
  show ?thesis
    using f in_struct [OF data] in_struct [OF flag] in_struct [OF count]
    unfolding field_in_def Let_def field_at_iter [OF i] shift by (intro conjI impI) simp_all
qed

lemma field_in_ok:
  assumes types: "static_types de T size_of rank" "a \<in> T" and it: "it_ok (fields_at de a) dest place it"
    and R: "span dest (size_of a) \<subseteq> R" "span place 4 \<subseteq> R"
  shows "field_in R it"
proof -
  let ?fs = "fields_at de a"
  obtain i where i: "i < n_fields ?fs" and at: "it = iter_at ?fs dest i \<or>
      htype (field_at ?fs i) = PB_HTYPE_REPEATED \<and> it = (iter_at ?fs dest i)\<lparr>it_pSize := place\<rparr>"
    using it by (auto simp: it_ok_def)
  from at show ?thesis
  proof
    assume marked: "htype (field_at ?fs i) = PB_HTYPE_REPEATED \<and> it = (iter_at ?fs dest i)\<lparr>it_pSize := place\<rparr>"
    have "PB_HTYPE_REPEATED \<noteq> PB_HTYPE_OPTIONAL" by (simp add: pb_consts)
    with marked field_in_at [OF types i R(1)] R(2) i show ?thesis
      by (simp add: field_in_def Let_def iter_at_pos)
  qed (simp add: field_in_at [OF types i R(1)])
qed

lemma submessage_ok:
  assumes types: "static_types de T size_of rank" "a \<in> T"
    and it: "it_ok (fields_at de a) dest place it" and "ltype (it_field it) = PB_LTYPE_SUBMESSAGE"
  shows "fd_ptr (it_field it) \<in> T" and "rank (fd_ptr (it_field it)) < rank a"
    and "size_of (fd_ptr (it_field it)) \<le> unat (fd_data_size (it_field it))"
proof -
  let ?fs = "fields_at de a"
  obtain i where i: "i < n_fields ?fs" "it_field it = field_at ?fs i" by (rule it_okE [OF it])
  show "fd_ptr (it_field it) \<in> T" and "rank (fd_ptr (it_field it)) < rank a"
    and "size_of (fd_ptr (it_field it)) \<le> unat (fd_data_size (it_field it))"
    using static_fieldD(2) [OF types i(1)] i assms(4) by (auto simp: static_field_def Let_def iter_at_pos)
qed

section \<open>Defaults and release\<close>

lemma step_tame_for_fields:
  assumes "\<And>i. i < n_fields fs \<Longrightarrow> step_tame R (op (iter_at fs dest i))" and "i < n_fields fs"
  shows "step_tame R (for_fields op (iter_at fs dest i))"
  using assms(2)
proof (induction "n_fields fs - i" arbitrary: i rule: less_induct)
  case less
  show ?case
  proof (cases "Suc i < n_fields fs")
    case True
    with less.hyps [of "Suc i"] less.prems have "step_tame R (for_fields op (iter_at fs dest (Suc i)))" by simp
    with True less.prems show ?thesis
      unfolding for_fields.simps [of op "iter_at fs dest i"]
      by (simp add: next_at step_tame_then assms(1) del: iter_at.simps)
  next
    case False
    with less.prems show ?thesis
      unfolding for_fields.simps [of op "iter_at fs dest i"]
      by (simp add: next_at step_tame_then assms(1) step_tame_skip del: iter_at.simps)
  qed
qed

lemma step_tame_for_message:
  assumes "\<And>i. i < n_fields (fields_at de a) \<Longrightarrow> step_tame R (op (iter_at (fields_at de a) dest i))"
  shows "step_tame R (for_message de op a dest)"
  using step_tame_for_fields [of "fields_at de a" R op dest 0] assms begin_nonempty [of "fields_at de a" dest]
  by (cases "pb_field_iter_begin (fields_at de a) dest") (auto simp: for_message_def step_tame_skip split: bool.split)

lemma step_tame_if: "(c \<Longrightarrow> step_tame R a) \<Longrightarrow> (\<not> c \<Longrightarrow> step_tame R b) \<Longrightarrow> step_tame R (if c then a else b)"
  by simp

lemma field_default_tame:
  assumes "field_in R it"
    and sub: "ltype (it_field it) = PB_LTYPE_SUBMESSAGE \<Longrightarrow>
      span (it_pData it) (unat (fd_data_size (it_field it))) \<subseteq> R \<Longrightarrow>
      step_tame R (pb_message_set_to_defaults d de (fd_ptr (it_field it)) (it_pData it))"
  shows "step_tame R (pb_field_set_to_default (Suc d) de it)"
proof -
  let ?f = "it_field it"
  have no: "\<not> ltype ?f = PB_LTYPE_EXTENSION" and static: "atype ?f = PB_ATYPE_STATIC"
    and R: "span (it_pData it) (extent ?f) \<subseteq> R"
    using assms(1) by (auto simp: field_in_def Let_def value_fits_def pb_consts split: if_splits)
  have flag: "htype ?f = PB_HTYPE_OPTIONAL \<and> it_pSize it \<noteq> it_pData it \<Longrightarrow> put_in R (store_bytes (it_pSize it) [0])"
    using assms(1) put_in_store [of "it_pSize it" "[0]" R] by (simp add: field_in_def Let_def)
  have count: "htype ?f = PB_HTYPE_REPEATED \<or> htype ?f = PB_HTYPE_ONEOF \<Longrightarrow> put_in R (store32 (it_pSize it) 0)"
    using assms(1) by (intro put_in_fixed) (auto simp: field_in_def Let_def)
  have one: "span (it_pData it) (unat (fd_data_size ?f)) \<subseteq> R" if "htype ?f \<noteq> PB_HTYPE_REPEATED"
    using R that by (simp add: extent_def)
  have "htype ?f = PB_HTYPE_OPTIONAL \<Longrightarrow> htype ?f \<noteq> PB_HTYPE_REPEATED" by (simp add: pb_consts)
  then show ?thesis
    unfolding pb_field_set_to_default.simps Let_def if_not_P [OF no] if_P [OF static]
      pb_message_set_to_defaults_def [symmetric]
    by (intro step_tame_if step_tame_then step_tame_put flag count sub one put_in_store_le [OF _ one]
        put_in_mem [where f = "\<lambda>mem. store_bytes (it_pData it) (load_bytes mem (fd_ptr ?f) (unat (fd_data_size ?f)))"])
      auto
qed

lemma set_to_default_tame:
  assumes types: "static_types de T size_of rank" and "a \<in> T" and "rank a < d"
    and "span dest (size_of a) \<subseteq> R"
  shows "step_tame R (pb_message_set_to_defaults d de a dest)"
  using assms(2-)
proof (induction d arbitrary: a dest)
  case (Suc d)
  let ?fs = "fields_at de a"
  have "step_tame R (pb_field_set_to_default (Suc d) de (iter_at ?fs dest i))" if i: "i < n_fields ?fs" for i
  proof (rule field_default_tame [OF field_in_at [OF types Suc.prems(1) i Suc.prems(3)]])
    let ?it = "iter_at ?fs dest i"
    assume sub: "ltype (it_field ?it) = PB_LTYPE_SUBMESSAGE"
      "span (it_pData ?it) (unat (fd_data_size (it_field ?it))) \<subseteq> R"
    note m = submessage_ok [OF types Suc.prems(1) it_ok_at [OF i] sub(1)]
    from m(2) Suc.prems(2) span_mono [OF m(3)] sub(2)
    show "step_tame R (pb_message_set_to_defaults d de (fd_ptr (it_field ?it)) (it_pData ?it))"
      by (intro Suc.IH m(1)) auto
  qed
  then show ?case
    unfolding pb_message_set_to_defaults_def by (rule step_tame_for_message)
qed simp

text \<open>There is nothing to release.\<close>

lemma release_items: "(\<And>p w. op p w = Some w) \<Longrightarrow> for_items n step op p w = Some w"
  by (induction n arbitrary: p) (simp_all add: w_skip_def w_then_step_def)

lemma release_fields:
  assumes "\<And>i. i < n_fields fs \<Longrightarrow> op (iter_at fs dest i) w = Some w" and "i < n_fields fs"
  shows "for_fields op (iter_at fs dest i) w = Some w"
  using assms(2)
proof (induction "n_fields fs - i" arbitrary: i rule: less_induct)
  case less
  show ?case
  proof (cases "Suc i < n_fields fs")
    case True
    with less.hyps [of "Suc i"] less.prems have "for_fields op (iter_at fs dest (Suc i)) w = Some w" by simp
    with True less.prems show ?thesis
      unfolding for_fields.simps [of op "iter_at fs dest i"]
      by (simp add: next_at w_then_step_def assms(1) del: iter_at.simps)
  next
    case False
    with less.prems show ?thesis
      unfolding for_fields.simps [of op "iter_at fs dest i"]
      by (simp add: next_at w_then_step_def assms(1) w_skip_def del: iter_at.simps)
  qed
qed

lemma release_message_nothing:
  assumes "0 < n_fields (fields_at de a)"
    and "\<And>i. i < n_fields (fields_at de a) \<Longrightarrow> op (iter_at (fields_at de a) dest i) w = Some w"
  shows "release_message de op a dest w = Some w"
  using release_fields [of "fields_at de a" op dest w 0] assms begin_nonempty [of "fields_at de a" dest]
  by (cases "pb_field_iter_begin (fields_at de a) dest")
    (auto simp: release_message_def for_message_def w_skip_def split: bool.split)

lemma static_release:
  assumes types: "static_types de T size_of rank" and "a \<in> T" and "rank a < d"
    and "it_ok (fields_at de a) dest place it"
  shows "pb_release_single_field d de it w = Some w"
  using assms(2-)
proof (induction d arbitrary: a dest place it w)
  case (Suc d)
  let ?f = "it_field it"
  have in_all: "field_in UNIV it" by (rule field_in_ok [OF types Suc.prems(1,3)]) simp_all
  then have no: "\<not> ltype ?f = PB_LTYPE_EXTENSION" and static: "atype ?f = PB_ATYPE_STATIC"
    and kept: "\<not> atype ?f = PB_ATYPE_POINTER"
    by (auto simp: field_in_def Let_def value_fits_def pb_consts split: if_splits)
  have "release_message de (pb_release_single_field d de) (fd_ptr ?f) p w = Some w"
    if "ltype ?f = PB_LTYPE_SUBMESSAGE" for p w
  proof -
    note m = submessage_ok [OF types Suc.prems(1,3) that]
    show ?thesis
    proof (rule release_message_nothing [OF static_fieldD(1) [OF types m(1)]])
      show "pb_release_single_field d de (iter_at (fields_at de (fd_ptr ?f)) p i) w = Some w"
        if "i < n_fields (fields_at de (fd_ptr ?f))" for i
        using m(2) Suc.prems(2) by (intro Suc.IH [OF m(1) _ it_ok_at [OF that]]) simp
    qed
  qed
  then show ?case
    unfolding pb_release_single_field.simps Let_def if_not_P [OF no] if_not_P [OF kept]
    by (simp add: w_then_step_def w_skip_def release_items)
qed simp

lemma static_release_message:
  assumes "static_types de T size_of rank" and "a \<in> T" and "rank a < d"
  shows "pb_release d de a dest w = Some w"
  unfolding pb_release_def
proof (rule release_message_nothing [OF static_fieldD(1) [OF assms(1,2)]])
  show "pb_release_single_field d de (iter_at (fields_at de a) dest i) w = Some w"
    if "i < n_fields (fields_at de a)" for i
    by (rule static_release [OF assms it_ok_at [OF that]])
qed

end
