(* ===== verification/Pb_Safe.thy ===== *)
theory Pb_Safe
  imports Pb_Static
begin

text \<open>
  Memory safety and termination of the message decoder of nanopb on statically allocated message
  types, for any input; and two places where the decoder writes where it should not.
\<close>

section \<open>Fields and messages\<close>

text \<open>What the recursive calls for submessages are known to do.\<close>

definition subs_tame ::
    "u64 set \<Rightarrow> u64 set \<Rightarrow> (u64 \<Rightarrow> nat) \<Rightarrow> (u64 \<Rightarrow> nat) \<Rightarrow> u64 \<Rightarrow> (bool \<Rightarrow> u64 \<Rightarrow> u64 \<Rightarrow> 's pb_dec) \<Rightarrow> bool" where
  "subs_tame R T size_of rank a sub \<longleftrightarrow>
     (\<forall>noinit b p. b \<in> T \<longrightarrow> rank b < rank a \<longrightarrow> span p (size_of b) \<subseteq> R \<longrightarrow> dec_tame R (sub noinit b p))"

lemma ok_field_tame:
  assumes types: "static_types de T size_of rank" "a \<in> T" and it: "it_ok (fields_at de a) dest place it"
    and R: "span dest (size_of a) \<subseteq> R" "span place 4 \<subseteq> R" and d: "rank a < d"
    and sub: "subs_tame R T size_of rank a sub"
  shows "dec_tame R (decode_static_field d de sub wire_type it)"
proof (rule static_field_tame [OF field_in_ok [OF types it R]])
  assume "ltype (it_field it) = PB_LTYPE_SUBMESSAGE"
  note m = submessage_ok [OF types it this]
  show "dec_tame R (sub noinit (fd_ptr (it_field it)) p)"
    if "span p (unat (fd_data_size (it_field it))) \<subseteq> R" for noinit p
    using that span_mono [OF m(3), of p] sub m(1,2) unfolding subs_tame_def by blast
  show "step_tame R (pb_message_set_to_defaults d de (fd_ptr (it_field it)) (it_pData it))"
    if "span (it_pData it) (unat (fd_data_size (it_field it))) \<subseteq> R"
    using that span_mono [OF m(3), of "it_pData it"] m(2) d by (intro set_to_default_tame [OF types(1) m(1)]) auto
qed

lemma ok_static:
  assumes "static_types de T size_of rank" "a \<in> T" and "it_ok (fields_at de a) dest place it"
  shows "atype (it_field it) = PB_ATYPE_STATIC" and "ltype (it_field it) \<noteq> PB_LTYPE_EXTENSION"
  using field_in_ok [OF assms, of UNIV] by (auto simp: field_in_def Let_def value_fits_def pb_consts split: if_splits)

lemma release_union_tame:
  assumes types: "static_types de T size_of rank" "a \<in> T" and it: "it_ok (fields_at de a) dest place it"
    and d: "rank a < d" and f: "\<And>it. it_ok (fields_at de a) dest place it \<Longrightarrow> dec_tame R (f it)"
  shows "dec_tame R (pb_release_union_field d de it f)"
proof -
  have "dec_tame R (case pb_field_iter_find old it of
      (False, it1) \<Rightarrow> dec_error ''invalid union tag''
    | (True, it1) \<Rightarrow> dec_then (dec_step (pb_release_single_field d de it1))
        (case pb_field_iter_find new it1 of
           (False, it2) \<Rightarrow> dec_error ''iterator error''
         | (True, it2) \<Rightarrow> dec_then
             (if atype (it_field it2) = PB_ATYPE_POINTER then dec_put (store64 (it_pData it2) 0) else dec_ok)
             (f it2)))" for old new
  proof -
    obtain b1 it1 where 1: "pb_field_iter_find old it = (b1, it1)" by fastforce
    obtain b2 it2 where 2: "pb_field_iter_find new it1 = (b2, it2)" by fastforce
    have ok1: "it_ok (fields_at de a) dest place it1" using it_ok_find [OF it, of old] 1 by simp
    have ok2: "it_ok (fields_at de a) dest place it2" using it_ok_find [OF ok1, of new] 2 by simp
    have rel: "step_tame R (pb_release_single_field d de it1)"
      by (simp add: step_tame_def static_release [OF types d ok1])
    have "\<not> atype (it_field it2) = PB_ATYPE_POINTER" using ok_static(1) [OF types ok2] by (simp add: pb_consts)
    with 1 2 show ?thesis
      by (auto intro!: dec_tame_then dec_tame_step rel dec_tame_ok dec_tame_error f ok2 split: bool.split)
  qed
  then show ?thesis
    unfolding pb_release_union_field_def Let_def by (intro dec_tame_mem dec_tame_if f it)
qed

lemma decode_field_tame:
  assumes types: "static_types de T size_of rank" "a \<in> T" and it: "it_ok (fields_at de a) dest place it"
    and R: "span dest (size_of a) \<subseteq> R" "span place 4 \<subseteq> R" and d: "rank a < d"
    and sub: "subs_tame R T size_of rank a sub"
  shows "dec_tame R (decode_field d de sub wire_type it)"
proof -
  have "dec_tame R (if atype (it_field it) = PB_ATYPE_STATIC then decode_static_field d de sub wire_type it
      else if atype (it_field it) = PB_ATYPE_POINTER then decode_pointer_field d de sub wire_type it
      else if atype (it_field it) = PB_ATYPE_CALLBACK then decode_callback_field d de wire_type it
      else dec_error ''invalid field type'')" if "it_ok (fields_at de a) dest place it" for it
    by (simp add: ok_static(1) [OF types that] ok_field_tame [OF types that R d sub])
  note decode = this
  show ?thesis
    unfolding decode_field_def Let_def
    by (rule dec_tame_if [OF release_union_tame [OF types it d decode] decode [OF it]])
qed

definition loop_tame :: "u64 set \<Rightarrow> (pb_locals \<Rightarrow> bool) \<Rightarrow> pb_world \<Rightarrow> 's pb_istream \<Rightarrow>
    (loop_step \<times> pb_world \<times> 's pb_istream) option \<Rightarrow> bool" where
  "loop_tame R good w s r \<longleftrightarrow>
     (\<exists>step w' s'. r = Some (step, w', s') \<and> within R w w' \<and> reads_on s s' \<and> (\<forall>l. step = Go_On l \<longrightarrow> good l))"

lemma loop_after_tame:
  assumes "dec_tame R m" and "good l" and "exact s"
  shows "loop_tame R good w s (loop_after l m w s)"
proof -
  obtain ok w' s' where "m w s = Some (ok, w', s')" "within R w w'" "reads_on s s'"
    by (rule dec_tameD [OF assms(1,3)])
  with assms(2) show ?thesis by (simp add: loop_tame_def loop_after_def)
qed

lemma loop_tame_if:
  "(c \<Longrightarrow> loop_tame R good w s (a w s)) \<Longrightarrow> (\<not> c \<Longrightarrow> loop_tame R good w s b) \<Longrightarrow>
    loop_tame R good w s (if c then a w s else b)"
  by simp

lemma loop_tame_from:
  "loop_tame R good w1 s1 r \<Longrightarrow> within R w w1 \<Longrightarrow> reads_on s s1 \<Longrightarrow> loop_tame R good w s r"
  unfolding loop_tame_def by (metis within_trans reads_on_trans)

lemma skip_unknown_tame:
  "good l \<Longrightarrow> exact s \<Longrightarrow> loop_tame R good w s (skip_unknown wire_type l w s)"
  unfolding skip_unknown_def by (intro loop_after_tame dec_tame_in tame_skip_field dec_tame_ok)

lemma decode_unknown_tame:
  assumes types: "static_types de T size_of rank" "a \<in> T"
    and it: "it_ok (fields_at de a) dest place (l_iter l)" and "tag \<noteq> - 1" and "exact s"
  shows "loop_tame R (\<lambda>l. it_ok (fields_at de a) dest place (l_iter l)) w s
    (decode_unknown d de sub wire_type tag l w s)"
proof -
  obtain found it' where f: "find_extension_field (l_iter l) = (found, it')" by fastforce
  have "\<not> fst (find_extension_field (l_iter l))"
    unfolding find_extension_field_def
    using ok_static(2) [OF types it_ok_at] by (intro find_loop_none [OF _ it]) (simp add: iter_at_pos)
  then have "\<not> found" by (simp add: f)
  moreover have "it_ok (fields_at de a) dest place it'"
    using it_ok_find_loop [OF it] f unfolding find_extension_field_def by (metis snd_conv)
  moreover have "\<not> - 1 \<le> tag" using assms(4) by (simp add: not_le word_order.not_eq_extremum)
  ultimately show ?thesis
    using it assms(5) by (simp add: decode_unknown_def f skip_unknown_tame)
qed

lemma decode_known_tame:
  assumes types: "static_types de T size_of rank" "a \<in> T"
    and it: "it_ok (fields_at de a) dest place (l_iter l)"
    and R: "span dest (size_of a) \<subseteq> R" "span place 4 \<subseteq> R" and d: "rank a < d"
    and sub: "subs_tame R T size_of rank a sub"
    and s: "exact s"
  shows "loop_tame R (\<lambda>l. it_ok (fields_at de a) dest place (l_iter l)) w s
    (decode_known d de sub place wire_type l w s)"
proof -
  let ?fixed = "htype (it_field (l_iter l)) = PB_HTYPE_REPEATED \<and> it_pSize (l_iter l) = it_pData (l_iter l)"
  let ?it = "if ?fixed then (l_iter l)\<lparr>it_pSize := place\<rparr> else l_iter l"
  have it1: "it_ok (fields_at de a) dest place ?it"
    using it by (auto simp: it_ok_def iter_at_pos)
  have union: "it_ok (fields_at de a) dest place (union_iter mem ?it)" for mem
    unfolding union_iter_def Let_def using it_ok_find [OF it_ok_find [OF it1]] it1 by simp
  have good: "it_ok (fields_at de a) dest place (l_iter (k\<lparr>l_iter := union_iter mem ?it\<rparr>))" for k mem
    using union [of mem] by (simp del: if_split)
  have field: "dec_tame R (decode_field d de sub wire_type ?it)"
    by (rule decode_field_tame [OF types it1 R d sub])
  have start: "within R w (w\<lparr>w_memory := store32 place 0 (w_memory w)\<rparr>)"
    by (intro within_put put_in_fixed R)
  let ?good = "\<lambda>l. it_ok (fields_at de a) dest place (l_iter l)"
  let ?w0 = "w\<lparr>w_memory := store32 place 0 (w_memory w)\<rparr>"
  have run: "loop_tame R ?good w s (loop_after (k\<lparr>l_iter := union_iter mem ?it\<rparr>)
      (decode_field d de sub wire_type ?it) (if fresh then ?w0 else w) s)" for k mem fresh
  proof (cases fresh)
    case True
    have "loop_tame R ?good ?w0 s (loop_after (k\<lparr>l_iter := union_iter mem ?it\<rparr>)
        (decode_field d de sub wire_type ?it) ?w0 s)"
      by (rule loop_after_tame [where good = ?good, OF field good s])
    from loop_tame_from [OF this start reads_on_refl [OF s]] True show ?thesis by (simp only: if_True)
  next
    case False
    then show ?thesis by (simp only: if_False) (rule loop_after_tame [where good = ?good, OF field good s])
  qed
  have "loop_tame R ?good w s (if c then loop_after l (dec_error msg) w s else
      loop_after (k\<lparr>l_iter := union_iter mem ?it\<rparr>)
        (decode_field d de sub wire_type ?it) (if fresh then ?w0 else w) s)" for c msg k mem fresh
    using loop_after_tame [OF dec_tame_error, of ?good l s R w msg, OF it s] run by (cases c) (simp_all only: if_True if_False)
  then show ?thesis
    unfolding decode_known_def Let_def .
qed

lemma tag_range:
  assumes "pb_decode_tag s = (Some (wire_type, tag), eof, s')"
  shows "tag \<noteq> - 1"
proof -
  from assms obtain temp :: u32 where "tag = drop_bit 3 temp"
    by (auto simp: pb_decode_tag_def split: prod.splits option.splits if_splits)
  then have "\<not> bit tag 31" by (auto simp: bit_simps dest: bit_imp_le_length)
  then show ?thesis by auto
qed

lemma decode_tag_reads:
  assumes "exact s" and "pb_decode_tag s = (r, eof, s')"
  shows "reads_on s s'" and "r = Some x \<Longrightarrow> unat (is_bytes_left s') < unat (is_bytes_left s)"
proof -
  obtain q e s1 where v: "pb_decode_varint32_eof s = (q, e, s1)" by (cases "pb_decode_varint32_eof s")
  with assms(2) have "s' = s1" "r = Some x \<Longrightarrow> q \<noteq> None"
    by (auto simp: pb_decode_tag_def split: option.splits if_splits)
  with varint32_eof_reads_on [OF assms(1)] varint32_eof_eats [OF _ assms(1)] v
  show "reads_on s s'" "r = Some x \<Longrightarrow> unat (is_bytes_left s') < unat (is_bytes_left s)"
    by (auto simp: snd3_def)
qed

lemma message_loop_tame:
  assumes types: "static_types de T size_of rank" "a \<in> T"
    and R: "span dest (size_of a) \<subseteq> R" "span place 4 \<subseteq> R" and d: "rank a < d"
    and sub: "subs_tame R T size_of rank a sub"
    and "it_ok (fields_at de a) dest place (l_iter l)" and "exact s" and "unat (is_bytes_left s) < n"
  shows "\<exists>step w' s'. message_loop n d de sub place l w s = Some (step, w', s') \<and> within R w w' \<and> reads_on s s' \<and>
    (\<forall>l. step \<noteq> Go_On l)"
  using assms(7-)
proof (induction n arbitrary: l w s)
  case (Suc n)
  let ?good = "\<lambda>l. it_ok (fields_at de a) dest place (l_iter l)"
  show ?case
  proof (cases "is_bytes_left s = 0")
    case True
    with Suc.prems show ?thesis by simp
  next
    case False
    obtain r eof s1 where tag: "pb_decode_tag s = (r, eof, s1)" by (cases "pb_decode_tag s")
    note s1 = decode_tag_reads(1) [OF Suc.prems(2) tag]
    show ?thesis
    proof (cases r)
      case None
      with False tag s1 show ?thesis by (simp add: decode_next_def)
    next
      case (Some p)
      obtain wire_type t where p: "p = (wire_type, t)" by (cases p)
      note less = decode_tag_reads(2) [OF Suc.prems(2) tag Some]
      obtain found it where f: "pb_field_iter_find t (l_iter l) = (found, it)" by fastforce
      have it: "?good (l\<lparr>l_iter := it\<rparr>)" using it_ok_find [OF Suc.prems(1), of t] f by simp
      have "loop_tame R ?good w s1 (if found
          then decode_known d de sub place wire_type (l\<lparr>l_iter := it\<rparr>) w s1
          else decode_unknown d de sub wire_type t (l\<lparr>l_iter := it\<rparr>) w s1)"
      proof (cases found)
        case True
        then show ?thesis
          by (simp only: if_True) (rule decode_known_tame [OF types it R d sub reads_on_exact [OF s1]])
      next
        case False
        have "t \<noteq> - 1" by (rule tag_range [OF tag [unfolded Some p]])
        from decode_unknown_tame [OF types it this reads_on_exact [OF s1]] False show ?thesis
          by (simp only: if_False)
      qed
      moreover have "decode_next d de sub place l w s = (if found
          then decode_known d de sub place wire_type (l\<lparr>l_iter := it\<rparr>) w s1
          else decode_unknown d de sub wire_type t (l\<lparr>l_iter := it\<rparr>) w s1)"
        by (simp add: decode_next_def tag Some p f)
      ultimately obtain step w2 s2 where step: "decode_next d de sub place l w s = Some (step, w2, s2)"
          "within R w w2" "reads_on s1 s2" "\<And>l. step = Go_On l \<Longrightarrow> ?good l"
        unfolding loop_tame_def by auto
      note s2 = reads_on_trans [OF s1 step(3)]
      show ?thesis
      proof (cases "\<exists>l. step = Go_On l")
        case True
        then obtain l' where l': "step = Go_On l'" by blast
        have "unat (is_bytes_left s2) < n" using step(3) less Suc.prems(3) by (simp add: reads_on_def)
        from Suc.IH [OF step(4) [OF l'] reads_on_exact [OF step(3)] this, of w2]
        obtain st w3 s3 where "message_loop n d de sub place l' w2 s2 = Some (st, w3, s3)" "within R w2 w3"
            "reads_on s2 s3" "\<forall>l. st \<noteq> Go_On l" by blast
        with False step(1) l' within_trans [OF step(2)] reads_on_trans [OF s2] show ?thesis by simp
      next
        case no: False
        with False step(1,2) s2 show ?thesis by (cases step) simp_all
      qed
    qed
  qed
qed simp

lemma finish_message_tame: "dec_tame R (finish_message place l)"
  unfolding finish_message_def by (intro dec_tame_mem dec_tame_if dec_tame_error dec_tame_ok)

lemma noinit_body_tame:
  assumes types: "static_types de T size_of rank" "a \<in> T"
    and R: "span dest (size_of a) \<subseteq> R" "span (count_place de d) 4 \<subseteq> R" and d: "rank a < d"
    and sub: "subs_tame R T size_of rank a sub"
  shows "dec_tame R (decode_noinit_body d de sub a dest)"
proof (rule dec_tame_bounded)
  fix w :: pb_world and s :: "'a pb_istream"
  assume s: "exact s"
  let ?place = "count_place de d"
  let ?w = "w\<lparr>w_memory := store32 ?place 0 (w_memory w)\<rparr>"
  let ?l = "\<lparr>l_seen = [0, 0], l_extensions = 0, l_fixed = None,
    l_iter = snd (pb_field_iter_begin (fields_at de a) dest)\<rparr>"
  have it: "it_ok (fields_at de a) dest ?place (l_iter ?l)"
    using it_ok_begin [OF static_fieldD(1) [OF types]] by simp
  have start: "within R w ?w" by (intro within_put put_in_fixed R)
  obtain step w1 s1 where loop: "message_loop (Suc (unat (is_bytes_left s))) d de sub ?place ?l ?w s = Some (step, w1, s1)"
    and w1: "within R ?w w1" and s1: "reads_on s s1" and st: "\<forall>l. step \<noteq> Go_On l"
    using message_loop_tame [where n = "Suc (unat (is_bytes_left s))" and w = ?w, OF types R d sub it s] by blast
  note w1' = within_trans [OF start w1]
  show "\<exists>ok w' s'. decode_noinit_body d de sub a dest w s = Some (ok, w', s') \<and> within R w w' \<and> reads_on s s'"
  proof (cases step)
    case (Message_End l)
    obtain ok w2 s2 where "finish_message ?place l w1 s1 = Some (ok, w2, s2)" "within R w1 w2" "reads_on s1 s2"
      by (rule dec_tameD [OF finish_message_tame reads_on_exact [OF s1]])
    with Message_End loop within_trans [OF w1'] reads_on_trans [OF s1] show ?thesis
      by (simp add: decode_noinit_body_def Let_def del: message_loop.simps)
  qed (use loop w1' s1 st in \<open>auto simp: decode_noinit_body_def Let_def simp del: message_loop.simps\<close>)
qed

text \<open>The local counts of the calls nested in a call of some depth.\<close>

definition scratch :: "'s pb_decoder \<Rightarrow> nat \<Rightarrow> u64 set" where
  "scratch de d = (\<Union>i<d. span (count_place de i) 4)"

lemma decode_message_tame:
  assumes types: "static_types de T size_of rank" and "a \<in> T" and "rank a + 1 < d"
    and "span dest (size_of a) \<subseteq> R" and "scratch de d \<subseteq> R"
  shows "dec_tame R (decode_message d de noinit a dest)"
  using assms(2-)
proof (induction d arbitrary: noinit a dest)
  case (Suc d)
  have d: "rank a < d" using Suc.prems(2) by simp
  have places: "span (count_place de d) 4 \<subseteq> R" "scratch de d \<subseteq> R"
    using Suc.prems(4) unfolding scratch_def lessThan_Suc by auto
  have "dec_tame R (decode_message d de noinit b p)"
    if "b \<in> T" "rank b < rank a" "span p (size_of b) \<subseteq> R" for noinit b p
    using that d by (intro Suc.IH places(2)) simp_all
  then have body: "dec_tame R (decode_noinit_body d de (decode_message d de) a dest)"
    by (intro noinit_body_tame [OF types Suc.prems(1,3) places(1) d]) (simp add: subs_tame_def)
  have "dec_tame R (decode_body d de (decode_message d de) a dest)"
  proof (rule dec_tame_bounded)
    fix w :: pb_world and s :: "'a pb_istream"
    assume s: "exact s"
    obtain w1 where w1: "pb_message_set_to_defaults d de a dest w = Some w1" "within R w w1"
      using set_to_default_tame [OF types Suc.prems(1) d Suc.prems(3)] unfolding step_tame_def by blast
    obtain ok w2 s2 where body: "decode_noinit_body d de (decode_message d de) a dest w1 s = Some (ok, w2, s2)"
        "within R w1 w2" "reads_on s s2"
      by (rule dec_tameD [OF body s])
    have "pb_release d de a dest w2 = Some w2"
      by (rule static_release_message [OF types Suc.prems(1) d])
    with w1 body within_trans [OF w1(2) body(2)]
    show "\<exists>ok w' s'. decode_body d de (decode_message d de) a dest w s = Some (ok, w', s') \<and>
        within R w w' \<and> reads_on s s'"
      by (cases ok) (auto simp: decode_body_def)
  qed
  with body show ?case by simp
qed simp

section \<open>Memory safety\<close>

text \<open>
  C31: \<open>pb_decode\<close> is memory safe and returns. If the message types are allocated statically, their fields
  lie in their structs and no type contains itself, then whatever bytes a buffer or a callback stream
  delivers, decoding comes to an end, with success or failure; it writes to the struct and to its own
  local variables only, leaves the heap alone and does not read past the end of the stream.
\<close>

theorem pb_decode_safe:
  assumes "static_types de T size_of rank" and "fs \<in> T" and "rank fs + 1 < d" and "exact s"
  shows "\<exists>ok w' s'. pb_decode d de fs dest w s = Some (ok, w', s') \<and>
    (\<forall>q. q \<notin> span dest (size_of fs) \<union> scratch de d \<longrightarrow> w_memory w' q = w_memory w q) \<and>
    w_blocks w' = w_blocks w \<and> unat (is_bytes_left s') \<le> unat (is_bytes_left s)"
proof -
  have "dec_tame (span dest (size_of fs) \<union> scratch de d) (pb_decode d de fs dest)"
    unfolding pb_decode_def by (rule decode_message_tame [OF assms(1-3)]) auto
  from dec_tameD [OF this assms(4), of w] show ?thesis
    unfolding within_def reads_on_def by metis
qed

text \<open>A message with an optional number, an array with its count, and a submessage.\<close>

definition sample_fields :: "pb_field list" where
  "sample_fields =
     [\<lparr>fd_tag = 1, fd_type = 0x12, fd_data_offset = 4, fd_size_offset = - 4, fd_data_size = 4,
        fd_array_size = 0, fd_ptr = 0\<rparr>,
      \<lparr>fd_tag = 2, fd_type = 0x24, fd_data_offset = 4, fd_size_offset = - 4, fd_data_size = 4,
        fd_array_size = 2, fd_ptr = 0\<rparr>,
      \<lparr>fd_tag = 3, fd_type = 0x08, fd_data_offset = 0, fd_size_offset = 0, fd_data_size = 8,
        fd_array_size = 0, fd_ptr = 0x200\<rparr>, PB_LAST_FIELD]"

definition sample_inner :: "pb_field list" where
  "sample_inner = [\<lparr>fd_tag = 1, fd_type = 0x07, fd_data_offset = 0, fd_size_offset = 0, fd_data_size = 8,
     fd_array_size = 0, fd_ptr = 0\<rparr>, PB_LAST_FIELD]"

definition sample_decoder :: "unit pb_decoder" where
  "sample_decoder =
     \<lparr>fields_at = (\<lambda>a. if a = 0x100 then sample_fields else sample_inner),
      malloc_place = (\<lambda>_ _. 0), count_place = (\<lambda>d. 0x9000 + 8 * of_nat d),
      decode_code = (\<lambda>_ _ _ w s. (False, w, s)), extension_decode = (\<lambda>_ _ _ _ w s. (False, w, s))\<rparr>"

definition sample_size :: "u64 \<Rightarrow> nat" where
  "sample_size a = (if a = 0x100 then 28 else 8)"

definition sample_rank :: "u64 \<Rightarrow> nat" where
  "sample_rank a = (if a = 0x100 then 1 else 0)"

lemma sample_at:
  "field_at sample_fields 0 = \<lparr>fd_tag = 1, fd_type = 0x12, fd_data_offset = 4, fd_size_offset = - 4,
    fd_data_size = 4, fd_array_size = 0, fd_ptr = 0\<rparr>"
  "field_at sample_fields (Suc 0) = \<lparr>fd_tag = 2, fd_type = 0x24, fd_data_offset = 4, fd_size_offset = - 4,
    fd_data_size = 4, fd_array_size = 2, fd_ptr = 0\<rparr>"
  "field_at sample_fields 2 = \<lparr>fd_tag = 3, fd_type = 0x08, fd_data_offset = 0, fd_size_offset = 0,
    fd_data_size = 8, fd_array_size = 0, fd_ptr = 0x200\<rparr>"
  "field_at sample_inner 0 = \<lparr>fd_tag = 1, fd_type = 0x07, fd_data_offset = 0, fd_size_offset = 0,
    fd_data_size = 8, fd_array_size = 0, fd_ptr = 0\<rparr>"
  by (simp_all add: field_at_def sample_fields_def sample_inner_def)

lemmas type_defs = PB_LTYPE_def PB_HTYPE_def PB_ATYPE_def pb_consts

lemma sample_iterators:
  "iter_at sample_fields 0 0 = \<lparr>it_start = sample_fields, it_pos = 0, it_required = 0, it_dest = 0, it_pData = 4, it_pSize = 0\<rparr>"
  "iter_at sample_fields 0 (Suc 0) = \<lparr>it_start = sample_fields, it_pos = 1, it_required = 0, it_dest = 0, it_pData = 12, it_pSize = 8\<rparr>"
  "iter_at sample_fields 0 2 = \<lparr>it_start = sample_fields, it_pos = 2, it_required = 0, it_dest = 0, it_pData = 20, it_pSize = 20\<rparr>"
  "iter_at sample_inner 0 0 = \<lparr>it_start = sample_inner, it_pos = 0, it_required = 0, it_dest = 0, it_pData = 0, it_pSize = 0\<rparr>"
proof -
  show 0: "iter_at sample_fields 0 0 = \<lparr>it_start = sample_fields, it_pos = 0, it_required = 0, it_dest = 0, it_pData = 4, it_pSize = 0\<rparr>"
    "iter_at sample_inner 0 0 = \<lparr>it_start = sample_inner, it_pos = 0, it_required = 0, it_dest = 0, it_pData = 0, it_pSize = 0\<rparr>"
    by (simp_all add: pb_field_iter_begin_def sample_at)
  show 1: "iter_at sample_fields 0 (Suc 0) = \<lparr>it_start = sample_fields, it_pos = 1, it_required = 0, it_dest = 0, it_pData = 12, it_pSize = 8\<rparr>"
    unfolding iter_at.simps(2) 0 by (simp add: pb_field_iter_next_def sample_at prev_size_def type_defs)
  have "iter_at sample_fields 0 2 = snd (pb_field_iter_next (iter_at sample_fields 0 (Suc 0)))"
    by (simp add: numeral_2_eq_2)
  also have "\<dots> = \<lparr>it_start = sample_fields, it_pos = 2, it_required = 0, it_dest = 0, it_pData = 20, it_pSize = 20\<rparr>"
    unfolding 1 by (simp add: pb_field_iter_next_def sample_at [simplified numeral_2_eq_2] prev_size_def type_defs)
  finally show "iter_at sample_fields 0 2 = \<lparr>it_start = sample_fields, it_pos = 2, it_required = 0, it_dest = 0, it_pData = 20, it_pSize = 20\<rparr>" .
qed

lemma sample_types: "static_types sample_decoder {0x100, 0x200} sample_size sample_rank"
proof -
  have n: "n_fields sample_fields = 3" "n_fields sample_inner = 1"
    by (simp_all add: n_fields_def sample_fields_def sample_inner_def PB_LAST_FIELD_def)
  have three: "{0..<3} = {0, 1, 2 :: nat}" by auto
  note defs = static_field_def sample_iterators sample_at value_fits_def extent_def type_defs sample_size_def
    sample_rank_def
  have "static_field T sample_size sample_rank 0x100 (iter_at sample_fields 0 0)"
    "static_field T sample_size sample_rank 0x100 (iter_at sample_fields 0 (Suc 0))" for T
    by (simp_all add: defs del: iter_at.simps)
  moreover have "static_field T sample_size sample_rank 0x100 (iter_at sample_fields 0 2)" if "0x200 \<in> T" for T
    using that by (simp add: defs del: iter_at.simps)
  moreover have "static_field T sample_size sample_rank 0x200 (iter_at sample_inner 0 0)" for T
    by (simp add: defs del: iter_at.simps)
  ultimately show ?thesis
    by (simp add: static_types_def sample_decoder_def n three Let_def del: iter_at.simps)
qed

theorem pb_decode_safe_witness:
  "\<exists>ok w' s'. pb_decode 3 sample_decoder 0x100 0x1000 \<lparr>w_memory = \<lambda>_. 7, w_blocks = \<lambda>_. None\<rparr>
      (pb_istream_from_buffer [0x1A, 0x7F, 0x00] 3) = Some (ok, w', s') \<and>
    (\<forall>q. q \<notin> span 0x1000 28 \<union> scratch sample_decoder 3 \<longrightarrow> w_memory w' q = 7) \<and>
    w_blocks w' = (\<lambda>_. None) \<and> unat (is_bytes_left s') \<le> 3"
proof -
  let ?s = "pb_istream_from_buffer [0x1A, 0x7F, 0x00] 3 :: unit pb_istream"
  have "exact ?s" by (simp add: exact_def pb_istream_from_buffer_def)
  from pb_decode_safe [where fs = "0x100" and d = "3" and dest = "0x1000" and
      w = "\<lparr>w_memory = \<lambda>_. 7, w_blocks = \<lambda>_. None\<rparr>", OF sample_types _ _ this]
  show ?thesis by (simp add: sample_rank_def sample_size_def pb_istream_from_buffer_def)
qed

section \<open>Two writes that should not happen\<close>

text \<open>
  C32: the default of an array without a count (\<open>fixed_count\<close>) overruns short arrays. For such a field
  \<open>pb_field_set_to_default\<close> takes the array itself for the count and stores a 32-bit zero there, so of an
  array of fewer than four bytes it also clears what lies behind it.
\<close>

theorem fixed_count_overrun:
  assumes "atype (it_field it) = PB_ATYPE_STATIC" and "htype (it_field it) = PB_HTYPE_REPEATED"
    and "ltype (it_field it) \<noteq> PB_LTYPE_EXTENSION" and "it_pSize it = it_pData it"
    and "extent (it_field it) \<le> k" and "k < 4"
  shows "\<exists>w'. pb_field_set_to_default (Suc d) de it w = Some w' \<and> w_memory w' (it_pData it + of_nat k) = 0"
proof -
  have "PB_HTYPE_REPEATED \<noteq> PB_HTYPE_OPTIONAL" by (simp add: pb_consts)
  then have "pb_field_set_to_default (Suc d) de it w = w_put (store32 (it_pData it) 0) w"
    by (simp add: assms(1-4))
  moreover have "unat (of_nat k :: u64) = k" using assms(6) by (simp add: unat_of_nat_less)
  moreover have "le_bytes 4 (unat (0 :: u32)) ! k = 0"
    using assms(6) unfolding le_bytes_word by (auto simp: less_Suc_eq numeral_eq_Suc)
  ultimately show ?thesis
    using assms(6) by (simp add: w_put_def store32_def store_bytes_def del: le_bytes_simps unat_0)
qed

text \<open>Two bools of a byte each; the byte behind them is lost.\<close>

definition two_bools :: pb_field_iter where
  "two_bools = \<lparr>it_start = [\<lparr>fd_tag = 1, fd_type = 0x20, fd_data_offset = 0, fd_size_offset = 0, fd_data_size = 1,
     fd_array_size = 2, fd_ptr = 0\<rparr>], it_pos = 0, it_required = 0, it_dest = 0x1000, it_pData = 0x1000,
     it_pSize = 0x1000\<rparr>"

theorem fixed_count_overrun_witness:
  "\<exists>w'. pb_field_set_to_default 1 sample_decoder two_bools \<lparr>w_memory = \<lambda>_. 7, w_blocks = \<lambda>_. None\<rparr> = Some w' \<and>
     w_memory w' 0x1002 = 0"
  using fixed_count_overrun [of two_bools 2 0 sample_decoder "\<lparr>w_memory = \<lambda>_. 7, w_blocks = \<lambda>_. None\<rparr>"]
  by (simp add: two_bools_def field_at_def type_defs extent_def del: pb_field_set_to_default.simps)

text \<open>The iterator of a message type without fields: it stands on the terminator.\<close>

lemma empty_iterator:
  fixes dest :: u64
  assumes "field_at (fields_at de a) 0 = PB_LAST_FIELD"
  defines "it \<equiv> snd (pb_field_iter_begin (fields_at de a) dest)"
  shows "htype (it_field it) = PB_HTYPE_REQUIRED" "atype (it_field it) = PB_ATYPE_STATIC"
    "ltype (it_field it) = PB_LTYPE_BOOL" "fd_tag (it_field it) = 0"
    and "it_pData it = dest" "it_required it = 0"
    and "pb_field_iter_find 0 it = (True, it)" "pb_field_iter_next it = (False, it)" "req_field_count it = 0"
proof -
  have last: "it_field it = PB_LAST_FIELD" by (simp add: assms)
  show types: "htype (it_field it) = PB_HTYPE_REQUIRED" "atype (it_field it) = PB_ATYPE_STATIC"
    "ltype (it_field it) = PB_LTYPE_BOOL" "fd_tag (it_field it) = 0"
    unfolding last by (simp_all add: PB_LAST_FIELD_def type_defs)
  show it: "it_pData it = dest" "it_required it = 0"
    using assms by (simp_all add: pb_field_iter_begin_def PB_LAST_FIELD_def)
  show "pb_field_iter_find 0 it = (True, it)"
    using types(3,4) by (simp add: pb_field_iter_find_def pb_consts del: begin_simps)
  show nxt: "pb_field_iter_next it = (False, it)"
    using types(4) by (simp add: pb_field_iter_next_def)
  show "req_field_count it = 0"
    unfolding req_field_count_def last_field.simps [of it] nxt by (simp add: types(4) it del: begin_simps)
qed

text \<open>
  C33: a message type without fields is not decoded as the comment in \<open>pb_decode_noinit\<close> says. The search
  for tag 0 finds the terminator of the descriptor array, which reads as a required bool: the input
  \<open>02 05\<close>, with a field number that no message may contain, is accepted and a byte is stored at the struct.
\<close>

theorem empty_message_writes:
  assumes "field_at (fields_at de a) 0 = PB_LAST_FIELD"
  shows "\<exists>w' s'. pb_decode (Suc (Suc d)) de a dest w (pb_istream_from_buffer [0x02, 0x05] 2) =
    Some (True, w', s' :: 't pb_istream) \<and> w_memory w' dest = 1"
proof -
  let ?s = "pb_istream_from_buffer [0x02, 0x05] 2 :: 't pb_istream"
  let ?s1 = "pb_istream_from_buffer [0x05] 1 :: 't pb_istream"
  let ?s2 = "pb_istream_from_buffer [] 0 :: 't pb_istream"
  let ?it = "snd (pb_field_iter_begin (fields_at de a) dest)"
  let ?f = "it_field ?it"
  have read: "pb_readbyte ?s = (Some 2, ?s1)" "pb_readbyte ?s1 = (Some 5, ?s2)"
    by (simp_all add: pb_istream_from_buffer_def pb_readbyte_def read_callback_def)
  note types = empty_iterator(1-4) [OF assms, of dest] and it = empty_iterator(5,6) [OF assms, of dest]
    and find = empty_iterator(7) [OF assms, of dest] and count = empty_iterator(9) [OF assms, of dest]
  have ne: "PB_HTYPE_REQUIRED \<noteq> PB_HTYPE_ONEOF" "PB_HTYPE_REQUIRED \<noteq> PB_HTYPE_REPEATED"
    "PB_LTYPE_BOOL \<noteq> PB_LTYPE_EXTENSION" by (simp_all add: pb_consts)
  have tag: "pb_decode_tag ?s = (Some (2, 0), False, ?s1)"
    by (simp add: pb_decode_tag_def pb_decode_varint32_eof_def read)
  have bool: "pb_dec_bool f dest w ?s1 = Some (True, w\<lparr>w_memory := store_bytes dest [1] (w_memory w)\<rparr>, ?s2)" for f w
    by (simp add: pb_dec_bool_def dec_in_def pb_decode_varint32_def pb_decode_varint32_eof_def read dec_put_def
        dec_step_def w_put_def)
  have field: "decode_field n de sub 2 ?it = pb_dec_bool ?f dest" for n sub
    by (simp add: decode_field_def decode_static_field_def types ne it decoder_simps del: begin_simps)
  let ?place = "count_place de (Suc d)"
  let ?l = "\<lparr>l_seen = [0, 0], l_extensions = 0, l_fixed = None, l_iter = ?it\<rparr>"
  let ?l1 = "\<lparr>l_seen = mark_seen 0 [0, 0], l_extensions = 0, l_fixed = None, l_iter = ?it\<rparr>"
  have go: "decode_next (Suc d) de sub ?place ?l w ?s =
      Some (Go_On ?l1, w\<lparr>w_memory := store_bytes dest [1] (w_memory w)\<rparr>, ?s2)" for sub w
    by (simp add: decode_next_def tag find decode_known_def types ne it field bool loop_after_def union_iter_def Let_def
        del: begin_simps)
  have loop: "message_loop (Suc (Suc (Suc n))) (Suc d) de sub ?place ?l w ?s =
      Some (Message_End ?l1, w\<lparr>w_memory := store_bytes dest [1] (w_memory w)\<rparr>, ?s2)" for n sub w
    by (simp add: go del: begin_simps) (simp add: pb_istream_from_buffer_def)
  have finish: "finish_message ?place ?l1 w ?s2 = Some (True, w, ?s2)" for w
    using count by (simp add: finish_message_def dec_mem_def fixed_incomplete_def all_required_seen_def dec_ok_def)
  have dflt: "pb_message_set_to_defaults (Suc d) de a dest w = Some w"
    using assms by (cases "pb_field_iter_begin (fields_at de a) dest")
      (simp_all add: pb_message_set_to_defaults_def for_message_def w_skip_def pb_field_iter_begin_def PB_LAST_FIELD_def)
  have rounds: "Suc (unat (is_bytes_left ?s)) = Suc (Suc (Suc 0))" by (simp add: pb_istream_from_buffer_def)
  have "decode_noinit_body (Suc d) de sub a dest w ?s = Some (True, w\<lparr>w_memory :=
      store_bytes dest [1] (store32 ?place 0 (w_memory w))\<rparr>, ?s2)" for sub
    unfolding decode_noinit_body_def Let_def rounds loop by (simp add: finish del: begin_simps)
  then have "pb_decode (Suc (Suc d)) de a dest w ?s = Some (True, w\<lparr>w_memory :=
      store_bytes dest [1] (store32 ?place 0 (w_memory w))\<rparr>, ?s2)"
    by (simp add: pb_decode_def decode_body_def dflt)
  then show ?thesis by (simp add: store_bytes_def)
qed

theorem empty_message_writes_witness:
  "\<exists>w' s'. pb_decode 2 (sample_decoder\<lparr>fields_at := \<lambda>_. [PB_LAST_FIELD]\<rparr>) 0x100 0x1000
      \<lparr>w_memory = \<lambda>_. 7, w_blocks = \<lambda>_. None\<rparr> (pb_istream_from_buffer [0x02, 0x05] 2) =
    Some (True, w', s') \<and> w_memory w' 0x1000 = 1"
  using empty_message_writes [of "sample_decoder\<lparr>fields_at := \<lambda>_. [PB_LAST_FIELD]\<rparr>" "0x100" 0 "0x1000"
      "\<lparr>w_memory = \<lambda>_. 7, w_blocks = \<lambda>_. None\<rparr>"]
  by (simp add: field_at_def numeral_2_eq_2)

end
