(* ===== verification/Md32.thy ===== *)
theory Md32
  imports Bytes
begin

text \<open>
  The collector that BoringSSL's 32-bit message digests share (\<open>crypto/fipsmodule/digest/md32_common.h\<close>):
  it cuts the message into blocks of 64 bytes, whatever the pieces it comes in, counts its bits and
  appends the padding. The header is included by each digest; here what it is parameterised with is
  an argument.
\<close>

section \<open>The context\<close>

text \<open>
  The members that every context has. The block function takes the chaining value, the data and the
  number of blocks.
\<close>

record md32_ctx =
  md_h :: "u32 list"
  md_Nl :: u32
  md_Nh :: u32
  md_data :: bytes
  md_num :: u32

type_synonym block_data_order = "u32 list \<Rightarrow> bytes \<Rightarrow> size_t \<Rightarrow> u32 list"

definition HASH_CBLOCK :: size_t where
  "HASH_CBLOCK = 64"

text \<open>\<open>HOST_l2c\<close> for the two byte orders.\<close>

definition l2c_big :: "u32 \<Rightarrow> bytes" where
  "l2c_big l = [ucast (drop_bit 24 l), ucast (drop_bit 16 l), ucast (drop_bit 8 l), ucast l]"

definition l2c_little :: "u32 \<Rightarrow> bytes" where
  "l2c_little l = [ucast l, ucast (drop_bit 8 l), ucast (drop_bit 16 l), ucast (drop_bit 24 l)]"

section \<open>Update\<close>

text \<open>The bit count, with its carry.\<close>

definition count_bits :: "'a md32_ctx_scheme \<Rightarrow> size_t \<Rightarrow> 'a md32_ctx_scheme" where
  "count_bits c len =
     (let l = md_Nl c + push_bit 3 (ucast len);
          Nh = (if l < md_Nl c then md_Nh c + 1 else md_Nh c)
      in c\<lparr>md_Nh := Nh + ucast (drop_bit 29 len), md_Nl := l\<rparr>)"

text \<open>Whole blocks are taken from the data where it is, the rest is kept.\<close>

definition update_blocks :: "block_data_order \<Rightarrow> 'a md32_ctx_scheme \<Rightarrow> bytes \<Rightarrow> size_t \<Rightarrow> 'a md32_ctx_scheme" where
  "update_blocks block c data len =
     (let n = len div HASH_CBLOCK;
          c1 = (if 0 < n then c\<lparr>md_h := block (md_h c) data n\<rparr> else c);
          data1 = (if 0 < n then drop (unat (n * HASH_CBLOCK)) data else data);
          len1 = (if 0 < n then len - n * HASH_CBLOCK else len)
      in if len1 \<noteq> 0
         then c1\<lparr>md_num := ucast len1, md_data := blit (md_data c1) 0 (take (unat len1) data1)\<rparr>
         else c1)"

definition HASH_UPDATE :: "block_data_order \<Rightarrow> 'a md32_ctx_scheme \<Rightarrow> bytes \<Rightarrow> size_t \<Rightarrow> 'a md32_ctx_scheme" where
  "HASH_UPDATE block c data len =
     (if len = 0 then c
      else
        let c = count_bits c len;
            n = ucast (md_num c) :: size_t
        in
          if n \<noteq> 0 then
            if HASH_CBLOCK \<le> len \<or> HASH_CBLOCK \<le> len + n then
              let filled = blit (md_data c) (unat n) (take (unat (HASH_CBLOCK - n)) data);
                  c = c\<lparr>md_h := block (md_h c) filled 1, md_num := 0,
                        md_data := replicate (unat HASH_CBLOCK) 0\<rparr>;
                  n = HASH_CBLOCK - n
              in update_blocks block c (drop (unat n) data) (len - n)
            else
              c\<lparr>md_data := blit (md_data c) (unat n) (take (unat len) data), md_num := md_num c + ucast len\<rparr>
          else update_blocks block c data len)"

definition HASH_TRANSFORM :: "block_data_order \<Rightarrow> 'a md32_ctx_scheme \<Rightarrow> bytes \<Rightarrow> 'a md32_ctx_scheme" where
  "HASH_TRANSFORM block c data = c\<lparr>md_h := block (md_h c) data 1\<rparr>"

section \<open>Final\<close>

text \<open>\<open>big\<close>: \<open>DATA_ORDER_IS_BIG_ENDIAN\<close>. \<open>make_string\<close> is \<open>HASH_MAKE_STRING\<close>, \<open>None\<close> if it returns 0.\<close>

definition length_field :: "bool \<Rightarrow> u32 \<Rightarrow> u32 \<Rightarrow> bytes" where
  "length_field big Nh Nl = (if big then l2c_big Nh @ l2c_big Nl else l2c_little Nl @ l2c_little Nh)"

definition HASH_FINAL ::
    "bool \<Rightarrow> block_data_order \<Rightarrow> ('a md32_ctx_scheme \<Rightarrow> bytes option) \<Rightarrow> 'a md32_ctx_scheme \<Rightarrow>
      bytes option \<times> 'a md32_ctx_scheme" where
  "HASH_FINAL big block make_string c =
     (let n = unat (md_num c);
          c = c\<lparr>md_data := (md_data c)[n := 0x80]\<rparr>;
          n = n + 1;
          full = (64 - 8 < n);
          c = (if full then
                 let d = blit (md_data c) n (replicate (64 - n) 0)
                 in c\<lparr>md_data := d, md_h := block (md_h c) d 1\<rparr>
               else c);
          n = (if full then 0 else n);
          d = blit (md_data c) n (replicate (64 - 8 - n) 0);
          d = blit d (64 - 8) (length_field big (md_Nh c) (md_Nl c));
          c = c\<lparr>md_h := block (md_h c) d 1, md_num := 0, md_data := replicate 64 0\<rparr>
      in (make_string c, c))"

section \<open>What is promised\<close>

text \<open>
  A compression function, folded over the blocks of a message, and the padding: a one bit, zeros, and
  the length in bits in eight bytes.
\<close>

primrec compress_blocks :: "(u32 list \<Rightarrow> bytes \<Rightarrow> u32 list) \<Rightarrow> u32 list \<Rightarrow> bytes \<Rightarrow> nat \<Rightarrow> u32 list" where
  "compress_blocks f h m 0 = h"
| "compress_blocks f h m (Suc n) = compress_blocks f (f h (take 64 m)) (drop 64 m) n"

definition md_padding :: "bool \<Rightarrow> nat \<Rightarrow> bytes" where
  "md_padding big len =
     (let k = (55 + 64 - len mod 64) mod 64; count = be_bytes 8 (8 * len)
      in 0x80 # replicate k 0 @ (if big then count else rev count))"

definition md_hash :: "bool \<Rightarrow> (u32 list \<Rightarrow> bytes \<Rightarrow> u32 list) \<Rightarrow> u32 list \<Rightarrow> bytes \<Rightarrow> u32 list" where
  "md_hash big f h m =
     (let p = m @ md_padding big (length m) in compress_blocks f h p (length p div 64))"

lemma compress_blocks_append:
  "length a = 64 * n \<Longrightarrow> compress_blocks f h (a @ b) (n + k) = compress_blocks f (compress_blocks f h a n) b k"
  by (induction n arbitrary: a h) auto

lemma compress_blocks_prefix: "length a = 64 * n \<Longrightarrow> compress_blocks f h (a @ b) n = compress_blocks f h a n"
  using compress_blocks_append [of a n f h b 0] by simp

lemma compress_blocks_take: "64 * n \<le> length d \<Longrightarrow> compress_blocks f h d n = compress_blocks f h (take (64 * n) d) n"
  using compress_blocks_prefix [of "take (64 * n) d" n f h "drop (64 * n) d"] by simp

lemma compress_blocks_next:
  assumes "64 * q \<le> length m" and "length (drop (64 * q) m @ x) = 64"
  shows "compress_blocks f h (m @ x) (Suc q) = f (compress_blocks f h m q) (drop (64 * q) m @ x)"
proof -
  have "compress_blocks f h (take (64 * q) m @ (drop (64 * q) m @ x)) (q + 1) =
      f (compress_blocks f h m q) (drop (64 * q) m @ x)"
    using assms by (subst compress_blocks_append) (simp_all add: compress_blocks_take [of q m])
  then show ?thesis by (simp only: append_assoc [symmetric] append_take_drop_id Suc_eq_plus1)
qed

text \<open>A message that comes in pieces.\<close>

definition updates :: "block_data_order \<Rightarrow> 'a md32_ctx_scheme \<Rightarrow> bytes list \<Rightarrow> 'a md32_ctx_scheme" where
  "updates block = foldl (\<lambda>c d. HASH_UPDATE block c d (of_nat (length d)))"

lemma updates_simps [simp]:
  "updates block c [] = c" "updates block c (d # ds) = updates block (HASH_UPDATE block c d (of_nat (length d))) ds"
  by (simp_all add: updates_def)

lemma HASH_UPDATE_more: "md32_ctx.more (HASH_UPDATE block c data len) = md32_ctx.more c"
  by (simp add: HASH_UPDATE_def update_blocks_def count_bits_def Let_def)

lemma updates_more: "md32_ctx.more (updates block c ds) = md32_ctx.more c"
  by (induction ds arbitrary: c) (simp_all add: HASH_UPDATE_more)

text \<open>The block function of a digest folds a compression function.\<close>

locale md32_digest =
  fixes block :: block_data_order and f :: "u32 list \<Rightarrow> bytes \<Rightarrow> u32 list"
  assumes block_folds: "64 * unat n \<le> length d \<Longrightarrow> block h d n = compress_blocks f h d (unat n)"

text \<open>A context holds the message so far: its whole blocks are compressed, its rest is kept, its bits are counted.\<close>

definition bit_count :: "'a md32_ctx_scheme \<Rightarrow> nat" where
  "bit_count c = unat (md_Nh c) * 2 ^ 32 + unat (md_Nl c)"

definition holding :: "(u32 list \<Rightarrow> bytes \<Rightarrow> u32 list) \<Rightarrow> u32 list \<Rightarrow> 'a md32_ctx_scheme \<Rightarrow> bytes \<Rightarrow> bool" where
  "holding f h0 c m \<longleftrightarrow>
     md_h c = compress_blocks f h0 m (length m div 64) \<and> unat (md_num c) = length m mod 64 \<and> length (md_data c) = 64 \<and>
     take (length m mod 64) (md_data c) = drop (64 * (length m div 64)) m"

definition md_rel :: "(u32 list \<Rightarrow> bytes \<Rightarrow> u32 list) \<Rightarrow> u32 list \<Rightarrow> 'a md32_ctx_scheme \<Rightarrow> bytes \<Rightarrow> bool" where
  "md_rel f h0 c m \<longleftrightarrow> holding f h0 c m \<and> bit_count c = 8 * length m mod 2 ^ 64"

lemma count_bits_frame [simp]:
  "md_h (count_bits c len) = md_h c" "md_num (count_bits c len) = md_num c" "md_data (count_bits c len) = md_data c"
  "md32_ctx.more (count_bits c len) = md32_ctx.more c"
  by (simp_all add: count_bits_def Let_def)

lemma two_digits: "r < b \<Longrightarrow> (x * b + r) mod (b * b) = (x mod b) * b + (r :: nat)"
  by (simp add: mod_mult2_eq)

lemma carry_iff:
  assumes "l < b" and "r < (b :: nat)"
  shows "(l + r) mod b < l \<longleftrightarrow> b \<le> l + r"
proof (cases "b \<le> l + r")
  case True
  with assms have "(l + r) mod b = l + r - b" by (simp add: le_mod_geq)
  moreover have "l + r - b < l" using assms True by linarith
  ultimately show ?thesis using True by simp
qed simp

lemma add_digits:
  assumes "l < b" and "r < (b :: nat)"
  shows "(h * b + l + (b * q + r)) mod (b * b) = (h + of_bool (b \<le> l + r) + q) mod b * b + (l + r) mod b"
proof -
  have "l + r = of_bool (b \<le> l + r) * b + (l + r) mod b"
    using assms by (cases "b \<le> l + r") (simp_all add: le_mod_geq)
  then have "h * b + l + (b * q + r) = (h + of_bool (b \<le> l + r) + q) * b + (l + r) mod b"
    by (simp add: algebra_simps)
  then show ?thesis using assms by (simp only: two_digits mod_less_divisor)
qed

lemma bit_count_add: "bit_count (count_bits c len) = (bit_count c + 8 * unat len) mod 2 ^ 64"
proof -
  let ?n = "unat len" and ?l = "unat (md_Nl c)" and ?h = "unat (md_Nh c)"
  have l: "?l < 2 ^ 32" by (rule unat_less_32)
  have n: "?n < 2 ^ 64" by (rule unat_less_64)
  have low: "unat (push_bit 3 (ucast len) :: u32) = 8 * ?n mod 2 ^ 32"
    by (simp add: push_bit_eq_mult unat_word_ariths unsigned_ucast_eq take_bit_eq_mod mod_mult_right_eq mult.commute)
  have high: "unat (ucast (drop_bit 29 len) :: u32) = ?n div 2 ^ 29 mod 2 ^ 32"
    by (simp add: unsigned_ucast_eq take_bit_eq_mod drop_bit_eq_div unat_div_distrib)
  have split: "8 * ?n = 2 ^ 32 * (?n div 2 ^ 29) + 8 * ?n mod 2 ^ 32"
    using mult_div_mod_eq [of "2 ^ 32" "8 * ?n"] div_mult_mult1 [of 8 ?n "2 ^ 29"] by simp
  let ?s = "?l + 8 * ?n mod 2 ^ 32"
  have nl: "unat (md_Nl c + push_bit 3 (ucast len)) = ?s mod 2 ^ 32"
    by (simp add: unat_word_ariths low)
  have carry: "md_Nl c + push_bit 3 (ucast len) < md_Nl c \<longleftrightarrow> 2 ^ 32 \<le> ?s"
    unfolding word_less_nat_alt nl
    by (rule carry_iff [OF l]) simp
  have low_word: "md_Nl (count_bits c len) = md_Nl c + push_bit 3 (ucast len)"
    by (simp add: count_bits_def Let_def)
  have nh: "unat (md_Nh (count_bits c len)) = (?h + of_bool (2 ^ 32 \<le> ?s) + ?n div 2 ^ 29) mod 2 ^ 32"
    by (simp add: count_bits_def Let_def carry unat_word_ariths high mod_add_right_eq mod_add_left_eq)
  have "(bit_count c + 8 * ?n) mod (2 ^ 32 * 2 ^ 32) =
      (?h + of_bool (2 ^ 32 \<le> ?s) + ?n div 2 ^ 29) mod 2 ^ 32 * 2 ^ 32 + ?s mod 2 ^ 32"
    unfolding bit_count_def by (subst split, rule add_digits [OF l]) simp
  moreover have "bit_count (count_bits c len) =
      (?h + of_bool (2 ^ 32 \<le> ?s) + ?n div 2 ^ 29) mod 2 ^ 32 * 2 ^ 32 + ?s mod 2 ^ 32"
    unfolding bit_count_def nh low_word nl ..
  moreover have "(2 :: nat) ^ 32 * 2 ^ 32 = 2 ^ 64" by simp
  ultimately show ?thesis by (simp only:)
qed

section \<open>Update refines appending\<close>

lemma md_relI:
  assumes "md_h c = compress_blocks f h0 m (length m div 64)" and "unat (md_num c) = length m mod 64"
    and "length (md_data c) = 64" and "take (length m mod 64) (md_data c) = drop (64 * (length m div 64)) m"
    and "bit_count c = 8 * length m mod 2 ^ 64"
  shows "md_rel f h0 c m"
  using assms by (simp add: md_rel_def holding_def)

lemma unat_mult_div: "unat (n div 64 * 64 :: size_t) = unat n div 64 * 64"
proof -
  have "unat n div 64 * 64 < 2 ^ 64"
    using unat_less_64 [of n] by (metis div_times_less_eq_dividend le_less_trans)
  then show ?thesis by (simp add: unat_word_ariths unat_div_distrib)
qed

lemma fill_block: "L = 64 * q + r \<Longrightarrow> r < 64 \<Longrightarrow> L + (64 - r) = 64 * Suc q" for L :: nat
  by simp

lemma partial_block:
  assumes "L = 64 * q + r" and "r + n < (64 :: nat)"
  shows "(L + n) div 64 = q" "(L + n) mod 64 = r + n"
  using assms by (simp_all add: add.assoc)

context md32_digest
begin

lemma block_one: "length d = 64 \<Longrightarrow> block h d 1 = f h d"
  using block_folds [of 1 d h] by simp

text \<open>The rest of the update when no block is begun.\<close>

lemma update_blocks_rel:
  assumes h: "md_h c = compress_blocks f h0 m k" and m: "length m = 64 * k" and "md_num c = 0"
    and "length (md_data c) = 64" and len: "unat len \<le> length data"
    and count: "bit_count c = 8 * (length m + unat len) mod 2 ^ 64"
  shows "md_rel f h0 (update_blocks block c data len) (m @ take (unat len) data)"
proof -
  let ?n = "unat len div 64" and ?d = "take (unat len) data"
  let ?m = "m @ ?d"
  have n: "unat (len div HASH_CBLOCK) = ?n" "unat (len div HASH_CBLOCK * HASH_CBLOCK) = 64 * ?n"
    using unat_mult_div [of len] by (simp_all add: HASH_CBLOCK_def unat_div_distrib)
  have zero: "0 < len div HASH_CBLOCK \<longleftrightarrow> 0 < ?n" using n(1) by (simp add: word_less_nat_alt)
  have le: "64 * ?n \<le> unat len" by simp
  have rest: "unat (len - len div HASH_CBLOCK * HASH_CBLOCK) = unat len mod 64"
    using le unfolding unat_sub_if_size n by (simp add: minus_mult_div_eq_mod)
  have lm: "length ?m div 64 = k + ?n" "length ?m mod 64 = unat len mod 64" using m len by simp_all
  have "md_h (update_blocks block c data len) = compress_blocks f (md_h c) data ?n"
    using block_folds [of "len div HASH_CBLOCK" data "md_h c"] n(1) le len zero
    by (auto simp: update_blocks_def Let_def)
  also have "\<dots> = compress_blocks f h0 ?m (k + ?n)"
    using compress_blocks_take [of ?n data] compress_blocks_take [of ?n ?d] le len h
    by (simp add: compress_blocks_append [OF m] min_absorb1)
  finally have h': "md_h (update_blocks block c data len) = compress_blocks f h0 ?m (length ?m div 64)"
    by (simp only: lm)
  have frame: "bit_count (update_blocks block c data len) = bit_count c"
    by (simp add: update_blocks_def Let_def bit_count_def)
  have tail: "drop (64 * (length ?m div 64)) ?m = take (unat len mod 64) (drop (64 * ?n) data)"
    using m len lm(1) by (simp add: drop_take minus_mult_div_eq_mod)
  show ?thesis
  proof (cases "unat len mod 64 = 0")
    case True
    then have "len - len div HASH_CBLOCK * HASH_CBLOCK = 0" using rest by (simp add: word_unat_eq_iff)
    moreover have "len div HASH_CBLOCK = 0 \<Longrightarrow> len = 0"
      using True n(1) by (auto simp: word_unat_eq_iff)
    ultimately have "md_num (update_blocks block c data len) = 0" "md_data (update_blocks block c data len) = md_data c"
      using assms(3) by (auto simp: update_blocks_def Let_def word_gt_0)
    with True h' lm tail assms(4) frame count len show ?thesis by (intro md_relI) simp_all
  next
    case False
    then have "len - len div HASH_CBLOCK * HASH_CBLOCK \<noteq> 0" using rest by (auto simp: word_unat_eq_iff)
    moreover have "len div HASH_CBLOCK = 0 \<Longrightarrow> unat len = unat len mod 64" "len div HASH_CBLOCK = 0 \<Longrightarrow> ?n = 0"
      using n(1) by (auto simp: word_unat_eq_iff)
    ultimately have num: "unat (md_num (update_blocks block c data len)) = unat len mod 64"
      and data: "md_data (update_blocks block c data len) =
        blit (md_data c) 0 (take (unat len mod 64) (drop (64 * ?n) data))"
      using rest n(2) by (auto simp: update_blocks_def Let_def word_gt_0 unsigned_ucast_eq take_bit_nat_eq_self
        intro: less_trans)
    have "unat len mod 64 \<le> length data - 64 * ?n"
      using mult_div_mod_eq [of 64 "unat len"] len by linarith
    then have "length (take (unat len mod 64) (drop (64 * ?n) data)) = unat len mod 64" by simp
    with data num h' lm tail assms(4) frame count len show ?thesis
      by (intro md_relI) (simp_all add: length_blit, simp add: blit_def)
  qed
qed

text \<open>
  The first block is completed.
\<close>

lemma update_full_rel:
  assumes hold: "holding f h0 c m" and len: "unat len \<le> length data" and full: "64 \<le> unat len + length m mod 64"
    and count: "bit_count c = 8 * (length m + unat len) mod 2 ^ 64" and k: "k = 64 - length m mod 64" "unat kw = k"
  shows "md_rel f h0 (update_blocks block
      (c\<lparr>md_h := block (md_h c) (blit (md_data c) (length m mod 64) (take k data)) 1, md_num := 0, md_data := replicate 64 0\<rparr>)
      (drop k data) (len - kw)) (m @ take (unat len) data)"
    (is "md_rel f h0 (update_blocks block ?c _ _) _")
proof -
  let ?r = "length m mod 64" and ?q = "length m div 64" and ?m = "m @ take k data"
  let ?filled = "blit (md_data c) ?r (take k data)"
  have lm: "length m = 64 * ?q + ?r" and r: "?r < 64" by simp_all
  have k_le: "k \<le> length data" "k \<le> unat len" using full len k by linarith+
  have left: "unat (len - kw) = unat len - k" using k_le k(2) by (simp add: unat_sub_if_size)
  have filled: "?filled = drop (64 * ?q) m @ take k data"
    using hold k_le r k(1) by (simp add: holding_def blit_def min_absorb2)
  then have filled_64: "length ?filled = 64" using r k_le k(1) by (simp add: minus_mult_div_eq_mod)
  have m: "length ?m = 64 * Suc ?q" using fill_block [OF lm r] k_le k(1) by (simp add: min_absorb2)
  have h: "md_h ?c = compress_blocks f h0 ?m (Suc ?q)"
    using compress_blocks_next [of ?q m "take k data" f h0] block_one [OF filled_64] filled filled_64 hold
    by (simp add: holding_def)
  have both: "?m @ take (unat len - k) (drop k data) = m @ take (unat len) data"
    using k_le by (simp add: take_add [symmetric])
  have "bit_count ?c = 8 * (length ?m + unat (len - kw)) mod 2 ^ 64"
    unfolding left using count k_le len by (simp add: bit_count_def min_absorb2)
  then have "md_rel f h0 (update_blocks block ?c (drop k data) (len - kw)) (?m @ take (unat (len - kw)) (drop k data))"
    using len left by (intro update_blocks_rel [OF h m]) simp_all
  then show ?thesis by (simp only: left both)
qed

text \<open>The block that is begun is not completed.\<close>

lemma update_few_rel:
  assumes hold: "holding f h0 c m" and len: "unat len \<le> length data" and few: "length m mod 64 + unat len < 64"
    and count: "bit_count c = 8 * (length m + unat len) mod 2 ^ 64"
  shows "md_rel f h0 (c\<lparr>md_data := blit (md_data c) (length m mod 64) (take (unat len) data), md_num := md_num c + ucast len\<rparr>)
      (m @ take (unat len) data)"
    (is "md_rel f h0 ?c ?m")
proof (rule md_relI)
  let ?r = "length m mod 64" and ?q = "length m div 64"
  have lm: "length m = 64 * ?q + ?r" by simp
  have l: "length ?m div 64 = ?q" "length ?m mod 64 = ?r + unat len"
    using partial_block [OF lm] few len by (simp_all add: min_absorb2)
  have small: "unat (ucast len :: u32) = unat len"
    using few by (simp add: unsigned_ucast_eq take_bit_nat_eq_self)
  note hold = hold [unfolded holding_def]
  show "md_h ?c = compress_blocks f h0 ?m (length ?m div 64)"
    unfolding l using hold compress_blocks_take [of ?q m f h0] compress_blocks_take [of ?q ?m f h0] lm by simp
  show "unat (md_num ?c) = length ?m mod 64"
    unfolding l using hold small few by (simp add: unat_word_ariths)
  show "length (md_data ?c) = 64" using hold few len by (simp add: length_blit)
  show "take (length ?m mod 64) (md_data ?c) = drop (64 * (length ?m div 64)) ?m"
    unfolding l using take_blit [of ?r "take (unat len) data" "md_data c"] hold few len lm by simp
  show "bit_count ?c = 8 * length ?m mod 2 ^ 64"
    using count len by (simp add: bit_count_def)
qed

text \<open>A call of \<open>HASH_UPDATE\<close> appends its data to the message.\<close>

lemma update_rel:
  assumes rel: "md_rel f h0 c m" and len: "unat len \<le> length data"
  shows "md_rel f h0 (HASH_UPDATE block c data len) (m @ take (unat len) data)"
proof (cases "len = 0")
  case True
  with rel show ?thesis by (simp add: HASH_UPDATE_def)
next
  case False
  let ?c = "count_bits c len" and ?r = "length m mod 64" and ?n = "ucast (md_num c) :: size_t"
  have hold: "holding f h0 ?c m" using rel by (simp add: md_rel_def holding_def)
  have count: "bit_count ?c = 8 * (length m + unat len) mod 2 ^ 64"
    using rel unfolding bit_count_add by (simp add: md_rel_def holding_def mod_add_left_eq distrib_left)
  have n: "unat ?n = ?r"
    using hold unat_less_32 [of "md_num c"] by (simp add: holding_def unsigned_ucast_eq take_bit_nat_eq_self)
  have r: "?r < 64" by simp
  have k: "unat (HASH_CBLOCK - ?n) = 64 - ?r"
    using n r by (simp add: HASH_CBLOCK_def unat_sub_if_size)
  have full: "HASH_CBLOCK \<le> len \<or> HASH_CBLOCK \<le> len + ?n \<longleftrightarrow> 64 \<le> unat len + ?r"
    using n r by (cases "unat len < 64") (auto simp: HASH_CBLOCK_def word_le_nat_alt unat_word_ariths)
  have size: "unat HASH_CBLOCK = 64" by (simp add: HASH_CBLOCK_def)
  have zero: "?n = 0 \<longleftrightarrow> ?r = 0" by (simp add: word_unat_eq_iff n)
  consider "?r = 0" | "?r \<noteq> 0" "64 \<le> unat len + ?r" | "?r \<noteq> 0" "?r + unat len < 64" by linarith
  then show ?thesis
  proof cases
    case 1
    then have "length m = 64 * (length m div 64)" by (simp add: dvd_eq_mod_eq_0)
    with 1 hold have "md_rel f h0 (update_blocks block ?c data len) (m @ take (unat len) data)"
      by (intro update_blocks_rel [OF _ _ _ _ len count]) (simp_all add: holding_def word_unat_eq_iff)
    with False 1 zero show ?thesis by (simp add: HASH_UPDATE_def Let_def)
  next
    case 2
    then show ?thesis
      using update_full_rel [OF hold len 2(2) count refl k] False unfolding HASH_UPDATE_def Let_def
      by (simp only: zero full if_True if_False simp_thms count_bits_frame n k size)
  next
    case 3
    then have "\<not> 64 \<le> unat len + ?r" by linarith
    with 3 show ?thesis
      using update_few_rel [OF hold len 3(2) count] False unfolding HASH_UPDATE_def Let_def
      by (simp only: zero full if_True if_False simp_thms count_bits_frame n)
  qed
qed

end

section \<open>The padding\<close>

lemma be_bytes_add: "be_bytes (m + n) v = be_bytes m (v div 256 ^ n) @ be_bytes n v"
  by (induction n arbitrary: v) (simp_all add: div_mult2_eq)

lemma be_bytes_mod: "be_bytes n (v mod 256 ^ n) = be_bytes n v"
proof -
  have "be_bytes n (v mod 256 ^ n) = be_bytes (length (be_bytes n v)) (be_nat (be_bytes n v))" by simp
  then show ?thesis by (simp only: be_bytes_be_nat)
qed

lemma be_bytes_4: "be_bytes 4 v = [of_nat (v div 2 ^ 24), of_nat (v div 2 ^ 16), of_nat (v div 2 ^ 8), of_nat v]"
proof -
  have low: "of_nat (n mod 256) = (of_nat n :: u8)" for n
    by (rule word_unat_eq_iff [THEN iffD2]) (simp add: unat_of_nat)
  have "be_bytes (Suc (Suc (Suc (Suc 0)))) v = [of_nat (v div 256 div 256 div 256), of_nat (v div 256 div 256),
      of_nat (v div 256), of_nat v]"
    unfolding be_bytes.simps low by simp
  also have "\<dots> = [of_nat (v div 2 ^ 24), of_nat (v div 2 ^ 16), of_nat (v div 2 ^ 8), of_nat v]"
    unfolding div_mult2_eq [symmetric] by simp
  finally show ?thesis by (simp only: numeral_eq_Suc pred_numeral_simps BitM.simps Num.num.simps)
qed

lemma ucast_of_nat_unat: "(ucast (w :: u32) :: u8) = of_nat (unat w)"
  by (rule word_unat_eq_iff [THEN iffD2]) (simp add: unat_of_nat unsigned_ucast_eq take_bit_eq_mod)

lemma l2c_big_bytes: "l2c_big l = be_bytes 4 (unat l)"
  unfolding l2c_big_def be_bytes_4 ucast_of_nat_unat by (simp add: drop_bit_eq_div unat_div_distrib)

lemma l2c_little_bytes: "l2c_little l = rev (l2c_big l)"
  by (simp add: l2c_little_def l2c_big_def)

lemma count_bytes: "l2c_big (md_Nh c) @ l2c_big (md_Nl c) = be_bytes 8 (bit_count c)"
proof -
  have "be_bytes (4 + 4) (bit_count c) = l2c_big (md_Nh c) @ be_bytes 4 (bit_count c mod 256 ^ 4)"
    unfolding be_bytes_add be_bytes_mod l2c_big_bytes using unat_less_32 [of "md_Nl c"] by (simp add: bit_count_def)
  also have "bit_count c mod 256 ^ 4 = unat (md_Nl c)"
    using unat_less_32 [of "md_Nl c"] by (simp add: bit_count_def)
  finally show ?thesis by (simp add: l2c_big_bytes)
qed

lemma last_block:
  "i \<le> 56 \<Longrightarrow> length d = 64 \<Longrightarrow> length count = 8 \<Longrightarrow>
    blit (blit d i (replicate (56 - i) 0)) 56 count = take i d @ replicate (56 - i) 0 @ count"
  by (simp add: blit_def)

text \<open>The length field.\<close>

definition md_count :: "bool \<Rightarrow> nat \<Rightarrow> bytes" where
  "md_count big n = (if big then be_bytes 8 n else rev (be_bytes 8 n))"

lemma length_md_count [simp]: "length (md_count big n) = 8"
  by (simp add: md_count_def)

lemma count_field:
  assumes "bit_count c = n mod 2 ^ 64"
  shows "length_field big (md_Nh c) (md_Nl c) = md_count big n"
proof -
  have "be_bytes 8 n = be_bytes 8 (n mod 256 ^ 8)" by (rule be_bytes_mod [symmetric])
  also have "\<dots> = l2c_big (md_Nh c) @ l2c_big (md_Nl c)" using assms by (simp add: count_bytes)
  finally show ?thesis by (simp add: md_count_def length_field_def l2c_little_bytes)
qed

lemma md_padding_one: "len mod 64 < 56 \<Longrightarrow> md_padding big len = 0x80 # replicate (55 - len mod 64) 0 @ md_count big (8 * len)"
  by (simp add: md_padding_def md_count_def Let_def le_mod_geq)

lemma md_padding_two:
  assumes "56 \<le> len mod 64"
  shows "md_padding big len = (0x80 # replicate (63 - len mod 64) 0) @ replicate 56 0 @ md_count big (8 * len)"
proof -
  have "len mod 64 < 64" by simp
  with assms have "(55 + 64 - len mod 64) mod 64 = (63 - len mod 64) + 56" by simp
  then show ?thesis unfolding md_padding_def md_count_def Let_def
    by (simp only: replicate_add append_assoc append_Cons append_Nil)
qed

lemma md_hash_two:
  fixes m :: bytes and big :: bool
  defines "p1 \<equiv> 0x80 # replicate (63 - length m mod 64) 0" and "p2 \<equiv> replicate 56 0 @ md_count big (8 * length m)"
    and "tail \<equiv> drop (64 * (length m div 64)) m"
  assumes r: "56 \<le> length m mod 64"
  shows "length (tail @ p1) = 64" "length p2 = 64"
    and "md_hash big f h0 m = f (f (compress_blocks f h0 m (length m div 64)) (tail @ p1)) p2"
proof -
  let ?q = "length m div 64"
  have less: "length m mod 64 < 64" by simp
  show p1: "length (tail @ p1) = 64"
    using less by (simp add: p1_def tail_def minus_mult_div_eq_mod)
  show p2: "length p2 = 64" by (simp add: p2_def)
  have p: "md_padding big (length m) = p1 @ p2"
    using r unfolding p1_def p2_def by (simp only: md_padding_two)
  have m: "length (m @ p1) = 64 * Suc ?q" using p1 by (simp add: tail_def)
  then have "length (m @ p1 @ p2) = 64 * (Suc ?q + 1)" using p2 by simp
  then have l: "length (m @ p1 @ p2) div 64 = Suc ?q + 1"
    by (simp only: nonzero_mult_div_cancel_left zero_neq_numeral not_False_eq_True)
  have "md_hash big f h0 m = compress_blocks f h0 ((m @ p1) @ p2) (Suc ?q + 1)"
    unfolding md_hash_def p Let_def l append_assoc ..
  also have "\<dots> = f (compress_blocks f h0 (m @ p1) (Suc ?q)) p2"
    unfolding compress_blocks_append [OF m] using p2 by simp
  also have "compress_blocks f h0 (m @ p1) (Suc ?q) = f (compress_blocks f h0 m ?q) (tail @ p1)"
    unfolding tail_def by (rule compress_blocks_next [OF _ p1 [unfolded tail_def]]) simp
  finally show "md_hash big f h0 m = f (f (compress_blocks f h0 m ?q) (tail @ p1)) p2" .
qed

context md32_digest
begin

lemma final_rel:
  assumes rel: "md_rel f h0 c m"
  shows "\<exists>c'. HASH_FINAL big block make_string c = (make_string c', c') \<and> md_h c' = md_hash big f h0 m \<and>
    md32_ctx.more c' = md32_ctx.more c"
proof -
  let ?r = "length m mod 64" and ?q = "length m div 64"
  let ?tail = "drop (64 * ?q) m" and ?d = "(md_data c)[?r := 0x80]" and ?n = "md_count big (8 * length m)"
  have h: "md_h c = compress_blocks f h0 m ?q" and num: "unat (md_num c) = ?r" and data: "length ?d = 64"
    and held: "take ?r (md_data c) = ?tail" and count: "bit_count c = 8 * length m mod 2 ^ 64"
    using rel by (simp_all add: md_rel_def holding_def)
  have r: "?r < 64" by simp
  have first: "take (?r + 1) ?d = ?tail @ [0x80]"
    using held data r by (simp add: take_Suc_conv_app_nth)
  have tail: "length ?tail = ?r" by (simp add: minus_mult_div_eq_mod)
  note field = count_field [OF count, of big]
  show ?thesis
  proof (cases "?r < 56")
    case True
    let ?p = "md_padding big (length m)"
    have d: "blit (blit ?d (?r + 1) (replicate (56 - (?r + 1)) 0)) 56 ?n = ?tail @ ?p"
      using True last_block [of "?r + 1" ?d ?n] data first by (simp add: md_padding_one)
    have p: "length (?tail @ ?p) = 64" using True tail by (simp add: md_padding_one)
    have l: "length (m @ ?p) div 64 = Suc ?q" using p tail by simp
    have "block (md_h c) (?tail @ ?p) 1 = md_hash big f h0 m"
      unfolding md_hash_def Let_def l h block_one [OF p] by (rule compress_blocks_next [symmetric, OF _ p]) simp
    then show ?thesis unfolding HASH_FINAL_def Let_def num using True d by (simp add: field)
  next
    case False
    let ?p1 = "0x80 # replicate (63 - ?r) 0 :: bytes" and ?p2 = "replicate 56 0 @ ?n"
    have le: "56 \<le> ?r" using False by linarith
    have d1: "blit ?d (?r + 1) (replicate (64 - (?r + 1)) 0) = ?tail @ ?p1"
      using data first by (simp add: blit_def)
    note two = md_hash_two [OF le]
    have d2: "blit (blit (?tail @ ?p1) 0 (replicate (56 - 0) 0)) 56 ?n = ?p2"
      using last_block [of 0 "?tail @ ?p1" ?n] two(1) by simp
    have "block (block (md_h c) (?tail @ ?p1) 1) ?p2 1 = md_hash big f h0 m"
      unfolding two(3) h block_one [OF two(1)] block_one [OF two(2)] ..
    then show ?thesis unfolding HASH_FINAL_def Let_def num using False d1 d2 by (simp add: field)
  qed
qed

text \<open>The pieces a message comes in do not matter.\<close>

lemma updates_rel:
  assumes "md_rel f h0 c m" and "\<forall>d \<in> set ds. length d < 2 ^ 64"
  shows "md_rel f h0 (updates block c ds) (m @ concat ds)"
  using assms
proof (induction ds arbitrary: c m)
  case (Cons d ds)
  then have "unat (of_nat (length d) :: size_t) = length d" by (intro unat_of_nat_less) auto
  then have "md_rel f h0 (HASH_UPDATE block c d (of_nat (length d))) (m @ d)"
    using update_rel [OF Cons.prems(1), of "of_nat (length d)" d] by simp
  from Cons.IH [OF this] Cons.prems(2) show ?case by simp
qed simp

end

end
