(* ===== verification/Sha256.thy ===== *)
theory Sha256
  imports Md32
begin

text \<open>
  SHA-256 and SHA-224 (\<open>crypto/fipsmodule/sha/sha256.c\<close>, the C version that a build without assembly
  uses) over the collector of \<open>md32_common.h\<close>, and that they compute the hash function of
  FIPS 180-4, whatever the pieces the message is given in.
\<close>

section \<open>The context\<close>

record SHA256_CTX = md32_ctx +
  md_len :: u32

definition SHA224_DIGEST_LENGTH :: u32 where
  "SHA224_DIGEST_LENGTH = 28"

definition SHA256_DIGEST_LENGTH :: u32 where
  "SHA256_DIGEST_LENGTH = 32"

definition SHA224_Init :: SHA256_CTX where
  "SHA224_Init =
     \<lparr>md_h = [0xc1059ed8, 0x367cd507, 0x3070dd17, 0xf70e5939, 0xffc00b31, 0x68581511, 0x64f98fa7, 0xbefa4fa4],
      md_Nl = 0, md_Nh = 0, md_data = replicate 64 0, md_num = 0, md_len = SHA224_DIGEST_LENGTH\<rparr>"

definition SHA256_Init :: SHA256_CTX where
  "SHA256_Init =
     \<lparr>md_h = [0x6a09e667, 0xbb67ae85, 0x3c6ef372, 0xa54ff53a, 0x510e527f, 0x9b05688c, 0x1f83d9ab, 0x5be0cd19],
      md_Nl = 0, md_Nh = 0, md_data = replicate 64 0, md_num = 0, md_len = SHA256_DIGEST_LENGTH\<rparr>"

section \<open>The block function\<close>

text \<open>The table, by the rows of the source.\<close>

definition K256 :: "u32 list" where
  "K256 = concat
    [[0x428a2f98, 0x71374491, 0xb5c0fbcf, 0xe9b5dba5, 0x3956c25b],
     [0x59f111f1, 0x923f82a4, 0xab1c5ed5, 0xd807aa98, 0x12835b01],
     [0x243185be, 0x550c7dc3, 0x72be5d74, 0x80deb1fe, 0x9bdc06a7],
     [0xc19bf174, 0xe49b69c1, 0xefbe4786, 0x0fc19dc6, 0x240ca1cc],
     [0x2de92c6f, 0x4a7484aa, 0x5cb0a9dc, 0x76f988da, 0x983e5152],
     [0xa831c66d, 0xb00327c8, 0xbf597fc7, 0xc6e00bf3, 0xd5a79147],
     [0x06ca6351, 0x14292967, 0x27b70a85, 0x2e1b2138, 0x4d2c6dfc],
     [0x53380d13, 0x650a7354, 0x766a0abb, 0x81c2c92e, 0x92722c85],
     [0xa2bfe8a1, 0xa81a664b, 0xc24b8b70, 0xc76c51a3, 0xd192e819],
     [0xd6990624, 0xf40e3585, 0x106aa070, 0x19a4c116, 0x1e376c08],
     [0x2748774c, 0x34b0bcb5, 0x391c0cb3, 0x4ed8aa4a, 0x5b9cca4f],
     [0x682e6ff3, 0x748f82ee, 0x78a5636f, 0x84c87814, 0x8cc70208],
     [0x90befffa, 0xa4506ceb, 0xbef9a3f7, 0xc67178f2]]"

definition ROTATE :: "u32 \<Rightarrow> nat \<Rightarrow> u32" where
  "ROTATE a n = push_bit n a OR drop_bit (32 - n) a"

definition Sigma0 :: "u32 \<Rightarrow> u32" where
  "Sigma0 x = ROTATE x 30 XOR ROTATE x 19 XOR ROTATE x 10"

definition Sigma1 :: "u32 \<Rightarrow> u32" where
  "Sigma1 x = ROTATE x 26 XOR ROTATE x 21 XOR ROTATE x 7"

definition sigma0 :: "u32 \<Rightarrow> u32" where
  "sigma0 x = ROTATE x 25 XOR ROTATE x 14 XOR drop_bit 3 x"

definition sigma1 :: "u32 \<Rightarrow> u32" where
  "sigma1 x = ROTATE x 15 XOR ROTATE x 13 XOR drop_bit 10 x"

definition Ch :: "u32 \<Rightarrow> u32 \<Rightarrow> u32 \<Rightarrow> u32" where
  "Ch x y z = (x AND y) XOR (NOT x AND z)"

definition Maj :: "u32 \<Rightarrow> u32 \<Rightarrow> u32 \<Rightarrow> u32" where
  "Maj x y z = (x AND y) XOR (x AND z) XOR (y AND z)"

text \<open>
  The macros assign to the variables named in the positions of \<open>d\<close> and \<open>h\<close>: here they return the two
  new values, in this order. \<open>HOST_c2l\<close> returns the word and the advanced pointer.
\<close>

definition ROUND_00_15 ::
    "nat \<Rightarrow> u32 \<Rightarrow> u32 \<Rightarrow> u32 \<Rightarrow> u32 \<Rightarrow> u32 \<Rightarrow> u32 \<Rightarrow> u32 \<Rightarrow> u32 \<Rightarrow> u32 \<Rightarrow> u32 \<times> u32" where
  "ROUND_00_15 i T1 a b c d e f g h =
     (let T1 = T1 + (h + Sigma1 e + Ch e f g + K256 ! i);
          h = Sigma0 a + Maj a b c
      in (d + T1, h + T1))"

definition HOST_c2l :: "bytes \<Rightarrow> u32 \<times> bytes" where
  "HOST_c2l c =
     (push_bit 24 (ucast (c ! 0)) OR push_bit 16 (ucast (c ! 1)) OR push_bit 8 (ucast (c ! 2)) OR ucast (c ! 3),
      drop 4 c)"

text \<open>The words are loaded as the first sixteen rounds need them.\<close>

definition LOAD_ROUND ::
    "nat \<Rightarrow> u32 \<Rightarrow> u32 \<Rightarrow> u32 \<Rightarrow> u32 \<Rightarrow> u32 \<Rightarrow> u32 \<Rightarrow> u32 \<Rightarrow> u32 \<Rightarrow> u32 list \<times> bytes \<Rightarrow> u32 \<times> u32 \<times> u32 list \<times> bytes" where
  "LOAD_ROUND i a b c d e f g h s =
     (let (X, data) = s;
          (l, data) = HOST_c2l data;
          X = X[i := l];
          (d, h) = ROUND_00_15 i l a b c d e f g h
      in (d, h, X, data))"

definition ROUND_16_63 ::
    "nat \<Rightarrow> u32 \<Rightarrow> u32 \<Rightarrow> u32 \<Rightarrow> u32 \<Rightarrow> u32 \<Rightarrow> u32 \<Rightarrow> u32 \<Rightarrow> u32 \<Rightarrow> u32 list \<Rightarrow> u32 \<times> u32 \<times> u32 list" where
  "ROUND_16_63 i a b c d e f g h X =
     (let s0 = sigma0 (X ! ((i + 1) AND 0x0f));
          s1 = sigma1 (X ! ((i + 14) AND 0x0f));
          T1 = X ! (i AND 0x0f) + (s0 + s1 + X ! ((i + 9) AND 0x0f));
          X = X[i AND 0x0f := T1];
          (d, h) = ROUND_00_15 i T1 a b c d e f g h
      in (d, h, X))"

type_synonym sha_vars = "u32 \<times> u32 \<times> u32 \<times> u32 \<times> u32 \<times> u32 \<times> u32 \<times> u32"

definition eight_00_15 :: "nat \<Rightarrow> sha_vars \<Rightarrow> u32 list \<times> bytes \<Rightarrow> sha_vars \<times> u32 list \<times> bytes" where
  "eight_00_15 i v s =
     (let (a, b, c, d, e, f, g, h) = v;
          (d, h, s) = LOAD_ROUND (i + 0) a b c d e f g h s;
          (c, g, s) = LOAD_ROUND (i + 1) h a b c d e f g s;
          (b, f, s) = LOAD_ROUND (i + 2) g h a b c d e f s;
          (a, e, s) = LOAD_ROUND (i + 3) f g h a b c d e s;
          (h, d, s) = LOAD_ROUND (i + 4) e f g h a b c d s;
          (g, c, s) = LOAD_ROUND (i + 5) d e f g h a b c s;
          (f, b, s) = LOAD_ROUND (i + 6) c d e f g h a b s;
          (e, a, s) = LOAD_ROUND (i + 7) b c d e f g h a s
      in ((a, b, c, d, e, f, g, h), s))"

definition eight_16_63 :: "nat \<Rightarrow> sha_vars \<Rightarrow> u32 list \<Rightarrow> sha_vars \<times> u32 list" where
  "eight_16_63 i v X =
     (let (a, b, c, d, e, f, g, h) = v;
          (d, h, X) = ROUND_16_63 (i + 0) a b c d e f g h X;
          (c, g, X) = ROUND_16_63 (i + 1) h a b c d e f g X;
          (b, f, X) = ROUND_16_63 (i + 2) g h a b c d e f X;
          (a, e, X) = ROUND_16_63 (i + 3) f g h a b c d e X;
          (h, d, X) = ROUND_16_63 (i + 4) e f g h a b c d X;
          (g, c, X) = ROUND_16_63 (i + 5) d e f g h a b c X;
          (f, b, X) = ROUND_16_63 (i + 6) c d e f g h a b X;
          (e, a, X) = ROUND_16_63 (i + 7) b c d e f g h a X
      in ((a, b, c, d, e, f, g, h), X))"

function loop_16_63 :: "nat \<Rightarrow> sha_vars \<Rightarrow> u32 list \<Rightarrow> sha_vars" where
  "loop_16_63 i v X =
     (if i < 64 then let (v, X) = eight_16_63 i v X in loop_16_63 (i + 8) v X else v)"
  by pat_completeness auto
termination by (relation "measure (\<lambda>(i, _). 64 - i)") auto

text \<open>One turn of \<open>while (num--)\<close>: the state and the advanced pointer.\<close>

definition sha256_block :: "u32 list \<Rightarrow> bytes \<Rightarrow> u32 list \<times> bytes" where
  "sha256_block state data =
     (let v = (state ! 0, state ! 1, state ! 2, state ! 3, state ! 4, state ! 5, state ! 6, state ! 7);
          (v, s) = eight_00_15 0 v (replicate 16 0, data);
          (v, X, data) = eight_00_15 8 v s;
          (a, b, c, d, e, f, g, h) = loop_16_63 16 v X
      in ([state ! 0 + a, state ! 1 + b, state ! 2 + c, state ! 3 + d,
           state ! 4 + e, state ! 5 + f, state ! 6 + g, state ! 7 + h], data))"

primrec sha256_blocks :: "u32 list \<Rightarrow> bytes \<Rightarrow> nat \<Rightarrow> u32 list" where
  "sha256_blocks state data 0 = state"
| "sha256_blocks state data (Suc num) =
     (let (state, data) = sha256_block state data in sha256_blocks state data num)"

definition sha256_block_data_order :: block_data_order where
  "sha256_block_data_order state data num = sha256_blocks state data (unat num)"

definition SHA256_TransformBlocks :: block_data_order where
  "SHA256_TransformBlocks state data num_blocks = sha256_block_data_order state data num_blocks"

section \<open>The operations\<close>

definition make_string :: "SHA256_CTX \<Rightarrow> bytes option" where
  "make_string c =
     (if md_len c = SHA224_DIGEST_LENGTH then Some (concat (map l2c_big (take 7 (md_h c))))
      else if md_len c = SHA256_DIGEST_LENGTH then Some (concat (map l2c_big (take 8 (md_h c))))
      else if SHA256_DIGEST_LENGTH < md_len c then None
      else Some (concat (map l2c_big (take (unat (md_len c div 4)) (md_h c)))))"

definition SHA256_Update :: "SHA256_CTX \<Rightarrow> bytes \<Rightarrow> size_t \<Rightarrow> SHA256_CTX" where
  "SHA256_Update = HASH_UPDATE sha256_block_data_order"

definition SHA256_Transform :: "SHA256_CTX \<Rightarrow> bytes \<Rightarrow> SHA256_CTX" where
  "SHA256_Transform = HASH_TRANSFORM sha256_block_data_order"

definition SHA256_Final :: "SHA256_CTX \<Rightarrow> bytes option \<times> SHA256_CTX" where
  "SHA256_Final = HASH_FINAL True sha256_block_data_order make_string"

definition SHA224_Update :: "SHA256_CTX \<Rightarrow> bytes \<Rightarrow> size_t \<Rightarrow> SHA256_CTX" where
  "SHA224_Update = SHA256_Update"

definition SHA224_Final :: "SHA256_CTX \<Rightarrow> bytes option \<times> SHA256_CTX" where
  "SHA224_Final = SHA256_Final"

definition SHA224 :: "bytes \<Rightarrow> size_t \<Rightarrow> bytes option" where
  "SHA224 data len = fst (SHA224_Final (SHA224_Update SHA224_Init data len))"

definition SHA256 :: "bytes \<Rightarrow> size_t \<Rightarrow> bytes option" where
  "SHA256 data len = fst (SHA256_Final (SHA256_Update SHA256_Init data len))"

section \<open>FIPS 180-4\<close>

text \<open>
  The constants: the first thirty-two bits of the fractional parts of the cube roots of the first
  sixty-four primes, and of the square roots of the first eight; for SHA-224 the second thirty-two bits
  of those of the next eight. \<open>iroot k n\<close> is the integer part of the \<open>k\<close>-th root, found by bisection.
\<close>

function root_between :: "nat \<Rightarrow> nat \<Rightarrow> nat \<Rightarrow> nat \<Rightarrow> nat" where
  "root_between k n lo hi =
     (if hi \<le> lo + 1 then lo
      else let mid = (lo + hi) div 2 in
        if mid ^ k \<le> n then root_between k n mid hi else root_between k n lo mid)"
  by pat_completeness auto
termination by (relation "measure (\<lambda>(_, _, lo, hi). hi - lo)") auto

definition iroot :: "nat \<Rightarrow> nat \<Rightarrow> nat" where
  "iroot k n = root_between k n 0 (n + 1)"

definition fips_primes :: "nat list" where
  "fips_primes =
    [2, 3, 5, 7, 11, 13, 17, 19, 23, 29, 31, 37, 41, 43, 47, 53, 59, 61, 67, 71, 73, 79, 83, 89, 97, 101, 103, 107,
     109, 113, 127, 131, 137, 139, 149, 151, 157, 163, 167, 173, 179, 181, 191, 193, 197, 199, 211, 223, 227, 229,
     233, 239, 241, 251, 257, 263, 269, 271, 277, 281, 283, 293, 307, 311]"

definition fips_K :: "u32 list" where
  "fips_K = map (\<lambda>p. of_nat (iroot 3 (p * 2 ^ 96))) fips_primes"

definition fips_H256 :: "u32 list" where
  "fips_H256 = map (\<lambda>p. of_nat (iroot 2 (p * 2 ^ 64))) (take 8 fips_primes)"

definition fips_H224 :: "u32 list" where
  "fips_H224 = map (\<lambda>p. of_nat (iroot 2 (p * 2 ^ 128))) (take 8 (drop 8 fips_primes))"

text \<open>The functions, with the rotations to the right of the standard, the schedule, the rounds.\<close>

definition fips_S0 :: "u32 \<Rightarrow> u32" where
  "fips_S0 x = word_rotr 2 x XOR word_rotr 13 x XOR word_rotr 22 x"

definition fips_S1 :: "u32 \<Rightarrow> u32" where
  "fips_S1 x = word_rotr 6 x XOR word_rotr 11 x XOR word_rotr 25 x"

definition fips_s0 :: "u32 \<Rightarrow> u32" where
  "fips_s0 x = word_rotr 7 x XOR word_rotr 18 x XOR drop_bit 3 x"

definition fips_s1 :: "u32 \<Rightarrow> u32" where
  "fips_s1 x = word_rotr 17 x XOR word_rotr 19 x XOR drop_bit 10 x"

fun fips_W :: "bytes \<Rightarrow> nat \<Rightarrow> u32" where
  "fips_W m t =
     (if t < 16 then of_nat (be_nat (take 4 (drop (4 * t) m)))
      else fips_s1 (fips_W m (t - 2)) + fips_W m (t - 7) + fips_s0 (fips_W m (t - 15)) + fips_W m (t - 16))"

fun fips_round :: "u32 \<Rightarrow> u32 \<Rightarrow> sha_vars \<Rightarrow> sha_vars" where
  "fips_round k w (a, b, c, d, e, f, g, h) =
     (let T1 = h + fips_S1 e + ((e AND f) XOR (NOT e AND g)) + k + w;
          T2 = fips_S0 a + ((a AND b) XOR (a AND c) XOR (b AND c))
      in (T1 + T2, a, b, c, d + T1, e, f, g))"

primrec fips_rounds :: "bytes \<Rightarrow> sha_vars \<Rightarrow> nat \<Rightarrow> sha_vars" where
  "fips_rounds m v 0 = v"
| "fips_rounds m v (Suc t) = fips_round (fips_K ! t) (fips_W m t) (fips_rounds m v t)"

fun vars_list :: "sha_vars \<Rightarrow> u32 list" where
  "vars_list (a, b, c, d, e, f, g, h) = [a, b, c, d, e, f, g, h]"

definition vars_of :: "u32 list \<Rightarrow> sha_vars" where
  "vars_of H = (H ! 0, H ! 1, H ! 2, H ! 3, H ! 4, H ! 5, H ! 6, H ! 7)"

definition fips_compress :: "u32 list \<Rightarrow> bytes \<Rightarrow> u32 list" where
  "fips_compress H m = map2 (+) (vars_list (vars_of H)) (vars_list (fips_rounds m (vars_of H) 64))"

definition fips_SHA256 :: "bytes \<Rightarrow> bytes" where
  "fips_SHA256 m = concat (map (\<lambda>w. be_bytes 4 (unat w)) (md_hash True fips_compress fips_H256 m))"

definition fips_SHA224 :: "bytes \<Rightarrow> bytes" where
  "fips_SHA224 m = concat (map (\<lambda>w. be_bytes 4 (unat w)) (take 7 (md_hash True fips_compress fips_H224 m)))"

section \<open>The constants are those of the standard\<close>

declare root_between.simps [simp del] fips_W.simps [simp del] loop_16_63.simps [simp del]

lemma root_between_unique:
  assumes "lo ^ k \<le> n" and "n < hi ^ k" and "r ^ k \<le> n" and "n < (r + 1) ^ k"
  shows "root_between k n lo hi = r"
  using assms
proof (induction k n lo hi rule: root_between.induct)
  case (1 k n lo hi)
  have "lo < r + 1" "r < hi"
    using 1 power_less_imp_less_base by (metis le_less_trans zero_le)+
  show ?case
  proof (cases "hi \<le> lo + 1")
    case True
    with \<open>lo < r + 1\<close> \<open>r < hi\<close> have "lo = r" by linarith
    with True show ?thesis by (subst root_between.simps) simp
  next
    case False
    let ?mid = "(lo + hi) div 2"
    show ?thesis
      using 1 False by (cases "?mid ^ k \<le> n") (simp_all add: root_between.simps [of k n lo hi] Let_def)
  qed
qed

lemma iroot_unique:
  assumes "0 < k" and "r ^ k \<le> n" and "n < (r + 1) ^ k"
  shows "iroot k n = r"
proof -
  have "n < (n + 1) ^ k" using assms(1) by (metis less_add_one less_le_trans self_le_power le_add2 Suc_eq_plus1 Suc_leI)
  with assms show ?thesis unfolding iroot_def by (intro root_between_unique) (auto simp: zero_power)
qed

definition root_bits :: "nat \<Rightarrow> nat \<Rightarrow> nat \<times> nat \<times> u32 \<Rightarrow> bool" where
  "root_bits e b = (\<lambda>(p, c, k).
     let r = c * 2 ^ 32 + unat k in r ^ e \<le> p * 2 ^ b \<and> p * 2 ^ b < (r + 1) ^ e)"

lemma root_bits_iroot:
  assumes "0 < e" and "root_bits e b (p, c, k)"
  shows "of_nat (iroot e (p * 2 ^ b)) = k"
proof -
  have "iroot e (p * 2 ^ b) = c * 2 ^ 32 + unat k"
    using assms by (intro iroot_unique) (simp_all add: root_bits_def Let_def)
  moreover have "of_nat (c * 2 ^ 32 + unat k) = k"
    using unat_less_32 [of k]
    by (intro word_unat_eq_iff [THEN iffD2]) (simp add: unat_of_nat del: of_nat_add of_nat_mult)
  ultimately show ?thesis by simp
qed

lemma root_bits_list:
  assumes "0 < e" and "list_all (root_bits e b) zs"
  shows "map (\<lambda>p. of_nat (iroot e (p * 2 ^ b))) (map fst zs) = map (snd \<circ> snd) zs"
  using assms(2) by (induction zs) (auto simp: root_bits_iroot [OF assms(1)])

definition K_roots :: "(nat \<times> nat \<times> u32) list" where
  "K_roots = zip fips_primes (zip
    [1, 1, 1, 1, 2, 2, 2, 2, 2, 3, 3, 3, 3, 3, 3, 3, 3, 3, 4, 4, 4, 4, 4, 4, 4, 4, 4, 4, 4, 4, 5, 5, 5, 5, 5, 5, 5, 5, 5, 5, 5, 5, 5, 5, 5, 5, 5, 6, 6, 6, 6, 6, 6, 6, 6, 6, 6, 6, 6, 6, 6, 6, 6, 6] K256)"

lemma K256_fips: "fips_K = K256"
proof -
  have "list_all (root_bits 3 96) K_roots"
    by (simp add: K_roots_def fips_primes_def K256_def root_bits_def)
  from root_bits_list [OF _ this] show ?thesis
    by (simp add: fips_K_def K_roots_def) (simp add: fips_primes_def K256_def)
qed

lemma H256_fips: "fips_H256 = md_h SHA256_Init"
proof -
  let ?zs = "zip (take 8 fips_primes) (zip [1, 1, 2, 2, 3, 3, 4, 4] (md_h SHA256_Init))"
  have "list_all (root_bits 2 64) ?zs"
    by (simp add: fips_primes_def SHA256_Init_def root_bits_def)
  from root_bits_list [OF _ this] show ?thesis
    by (simp add: fips_H256_def) (simp add: fips_primes_def SHA256_Init_def)
qed

lemma H224_fips: "fips_H224 = md_h SHA224_Init"
proof -
  let ?zs = "zip (take 8 (drop 8 fips_primes)) (zip
    [20597939549, 23129106730, 23913365850, 26125266136, 27501209191, 28163984007, 29444812301, 31267833885]
    (md_h SHA224_Init))"
  have "list_all (root_bits 2 128) ?zs"
    by (simp add: fips_primes_def SHA224_Init_def root_bits_def)
  from root_bits_list [OF _ this] show ?thesis
    by (simp add: fips_H224_def) (simp add: fips_primes_def SHA224_Init_def)
qed

section \<open>The block function computes the compression function\<close>

lemma ROTATE_rotr:
  assumes "0 < n" and "n < 32"
  shows "ROTATE x n = word_rotr (32 - n) x"
proof (rule bit_word_eqI)
  fix i
  assume "i < LENGTH(32)"
  with assms show "bit (ROTATE x n) i = bit (word_rotr (32 - n) x) i"
    using bit_imp_le_length [of x "i + (32 - n)"]
    by (cases "i < n")
      (auto simp: ROTATE_def bit_word_rotr_iff bit_or_iff bit_push_bit_iff bit_drop_bit_eq le_mod_geq add.commute)
qed

lemma sigmas: "Sigma0 = fips_S0" "Sigma1 = fips_S1" "sigma0 = fips_s0" "sigma1 = fips_s1"
  by (simp_all add: fun_eq_iff Sigma0_def Sigma1_def sigma0_def sigma1_def fips_S0_def fips_S1_def fips_s0_def
    fips_s1_def ROTATE_rotr)

lemma ROUND_00_15_fips:
  "ROUND_00_15 i w a b c d e f g h = (d', h') \<Longrightarrow>
    fips_round (fips_K ! i) w (a, b, c, d, e, f, g, h) = (h', a, b, c, d', e, f, g)"
  by (simp add: ROUND_00_15_def Let_def K256_fips sigmas Ch_def Maj_def ac_simps)

lemma word_of_four:
  fixes x y z w :: u8
  shows "push_bit 24 (ucast x) OR push_bit 16 (ucast y) OR push_bit 8 (ucast z) OR ucast w =
    (of_nat (be_nat [x, y, z, w]) :: u32)"
proof -
  have step: "push_bit 8 r OR ucast b = r * 256 + (ucast b :: u32)" for r and b :: u8
    by (subst or_eq_plus_push) (simp_all add: take_bit_ucast_u8 push_bit_eq_mult)
  have "push_bit 24 (ucast x) OR push_bit 16 (ucast y) OR push_bit 8 (ucast z) OR ucast w =
      push_bit 8 (push_bit 8 (push_bit 8 (ucast x) OR ucast y) OR ucast z) OR (ucast w :: u32)"
    by (simp add: push_bit_or or.assoc)
  also have "\<dots> = of_nat (be_nat [x, y, z, w])"
    unfolding step by (simp add: be_nat_def)
  finally show ?thesis .
qed

lemma HOST_c2l_fips:
  assumes "4 * t + 4 \<le> length m" and "t < 16"
  shows "HOST_c2l (drop (4 * t) m) = (fips_W m t, drop (4 * (t + 1)) m)"
proof -
  let ?d = "drop (4 * t) m"
  have "take 4 ?d = [?d ! 0, ?d ! 1, ?d ! 2, ?d ! 3]"
    using assms by (intro nth_equalityI) (auto simp: less_Suc_eq numeral_eq_Suc)
  then have "fips_W m t = of_nat (be_nat [?d ! 0, ?d ! 1, ?d ! 2, ?d ! 3])"
    using assms(2) by (simp only: fips_W.simps [of m t] if_True)
  then show ?thesis by (simp add: HOST_c2l_def word_of_four add.commute)
qed

text \<open>The schedule in its circular buffer.\<close>

definition window :: "bytes \<Rightarrow> u32 list \<Rightarrow> nat \<Rightarrow> bool" where
  "window m X t \<longleftrightarrow> length X = 16 \<and> (\<forall>s. s < t \<and> t \<le> s + 16 \<longrightarrow> X ! (s mod 16) = fips_W m s)"

lemma window_next:
  assumes "window m X t"
  shows "window m (X[t mod 16 := fips_W m t]) (t + 1)"
  unfolding window_def
proof (intro conjI allI impI)
  show "length (X[t mod 16 := fips_W m t]) = 16" using assms by (simp add: window_def)
next
  fix s
  assume s: "s < t + 1 \<and> t + 1 \<le> s + 16"
  show "X[t mod 16 := fips_W m t] ! (s mod 16) = fips_W m s"
  proof (cases "s = t")
    case False
    with s have less: "s < t" "t < s + 16" by linarith+
    have "s mod 16 \<noteq> t mod 16"
    proof
      assume "s mod 16 = t mod 16"
      with less have "16 dvd t - s" by (metis less_imp_le_nat mod_eq_dvd_iff_nat)
      with less show False by (auto dest!: dvd_imp_le)
    qed
    moreover note less
    ultimately show ?thesis using assms by (simp add: window_def)
  qed (use assms in \<open>simp add: window_def\<close>)
qed

lemma LOAD_ROUND_fips:
  assumes "LOAD_ROUND t a b c d e f g h (X, drop (4 * t) m) = (d', h', s')" and "window m X t" and "t < 16"
    and "64 \<le> length m"
  shows "\<exists>X'. s' = (X', drop (4 * (t + 1)) m) \<and> window m X' (t + 1) \<and>
    fips_round (fips_K ! t) (fips_W m t) (a, b, c, d, e, f, g, h) = (h', a, b, c, d', e, f, g)"
proof (intro exI conjI)
  have load: "HOST_c2l (drop (4 * t) m) = (fips_W m t, drop (4 * (t + 1)) m)"
    using assms by (intro HOST_c2l_fips) auto
  with assms(1) have r: "ROUND_00_15 t (fips_W m t) a b c d e f g h = (d', h')"
    and s': "s' = (X[t := fips_W m t], drop (4 * (t + 1)) m)"
    by (auto simp: LOAD_ROUND_def split: prod.splits)
  show "s' = (X[t := fips_W m t], drop (4 * (t + 1)) m)" by (rule s')
  show "window m (X[t := fips_W m t]) (t + 1)"
    using window_next [OF assms(2)] assms(3) by simp
  show "fips_round (fips_K ! t) (fips_W m t) (a, b, c, d, e, f, g, h) = (h', a, b, c, d', e, f, g)"
    by (rule ROUND_00_15_fips [OF r])
qed

lemma and_15: "n AND 15 = n mod (16 :: nat)"
  using take_bit_eq_mask [of 4 n] by (simp add: take_bit_eq_mod mask_eq_exp_minus_1)

lemma window_at:
  "window m X t \<Longrightarrow> 16 \<le> t \<Longrightarrow> 0 < k \<Longrightarrow> k \<le> 16 \<Longrightarrow> X ! ((t - k) mod 16) = fips_W m (t - k)"
  by (simp add: window_def)

lemma back_16:
  assumes "16 \<le> t" and "j + k = 16"
  shows "(t + j) mod 16 = (t - k) mod (16 :: nat)"
proof -
  have "t + j = t - k + 16" using assms by linarith
  then show ?thesis by (simp only: mod_add_self2)
qed

lemma ROUND_16_63_fips:
  assumes "ROUND_16_63 t a b c d e f g h X = (d', h', X')" and win: "window m X t" and t: "16 \<le> t"
  shows "window m X' (t + 1) \<and>
    fips_round (fips_K ! t) (fips_W m t) (a, b, c, d, e, f, g, h) = (h', a, b, c, d', e, f, g)"
proof -
  have i: "(t + 1) AND 15 = (t - 15) mod 16" "(t + 14) AND 15 = (t - 2) mod 16" "t AND 15 = (t - 16) mod 16"
    "(t + 9) AND 15 = (t - 7) mod 16"
    using back_16 [OF t, of 0 16] by (simp_all only: and_15 back_16 [OF t] add_0_right)
  have "fips_W m t = fips_W m (t - 16) + (fips_s0 (fips_W m (t - 15)) + fips_s1 (fips_W m (t - 2)) + fips_W m (t - 7))"
    using t by (subst fips_W.simps) (simp add: ac_simps)
  then have "X ! (t AND 15) + (sigma0 (X ! ((t + 1) AND 15)) + sigma1 (X ! ((t + 14) AND 15)) + X ! ((t + 9) AND 15)) =
      fips_W m t"
    unfolding i using win t by (simp add: window_at sigmas)
  with assms(1) have "ROUND_00_15 t (fips_W m t) a b c d e f g h = (d', h')" "X' = X[t mod 16 := fips_W m t]"
    by (auto simp: ROUND_16_63_def Let_def and_15 split: prod.splits)
  then show ?thesis using window_next [OF win] ROUND_00_15_fips by simp
qed

text \<open>The variables and the buffer before round \<open>t\<close>: without the rotation of the names.\<close>

definition loading :: "bytes \<Rightarrow> sha_vars \<Rightarrow> nat \<Rightarrow> sha_vars \<Rightarrow> u32 list \<times> bytes \<Rightarrow> bool" where
  "loading m v0 t v s \<longleftrightarrow> fips_rounds m v0 t = v \<and> (\<exists>X. s = (X, drop (4 * t) m) \<and> window m X t)"

definition rounding :: "bytes \<Rightarrow> sha_vars \<Rightarrow> nat \<Rightarrow> sha_vars \<Rightarrow> u32 list \<Rightarrow> bool" where
  "rounding m v0 t v X \<longleftrightarrow> fips_rounds m v0 t = v \<and> window m X t"

lemma load_step:
  assumes "loading m v0 t (a, b, c, d, e, f, g, h) s" and "LOAD_ROUND t a b c d e f g h s = (d', h', s')"
    and "t' = t + 1" and "t < 16" and "64 \<le> length m"
  shows "loading m v0 t' (h', a, b, c, d', e, f, g) s'"
  using assms LOAD_ROUND_fips [of t a b c d e f g h _ m d' h' s'] by (auto simp: loading_def)

lemma round_step:
  assumes "rounding m v0 t (a, b, c, d, e, f, g, h) X" and "ROUND_16_63 t a b c d e f g h X = (d', h', X')"
    and "t' = t + 1" and "16 \<le> t"
  shows "rounding m v0 t' (h', a, b, c, d', e, f, g) X'"
  using assms ROUND_16_63_fips [of t a b c d e f g h X d' h' X' m] by (auto simp: rounding_def)

lemma eight_00_15_fips:
  assumes "loading m v0 i v s" and i: "i + 8 \<le> 16" and m: "64 \<le> length m" and eight: "eight_00_15 i v s = (v', s')"
  shows "loading m v0 (i + 8) v' s'"
proof -
  obtain a b c d e f g h where v: "v = (a, b, c, d, e, f, g, h)" by (metis surj_pair)
  have A0: "loading m v0 (i + 0) (a, b, c, d, e, f, g, h) s" using assms(1) v by simp
  obtain d1 h1 s1 where R1: "LOAD_ROUND (i + 0) a b c d e f g h s = (d1, h1, s1)" by (metis prod_cases3)
  have A1: "loading m v0 (i + 1) (h1, a, b, c, d1, e, f, g) s1" by (rule load_step [OF A0 R1]) (use i m in simp_all)
  obtain c2 g2 s2 where R2: "LOAD_ROUND (i + 1) h1 a b c d1 e f g s1 = (c2, g2, s2)" by (metis prod_cases3)
  have A2: "loading m v0 (i + 2) (g2, h1, a, b, c2, d1, e, f) s2" by (rule load_step [OF A1 R2]) (use i m in simp_all)
  obtain b3 f3 s3 where R3: "LOAD_ROUND (i + 2) g2 h1 a b c2 d1 e f s2 = (b3, f3, s3)" by (metis prod_cases3)
  have A3: "loading m v0 (i + 3) (f3, g2, h1, a, b3, c2, d1, e) s3" by (rule load_step [OF A2 R3]) (use i m in simp_all)
  obtain a4 e4 s4 where R4: "LOAD_ROUND (i + 3) f3 g2 h1 a b3 c2 d1 e s3 = (a4, e4, s4)" by (metis prod_cases3)
  have A4: "loading m v0 (i + 4) (e4, f3, g2, h1, a4, b3, c2, d1) s4" by (rule load_step [OF A3 R4]) (use i m in simp_all)
  obtain h5 d5 s5 where R5: "LOAD_ROUND (i + 4) e4 f3 g2 h1 a4 b3 c2 d1 s4 = (h5, d5, s5)" by (metis prod_cases3)
  have A5: "loading m v0 (i + 5) (d5, e4, f3, g2, h5, a4, b3, c2) s5" by (rule load_step [OF A4 R5]) (use i m in simp_all)
  obtain g6 c6 s6 where R6: "LOAD_ROUND (i + 5) d5 e4 f3 g2 h5 a4 b3 c2 s5 = (g6, c6, s6)" by (metis prod_cases3)
  have A6: "loading m v0 (i + 6) (c6, d5, e4, f3, g6, h5, a4, b3) s6" by (rule load_step [OF A5 R6]) (use i m in simp_all)
  obtain f7 b7 s7 where R7: "LOAD_ROUND (i + 6) c6 d5 e4 f3 g6 h5 a4 b3 s6 = (f7, b7, s7)" by (metis prod_cases3)
  have A7: "loading m v0 (i + 7) (b7, c6, d5, e4, f7, g6, h5, a4) s7" by (rule load_step [OF A6 R7]) (use i m in simp_all)
  obtain e8 a8 s8 where R8: "LOAD_ROUND (i + 7) b7 c6 d5 e4 f7 g6 h5 a4 s7 = (e8, a8, s8)" by (metis prod_cases3)
  have A8: "loading m v0 (i + 8) (a8, b7, c6, d5, e8, f7, g6, h5) s8" by (rule load_step [OF A7 R8]) (use i m in simp_all)
  have "eight_00_15 i v s = ((a8, b7, c6, d5, e8, f7, g6, h5), s8)"
    by (simp only: eight_00_15_def v Let_def prod.case R1 R2 R3 R4 R5 R6 R7 R8)
  with A8 eight show ?thesis by simp
qed

lemma eight_16_63_fips:
  assumes "rounding m v0 i v X" and i: "16 \<le> i" and eight: "eight_16_63 i v X = (v', X')"
  shows "rounding m v0 (i + 8) v' X'"
proof -
  obtain a b c d e f g h where v: "v = (a, b, c, d, e, f, g, h)" by (metis surj_pair)
  have A0: "rounding m v0 (i + 0) (a, b, c, d, e, f, g, h) X" using assms(1) v by simp
  obtain d1 h1 X1 where R1: "ROUND_16_63 (i + 0) a b c d e f g h X = (d1, h1, X1)" by (metis prod_cases3)
  have A1: "rounding m v0 (i + 1) (h1, a, b, c, d1, e, f, g) X1" by (rule round_step [OF A0 R1]) (use i in simp_all)
  obtain c2 g2 X2 where R2: "ROUND_16_63 (i + 1) h1 a b c d1 e f g X1 = (c2, g2, X2)" by (metis prod_cases3)
  have A2: "rounding m v0 (i + 2) (g2, h1, a, b, c2, d1, e, f) X2" by (rule round_step [OF A1 R2]) (use i in simp_all)
  obtain b3 f3 X3 where R3: "ROUND_16_63 (i + 2) g2 h1 a b c2 d1 e f X2 = (b3, f3, X3)" by (metis prod_cases3)
  have A3: "rounding m v0 (i + 3) (f3, g2, h1, a, b3, c2, d1, e) X3" by (rule round_step [OF A2 R3]) (use i in simp_all)
  obtain a4 e4 X4 where R4: "ROUND_16_63 (i + 3) f3 g2 h1 a b3 c2 d1 e X3 = (a4, e4, X4)" by (metis prod_cases3)
  have A4: "rounding m v0 (i + 4) (e4, f3, g2, h1, a4, b3, c2, d1) X4" by (rule round_step [OF A3 R4]) (use i in simp_all)
  obtain h5 d5 X5 where R5: "ROUND_16_63 (i + 4) e4 f3 g2 h1 a4 b3 c2 d1 X4 = (h5, d5, X5)" by (metis prod_cases3)
  have A5: "rounding m v0 (i + 5) (d5, e4, f3, g2, h5, a4, b3, c2) X5" by (rule round_step [OF A4 R5]) (use i in simp_all)
  obtain g6 c6 X6 where R6: "ROUND_16_63 (i + 5) d5 e4 f3 g2 h5 a4 b3 c2 X5 = (g6, c6, X6)" by (metis prod_cases3)
  have A6: "rounding m v0 (i + 6) (c6, d5, e4, f3, g6, h5, a4, b3) X6" by (rule round_step [OF A5 R6]) (use i in simp_all)
  obtain f7 b7 X7 where R7: "ROUND_16_63 (i + 6) c6 d5 e4 f3 g6 h5 a4 b3 X6 = (f7, b7, X7)" by (metis prod_cases3)
  have A7: "rounding m v0 (i + 7) (b7, c6, d5, e4, f7, g6, h5, a4) X7" by (rule round_step [OF A6 R7]) (use i in simp_all)
  obtain e8 a8 X8 where R8: "ROUND_16_63 (i + 7) b7 c6 d5 e4 f7 g6 h5 a4 X7 = (e8, a8, X8)" by (metis prod_cases3)
  have A8: "rounding m v0 (i + 8) (a8, b7, c6, d5, e8, f7, g6, h5) X8" by (rule round_step [OF A7 R8]) (use i in simp_all)
  have "eight_16_63 i v X = ((a8, b7, c6, d5, e8, f7, g6, h5), X8)"
    by (simp only: eight_16_63_def v Let_def prod.case R1 R2 R3 R4 R5 R6 R7 R8)
  with A8 eight show ?thesis by simp
qed

lemma loop_16_63_fips:
  "rounding m v0 i v X \<Longrightarrow> 16 \<le> i \<Longrightarrow> i \<le> 64 \<Longrightarrow> 8 dvd i \<Longrightarrow> loop_16_63 i v X = fips_rounds m v0 64"
proof (induction i v X rule: loop_16_63.induct)
  case (1 i v X)
  show ?case
  proof (cases "i < 64")
    case True
    obtain v' X' where e: "eight_16_63 i v X = (v', X')" by (metis surj_pair)
    have "8 dvd 64 - i" using 1 by (intro dvd_diff_nat) simp_all
    then have "8 \<le> 64 - i" using True by (intro dvd_imp_le) simp_all
    with True have "i + 8 \<le> 64" by linarith
    then have "loop_16_63 (i + 8) v' X' = fips_rounds m v0 64"
      using 1 True e eight_16_63_fips [OF _ _ e, of m v0] by simp
    then show ?thesis using True e by (subst loop_16_63.simps) simp
  next
    case False
    then show ?thesis using 1 by (subst loop_16_63.simps) (simp add: rounding_def)
  qed
qed

theorem sha256_block_fips:
  assumes "64 \<le> length data"
  shows "sha256_block state data = (fips_compress state data, drop 64 data)"
proof -
  obtain v1 s1 where e1: "eight_00_15 0 (vars_of state) (replicate 16 0, data) = (v1, s1)" by (metis surj_pair)
  obtain v2 X2 d2 where e2: "eight_00_15 8 v1 s1 = (v2, X2, d2)" by (metis prod_cases3)
  obtain a b c d e f g h where l: "loop_16_63 16 v2 X2 = (a, b, c, d, e, f, g, h)" by (metis surj_pair)
  have "loading data (vars_of state) 0 (vars_of state) (replicate 16 0, data)"
    by (simp add: loading_def window_def)
  from eight_00_15_fips [OF this _ assms e1] have "loading data (vars_of state) 8 v1 s1" by simp
  from eight_00_15_fips [OF this _ assms e2] have "rounding data (vars_of state) 16 v2 X2" "d2 = drop 64 data"
    by (simp_all add: loading_def rounding_def)
  with loop_16_63_fips [OF this(1)] l have "fips_rounds data (vars_of state) 64 = (a, b, c, d, e, f, g, h)" "d2 = drop 64 data"
    by simp_all
  then show ?thesis
    using e1 e2 l by (simp add: sha256_block_def fips_compress_def vars_of_def)
qed

section \<open>The digests\<close>

lemma fips_W_take: "t < 64 \<Longrightarrow> fips_W (take 64 m) t = fips_W m t"
proof (induction t rule: less_induct)
  case (less t)
  show ?case
  proof (cases "t < 16")
    case True
    then have "take 4 (drop (4 * t) (take 64 m)) = take 4 (drop (4 * t) m)" by (simp add: drop_take min_def)
    then show ?thesis using True by (simp add: fips_W.simps [of _ t])
  next
    case False
    then show ?thesis using less by (simp add: fips_W.simps [of _ t])
  qed
qed

lemma fips_rounds_take: "t \<le> 64 \<Longrightarrow> fips_rounds (take 64 m) v t = fips_rounds m v t"
  by (induction t) (simp_all add: fips_W_take)

lemma fips_compress_take: "fips_compress H (take 64 m) = fips_compress H m"
  by (simp add: fips_compress_def fips_rounds_take)

lemma sha256_blocks_fips:
  "64 * n \<le> length data \<Longrightarrow> sha256_blocks state data n = compress_blocks fips_compress state data n"
  by (induction n arbitrary: state data) (simp_all add: sha256_block_fips fips_compress_take)

interpretation sha: md32_digest sha256_block_data_order fips_compress
  by unfold_locales (simp add: sha256_block_data_order_def sha256_blocks_fips)

lemma length_vars_list [simp]: "length (vars_list v) = 8"
  by (cases v rule: vars_list.cases) simp

lemma length_fips_compress [simp]: "length (fips_compress H m) = 8"
  by (simp add: fips_compress_def)

lemma length_compress_blocks: "length H = 8 \<Longrightarrow> length (compress_blocks fips_compress H m n) = 8"
  by (induction n arbitrary: H m) simp_all

lemma length_md_hash: "length H = 8 \<Longrightarrow> length (md_hash big fips_compress H m) = 8"
  by (simp add: md_hash_def Let_def length_compress_blocks)

lemma sha_init_rel:
  "md_rel fips_compress fips_H256 SHA256_Init []" "md_rel fips_compress fips_H224 SHA224_Init []"
  by (simp_all add: md_rel_def holding_def bit_count_def H256_fips H224_fips) (simp_all add: SHA256_Init_def SHA224_Init_def)

lemma md_len_more: "md32_ctx.more c = md32_ctx.more c' \<Longrightarrow> md_len c = md_len c'" for c c' :: SHA256_CTX
  by (cases c, cases c') simp

lemma final_string:
  assumes "md_rel fips_compress H c m"
  shows "\<exists>c'. fst (SHA256_Final c) = make_string c' \<and> md_h c' = md_hash True fips_compress H m \<and> md_len c' = md_len c"
proof -
  obtain c' where "HASH_FINAL True sha256_block_data_order make_string c = (make_string c', c')"
    and "md_h c' = md_hash True fips_compress H m" and "md32_ctx.more c' = md32_ctx.more c"
    using sha.final_rel [OF assms] by blast
  moreover from this(3) have "md_len c' = md_len c" by (rule md_len_more)
  ultimately show ?thesis unfolding SHA256_Final_def by auto
qed

lemma l2c_words: "l2c_big = (\<lambda>w. be_bytes 4 (unat w))"
  by (simp add: fun_eq_iff l2c_big_bytes)

lemma final_256:
  assumes "md_rel fips_compress fips_H256 c m" and "md_len c = SHA256_DIGEST_LENGTH"
  shows "fst (SHA256_Final c) = Some (fips_SHA256 m)"
  using final_string [OF assms(1)] assms(2) length_md_hash [of fips_H256 True m]
  by (auto simp: make_string_def fips_SHA256_def l2c_words SHA256_DIGEST_LENGTH_def SHA224_DIGEST_LENGTH_def
    fips_H256_def fips_primes_def)

lemma final_224:
  assumes "md_rel fips_compress fips_H224 c m" and "md_len c = SHA224_DIGEST_LENGTH"
  shows "fst (SHA224_Final c) = Some (fips_SHA224 m)"
  using final_string [OF assms(1)] assms(2)
  by (auto simp: make_string_def fips_SHA224_def l2c_words SHA224_Final_def)

text \<open>
  C34: SHA-256, with the message given in pieces of any lengths, is the hash function of FIPS 180-4 of
  the whole message. The loop of the block function keeps sixteen words of the schedule in a circular
  buffer and rotates the names of its eight variables; its constants are the bits of the roots of the
  primes.
\<close>

theorem SHA256_streaming:
  assumes "\<forall>d \<in> set ds. length d < 2 ^ 64"
  shows "fst (SHA256_Final (foldl (\<lambda>c d. SHA256_Update c d (of_nat (length d))) SHA256_Init ds)) =
    Some (fips_SHA256 (concat ds))"
proof (rule final_256)
  have u: "foldl (\<lambda>c d. SHA256_Update c d (of_nat (length d))) SHA256_Init ds = updates sha256_block_data_order SHA256_Init ds"
    by (simp add: updates_def SHA256_Update_def)
  show "md_rel fips_compress fips_H256 (foldl (\<lambda>c d. SHA256_Update c d (of_nat (length d))) SHA256_Init ds) (concat ds)"
    using sha.updates_rel [OF sha_init_rel(1) assms] u by simp
  show "md_len (foldl (\<lambda>c d. SHA256_Update c d (of_nat (length d))) SHA256_Init ds) = SHA256_DIGEST_LENGTH"
    unfolding u using md_len_more [OF updates_more] by (simp add: SHA256_Init_def)
qed

theorem SHA256_streaming_witness:
  "fst (SHA256_Final (foldl (\<lambda>c d. SHA256_Update c d (of_nat (length d))) SHA256_Init [[0x61], [], [0x62, 0x63]])) =
    Some (fips_SHA256 [0x61, 0x62, 0x63])"
  using SHA256_streaming [of "[[0x61], [], [0x62, 0x63]]"] by simp

text \<open>
  The one-shot SHA-224 is the function of the standard, with its own initial value and its shorter
  output.
\<close>

theorem SHA224_fips:
  assumes "unat len \<le> length data"
  shows "SHA224 data len = Some (fips_SHA224 (take (unat len) data))"
  unfolding SHA224_def
proof (rule final_224)
  show "md_rel fips_compress fips_H224 (SHA224_Update SHA224_Init data len) (take (unat len) data)"
    using sha.update_rel [OF sha_init_rel(2) assms] by (simp add: SHA224_Update_def SHA256_Update_def)
  show "md_len (SHA224_Update SHA224_Init data len) = SHA224_DIGEST_LENGTH"
    using md_len_more [OF HASH_UPDATE_more]
    by (simp add: SHA224_Update_def SHA256_Update_def SHA224_Init_def)
qed

theorem SHA224_fips_witness: "SHA224 [0x61, 0x62, 0x63] 2 = Some (fips_SHA224 [0x61, 0x62])"
  using SHA224_fips [of 2 "[0x61, 0x62, 0x63]"] by simp

end
