(* ===== verification/Time_Support.thy ===== *)
theory Time_Support
  imports Bytes "HOL-Library.Signed_Division" "HOL-Library.Monad_Syntax"
begin

text \<open>
  Calendar arithmetic for certificate times (\<open>crypto/asn1/time_support.c\<close>): the conversion between
  dates and Julian day numbers, the addition of an offset to a broken-down time and the difference of
  two of them. A signed overflow, which C leaves undefined, is the value \<open>None\<close> of a computation;
  division truncates towards zero.
\<close>

section \<open>Integers of C\<close>

text \<open>The value of an \<open>int\<close> and of a \<open>long\<close> expression, and the conversion from \<open>long\<close> to \<open>int\<close>.\<close>

definition c_int :: "int \<Rightarrow> int option" where
  "c_int x = (if - (2 ^ 31) \<le> x \<and> x < 2 ^ 31 then Some x else None)"

definition c_long :: "int \<Rightarrow> int option" where
  "c_long x = (if - (2 ^ 63) \<le> x \<and> x < 2 ^ 63 then Some x else None)"

definition to_int :: "int \<Rightarrow> int" where
  "to_int x = (x + 2 ^ 31) mod 2 ^ 32 - 2 ^ 31"

lemma c_int_ok [simp]: "- 2147483648 \<le> x \<Longrightarrow> x \<le> 2147483647 \<Longrightarrow> c_int x = Some x"
  by (simp add: c_int_def)

lemma c_long_ok [simp]: "- 9223372036854775808 \<le> x \<Longrightarrow> x \<le> 9223372036854775807 \<Longrightarrow> c_long x = Some x"
  by (simp add: c_long_def)

lemma to_int_ok [simp]: "- 2147483648 \<le> x \<Longrightarrow> x \<le> 2147483647 \<Longrightarrow> to_int x = x"
  by (simp add: to_int_def)

lemma sdiv_nonneg: "0 \<le> a \<Longrightarrow> 0 < b \<Longrightarrow> a sdiv b = a div b" for a b :: int
  by (cases "a = 0") (simp_all add: signed_divide_int_def)

section \<open>Operations\<close>

record tm =
  tm_sec :: int
  tm_min :: int
  tm_hour :: int
  tm_mday :: int
  tm_mon :: int
  tm_year :: int

definition SECS_PER_DAY :: int where
  "SECS_PER_DAY = 24 * 60 * 60"

definition date_to_julian :: "int \<Rightarrow> int \<Rightarrow> int \<Rightarrow> int option" where
  "date_to_julian y m d = do {
     a \<leftarrow> c_int (m - 14);
     let a = a sdiv 12;
     y1 \<leftarrow> c_int (y + 4800);
     y1 \<leftarrow> c_int (y1 + a);
     y1 \<leftarrow> c_int (1461 * y1);
     m1 \<leftarrow> c_int (m - 2);
     a1 \<leftarrow> c_int (12 * a);
     m1 \<leftarrow> c_int (m1 - a1);
     m1 \<leftarrow> c_int (367 * m1);
     r \<leftarrow> c_int (y1 sdiv 4 + m1 sdiv 12);
     y2 \<leftarrow> c_int (y + 4900);
     y2 \<leftarrow> c_int (y2 + a);
     y2 \<leftarrow> c_int (3 * (y2 sdiv 100));
     r \<leftarrow> c_int (r - y2 sdiv 4);
     r \<leftarrow> c_int (r + d);
     c_int (r - 32075)
   }"

definition julian_to_date :: "int \<Rightarrow> (int \<times> int \<times> int) option" where
  "julian_to_date jd = do {
     L \<leftarrow> c_long (jd + 68569);
     L4 \<leftarrow> c_long (4 * L);
     let n = L4 sdiv 146097;
     n1 \<leftarrow> c_long (146097 * n);
     n1 \<leftarrow> c_long (n1 + 3);
     L \<leftarrow> c_long (L - n1 sdiv 4);
     i1 \<leftarrow> c_long (L + 1);
     i1 \<leftarrow> c_long (4000 * i1);
     let i = i1 sdiv 1461001;
     i2 \<leftarrow> c_long (1461 * i);
     L \<leftarrow> c_long (L - i2 sdiv 4);
     L \<leftarrow> c_long (L + 31);
     j1 \<leftarrow> c_long (80 * L);
     let j = j1 sdiv 2447;
     j2 \<leftarrow> c_long (2447 * j);
     d \<leftarrow> c_long (L - j2 sdiv 80);
     let L = j sdiv 11;
     m \<leftarrow> c_long (j + 2);
     L12 \<leftarrow> c_long (12 * L);
     m \<leftarrow> c_long (m - L12);
     y \<leftarrow> c_long (n - 49);
     y \<leftarrow> c_long (100 * y);
     y \<leftarrow> c_long (y + i);
     y \<leftarrow> c_long (y + L);
     Some (to_int y, to_int m, to_int d)
   }"

text \<open>The inner option is the return value: \<open>None\<close> for 0, with nothing stored.\<close>

definition julian_adj :: "tm \<Rightarrow> int \<Rightarrow> int \<Rightarrow> (int \<times> int) option option" where
  "julian_adj tm off_day offset_sec = do {
     let offset_day = to_int (offset_sec sdiv SECS_PER_DAY);
     p \<leftarrow> c_int (offset_day * SECS_PER_DAY);
     r \<leftarrow> c_long (offset_sec - p);
     let offset_hms = to_int r;
     offset_day \<leftarrow> c_int (offset_day + off_day);
     h \<leftarrow> c_int (tm_hour tm * 3600);
     mi \<leftarrow> c_int (tm_min tm * 60);
     s \<leftarrow> c_int (h + mi);
     s \<leftarrow> c_int (s + tm_sec tm);
     offset_hms \<leftarrow> c_int (offset_hms + s);
     (offset_day, offset_hms) \<leftarrow>
       (if SECS_PER_DAY \<le> offset_hms then do {
          offset_day \<leftarrow> c_int (offset_day + 1);
          Some (offset_day, offset_hms - SECS_PER_DAY)
        } else if offset_hms < 0 then do {
          offset_day \<leftarrow> c_int (offset_day - 1);
          Some (offset_day, offset_hms + SECS_PER_DAY)
        } else Some (offset_day, offset_hms));
     time_year \<leftarrow> c_int (tm_year tm + 1900);
     time_month \<leftarrow> c_int (tm_mon tm + 1);
     time_jd \<leftarrow> date_to_julian time_year time_month (tm_mday tm);
     time_jd \<leftarrow> c_long (time_jd + offset_day);
     Some (if time_jd < 0 then None else Some (time_jd, offset_hms))
   }"

definition OPENSSL_gmtime_adj :: "tm \<Rightarrow> int \<Rightarrow> int \<Rightarrow> tm option option" where
  "OPENSSL_gmtime_adj tm off_day offset_sec = do {
     r \<leftarrow> julian_adj tm off_day offset_sec;
     case r of None \<Rightarrow> Some None
     | Some (time_jd, time_sec) \<Rightarrow> do {
         (time_year, time_month, time_day) \<leftarrow> julian_to_date time_jd;
         if time_year < 1900 \<or> 9999 < time_year then Some None
         else Some (Some (tm\<lparr>tm_year := time_year - 1900, tm_mon := time_month - 1, tm_mday := time_day,
           tm_hour := time_sec sdiv 3600, tm_min := time_sec sdiv 60 smod 60, tm_sec := time_sec smod 60\<rparr>))
       }
   }"

text \<open>Both differences are returned; the code leaves out the one whose \<open>out\<close> pointer is null.\<close>

definition OPENSSL_gmtime_diff :: "tm \<Rightarrow> tm \<Rightarrow> (int \<times> int) option option" where
  "OPENSSL_gmtime_diff from_tm to_tm = do {
     r \<leftarrow> julian_adj from_tm 0 0;
     case r of None \<Rightarrow> Some None
     | Some (from_jd, from_sec) \<Rightarrow> do {
         r \<leftarrow> julian_adj to_tm 0 0;
         case r of None \<Rightarrow> Some None
         | Some (to_jd, to_sec) \<Rightarrow> do {
             diff_day \<leftarrow> c_long (to_jd - from_jd);
             diff_sec \<leftarrow> c_int (to_sec - from_sec);
             let (diff_day, diff_sec) =
               (if 0 < diff_day \<and> diff_sec < 0 then (diff_day - 1, diff_sec + SECS_PER_DAY) else (diff_day, diff_sec));
             let (diff_day, diff_sec) =
               (if diff_day < 0 \<and> 0 < diff_sec then (diff_day + 1, diff_sec - SECS_PER_DAY) else (diff_day, diff_sec));
             Some (Some (to_int diff_day, diff_sec))
           }
       }
   }"

section \<open>The calendar\<close>

definition leap :: "int \<Rightarrow> bool" where
  "leap y \<longleftrightarrow> 4 dvd y \<and> (\<not> 100 dvd y \<or> 400 dvd y)"

definition month_days :: "int \<Rightarrow> int \<Rightarrow> int" where
  "month_days y m =
     (if m = 2 then (if leap y then 29 else 28) else if m = 4 \<or> m = 6 \<or> m = 9 \<or> m = 11 then 30 else 31)"

definition valid_date :: "int \<Rightarrow> int \<Rightarrow> int \<Rightarrow> bool" where
  "valid_date y m d \<longleftrightarrow> 1 \<le> m \<and> m \<le> 12 \<and> 1 \<le> d \<and> d \<le> month_days y m"

text \<open>The days from 1 January of the year 0 to a date.\<close>

definition days_before_year :: "int \<Rightarrow> int" where
  "days_before_year y = 365 * y + (y - 1) div 4 - (y - 1) div 100 + (y - 1) div 400 + 1"

definition days_before_month :: "int \<Rightarrow> int \<Rightarrow> int" where
  "days_before_month y m = sum_list (map (month_days y) [1..m - 1])"

definition civil_days :: "int \<Rightarrow> int \<Rightarrow> int \<Rightarrow> int" where
  "civil_days y m d = days_before_year y + days_before_month y m + d - 1"

lemma div_pred:
  assumes "0 < (n :: int)"
  shows "y div n = (y - 1) div n + of_bool (n dvd y)"
proof (cases "n dvd y")
  case True
  then obtain q where "y = n * q" by blast
  moreover have "(n * q - 1) div n = q - 1"
    using assms by (intro int_div_pos_eq [of _ _ _ "n - 1"]) (simp_all add: algebra_simps)
  ultimately show ?thesis using assms by simp
next
  case False
  with assms have "0 < y mod n" by (metis dvd_eq_mod_eq_0 order_le_less pos_mod_sign)
  moreover have "y mod n < n" using assms by simp
  moreover have "y - 1 = n * (y div n) + (y mod n - 1)" by simp
  ultimately have "(y - 1) div n = y div n"
    by (intro int_div_pos_eq [of _ _ _ "y mod n - 1"]) linarith+
  with False show ?thesis by simp
qed

lemma leap_bits:
  "(C \<Longrightarrow> B) \<Longrightarrow> (B \<Longrightarrow> A) \<Longrightarrow> of_bool A - of_bool B + of_bool C = (if A \<and> (\<not> B \<or> C) then 1 else 0 :: int)"
  by (cases A; cases B; cases C) simp_all

lemma year_sum:
  "365 * (y + 1) + (p + a) - (q + b) + (r + c) + 1 = 365 * y + p - q + r + 1 + 365 + (a - b + c)" for y :: int
  by simp

lemma days_before_year_next: "days_before_year (y + 1) = days_before_year y + (if leap y then 366 else 365)"
proof -
  have "100 dvd y" if "400 dvd y" by (rule dvd_trans [OF _ that]) simp
  moreover have "4 dvd y" if "100 dvd y" by (rule dvd_trans [OF _ that]) simp
  ultimately have bits: "of_bool (4 dvd y) - of_bool (100 dvd y) + of_bool (400 dvd y) = (if leap y then 1 else 0 :: int)"
    unfolding leap_def by (rule leap_bits)
  have "days_before_year (y + 1) = days_before_year y + 365 +
      (of_bool (4 dvd y) - of_bool (100 dvd y) + of_bool (400 dvd y))"
    unfolding days_before_year_def add_diff_cancel_right' div_pred [OF zero_less_numeral, of y] by (rule year_sum)
  then show ?thesis unfolding bits by simp
qed

text \<open>
  A year that begins in March: its number \<open>Y\<close>, its month \<open>M\<close> from 1, its days before that month. The
  code counts its years from -4800.
\<close>

definition march_days :: "int \<Rightarrow> int" where
  "march_days Y = 365 * Y + Y div 4 - Y div 100 + Y div 400"

lemma days_before_year_march: "days_before_year (Y + 1) = march_days Y + 366"
  by (simp add: days_before_year_def march_days_def)

lemma days_before_month_next: "1 \<le> m \<Longrightarrow> days_before_month y (m + 1) = days_before_month y m + month_days y m"
  by (simp add: days_before_month_def upto_rec2)

lemma days_before_months:
  "days_before_month y 1 = 0" "days_before_month y 2 = 31" 
  "days_before_month y 3 = 59 + of_bool (leap y)"  "days_before_month y 4 = 90 + of_bool (leap y)"
  "days_before_month y 5 = 120 + of_bool (leap y)" "days_before_month y 6 = 151 + of_bool (leap y)"
  "days_before_month y 7 = 181 + of_bool (leap y)" "days_before_month y 8 = 212 + of_bool (leap y)"
  "days_before_month y 9 = 243 + of_bool (leap y)" "days_before_month y 10 = 273 + of_bool (leap y)"
  "days_before_month y 11 = 304 + of_bool (leap y)" "days_before_month y 12 = 334 + of_bool (leap y)"
  by (simp_all add: days_before_month_def month_days_def upto.simps)

lemma month_cases:
  assumes "1 \<le> m" "m \<le> (12 :: int)"
  shows "m = 1 \<or> m = 2 \<or> m = 3 \<or> m = 4 \<or> m = 5 \<or> m = 6 \<or> m = 7 \<or> m = 8 \<or> m = 9 \<or> m = 10 \<or> m = 11 \<or> m = 12"
  using assms by arith

lemma civil_days_march:
  assumes "1 \<le> m" "m \<le> 12"
  defines "a \<equiv> (if m \<le> 2 then -1 else 0)"
  shows "civil_days y m d = march_days (y + a) + 367 * (m - 2 - 12 * a) div 12 + d + 29"
proof -
  have "days_before_year y = march_days (y - 1) + 366"
    using days_before_year_march [of "y - 1"] by simp
  moreover have "days_before_year y + of_bool (leap y) = march_days y + 1"
    using days_before_year_march [of y] days_before_year_next [of y] by (auto split: if_splits)
  ultimately show ?thesis
    using month_cases [OF assms(1,2)] unfolding civil_days_def a_def
    by (elim disjE) (simp_all add: days_before_months)
qed

section \<open>Julian day numbers\<close>

text \<open>Day 1721060 is 1 January of the year 0.\<close>

lemma div_unique_int: "b * q \<le> a \<Longrightarrow> a < b * q + b \<Longrightarrow> a div b = q" for a b q :: int
  by (rule int_div_pos_eq [of _ _ _ "a - b * q"]) simp_all

lemma julian_of_march:
  "(1461 * (Y + 4800)) div 4 - (3 * ((Y + 4900) div 100)) div 4 - 32075 = march_days Y + 1721089"
proof -
  have "1461 * (Y + 4800) = Y + (365 * (Y + 4800) + 1200) * 4" by simp
  then have "(1461 * (Y + 4800)) div 4 = 365 * (Y + 4800) + (Y div 4 + 1200)"
    by (simp only: div_mult_self1 zero_neq_numeral not_False_eq_True)
  moreover have "(Y + 4900) div 100 = Y div 100 + 49" by simp
  moreover have "(3 * (c + 49)) div 4 = c + 36 - c div 4" for c :: int
  proof -
    obtain q s where "c = 4 * q + s" "0 \<le> s" "s < 4" and q: "c div 4 = q"
      using mult_div_mod_eq [of 4 c] pos_mod_sign [of 4 c] pos_mod_bound [of 4 c] by (metis zero_less_numeral)
    then show ?thesis unfolding q by (intro div_unique_int) simp_all
  qed
  moreover have "Y div 400 = Y div 100 div 4" by (simp add: zdiv_zmult2_eq [symmetric])
  ultimately show ?thesis unfolding march_days_def by simp
qed

lemma sdiv_12: "1 \<le> m \<Longrightarrow> m \<le> 12 \<Longrightarrow> (m - 14) sdiv 12 = (if m \<le> 2 then - 1 else 0)" for m :: int
  using month_cases [of m] by (auto simp: signed_divide_int_def)

lemma div_bounds: "0 \<le> x \<Longrightarrow> x \<le> n * b \<Longrightarrow> 0 < b \<Longrightarrow> 0 \<le> x div b \<and> x div b \<le> n" for x :: int
  using pos_imp_zdiv_nonneg_iff zdiv_mono1 [of x "n * b" b] by auto

lemma date_to_julian_steps:
  assumes "1 \<le> m" "m \<le> 12" "1 \<le> d" "d \<le> 31" "-4000 \<le> y" "y \<le> 1000000" "- 1 \<le> a" "a \<le> 0"
    and a: "(m - 14) sdiv 12 = a"
    and P: "(1461 * (y + 4800 + a)) sdiv 4 = P" "0 \<le> P" "P \<le> 400000000"
    and Q: "(367 * (m - 2 - 12 * a)) sdiv 12 = Q" "0 \<le> Q" "Q \<le> 1000"
    and C: "(y + 4900 + a) sdiv 100 = C" "0 \<le> C" "C \<le> 20000"
    and U: "(3 * C) sdiv 4 = U" "0 \<le> U" "U \<le> 15000"
  shows "date_to_julian y m d = Some (P + Q - U + d - 32075)"
proof -
  have c: "c_int (m - 14) = Some (m - 14)" "c_int (y + 4800) = Some (y + 4800)"
    "c_int (y + 4800 + a) = Some (y + 4800 + a)" "c_int (1461 * (y + 4800 + a)) = Some (1461 * (y + 4800 + a))"
    "c_int (m - 2) = Some (m - 2)" "c_int (12 * a) = Some (12 * a)" "c_int (m - 2 - 12 * a) = Some (m - 2 - 12 * a)"
    "c_int (367 * (m - 2 - 12 * a)) = Some (367 * (m - 2 - 12 * a))" "c_int (P + Q) = Some (P + Q)"
    "c_int (y + 4900) = Some (y + 4900)" "c_int (y + 4900 + a) = Some (y + 4900 + a)" "c_int (3 * C) = Some (3 * C)"
    "c_int (P + Q - U) = Some (P + Q - U)" "c_int (P + Q - U + d) = Some (P + Q - U + d)"
    "c_int (P + Q - U + d - 32075) = Some (P + Q - U + d - 32075)"
    using assms(1-8) P(2,3) Q(2,3) C(2,3) U(2,3) by (simp_all add: c_int_def)
  show ?thesis unfolding date_to_julian_def Let_def by (simp only: a c P Q C U Option.bind.simps)
qed

lemma date_to_julian_civil:
  assumes m: "1 \<le> m" "m \<le> 12" and d: "1 \<le> d" "d \<le> 31" and y: "-4000 \<le> y" "y \<le> 1000000"
  shows "date_to_julian y m d = Some (civil_days y m d + 1721060)"
proof -
  define a where "a = (if m \<le> 2 then -1 else 0 :: int)"
  define Y where "Y = y + a"
  define M where "M = 367 * (m - 2 - 12 * a)"
  have a: "- 1 \<le> a" "a \<le> 0" by (simp_all add: a_def)
  have M: "367 \<le> M" "M \<le> 367 * 12" using m by (auto simp: M_def a_def)
  have Y: "- 4001 \<le> Y" "Y \<le> 1000000" using y by (auto simp: Y_def a_def)
  have p: "0 \<le> (1461 * (Y + 4800)) div 4 \<and> (1461 * (Y + 4800)) div 4 \<le> 400000000" using Y by (intro div_bounds) simp_all
  have c: "0 \<le> (Y + 4900) div 100 \<and> (Y + 4900) div 100 \<le> 20000" using Y by (intro div_bounds) simp_all
  have u: "0 \<le> (3 * ((Y + 4900) div 100)) div 4 \<and> (3 * ((Y + 4900) div 100)) div 4 \<le> 15000" using c by (intro div_bounds) simp_all
  have q: "0 \<le> M div 12 \<and> M div 12 \<le> 1000" using M by (intro div_bounds) simp_all
  have e: "y + 4800 + a = Y + 4800" "y + 4900 + a = Y + 4900" by (simp_all add: Y_def)
  have "date_to_julian y m d =
      Some ((1461 * (Y + 4800)) div 4 + M div 12 - (3 * ((Y + 4900) div 100)) div 4 + d - 32075)"
  proof (rule date_to_julian_steps [OF m d y a])
    show "(m - 14) sdiv 12 = a" unfolding a_def by (rule sdiv_12 [OF m])
    show "(1461 * (y + 4800 + a)) sdiv 4 = (1461 * (Y + 4800)) div 4" unfolding e using Y by (intro sdiv_nonneg) simp_all
    show "(367 * (m - 2 - 12 * a)) sdiv 12 = M div 12" unfolding M_def [symmetric] using M by (intro sdiv_nonneg) simp_all
    show "(y + 4900 + a) sdiv 100 = (Y + 4900) div 100" unfolding e using Y by (intro sdiv_nonneg) simp_all
    show "(3 * ((Y + 4900) div 100)) sdiv 4 = (3 * ((Y + 4900) div 100)) div 4" using c by (intro sdiv_nonneg) simp_all
  qed (use p q c u in blast)+
  also have "(1461 * (Y + 4800)) div 4 + M div 12 - (3 * ((Y + 4900) div 100)) div 4 + d - 32075 = civil_days y m d + 1721060"
    using julian_of_march [of Y] civil_days_march [OF m, of y d]
    unfolding a_def [symmetric] Y_def [symmetric] M_def [symmetric] by linarith
  finally show ?thesis .
qed

lemma julian_to_date_steps:
  assumes jd: "0 \<le> jd" "jd \<le> 10000000000"
    and n: "(4 * (jd + 68569)) sdiv 146097 = n" "0 \<le> n" "n \<le> 1000000"
    and C: "(146097 * n + 3) sdiv 4 = C" "0 \<le> C" "C \<le> 50000000000"
    and r: "jd + 68569 - C = r" "0 \<le> r" "r \<le> 36524"
    and i: "(4000 * (r + 1)) sdiv 1461001 = i" "0 \<le> i" "i \<le> 99"
    and E: "(1461 * i) sdiv 4 = E" "0 \<le> E" "E \<le> 50000"
    and j: "(80 * (r - E + 31)) sdiv 2447 = j" "1 \<le> j" "j \<le> 12"
    and k: "(2447 * j) sdiv 80 = k" "0 \<le> k" "k \<le> 1000"
    and l: "j sdiv 11 = l" "0 \<le> l" "l \<le> 1"
  shows "julian_to_date jd = Some (100 * (n - 49) + i + l, j + 2 - 12 * l, r - E + 31 - k)"
proof -
  have c: "c_long (jd + 68569) = Some (jd + 68569)" "c_long (4 * (jd + 68569)) = Some (4 * (jd + 68569))"
    "c_long (146097 * n) = Some (146097 * n)" "c_long (146097 * n + 3) = Some (146097 * n + 3)"
    "c_long r = Some r" "c_long (r + 1) = Some (r + 1)"
    "c_long (4000 * (r + 1)) = Some (4000 * (r + 1))" "c_long (1461 * i) = Some (1461 * i)"
    "c_long (r - E) = Some (r - E)" "c_long (r - E + 31) = Some (r - E + 31)"
    "c_long (80 * (r - E + 31)) = Some (80 * (r - E + 31))" "c_long (2447 * j) = Some (2447 * j)"
    "c_long (r - E + 31 - k) = Some (r - E + 31 - k)" "c_long (j + 2) = Some (j + 2)" "c_long (12 * l) = Some (12 * l)"
    "c_long (j + 2 - 12 * l) = Some (j + 2 - 12 * l)" "c_long (n - 49) = Some (n - 49)"
    "c_long (100 * (n - 49)) = Some (100 * (n - 49))" "c_long (100 * (n - 49) + i) = Some (100 * (n - 49) + i)"
    "c_long (100 * (n - 49) + i + l) = Some (100 * (n - 49) + i + l)"
    using jd n(2,3) C(2,3) r(2,3) i(2,3) E(2,3) j(2,3) k(2,3) l(2,3) by (simp_all add: c_long_def)
  have t: "to_int (100 * (n - 49) + i + l) = 100 * (n - 49) + i + l" "to_int (j + 2 - 12 * l) = j + 2 - 12 * l"
    "to_int (r - E + 31 - k) = r - E + 31 - k"
    using n(2,3) r(2,3) i(2,3) E(2,3) j(2,3) k(2,3) l(2,3) by simp_all
  show ?thesis unfolding julian_to_date_def Let_def by (simp only: c t n(1) C(1) r(1) i(1) E(1) j(1) k(1) l(1) Option.bind.simps)
qed

text \<open>
  The division of a day number \<open>L\<close> into centuries, years of the century and months that begin in March.
\<close>

locale julian_parts =
  fixes L n C r i E q j k :: int
  assumes L: "0 \<le> L"
    and n: "n = 4 * L div 146097" and C: "C = (146097 * n + 3) div 4" and r: "r = L - C"
    and i: "i = 4000 * (r + 1) div 1461001" and E: "E = 1461 * i div 4"
    and q: "q = r - E + 31" and j: "j = 80 * q div 2447" and k: "k = 2447 * j div 80"
begin

lemma n_bounds: "146097 * n \<le> 4 * L" "4 * L < 146097 * n + 146097" "0 \<le> n"
  using n L by (auto simp: pos_imp_zdiv_nonneg_iff)

lemma C_parts: "C = 36524 * n + (n + 3) div 4" "4 * C \<le> 146097 * n + 3" "146097 * n \<le> 4 * C"
proof -
  have "146097 * n + 3 = (n + 3) + 4 * (36524 * n)" by simp
  then show c: "C = 36524 * n + (n + 3) div 4" unfolding C by (simp only: div_mult_self2 zero_neq_numeral not_False_eq_True)
  show "4 * C \<le> 146097 * n + 3" "146097 * n \<le> 4 * C" unfolding c by arith+
qed

lemma r_bounds: "0 \<le> r" "r \<le> 36524"
  using n_bounds C_parts(2,3) r by linarith+

lemma i_bounds: "1461001 * i \<le> 4000 * (r + 1)" "4000 * (r + 1) < 1461001 * i + 1461001" "0 \<le> i" "i \<le> 99"
proof -
  show a: "1461001 * i \<le> 4000 * (r + 1)" "4000 * (r + 1) < 1461001 * i + 1461001"
    unfolding i using mult_div_mod_eq [of 1461001 "4000 * (r + 1)"] pos_mod_bound [of 1461001 "4000 * (r + 1)"]
      pos_mod_sign [of 1461001 "4000 * (r + 1)"] by linarith+
  show "0 \<le> i" "i \<le> 99" using a r_bounds by simp_all
qed

lemma E_parts: "E = 365 * i + i div 4" "4 * E \<le> 1461 * i" "1461 * i \<le> 4 * E + 3"
proof -
  have "1461 * i = i + 4 * (365 * i)" by simp
  then show c: "E = 365 * i + i div 4" unfolding E by (simp only: div_mult_self2 zero_neq_numeral not_False_eq_True)
  show "4 * E \<le> 1461 * i" "1461 * i \<le> 4 * E + 3" unfolding c by arith+
qed

lemma year_bounds: "E \<le> r" "4 * (r + 1) \<le> 1461 * (i + 1)"
  using i_bounds E_parts(2,3) r_bounds by simp_all

lemma q_bounds: "31 \<le> q" "q \<le> 396"
  using year_bounds E_parts(2,3) q by simp_all

lemma j_bounds: "2447 * j \<le> 80 * q" "80 * q < 2447 * j + 2447" "1 \<le> j" "j \<le> 12"
proof -
  show a: "2447 * j \<le> 80 * q" "80 * q < 2447 * j + 2447"
    unfolding j using mult_div_mod_eq [of 2447 "80 * q"] pos_mod_bound [of 2447 "80 * q"]
      pos_mod_sign [of 2447 "80 * q"] by linarith+
  show "1 \<le> j" "j \<le> 12" using a q_bounds by linarith+
qed

lemma k_parts: "k = 367 * j div 12" "1 \<le> q - k" "j = 12 \<Longrightarrow> q - k \<le> 29"
    "q - k \<le> (if j = 2 \<or> j = 4 \<or> j = 7 \<or> j = 9 then 30 else 31)"
proof -
  have "j = 1 \<or> j = 2 \<or> j = 3 \<or> j = 4 \<or> j = 5 \<or> j = 6 \<or> j = 7 \<or> j = 8 \<or> j = 9 \<or> j = 10 \<or> j = 11 \<or> j = 12"
    by (rule month_cases) (use j_bounds in blast)+
  then show "k = 367 * j div 12" "1 \<le> q - k" "j = 12 \<Longrightarrow> q - k \<le> 29"
    "q - k \<le> (if j = 2 \<or> j = 4 \<or> j = 7 \<or> j = 9 then 30 else 31)"
    using k j_bounds(1,2) q_bounds by (auto simp: )
qed

text \<open>A 29 February is in a leap year.\<close>

lemma leap_day:
  assumes "j = 12" and "q - k = 29"
  shows "leap (100 * (n - 49) + i + 1)"
proof -
  have "r = E + 365" using assms k q by simp
  then have "3 \<le> 1461 * i - 4 * E" using year_bounds(2) by simp
  then have four: "i mod 4 = 3" using E_parts(1) by presburger
  have "4 dvd 100 * (n - 49) + i + 1" using four by presburger
  moreover have "400 dvd 100 * (n - 49) + i + 1" if "100 dvd 100 * (n - 49) + i + 1"
  proof -
    have "100 dvd i + 1" using that by (metis add.assoc dvd_add_right_iff dvd_triv_left)
    then have "i = 99" using i_bounds(3,4) zdvd_imp_le [of 100 "i + 1"] by simp
    then have "r = 36524" using \<open>r = E + 365\<close> E by simp
    then have "4 * C \<le> 146097 * n" using n_bounds(2) r by simp
    then have "n mod 4 = 0" using C_parts(1) by presburger
    then obtain s where "n = 4 * s" by (metis mod_0_imp_dvd dvdE)
    then have "100 * (n - 49) + i + 1 = 400 * (s - 12)" using \<open>i = 99\<close> by simp
    then show ?thesis by simp
  qed
  ultimately show ?thesis unfolding leap_def by blast
qed

lemma civil:
  defines "l \<equiv> j div 11"
  shows "valid_date (100 * (n - 49) + i + l) (j + 2 - 12 * l) (q - k)"
    and "civil_days (100 * (n - 49) + i + l) (j + 2 - 12 * l) (q - k) + 1789629 = L"
proof -
  let ?Y = "100 * (n - 49) + i" and ?m = "j + 2 - 12 * l"
  have l: "l = (if 11 \<le> j then 1 else 0)" unfolding l_def using j_bounds(3,4) by auto
  have m: "1 \<le> ?m" "?m \<le> 12" using j_bounds(3,4) unfolding l by auto
  have days: "q - k \<le> month_days (?Y + l) ?m"
  proof (cases "j = 12")
    case True
    then have "q - k \<noteq> 29 \<or> leap (?Y + l)" using leap_day unfolding l by auto
    then show ?thesis using k_parts(3) True by (auto simp: l month_days_def)
  next
    case False
    then show ?thesis using k_parts(4) j_bounds(3,4) by (auto simp: l month_days_def split: if_splits)
  qed
  show "valid_date (?Y + l) ?m (q - k)"
    unfolding valid_date_def using m days k_parts(2) by blast
  have "civil_days (?Y + l) ?m (q - k) = march_days ?Y + 367 * j div 12 + (q - k) + 29"
  proof -
    have "?Y + l + (if ?m \<le> 2 then - 1 else 0) = ?Y" "?m - 2 - 12 * (if ?m \<le> 2 then - 1 else 0) = j"
      using j_bounds(3,4) unfolding l by auto
    then show ?thesis using civil_days_march [OF m, of "?Y + l" "q - k"] by (simp only:)
  qed
  also have "\<dots> = march_days ?Y + q + 29" using k_parts(1) by simp
  also have "march_days ?Y = 365 * ?Y + (25 * (n - 49) + i div 4) - (n - 49) + (n - 49) div 4"
  proof -
    have "?Y div 4 = 25 * (n - 49) + i div 4" by presburger
    moreover have c: "?Y div 100 = n - 49" using i_bounds(3,4) by simp
    moreover have "?Y div 400 = (n - 49) div 4" using zdiv_zmult2_eq [of 4 ?Y 100] c by simp
    ultimately show ?thesis unfolding march_days_def by simp
  qed
  also have "(n - 49) div 4 = (n + 3) div 4 - 13" by presburger
  finally show "civil_days (?Y + l) ?m (q - k) + 1789629 = L"
    using r q C_parts(1) E_parts(1) by simp
qed

lemma to_date:
  assumes jd: "jd + 68569 = L" "68569 \<le> L" "L \<le> 10000000000"
  shows "julian_to_date jd = Some (100 * (n - 49) + i + j div 11, j + 2 - 12 * (j div 11), q - k)"
  unfolding q
proof (rule julian_to_date_steps)
  show "(4 * (jd + 68569)) sdiv 146097 = n" unfolding jd n using L by (intro sdiv_nonneg) simp_all
  show "(146097 * n + 3) sdiv 4 = C" unfolding C using n_bounds by (intro sdiv_nonneg) simp_all
  show "(4000 * (r + 1)) sdiv 1461001 = i" unfolding i using r_bounds by (intro sdiv_nonneg) simp_all
  show "(1461 * i) sdiv 4 = E" unfolding E using i_bounds by (intro sdiv_nonneg) simp_all
  show "(80 * (r - E + 31)) sdiv 2447 = j" unfolding q [symmetric] j using q_bounds by (intro sdiv_nonneg) simp_all
  show "(2447 * j) sdiv 80 = k" unfolding k using j_bounds by (intro sdiv_nonneg) simp_all
  show "j sdiv 11 = j div 11" using j_bounds by (intro sdiv_nonneg) simp_all
  show "0 \<le> j div 11" "j div 11 \<le> 1" using j_bounds by simp_all
  show "0 \<le> E" "E \<le> 50000" using E_parts i_bounds by simp_all
  show "0 \<le> k" "k \<le> 1000" using k_parts(1,2) q_bounds j_bounds by simp_all
  show "0 \<le> C" "C \<le> 50000000000" "n \<le> 1000000" using C_parts(2,3) n_bounds jd by simp_all
qed (use jd r r_bounds i_bounds j_bounds n_bounds in simp_all)

end

text \<open>The parts of the algorithm as functions of the day number.\<close>

definition "jd_n L = 4 * L div 146097" for L :: int
definition "jd_C L = (146097 * jd_n L + 3) div 4" for L :: int
definition "jd_r L = L - jd_C L" for L :: int
definition "jd_i L = 4000 * (jd_r L + 1) div 1461001" for L :: int
definition "jd_E L = 1461 * jd_i L div 4" for L :: int
definition "jd_q L = jd_r L - jd_E L + 31" for L :: int
definition "jd_j L = 80 * jd_q L div 2447" for L :: int
definition "jd_k L = 2447 * jd_j L div 80" for L :: int

interpretation parts: julian_parts "int N" "jd_n (int N)" "jd_C (int N)" "jd_r (int N)" "jd_i (int N)" "jd_E (int N)"
    "jd_q (int N)" "jd_j (int N)" "jd_k (int N)" for N
  by unfold_locales (rule of_nat_0_le_iff jd_n_def jd_C_def jd_r_def jd_i_def jd_E_def jd_q_def jd_j_def jd_k_def)+

lemma julian_to_date_civil:
  assumes "0 \<le> jd" "jd \<le> 9000000000"
  shows "\<exists>y m d. julian_to_date jd = Some (y, m, d) \<and> valid_date y m d \<and> civil_days y m d + 1721060 = jd"
proof -
  let ?N = "nat (jd + 68569)"
  have N: "jd + 68569 = int ?N" using assms by simp
  have "julian_to_date jd = Some (100 * (jd_n (int ?N) - 49) + jd_i (int ?N) + jd_j (int ?N) div 11,
      jd_j (int ?N) + 2 - 12 * (jd_j (int ?N) div 11), jd_q (int ?N) - jd_k (int ?N))"
    by (rule parts.to_date [OF N]) (use assms N in linarith)+
  moreover note parts.civil [of ?N]
  ultimately show ?thesis using N by fastforce
qed

section \<open>Dates are counted once\<close>

lemma month_days_pos: "0 < month_days y m"
  by (simp add: month_days_def)

lemma days_in_year:
  assumes "valid_date y m d"
  shows "0 \<le> days_before_month y m + d - 1" "days_before_month y m + d - 1 < (if leap y then 366 else 365)"
proof -
  have m: "1 \<le> m" "m \<le> 12" and d: "1 \<le> d" "d \<le> month_days y m" using assms by (simp_all add: valid_date_def)
  have "0 \<le> days_before_month y m + d - 1 \<and> days_before_month y m + d - 1 < (if leap y then 366 else 365)"
    using month_cases [OF m] d by (cases "leap y"; elim disjE) (simp_all add: days_before_months month_days_def)
  then show "0 \<le> days_before_month y m + d - 1" "days_before_month y m + d - 1 < (if leap y then 366 else 365)"
    by blast+
qed

lemma days_before_year_mono: "y \<le> y' \<Longrightarrow> days_before_year y \<le> days_before_year y'"
proof (induction y' rule: int_ge_induct)
  case (step y')
  then show ?case by (simp add: days_before_year_next)
qed simp

lemma days_before_month_mono:
  assumes "1 \<le> m" and "m \<le> m'"
  shows "days_before_month y m \<le> days_before_month y m'"
  using assms(2)
proof (induction m' rule: int_ge_induct)
  case (step m')
  then show ?case using assms(1) month_days_pos [of y m'] by (simp add: days_before_month_next)
qed simp

lemma civil_days_year:
  assumes "valid_date y m d"
  shows "days_before_year y \<le> civil_days y m d" "civil_days y m d < days_before_year (y + 1)"
  using days_in_year [OF assms] by (simp_all add: civil_days_def days_before_year_next)

lemma civil_days_unique:
  assumes v: "valid_date y m d" and v': "valid_date y' m' d'" and eq: "civil_days y m d = civil_days y' m' d'"
  shows "(y, m, d) = (y', m', d')"
proof -
  have no_year: "\<not> y1 < y2" if "valid_date y1 m1 d1" "valid_date y2 m2 d2" "civil_days y1 m1 d1 = civil_days y2 m2 d2"
    for y1 m1 d1 y2 m2 d2
    using civil_days_year [OF that(1)] civil_days_year [OF that(2)] days_before_year_mono [of "y1 + 1" y2] that(3)
    by linarith
  then have y: "y = y'" using v v' eq by (metis linorder_neqE)
  have no_month: "\<not> m1 < m2" if "valid_date y m1 d1" "valid_date y m2 d2" "civil_days y m1 d1 = civil_days y m2 d2"
    for m1 d1 m2 d2
    using that days_before_month_mono [of "m1 + 1" m2 y] days_before_month_next [of m1 y]
    by (auto simp: valid_date_def civil_days_def)
  then have "m = m'" using v v' eq y by (metis linorder_neqE)
  with y eq show ?thesis by (simp add: civil_days_def)
qed

lemma civil_days_range:
  assumes "valid_date y m d" and "-4000 \<le> y" and "y \<le> 1000000"
  shows "-1460970 \<le> civil_days y m d" "civil_days y m d \<le> 365243000"
proof -
  have "days_before_year (-4000) = -1460970" "days_before_year 1000001 = 365242866" by (simp_all add: days_before_year_def)
  then show "-1460970 \<le> civil_days y m d" "civil_days y m d \<le> 365243000"
    using civil_days_year [OF assms(1)] days_before_year_mono [OF assms(2)] days_before_year_mono [of "y + 1" 1000001] assms(3)
    by linarith+
qed

text \<open>
  C35: the conversion of a date to its Julian day number and back is the identity on every date of the
  Gregorian calendar between the years -4000 and 1000000, and no computation overflows.
\<close>

theorem julian_round_trip:
  assumes "valid_date y m d" and "-4000 \<le> y" and "y \<le> 1000000"
  shows "Option.bind (date_to_julian y m d) julian_to_date = Some (y, m, d)"
proof -
  have m: "1 \<le> m" "m \<le> 12" and d: "1 \<le> d" "d \<le> 31"
    using assms(1) by (auto simp: valid_date_def month_days_def split: if_splits)
  have "0 \<le> civil_days y m d + 1721060" "civil_days y m d + 1721060 \<le> 9000000000"
    using civil_days_range [OF assms] by simp_all
  from julian_to_date_civil [OF this] obtain y' m' d' where there: "julian_to_date (civil_days y m d + 1721060) = Some (y', m', d')" and "valid_date y' m' d'"
    and "civil_days y' m' d' = civil_days y m d"
    by auto
  then have "(y, m, d) = (y', m', d')" by (intro civil_days_unique [OF assms(1)]) simp_all
  then show ?thesis unfolding date_to_julian_civil [OF m d assms(2,3)] by (simp only: Option.bind.simps there)
qed

theorem julian_round_trip_witness: "Option.bind (date_to_julian 2000 2 29) julian_to_date = Some (2000, 2, 29)"
  by (rule julian_round_trip) (simp_all add: valid_date_def month_days_def leap_def)

section \<open>Adding an offset\<close>

definition tm_ok :: "tm \<Rightarrow> bool" where
  "tm_ok tm \<longleftrightarrow>
     valid_date (tm_year tm + 1900) (tm_mon tm + 1) (tm_mday tm) \<and> -4000 \<le> tm_year tm + 1900 \<and> tm_year tm + 1900 \<le> 1000000 \<and>
     0 \<le> tm_hour tm \<and> tm_hour tm < 24 \<and> 0 \<le> tm_min tm \<and> tm_min tm < 60 \<and> 0 \<le> tm_sec tm \<and> tm_sec tm < 60"

text \<open>The seconds from the beginning of the year 0.\<close>

definition tm_secs :: "tm \<Rightarrow> int" where
  "tm_secs tm = 86400 * civil_days (tm_year tm + 1900) (tm_mon tm + 1) (tm_mday tm) +
     3600 * tm_hour tm + 60 * tm_min tm + tm_sec tm"

text \<open>The offsets whose whole days have fewer than \<open>2 ^ 31\<close> seconds.\<close>

definition offset_ok :: "int \<Rightarrow> int \<Rightarrow> bool" where
  "offset_ok off_day offset_sec \<longleftrightarrow> \<bar>off_day\<bar> \<le> 2147450000 \<and> \<bar>offset_sec\<bar> < 24856 * 86400"

lemma sdiv_day:
  fixes s :: int
  assumes "\<bar>s\<bar> < 24856 * 86400"
  shows "- 24855 \<le> s sdiv 86400" "s sdiv 86400 \<le> 24855" "- 86400 < s - s sdiv 86400 * 86400" "s - s sdiv 86400 * 86400 < 86400"
proof -
  have d: "s sdiv 86400 = (if 0 \<le> s then s div 86400 else - (- s div 86400))" by (cases "s = 0") (auto simp: signed_divide_int_def)
  have q: "\<bar>s\<bar> div 86400 * 86400 \<le> \<bar>s\<bar>" "\<bar>s\<bar> < \<bar>s\<bar> div 86400 * 86400 + 86400"
    using div_mult_mod_eq [of "\<bar>s\<bar>" 86400] pos_mod_bound [of 86400 "\<bar>s\<bar>"] pos_mod_sign [of 86400 "\<bar>s\<bar>"] by linarith+
  moreover have "0 \<le> \<bar>s\<bar> div 86400" by (simp add: pos_imp_zdiv_nonneg_iff)
  moreover have "\<bar>s\<bar> div 86400 \<le> 24855" using q(1) assms by linarith
  ultimately show "- 24855 \<le> s sdiv 86400" "s sdiv 86400 \<le> 24855" "- 86400 < s - s sdiv 86400 * 86400"
    "s - s sdiv 86400 * 86400 < 86400"
    unfolding d by (cases "0 \<le> s"; simp)+
qed

lemma julian_adj_secs:
  assumes tm: "tm_ok tm" and off: "offset_ok off_day offset_sec"
  defines "t \<equiv> tm_secs tm + 86400 * (1721060 + off_day) + offset_sec"
  shows "julian_adj tm off_day offset_sec = Some (if t < 0 then None else Some (t div 86400, t mod 86400))"
proof -
  define D where "D = offset_sec sdiv 86400"
  define R where "R = offset_sec - D * 86400"
  define hms where "hms = tm_hour tm * 3600 + tm_min tm * 60 + tm_sec tm"
  define jd where "jd = civil_days (tm_year tm + 1900) (tm_mon tm + 1) (tm_mday tm) + 1721060"
  have D: "- 24855 \<le> D" "D \<le> 24855" "- 86400 < R" "R < 86400"
    using sdiv_day [of offset_sec] off by (simp_all add: offset_ok_def D_def R_def)
  have o: "- 2147450000 \<le> off_day" "off_day \<le> 2147450000" "\<bar>offset_sec\<bar> < 24856 * 86400" using off by (auto simp: offset_ok_def)
  have f: "0 \<le> tm_hour tm" "tm_hour tm < 24" "0 \<le> tm_min tm" "tm_min tm < 60" "0 \<le> tm_sec tm" "tm_sec tm < 60"
    and y: "-4000 \<le> tm_year tm + 1900" "tm_year tm + 1900 \<le> 1000000"
    and v: "valid_date (tm_year tm + 1900) (tm_mon tm + 1) (tm_mday tm)"
    using tm by (simp_all add: tm_ok_def)
  have m: "1 \<le> tm_mon tm + 1" "tm_mon tm + 1 \<le> 12" and d: "1 \<le> tm_mday tm" "tm_mday tm \<le> 31"
    using v by (auto simp: valid_date_def month_days_def split: if_splits)
  have hms: "0 \<le> hms" "hms < 86400" using f by (simp_all add: hms_def)
  have jd: "0 \<le> jd" "jd \<le> 367000000" using civil_days_range [OF v y] by (simp_all add: jd_def)
  have t: "t = 86400 * (jd + D + off_day) + (R + hms)"
    by (simp add: t_def tm_secs_def jd_def R_def hms_def)
  have c: "c_int (D * 86400) = Some (D * 86400)" "c_long R = Some R" "to_int R = R" "to_int D = D"
    "c_int (D + off_day) = Some (D + off_day)" "c_int (tm_hour tm * 3600) = Some (tm_hour tm * 3600)"
    "c_int (tm_min tm * 60) = Some (tm_min tm * 60)"
    "c_int (tm_hour tm * 3600 + tm_min tm * 60) = Some (tm_hour tm * 3600 + tm_min tm * 60)"
    "c_int hms = Some hms" "c_int (R + hms) = Some (R + hms)" 
    "c_int (D + off_day + 1) = Some (D + off_day + 1)" "c_int (D + off_day - 1) = Some (D + off_day - 1)"
    "c_int (tm_year tm + 1900) = Some (tm_year tm + 1900)" "c_int (tm_mon tm + 1) = Some (tm_mon tm + 1)"
    "c_long (jd + (D + off_day)) = Some (jd + (D + off_day))"
    "c_long (jd + (D + off_day + 1)) = Some (jd + (D + off_day + 1))"
    "c_long (jd + (D + off_day - 1)) = Some (jd + (D + off_day - 1))"
    using D o f hms jd y m by (simp_all add: c_int_def c_long_def)
  have jd_eq: "date_to_julian (tm_year tm + 1900) (tm_mon tm + 1) (tm_mday tm) = Some jd"
    unfolding jd_def by (rule date_to_julian_civil [OF m d y])
  have secs: "SECS_PER_DAY = 86400" by (simp add: SECS_PER_DAY_def)
  note steps = julian_adj_def Let_def secs D_def [symmetric] R_def [symmetric] hms_def [symmetric] c jd_eq
    Option.bind.simps prod.case if_True if_False
  have parts: "t div 86400 = q \<and> t mod 86400 = s" if "t = 86400 * q + s" "0 \<le> s" "s < 86400" for q s
    unfolding that(1) using that(2,3) by simp
  have neg: "t < 0 \<longleftrightarrow> q < 0" if "t = 86400 * q + s" "0 \<le> s" "s < 86400" for q s
  proof -
    have "q \<le> - 1 \<or> 0 \<le> q" by linarith
    then show ?thesis using that by auto
  qed
  consider "86400 \<le> R + hms" | "\<not> 86400 \<le> R + hms" "R + hms < 0" | "\<not> 86400 \<le> R + hms" "\<not> R + hms < 0"
    by blast
  then show ?thesis
  proof cases
    case 1
    have "t = 86400 * (jd + (D + off_day + 1)) + (R + hms - 86400)" "0 \<le> R + hms - 86400" "R + hms - 86400 < 86400"
      using t 1 D hms by simp_all
    with neg parts have "t < 0 \<longleftrightarrow> jd + (D + off_day + 1) < 0" "t div 86400 = jd + (D + off_day + 1)" "t mod 86400 = R + hms - 86400"
      by blast+
    then show ?thesis using 1 by (simp only: steps)
  next
    case 2
    have "t = 86400 * (jd + (D + off_day - 1)) + (R + hms + 86400)" "0 \<le> R + hms + 86400" "R + hms + 86400 < 86400"
      using t 2 D hms by simp_all
    with neg parts have "t < 0 \<longleftrightarrow> jd + (D + off_day - 1) < 0" "t div 86400 = jd + (D + off_day - 1)" "t mod 86400 = R + hms + 86400"
      by blast+
    then show ?thesis using 2 by (simp only: steps)
  next
    case 3
    have "t = 86400 * (jd + (D + off_day)) + (R + hms)" "0 \<le> R + hms" "R + hms < 86400"
      using t 3 by simp_all
    with neg parts have "t < 0 \<longleftrightarrow> jd + (D + off_day) < 0" "t div 86400 = jd + (D + off_day)" "t mod 86400 = R + hms"
      by blast+
    then show ?thesis using 3 by (simp only: steps)
  qed
qed

lemma tm_secs_parts:
  assumes "tm_ok tm"
  shows "tm_secs tm div 86400 = civil_days (tm_year tm + 1900) (tm_mon tm + 1) (tm_mday tm)"
proof -
  let ?s = "3600 * tm_hour tm + 60 * tm_min tm + tm_sec tm"
  have "0 \<le> ?s" "?s < 86400" using assms by (simp_all add: tm_ok_def)
  moreover have "tm_secs tm = 86400 * civil_days (tm_year tm + 1900) (tm_mon tm + 1) (tm_mday tm) + ?s" by (simp add: tm_secs_def)
  ultimately show ?thesis by (intro int_div_pos_eq [of _ _ _ ?s]) simp_all
qed

lemma tm_year_of_secs:
  assumes "tm_ok tm" and "valid_date y m d" and "tm_secs tm div 86400 = civil_days y m d"
  shows "tm_year tm + 1900 = y"
  using civil_days_unique [OF _ assms(2), of "tm_year tm + 1900" "tm_mon tm + 1" "tm_mday tm"] assms(1,3)
  by (simp add: tm_secs_parts tm_ok_def)

lemma tm_secs_range:
  assumes "tm_ok tm"
  shows "- 1460970 * 86400 \<le> tm_secs tm" "tm_secs tm < 365243001 * 86400"
proof -
  have "valid_date (tm_year tm + 1900) (tm_mon tm + 1) (tm_mday tm)" "-4000 \<le> tm_year tm + 1900" "tm_year tm + 1900 \<le> 1000000"
    using assms by (simp_all add: tm_ok_def)
  from civil_days_range [OF this] tm_secs_parts [OF assms]
  have "- 1460970 \<le> tm_secs tm div 86400" "tm_secs tm div 86400 \<le> 365243000" by simp_all
  then show "- 1460970 * 86400 \<le> tm_secs tm" "tm_secs tm < 365243001 * 86400" by simp_all
qed

lemma smod_nonneg: "0 \<le> a \<Longrightarrow> 0 < b \<Longrightarrow> a smod b = a mod b" for a b :: int
  by (cases "a = 0") (simp_all add: signed_modulo_int_def)

text \<open>Hours, minutes and seconds of the second \<open>s\<close> of a day.\<close>

lemma clock_parts:
  fixes s :: int
  assumes "0 \<le> s" "s < 86400"
  defines "h \<equiv> s sdiv 3600" and "mi \<equiv> s sdiv 60 smod 60" and "se \<equiv> s smod 60"
  shows "0 \<le> h" "h < 24" "0 \<le> mi" "mi < 60" "0 \<le> se" "se < 60" "3600 * h + 60 * mi + se = s"
proof -
  have e: "h = s div 3600" "mi = s div 60 mod 60" "se = s mod 60"
    using assms(1) unfolding h_def mi_def se_def by (simp_all add: sdiv_nonneg smod_nonneg pos_imp_zdiv_nonneg_iff)
  show "0 \<le> h" "h < 24" "0 \<le> mi" "mi < 60" "0 \<le> se" "se < 60"
    unfolding e using assms(1,2) by (simp_all add: pos_imp_zdiv_nonneg_iff)
  have "s div 3600 = s div 60 div 60" by (simp add: zdiv_zmult2_eq [symmetric])
  then show "3600 * h + 60 * mi + se = s"
    unfolding e using div_mult_mod_eq [of s 60] div_mult_mod_eq [of "s div 60" 60] by linarith
qed

lemma gmtime_adj_secs:
  assumes tm: "tm_ok tm" and off: "offset_ok off_day offset_sec"
  shows "\<exists>r. OPENSSL_gmtime_adj tm off_day offset_sec = Some r \<and>
    (\<forall>tm'. r = Some tm' \<longrightarrow> tm_ok tm' \<and> 1900 \<le> tm_year tm' + 1900 \<and> tm_year tm' + 1900 \<le> 9999 \<and>
      tm_secs tm' = tm_secs tm + 86400 * off_day + offset_sec) \<and>
    (r = None \<longrightarrow> \<not> (\<exists>tm'. tm_ok tm' \<and> 1900 \<le> tm_year tm' + 1900 \<and> tm_year tm' + 1900 \<le> 9999 \<and>
      tm_secs tm' = tm_secs tm + 86400 * off_day + offset_sec))"
proof -
  let ?T = "tm_secs tm + 86400 * off_day + offset_sec"
  define t where "t = tm_secs tm + 86400 * (1721060 + off_day) + offset_sec"
  have T: "?T = t - 86400 * 1721060" by (simp add: t_def)
  note adj = julian_adj_secs [OF tm off, folded t_def]
  have range: "t \<le> 9000000000 * 86400"
    using tm_secs_range [OF tm] off by (auto simp: t_def offset_ok_def abs_le_iff abs_less_iff)
  show ?thesis
  proof (cases "t < 0")
    case True
    then have "OPENSSL_gmtime_adj tm off_day offset_sec = Some None" by (simp add: OPENSSL_gmtime_adj_def adj)
    moreover have "\<not> (tm_ok tm' \<and> tm_secs tm' = ?T)" for tm'
      using tm_secs_range [of tm'] True unfolding T by auto
    ultimately show ?thesis by blast
  next
    case False
    let ?q = "t div 86400" and ?s = "t mod 86400"
    have q: "0 \<le> ?q" "?q \<le> 9000000000" using False range by (simp_all add: pos_imp_zdiv_nonneg_iff)
    have s: "0 \<le> ?s" "?s < 86400" by simp_all
    have Tq: "?T div 86400 = ?q - 1721060" "?T = 86400 * (?q - 1721060) + ?s"
      unfolding T using div_mult_mod_eq [of t 86400] by (simp_all add: algebra_simps)
    obtain y m d where date: "julian_to_date ?q = Some (y, m, d)" and v: "valid_date y m d"
      and days: "civil_days y m d + 1721060 = ?q"
      using julian_to_date_civil [OF q] by blast
    show ?thesis
    proof (cases "y < 1900 \<or> 9999 < y")
      case True
      then have "OPENSSL_gmtime_adj tm off_day offset_sec = Some None"
        using False by (simp add: OPENSSL_gmtime_adj_def adj date)
      moreover have year: "tm_year tm' + 1900 = y" if "tm_ok tm'" "tm_secs tm' = ?T" for tm'
        using tm_year_of_secs [OF that(1) v] that(2) Tq(1) days by simp
      moreover have False
        if "tm_ok tm'" "1900 \<le> tm_year tm' + 1900" "tm_year tm' + 1900 \<le> 9999" "tm_secs tm' = ?T" for tm'
        using year [OF that(1,4)] that(2,3) True by linarith
      ultimately show ?thesis by blast
    next
      case inside: False
      let ?tm = "tm\<lparr>tm_year := y - 1900, tm_mon := m - 1, tm_mday := d,
        tm_hour := ?s sdiv 3600, tm_min := ?s sdiv 60 smod 60, tm_sec := ?s smod 60\<rparr>"
      have "OPENSSL_gmtime_adj tm off_day offset_sec = Some (Some ?tm)"
        using False inside by (simp add: OPENSSL_gmtime_adj_def adj date)
      moreover have "tm_ok ?tm" using clock_parts [OF s] v inside by (simp add: tm_ok_def)
      moreover have "tm_secs ?tm = ?T"
        using clock_parts(7) [OF s] days Tq(2) by (simp add: tm_secs_def)
      ultimately show ?thesis using inside by simp
    qed
  qed
qed

text \<open>
  C36: \<open>OPENSSL_gmtime_adj\<close> adds an offset of days and seconds exactly, for every offset within the bound
  that \<open>julian_adj\<close> needs (\<open>offset_ok\<close>: at most 2147450000 days, and less than 24856 days in
  seconds): the new broken-down time is a valid date and time, the offset later. It fails if and only if that time is not in the years 1900 to 9999.
\<close>

theorem gmtime_adj_exact:
  assumes tm: "tm_ok tm" and off: "offset_ok off_day offset_sec"
  shows "\<exists>r. OPENSSL_gmtime_adj tm off_day offset_sec = Some r \<and>
    (\<forall>tm'. r = Some tm' \<longrightarrow> tm_ok tm' \<and> 1900 \<le> tm_year tm' + 1900 \<and> tm_year tm' + 1900 \<le> 9999 \<and>
      tm_secs tm' = tm_secs tm + 86400 * off_day + offset_sec) \<and>
    (r = None \<longrightarrow> \<not> (\<exists>tm'. tm_ok tm' \<and> 1900 \<le> tm_year tm' + 1900 \<and> tm_year tm' + 1900 \<le> 9999 \<and>
      tm_secs tm' = tm_secs tm + 86400 * off_day + offset_sec))"
  using assms by (rule gmtime_adj_secs)

lemma gmtime_diff_secs:
  assumes "tm_ok from_tm" and "tm_ok to_tm"
  shows "\<exists>days secs. OPENSSL_gmtime_diff from_tm to_tm = Some (Some (days, secs)) \<and>
    86400 * days + secs = tm_secs to_tm - tm_secs from_tm \<and> \<bar>secs\<bar> < 86400 \<and> (days < 0 \<longrightarrow> secs \<le> 0) \<and> (0 < days \<longrightarrow> 0 \<le> secs)"
proof -
  let ?t = "\<lambda>tm. tm_secs tm + 86400 * 1721060"
  have jd: "julian_adj tm 0 0 = Some (Some (?t tm div 86400, ?t tm mod 86400))"
    and range: "0 \<le> ?t tm div 86400" "?t tm div 86400 \<le> 367000000" if "tm_ok tm" for tm
    using julian_adj_secs [OF that, of 0 0] tm_secs_range [OF that]
    by (simp_all add: offset_ok_def pos_imp_zdiv_nonneg_iff)
  define D where "D = ?t to_tm div 86400 - ?t from_tm div 86400"
  define S where "S = ?t to_tm mod 86400 - ?t from_tm mod 86400"
  have DS: "86400 * D + S = tm_secs to_tm - tm_secs from_tm"
    unfolding D_def S_def using div_mult_mod_eq [of "?t to_tm" 86400] div_mult_mod_eq [of "?t from_tm" 86400]
    by (simp only: right_diff_distrib)
  have D: "- 367000000 \<le> D" "D \<le> 367000000"
    unfolding D_def using range [OF assms(1)] range [OF assms(2)] by linarith+
  have S: "- 86400 < S" "S < 86400"
    unfolding S_def using pos_mod_bound [of 86400 "?t to_tm"] pos_mod_sign [of 86400 "?t to_tm"]
      pos_mod_bound [of 86400 "?t from_tm"] pos_mod_sign [of 86400 "?t from_tm"] by linarith+
  have c: "c_long D = Some D" "c_int S = Some S" using D S by simp_all
  have diff: "OPENSSL_gmtime_diff from_tm to_tm =
      (let (d, s) = (if 0 < D \<and> S < 0 then (D - 1, S + SECS_PER_DAY) else (D, S));
           (d, s) = (if d < 0 \<and> 0 < s then (d + 1, s - SECS_PER_DAY) else (d, s))
       in Some (Some (to_int d, s)))"
    unfolding OPENSSL_gmtime_diff_def
    by (simp only: jd [OF assms(1)] jd [OF assms(2)] Option.bind.simps option.case prod.case D_def [symmetric] S_def [symmetric] c)
  show ?thesis
    using D S DS unfolding diff by (auto simp: SECS_PER_DAY_def)
qed

text \<open>
  C37: \<open>OPENSSL_gmtime_diff\<close> gives the difference of two times exactly, in days and seconds of the same
  sign.
\<close>

theorem gmtime_diff_exact:
  assumes "tm_ok from_tm" and "tm_ok to_tm"
  shows "\<exists>days secs. OPENSSL_gmtime_diff from_tm to_tm = Some (Some (days, secs)) \<and>
    86400 * days + secs = tm_secs to_tm - tm_secs from_tm \<and> \<bar>secs\<bar> < 86400 \<and> (days < 0 \<longrightarrow> secs \<le> 0) \<and> (0 < days \<longrightarrow> 0 \<le> secs)"
  using assms by (rule gmtime_diff_secs)

text \<open>A day after a leap day, and a time that an offset of 24856 days of seconds overflows.\<close>

definition sample_tm :: tm where
  "sample_tm = \<lparr>tm_sec = 30, tm_min = 59, tm_hour = 23, tm_mday = 28, tm_mon = 1, tm_year = 100\<rparr>"

lemma sample_tm_ok: "tm_ok sample_tm"
  by (simp add: tm_ok_def sample_tm_def valid_date_def month_days_def)

theorem gmtime_adj_exact_witness:
  "\<exists>r. OPENSSL_gmtime_adj sample_tm 1 31 = Some r \<and>
    (\<forall>tm'. r = Some tm' \<longrightarrow> tm_ok tm' \<and> 1900 \<le> tm_year tm' + 1900 \<and> tm_year tm' + 1900 \<le> 9999 \<and>
      tm_secs tm' = tm_secs sample_tm + 86400 * 1 + 31) \<and>
    (r = None \<longrightarrow> \<not> (\<exists>tm'. tm_ok tm' \<and> 1900 \<le> tm_year tm' + 1900 \<and> tm_year tm' + 1900 \<le> 9999 \<and>
      tm_secs tm' = tm_secs sample_tm + 86400 * 1 + 31))"
  by (rule gmtime_adj_exact [OF sample_tm_ok]) (simp add: offset_ok_def)

theorem gmtime_diff_exact_witness:
  "\<exists>days secs. OPENSSL_gmtime_diff sample_tm sample_tm = Some (Some (days, secs)) \<and>
    86400 * days + secs = tm_secs sample_tm - tm_secs sample_tm \<and> \<bar>secs\<bar> < 86400 \<and> (days < 0 \<longrightarrow> secs \<le> 0) \<and> (0 < days \<longrightarrow> 0 \<le> secs)"
  by (rule gmtime_diff_exact [OF sample_tm_ok sample_tm_ok])

text \<open>
  C38: the bound on the offset is needed. The product of its days and the seconds of a day is computed in
  an \<open>int\<close>: an offset of 24856 days in seconds, some 68 years, overflows it, although the parameter is a
  \<open>long\<close> and the time meant is an ordinary one.
\<close>

theorem gmtime_adj_overflow:
  assumes "offset_sec = 24856 * 86400"
  shows "OPENSSL_gmtime_adj tm off_day offset_sec = None"
proof -
  have "offset_sec sdiv SECS_PER_DAY = 24856" using assms by (simp add: SECS_PER_DAY_def signed_divide_int_def)
  then show ?thesis
    by (simp add: OPENSSL_gmtime_adj_def julian_adj_def SECS_PER_DAY_def c_int_def)
qed

theorem gmtime_adj_overflow_witness: "OPENSSL_gmtime_adj sample_tm 0 (24856 * 86400) = None"
  by (rule gmtime_adj_overflow) simp

end
