(* ===== verification/Asn1_Time.thy ===== *)
theory Asn1_Time
  imports Time_Support Mem Cbb
begin

text \<open>
  The times of certificates (\<open>crypto/asn1/a_gentm.c\<close>, \<open>a_utctm.c\<close>, \<open>a_time.c\<close>): UTCTime and
  GeneralizedTime strings, their parsers into a broken-down time, the constructors from a \<open>time_t\<close> and
  an offset, the difference of two of them, over the calendar of \<open>time_support.c\<close>.
\<close>

section \<open>Strings\<close>

datatype time_type = V_ASN1_UTCTIME | V_ASN1_GENERALIZEDTIME

text \<open>\<open>ASN1_STRING\<close>: the bytes are followed by a zero, which \<open>length\<close> does not count.\<close>

record asn1_time =
  at_type :: time_type
  at_data :: bytes

definition terminated :: "asn1_time \<Rightarrow> bytes" where
  "terminated d = at_data d @ [0]"

definition is_digit :: "u8 \<Rightarrow> bool" where
  "is_digit c \<longleftrightarrow> \<not> (c < 48 \<or> 57 < c)"

text \<open>Two digits at \<open>o\<close>, with the checks that the parsers make; \<open>None\<close> for \<open>goto err\<close>.\<close>

definition two_digits :: "bytes \<Rightarrow> nat \<Rightarrow> nat \<Rightarrow> int option" where
  "two_digits a l p =
     (if \<not> is_digit (a ! p) then None
      else if l < p + 1 then None
      else if \<not> is_digit (a ! (p + 1)) then None
      else if l < p + 2 then None
      else Some ((int (unat (a ! p)) - 48) * 10 + int (unat (a ! (p + 1))) - 48))"

section \<open>GeneralizedTime\<close>

definition gen_min :: "int list" where
  "gen_min = [0, 0, 1, 1, 0, 0, 0, 0, 0]"

definition gen_max :: "int list" where
  "gen_max = [99, 99, 12, 31, 23, 59, 59, 12, 59]"

definition gen_field :: "nat \<Rightarrow> int \<Rightarrow> tm \<Rightarrow> tm" where
  "gen_field i n tm =
     (if i = 0 then tm\<lparr>tm_year := n * 100 - 1900\<rparr>
      else if i = 1 then tm\<lparr>tm_year := tm_year tm + n\<rparr>
      else if i = 2 then tm\<lparr>tm_mon := n - 1\<rparr>
      else if i = 3 then tm\<lparr>tm_mday := n\<rparr>
      else if i = 4 then tm\<lparr>tm_hour := n\<rparr>
      else if i = 5 then tm\<lparr>tm_min := n\<rparr>
      else tm\<lparr>tm_sec := n\<rparr>)"

definition is_zone :: "u8 \<Rightarrow> bool" where
  "is_zone c \<longleftrightarrow> c = 90 \<or> c = 43 \<or> c = 45"

text \<open>The loop over the fields: the position behind them and the time.\<close>

function gen_fields :: "bytes \<Rightarrow> nat \<Rightarrow> nat \<Rightarrow> nat \<Rightarrow> tm \<Rightarrow> (nat \<times> tm) option" where
  "gen_fields a l i p tm =
     (if i < 7 then
        if i = 6 \<and> is_zone (a ! p) then Some (p, tm\<lparr>tm_sec := 0\<rparr>)
        else case two_digits a l p of
          None \<Rightarrow> None
        | Some n \<Rightarrow>
            if n < gen_min ! i \<or> gen_max ! i < n then None
            else gen_fields a l (i + 1) (p + 2) (gen_field i n tm)
      else Some (p, tm))"
  by pat_completeness auto
termination by (relation "measure (\<lambda>(_, _, i, _). 7 - i)") auto

text \<open>The fraction of a second is skipped.\<close>

function skip_digits :: "bytes \<Rightarrow> nat \<Rightarrow> nat \<Rightarrow> nat" where
  "skip_digits a l p = (if is_digit (a ! p) \<and> p \<le> l then skip_digits a l (p + 1) else p)"
  by pat_completeness auto
termination by (relation "measure (\<lambda>(_, l, p). l + 1 - p)") auto

definition gen_fraction :: "bytes \<Rightarrow> nat \<Rightarrow> nat \<Rightarrow> nat option" where
  "gen_fraction a l p =
     (if a ! p = 46 then
        if l < p + 1 then None
        else if skip_digits a l (p + 1) = p + 1 then None
        else Some (skip_digits a l (p + 1))
      else Some p)"

text \<open>The hours and minutes of a zone: the position behind them and the offset in seconds.\<close>

definition zone_digits :: "bytes \<Rightarrow> nat \<Rightarrow> int \<Rightarrow> int option" where
  "zone_digits a p mx =
     (if \<not> is_digit (a ! p) \<or> \<not> is_digit (a ! (p + 1)) then None
      else let n = (int (unat (a ! p)) - 48) * 10 + int (unat (a ! (p + 1))) - 48
        in if n < 0 \<or> mx < n then None else Some n)"

definition zone_offset :: "bytes \<Rightarrow> nat \<Rightarrow> nat \<Rightarrow> (nat \<times> int) option" where
  "zone_offset a l p =
     (let offsign = (if a ! p = 45 then 1 else -1); p = p + 1
      in if l < p + 4 then None
        else case zone_digits a p 12 of
          None \<Rightarrow> None
        | Some h \<Rightarrow>
            (case zone_digits a (p + 2) 59 of
               None \<Rightarrow> None
             | Some m \<Rightarrow> Some (p + 4, (h * 3600 + m * 60) * offsign)))"

text \<open>
  \<open>want\<close>: the caller passed a \<open>struct tm\<close>, otherwise the string is only checked and the offset of the
  zone is not applied. \<open>Some None\<close> is the return value 0.
\<close>

definition apply_zone :: "bool \<Rightarrow> bytes \<Rightarrow> nat \<Rightarrow> nat \<Rightarrow> tm \<Rightarrow> tm option option" where
  "apply_zone want a l p tm =
     (case zone_offset a l p of
        None \<Rightarrow> Some None
      | Some (p, offset) \<Rightarrow>
          if want \<and> offset \<noteq> 0 then do {
            r \<leftarrow> OPENSSL_gmtime_adj tm 0 offset;
            case r of None \<Rightarrow> Some None | Some tm \<Rightarrow> Some (if p = l then Some tm else None)
          } else Some (if p = l then Some tm else None))"

definition asn1_generalizedtime_to_tm :: "bool \<Rightarrow> tm \<Rightarrow> asn1_time \<Rightarrow> tm option option" where
  "asn1_generalizedtime_to_tm want tm d =
     (let a = terminated d; l = length (at_data d) in
      if at_type d \<noteq> V_ASN1_GENERALIZEDTIME then Some None
      else if l < 13 then Some None
      else case gen_fields a l 0 0 tm of
        None \<Rightarrow> Some None
      | Some (p, tm) \<Rightarrow>
          (case gen_fraction a l p of
             None \<Rightarrow> Some None
           | Some p \<Rightarrow>
               if a ! p = 90 then Some (if p + 1 = l then Some tm else None)
               else if a ! p = 43 \<or> a ! p = 45 then apply_zone want a l p tm
               else if a ! p \<noteq> 0 then Some None
               else Some (if p = l then Some tm else None)))"

text \<open>\<open>tm_zero\<close> is the unset structure; a check of a string does not read it.\<close>

definition tm_zero :: tm where
  "tm_zero = \<lparr>tm_sec = 0, tm_min = 0, tm_hour = 0, tm_mday = 0, tm_mon = 0, tm_year = 0\<rparr>"

definition ASN1_GENERALIZEDTIME_check :: "asn1_time \<Rightarrow> bool" where
  "ASN1_GENERALIZEDTIME_check d = (asn1_generalizedtime_to_tm False tm_zero d \<notin> {None, Some None})"

text \<open>\<open>ASN1_STRING_set\<close> allocates; \<open>alloc\<close> says whether it succeeds.\<close>

definition ASN1_GENERALIZEDTIME_set_string :: "bool \<Rightarrow> asn1_time \<Rightarrow> bytes \<Rightarrow> bool \<times> asn1_time" where
  "ASN1_GENERALIZEDTIME_set_string alloc s str =
     (let t = \<lparr>at_type = V_ASN1_GENERALIZEDTIME, at_data = str\<rparr> in
      if ASN1_GENERALIZEDTIME_check t then if alloc then (True, t) else (False, s)
      else (False, s))"

section \<open>UTCTime\<close>

definition utc_min :: "int list" where
  "utc_min = [0, 1, 1, 0, 0, 0, 0, 0]"

definition utc_max :: "int list" where
  "utc_max = [99, 12, 31, 23, 59, 59, 12, 59]"

definition utc_field :: "nat \<Rightarrow> int \<Rightarrow> tm \<Rightarrow> tm" where
  "utc_field i n tm =
     (if i = 0 then tm\<lparr>tm_year := (if n < 50 then n + 100 else n)\<rparr>
      else if i = 1 then tm\<lparr>tm_mon := n - 1\<rparr>
      else if i = 2 then tm\<lparr>tm_mday := n\<rparr>
      else if i = 3 then tm\<lparr>tm_hour := n\<rparr>
      else if i = 4 then tm\<lparr>tm_min := n\<rparr>
      else tm\<lparr>tm_sec := n\<rparr>)"

function utc_fields :: "bytes \<Rightarrow> nat \<Rightarrow> nat \<Rightarrow> nat \<Rightarrow> tm \<Rightarrow> (nat \<times> tm) option" where
  "utc_fields a l i p tm =
     (if i < 6 then
        if i = 5 \<and> is_zone (a ! p) then Some (p, tm\<lparr>tm_sec := 0\<rparr>)
        else case two_digits a l p of
          None \<Rightarrow> None
        | Some n \<Rightarrow>
            if n < utc_min ! i \<or> utc_max ! i < n then None
            else utc_fields a l (i + 1) (p + 2) (utc_field i n tm)
      else Some (p, tm))"
  by pat_completeness auto
termination by (relation "measure (\<lambda>(_, _, i, _). 6 - i)") auto

definition asn1_utctime_to_tm :: "bool \<Rightarrow> tm \<Rightarrow> asn1_time \<Rightarrow> tm option option" where
  "asn1_utctime_to_tm want tm d =
     (let a = terminated d; l = length (at_data d) in
      if at_type d \<noteq> V_ASN1_UTCTIME then Some None
      else if l < 11 then Some None
      else case utc_fields a l 0 0 tm of
        None \<Rightarrow> Some None
      | Some (p, tm) \<Rightarrow>
          if a ! p = 90 then Some (if p + 1 = l then Some tm else None)
          else if a ! p = 43 \<or> a ! p = 45 then apply_zone want a l p tm
          else Some (if p = l then Some tm else None))"

definition ASN1_UTCTIME_check :: "asn1_time \<Rightarrow> bool" where
  "ASN1_UTCTIME_check d = (asn1_utctime_to_tm False tm_zero d \<notin> {None, Some None})"

definition ASN1_UTCTIME_set_string :: "bool \<Rightarrow> asn1_time \<Rightarrow> bytes \<Rightarrow> bool \<times> asn1_time" where
  "ASN1_UTCTIME_set_string alloc s str =
     (let t = \<lparr>at_type = V_ASN1_UTCTIME, at_data = str\<rparr> in
      if ASN1_UTCTIME_check t then if alloc then (True, t) else (False, s)
      else (False, s))"

section \<open>Constructors\<close>

text \<open>
  The C library's \<open>gmtime_r\<close>: the date of the day, found in its cycle of 400 years, and the clock;
  \<open>None\<close> if the year does not fit an \<open>int\<close>. \<open>OPENSSL_gmtime\<close> is this function.
\<close>

definition gmtime_r :: "int \<Rightarrow> tm option" where
  "gmtime_r t =
     (let days = t div 86400 + 719528;
          L = days mod 146097 + 1789629;
          j = jd_j L;
          y = 100 * (jd_n L - 49) + jd_i L + j div 11 + 400 * (days div 146097);
          s = t mod 86400
      in if y - 1900 < - (2 ^ 31) \<or> 2 ^ 31 \<le> y - 1900 then None
         else Some \<lparr>tm_sec = s mod 60, tm_min = s div 60 mod 60, tm_hour = s div 3600,
           tm_mday = jd_q L - jd_k L, tm_mon = j + 2 - 12 * (j div 11) - 1, tm_year = y - 1900\<rparr>)"

definition OPENSSL_gmtime :: "int \<Rightarrow> tm option" where
  "OPENSSL_gmtime time = gmtime_r time"

text \<open>\<open>%0wd\<close> of the C library.\<close>

definition print_d :: "nat \<Rightarrow> int \<Rightarrow> bytes" where
  "print_d w n =
     (let ds = decimal (nat \<bar>n\<bar>); sign = (if n < 0 then [45] else [])
      in sign @ replicate (w - length sign - length ds) 48 @ ds)"

text \<open>\<open>BIO_snprintf\<close> into 20 bytes, the terminator among them.\<close>

definition snprintf_20 :: "bytes \<Rightarrow> bytes" where
  "snprintf_20 out = take 19 out"

text \<open>
  The time that the constructors print. \<open>Some None\<close> is \<open>goto err\<close>.
\<close>

definition adjusted_tm :: "int \<Rightarrow> int \<Rightarrow> int \<Rightarrow> tm option option" where
  "adjusted_tm t offset_day offset_sec =
     (case OPENSSL_gmtime t of
        None \<Rightarrow> Some None
      | Some ts \<Rightarrow>
          if offset_day \<noteq> 0 \<or> offset_sec \<noteq> 0 then OPENSSL_gmtime_adj ts offset_day offset_sec
          else Some (Some ts))"

text \<open>
  The string is given, its template code is not part of the model. Its buffer is used again if it is
  long enough, otherwise \<open>OPENSSL_malloc\<close> may fail. The result \<open>Some None\<close> is \<open>NULL\<close>.
\<close>

definition time_buffer :: "allocator \<Rightarrow> asn1_time \<Rightarrow> bool" where
  "time_buffer malloc s \<longleftrightarrow> 20 \<le> length (at_data s) \<or> OPENSSL_malloc malloc 20 \<noteq> None"

definition ASN1_GENERALIZEDTIME_adj :: "allocator \<Rightarrow> asn1_time \<Rightarrow> int \<Rightarrow> int \<Rightarrow> int \<Rightarrow> asn1_time option option" where
  "ASN1_GENERALIZEDTIME_adj malloc s t offset_day offset_sec = do {
     r \<leftarrow> adjusted_tm t offset_day offset_sec;
     case r of None \<Rightarrow> Some None
     | Some ts \<Rightarrow>
         if \<not> time_buffer malloc s then Some None
         else do {
           year \<leftarrow> c_int (tm_year ts + 1900);
           mon \<leftarrow> c_int (tm_mon ts + 1);
           Some (Some (s\<lparr>at_type := V_ASN1_GENERALIZEDTIME,
             at_data := snprintf_20 (print_d 4 year @ print_d 2 mon @ print_d 2 (tm_mday ts) @
               print_d 2 (tm_hour ts) @ print_d 2 (tm_min ts) @ print_d 2 (tm_sec ts) @ [90])\<rparr>))
         }
   }"

definition ASN1_UTCTIME_adj :: "allocator \<Rightarrow> asn1_time \<Rightarrow> int \<Rightarrow> int \<Rightarrow> int \<Rightarrow> asn1_time option option" where
  "ASN1_UTCTIME_adj malloc s t offset_day offset_sec = do {
     r \<leftarrow> adjusted_tm t offset_day offset_sec;
     case r of None \<Rightarrow> Some None
     | Some ts \<Rightarrow>
         if tm_year ts < 50 \<or> 150 \<le> tm_year ts then Some None
         else if \<not> time_buffer malloc s then Some None
         else do {
           mon \<leftarrow> c_int (tm_mon ts + 1);
           Some (Some (s\<lparr>at_type := V_ASN1_UTCTIME,
             at_data := snprintf_20 (print_d 2 (tm_year ts smod 100) @ print_d 2 mon @ print_d 2 (tm_mday ts) @
               print_d 2 (tm_hour ts) @ print_d 2 (tm_min ts) @ print_d 2 (tm_sec ts) @ [90])\<rparr>))
         }
   }"

definition ASN1_GENERALIZEDTIME_set :: "allocator \<Rightarrow> asn1_time \<Rightarrow> int \<Rightarrow> asn1_time option option" where
  "ASN1_GENERALIZEDTIME_set malloc s t = ASN1_GENERALIZEDTIME_adj malloc s t 0 0"

definition ASN1_UTCTIME_set :: "allocator \<Rightarrow> asn1_time \<Rightarrow> int \<Rightarrow> asn1_time option option" where
  "ASN1_UTCTIME_set malloc s t = ASN1_UTCTIME_adj malloc s t 0 0"

section \<open>Either type\<close>

definition ASN1_TIME_adj :: "allocator \<Rightarrow> asn1_time \<Rightarrow> int \<Rightarrow> int \<Rightarrow> int \<Rightarrow> asn1_time option option" where
  "ASN1_TIME_adj malloc s t offset_day offset_sec = do {
     r \<leftarrow> adjusted_tm t offset_day offset_sec;
     case r of None \<Rightarrow> Some None
     | Some ts \<Rightarrow>
         if 50 \<le> tm_year ts \<and> tm_year ts < 150 then ASN1_UTCTIME_adj malloc s t offset_day offset_sec
         else ASN1_GENERALIZEDTIME_adj malloc s t offset_day offset_sec
   }"

definition ASN1_TIME_set :: "allocator \<Rightarrow> asn1_time \<Rightarrow> int \<Rightarrow> asn1_time option option" where
  "ASN1_TIME_set malloc s t = ASN1_TIME_adj malloc s t 0 0"

definition ASN1_TIME_check :: "asn1_time \<Rightarrow> bool" where
  "ASN1_TIME_check t =
     (if at_type t = V_ASN1_GENERALIZEDTIME then ASN1_GENERALIZEDTIME_check t
      else if at_type t = V_ASN1_UTCTIME then ASN1_UTCTIME_check t else False)"

text \<open>
  The two digits of the century go in front.
\<close>

definition ASN1_TIME_to_generalizedtime :: "bool \<Rightarrow> asn1_time \<Rightarrow> asn1_time option" where
  "ASN1_TIME_to_generalizedtime alloc t =
     (if \<not> ASN1_TIME_check t then None
      else if at_type t = V_ASN1_GENERALIZEDTIME then
        if \<not> alloc then None else Some \<lparr>at_type = V_ASN1_GENERALIZEDTIME, at_data = at_data t\<rparr>
      else if \<not> alloc then None
      else Some \<lparr>at_type = V_ASN1_GENERALIZEDTIME,
        at_data = (if 53 \<le> at_data t ! 0 then [49, 57] else [50, 48]) @ at_data t\<rparr>)"

text \<open>\<open>ASN1_STRING_copy\<close> has set the type when its allocation fails.\<close>

definition ASN1_TIME_set_string :: "bool \<Rightarrow> asn1_time \<Rightarrow> bytes \<Rightarrow> bool \<times> asn1_time" where
  "ASN1_TIME_set_string alloc s str =
     (let t = \<lparr>at_type = V_ASN1_UTCTIME, at_data = str\<rparr>;
          set = (\<lambda>t. if alloc then (True, t) else (False, s\<lparr>at_type := at_type t\<rparr>))
      in if ASN1_TIME_check t then set t
         else let t = t\<lparr>at_type := V_ASN1_GENERALIZEDTIME\<rparr>
           in if ASN1_TIME_check t then set t else (False, s))"

text \<open>\<open>None\<close> for the current time, which the C library's \<open>time\<close> gives.\<close>

definition asn1_time_to_tm :: "int \<Rightarrow> tm \<Rightarrow> asn1_time option \<Rightarrow> tm option option" where
  "asn1_time_to_tm now tm t =
     (case t of
        None \<Rightarrow> Some (OPENSSL_gmtime now)
      | Some t \<Rightarrow>
          if at_type t = V_ASN1_UTCTIME then asn1_utctime_to_tm True tm t
          else if at_type t = V_ASN1_GENERALIZEDTIME then asn1_generalizedtime_to_tm True tm t
          else Some None)"

definition ASN1_TIME_diff :: "int \<Rightarrow> asn1_time option \<Rightarrow> asn1_time option \<Rightarrow> (int \<times> int) option option" where
  "ASN1_TIME_diff now from_time to_time = do {
     r \<leftarrow> asn1_time_to_tm now tm_zero from_time;
     case r of None \<Rightarrow> Some None
     | Some tm_from \<Rightarrow> do {
         r \<leftarrow> asn1_time_to_tm now tm_zero to_time;
         case r of None \<Rightarrow> Some None
         | Some tm_to \<Rightarrow> OPENSSL_gmtime_diff tm_from tm_to
       }
   }"

definition ASN1_UTCTIME_cmp_time_t :: "asn1_time \<Rightarrow> int \<Rightarrow> int option" where
  "ASN1_UTCTIME_cmp_time_t s t = do {
     r \<leftarrow> asn1_utctime_to_tm True tm_zero s;
     case r of None \<Rightarrow> Some (-2)
     | Some stm \<Rightarrow>
         (case OPENSSL_gmtime t of None \<Rightarrow> Some (-2)
          | Some ttm \<Rightarrow> do {
              r \<leftarrow> OPENSSL_gmtime_diff ttm stm;
              case r of None \<Rightarrow> Some (-2)
              | Some (day, sec) \<Rightarrow>
                  Some (if 0 < day then 1 else if day < 0 then -1 else if 0 < sec then 1 else if sec < 0 then -1 else 0)
            })
   }"

section \<open>The calendar repeats after 400 years\<close>

lemma leap_cycle: "leap (y + 400 * e) = leap y"
proof -
  have "4 dvd y + 400 * e \<longleftrightarrow> 4 dvd y" "100 dvd y + 400 * e \<longleftrightarrow> 100 dvd y" "400 dvd y + 400 * e \<longleftrightarrow> 400 dvd y"
    by (rule dvd_add_left_iff, simp)+
  then show ?thesis unfolding leap_def by blast
qed

lemma month_days_cycle: "month_days (y + 400 * e) = month_days y"
  by (rule ext) (simp add: month_days_def leap_cycle)

lemma valid_date_cycle: "valid_date (y + 400 * e) m d = valid_date y m d"
  by (simp add: valid_date_def month_days_cycle)

lemma days_before_year_cycle: "days_before_year (y + 400 * e) = days_before_year y + 146097 * e"
proof -
  have m: "y + 400 * e - 1 = (y - 1) + 4 * (100 * e)" "y + 400 * e - 1 = (y - 1) + 100 * (4 * e)"
    "y + 400 * e - 1 = (y - 1) + 400 * e" by simp_all
  have "(y + 400 * e - 1) div 4 = (y - 1) div 4 + 100 * e" unfolding m(1) by simp
  moreover have "(y + 400 * e - 1) div 100 = (y - 1) div 100 + 4 * e" unfolding m(2) by simp
  moreover have "(y + 400 * e - 1) div 400 = (y - 1) div 400 + e" unfolding m(3) by simp
  ultimately show ?thesis by (simp add: days_before_year_def)
qed

lemma civil_days_cycle: "civil_days (y + 400 * e) m d = civil_days y m d + 146097 * e"
  by (simp add: civil_days_def days_before_year_cycle days_before_month_def month_days_cycle)

lemma year_of_days:
  assumes v: "valid_date y m d" and c: "0 \<le> civil_days y m d" "civil_days y m d < 3652425"
  shows "0 \<le> y \<and> y \<le> 9999"
proof (rule ccontr)
  assume "\<not> ?thesis"
  then consider "y + 1 \<le> 0" | "10000 \<le> y" by linarith
  then show False
  proof cases
    case 1
    from days_before_year_mono [OF this] civil_days_year(2) [OF v] c(1) show False by (simp add: days_before_year_def)
  next
    case 2
    from days_before_year_mono [OF this] civil_days_year(1) [OF v] c(2) show False by (simp add: days_before_year_def)
  qed
qed

lemma gmtime_r_correct:
  assumes "-62167219200 \<le> t" and "t < 253402300800"
  shows "\<exists>tm. gmtime_r t = Some tm \<and> tm_ok tm \<and> tm_secs tm = t + 86400 * 719528 \<and>
    0 \<le> tm_year tm + 1900 \<and> tm_year tm + 1900 \<le> 9999"
proof -
  define D where "D = t div 86400 + 719528"
  define L where "L = D mod 146097 + 1789629"
  define e where "e = D div 146097"
  define s where "s = t mod 86400"
  have N: "int (nat L) = L" by (simp add: L_def)
  let ?y = "100 * (jd_n L - 49) + jd_i L + jd_j L div 11"
  let ?m = "jd_j L + 2 - 12 * (jd_j L div 11)" and ?d = "jd_q L - jd_k L"
  note civil = parts.civil [of "nat L", unfolded N]
  have v: "valid_date (?y + 400 * e) ?m ?d" using civil(1) by (simp only: valid_date_cycle)
  have "civil_days ?y ?m ?d = D mod 146097" using civil(2) by (simp add: L_def)
  then have c: "civil_days (?y + 400 * e) ?m ?d = D"
    unfolding civil_days_cycle e_def using mult_div_mod_eq [of 146097 D] by linarith
  have "0 \<le> D" "D < 3652425" using assms by (simp_all add: D_def)
  then have y: "0 \<le> ?y + 400 * e" "?y + 400 * e \<le> 9999" using year_of_days [OF v] unfolding c by blast+
  have s: "0 \<le> s" "s < 86400" by (simp_all add: s_def)
  have clock: "s sdiv 3600 = s div 3600" "s sdiv 60 smod 60 = s div 60 mod 60" "s smod 60 = s mod 60"
    using s by (simp_all add: sdiv_nonneg smod_nonneg pos_imp_zdiv_nonneg_iff)
  note hms = clock_parts [OF s, unfolded clock]
  define Y where "Y = ?y + 400 * e"
  define M where "M = ?m"
  define A where "A = ?d"
  let ?tm = "\<lparr>tm_sec = s mod 60, tm_min = s div 60 mod 60, tm_hour = s div 3600,
    tm_mday = A, tm_mon = M - 1, tm_year = Y - 1900\<rparr>"
  note v = v [folded Y_def M_def A_def] and c = c [folded Y_def M_def A_def] and y = y [folded Y_def]
  have "gmtime_r t = Some ?tm"
    unfolding gmtime_r_def Let_def D_def [symmetric] L_def [symmetric] e_def [symmetric] s_def [symmetric]
      Y_def [symmetric] M_def [symmetric] A_def [symmetric] using y by simp
  moreover have "tm_ok ?tm" using v y hms by (simp add: tm_ok_def)
  moreover have "tm_secs ?tm = t + 86400 * 719528"
  proof -
    have "86400 * (t div 86400) + s = t" by (simp add: s_def)
    then show ?thesis using hms(7) c by (simp add: tm_secs_def D_def)
  qed
  ultimately show ?thesis using y by (intro exI [of _ ?tm]) simp
qed

section \<open>Printing and reading digits\<close>

definition dig :: "nat \<Rightarrow> u8" where
  "dig n = of_nat (48 + n)"

definition pair :: "nat \<Rightarrow> bytes" where
  "pair n = [dig (n div 10), dig (n mod 10)]"

lemma unat_dig: "n < 10 \<Longrightarrow> unat (dig n) = 48 + n"
  unfolding dig_def by (rule unat_of_nat_u8) simp

lemma is_digit_dig: "n < 10 \<Longrightarrow> is_digit (dig n)"
  using unat_dig [of n] by (simp add: is_digit_def word_less_nat_alt)

lemma dig_zone: "n < 10 \<Longrightarrow> \<not> is_zone (dig n)"
  using unat_dig [of n] by (auto simp: is_zone_def)

text \<open>\<open>w\<close> digits.\<close>

fun fixed_width :: "nat \<Rightarrow> nat \<Rightarrow> bytes" where
  "fixed_width 0 n = []"
| "fixed_width (Suc w) n = fixed_width w (n div 10) @ [dig (n mod 10)]"

lemma fixed_width_zero: "fixed_width w 0 = replicate w 48"
  by (induction w) (simp_all add: dig_def replicate_append_same)

lemma decimal_pad:
  "n < 10 ^ Suc w \<Longrightarrow> length (decimal n) \<le> Suc w \<and> replicate (Suc w - length (decimal n)) 48 @ decimal n = fixed_width (Suc w) n"
proof (induction w arbitrary: n)
  case 0
  then show ?case by (simp add: decimal.simps [of n] dig_def)
next
  case (Suc w)
  show ?case
  proof (cases "n < 10")
    case True
    then show ?thesis
      by (simp add: decimal.simps [of n] dig_def fixed_width_zero replicate_append_same)
  next
    case False
    have "n div 10 < 10 ^ Suc w" using Suc.prems by (simp add: div_less_iff_less_mult mult.commute)
    from Suc.IH [OF this] False show ?thesis
      by (simp add: decimal.simps [of n] dig_def del: fixed_width.simps) (simp add: fixed_width.simps(2) [of "Suc w"] dig_def)
  qed
qed

lemma fixed_width_2: "n < 100 \<Longrightarrow> fixed_width 2 n = pair n"
  by (simp add: numeral_2_eq_2 pair_def)

lemma fixed_width_4: "n < 10000 \<Longrightarrow> fixed_width 4 n = pair (n div 100) @ pair (n mod 100)"
proof -
  have "n mod 100 = 10 * (n div 10 mod 10) + n mod 10" using mod_mult2_eq [of n 10 10] by simp
  then have "n mod 100 div 10 = n div 10 mod 10" "n mod 100 mod 10 = n mod 10" by simp_all
  moreover assume "n < 10000"
  moreover have "fixed_width (Suc (Suc (Suc (Suc 0)))) n = [dig (n div 1000 mod 10), dig (n div 100 mod 10), dig (n div 10 mod 10), dig (n mod 10)]"
    by (simp add: div_mult2_eq [symmetric])
  moreover have "(4 :: nat) = Suc (Suc (Suc (Suc 0)))" by simp
  moreover have "n div 1000 mod 10 = n div 100 div 10"
  proof -
    have "n div 1000 = n div 100 div 10" by (simp add: div_mult2_eq [symmetric])
    moreover have "n div 1000 < 10" using \<open>n < 10000\<close> by (simp add: div_less_iff_less_mult)
    ultimately show ?thesis by simp
  qed
  ultimately show ?thesis unfolding pair_def by (simp only: append_Cons append_Nil)
qed

lemma print_two: "0 \<le> n \<Longrightarrow> n < 100 \<Longrightarrow> print_d 2 n = pair (nat n)"
  using decimal_pad [of "nat n" 1] fixed_width_2 [of "nat n"] by (simp add: print_d_def numeral_2_eq_2)

lemma print_four: "0 \<le> n \<Longrightarrow> n < 10000 \<Longrightarrow> print_d 4 n = pair (nat n div 100) @ pair (nat n mod 100)"
  using decimal_pad [of "nat n" 3] fixed_width_4 [of "nat n"] by (simp add: print_d_def)

lemma two_digits_pair:
  assumes "n < 100" and "a ! p = dig (n div 10)" and "a ! (p + 1) = dig (n mod 10)" and "p + 2 \<le> l"
  shows "two_digits a l p = Some (int n)"
proof -
  have d: "n div 10 < 10" "n mod 10 < 10" using assms(1) by auto
  have "int n = int (n div 10) * 10 + int (n mod 10)" by (simp add: zdiv_int zmod_int)
  then show ?thesis
    unfolding two_digits_def assms(2,3) using assms(4) d by (simp add: is_digit_dig unat_dig del: of_nat_unat unat_of_nat)
qed

section \<open>What the constructors print is read back\<close>

declare gen_fields.simps [simp del] utc_fields.simps [simp del] skip_digits.simps [simp del]

lemma gen_step:
  "two_digits a l p = Some n \<Longrightarrow> i < 7 \<Longrightarrow> i < 6 \<or> \<not> is_zone (a ! p) \<Longrightarrow> gen_min ! i \<le> n \<Longrightarrow> n \<le> gen_max ! i \<Longrightarrow>
    gen_fields a l i p tm = gen_fields a l (i + 1) (p + 2) (gen_field i n tm)"
  by (subst gen_fields.simps) auto

lemma utc_step:
  "two_digits a l p = Some n \<Longrightarrow> i < 6 \<Longrightarrow> i < 5 \<or> \<not> is_zone (a ! p) \<Longrightarrow> utc_min ! i \<le> n \<Longrightarrow> n \<le> utc_max ! i \<Longrightarrow>
    utc_fields a l i p tm = utc_fields a l (i + 1) (p + 2) (utc_field i n tm)"
  by (subst utc_fields.simps) auto

text \<open>The digits of a list of numbers below 100.\<close>

definition pairs :: "nat list \<Rightarrow> bytes" where
  "pairs ns = concat (map pair ns)"

lemma length_pairs [simp]: "length (pairs ns) = 2 * length ns"
  by (induction ns) (simp_all add: pairs_def pair_def)

lemma pairs_nth:
  "i < length ns \<Longrightarrow> pairs ns ! (2 * i) = dig (ns ! i div 10) \<and> pairs ns ! (2 * i + 1) = dig (ns ! i mod 10)"
proof (induction ns arbitrary: i)
  case (Cons n ns)
  then show ?case by (cases i) (auto simp: pairs_def pair_def)
qed simp

lemma two_digits_pairs:
  assumes "i < length ns" and "ns ! i < 100" and "2 * length ns \<le> l"
  shows "two_digits (pairs ns @ rest) l (2 * i) = Some (int (ns ! i))"
    "\<not> is_zone ((pairs ns @ rest) ! (2 * i))"
proof -
  have "ns ! i div 10 < 10" using assms(2) by (simp add: div_less_iff_less_mult)
  then show "\<not> is_zone ((pairs ns @ rest) ! (2 * i))"
    using pairs_nth [OF assms(1)] assms(1) dig_zone by (simp add: nth_append)
  show "two_digits (pairs ns @ rest) l (2 * i) = Some (int (ns ! i))"
    using pairs_nth [OF assms(1)] assms by (intro two_digits_pair) (simp_all add: nth_append)
qed

lemma gen_fields_from:
  assumes ns: "length ns = 7" "\<forall>j < 7. gen_min ! j \<le> int (ns ! j) \<and> int (ns ! j) \<le> gen_max ! j \<and> ns ! j < 100" "14 \<le> l"
    and "i \<le> 7"
  shows "gen_fields (pairs ns @ rest) l i (2 * i) tm = Some (14, fold (\<lambda>j. gen_field j (int (ns ! j))) [i..<7] tm)"
  using assms(4)
proof (induction i arbitrary: tm rule: inc_induct)
  case base
  then show ?case by (simp add: gen_fields.simps)
next
  case (step i)
  have "gen_fields (pairs ns @ rest) l i (2 * i) tm =
      gen_fields (pairs ns @ rest) l (i + 1) (2 * i + 2) (gen_field i (int (ns ! i)) tm)"
    using two_digits_pairs [of i ns l rest] step.hyps ns by (intro gen_step) auto
  then show ?case using step.IH step.hyps by (simp add: upt_conv_Cons)
qed

lemma utc_fields_from:
  assumes ns: "length ns = 6" "\<forall>j < 6. utc_min ! j \<le> int (ns ! j) \<and> int (ns ! j) \<le> utc_max ! j \<and> ns ! j < 100" "12 \<le> l"
    and "i \<le> 6"
  shows "utc_fields (pairs ns @ rest) l i (2 * i) tm = Some (12, fold (\<lambda>j. utc_field j (int (ns ! j))) [i..<6] tm)"
  using assms(4)
proof (induction i arbitrary: tm rule: inc_induct)
  case base
  then show ?case by (simp add: utc_fields.simps)
next
  case (step i)
  have "utc_fields (pairs ns @ rest) l i (2 * i) tm =
      utc_fields (pairs ns @ rest) l (i + 1) (2 * i + 2) (utc_field i (int (ns ! i)) tm)"
    using two_digits_pairs [of i ns l rest] step.hyps ns by (intro utc_step) auto
  then show ?case using step.IH step.hyps by (simp add: upt_conv_Cons)
qed

text \<open>The fields of a valid time, as numbers below 100.\<close>

definition time_nums :: "tm \<Rightarrow> nat list" where
  "time_nums tm = [nat (tm_mon tm + 1), nat (tm_mday tm), nat (tm_hour tm), nat (tm_min tm), nat (tm_sec tm)]"

lemma tm_ok_fields:
  assumes "tm_ok tm"
  shows "0 \<le> tm_mon tm" "tm_mon tm \<le> 11" "1 \<le> tm_mday tm" "tm_mday tm \<le> 31" "0 \<le> tm_hour tm" "tm_hour tm \<le> 23"
    "0 \<le> tm_min tm" "tm_min tm \<le> 59" "0 \<le> tm_sec tm" "tm_sec tm \<le> 59"
  using assms by (auto simp: tm_ok_def valid_date_def month_days_def split: if_splits)

lemma print_nums:
  assumes "tm_ok tm"
  shows "print_d 2 (tm_mon tm + 1) @ print_d 2 (tm_mday tm) @ print_d 2 (tm_hour tm) @ print_d 2 (tm_min tm) @
    print_d 2 (tm_sec tm) @ rest = pairs (time_nums tm) @ rest"
  using tm_ok_fields [OF assms] by (simp add: print_two pairs_def time_nums_def)

lemma less_cases:
  "(\<forall>j < 7. P j) \<longleftrightarrow> P 0 \<and> P 1 \<and> P 2 \<and> P 3 \<and> P 4 \<and> P 5 \<and> P (6 :: nat)"
  "(\<forall>j < 6. P j) \<longleftrightarrow> P 0 \<and> P 1 \<and> P 2 \<and> P 3 \<and> P 4 \<and> P (5 :: nat)"
  by (auto simp: All_less_Suc numeral_eq_Suc)

lemma gen_fields_time:
  assumes tm: "tm_ok tm" and year: "0 \<le> tm_year tm + 1900" "tm_year tm + 1900 \<le> 9999" and "14 \<le> l"
  shows "gen_fields (pairs (nat (tm_year tm + 1900) div 100 # nat (tm_year tm + 1900) mod 100 # time_nums tm) @ rest) l 0 0 tm0 =
    Some (14, tm)"
proof -
  let ?c = "nat (tm_year tm + 1900) div 100" and ?y = "nat (tm_year tm + 1900) mod 100"
  have c: "?c \<le> 99" "?y \<le> 99" "int ?c * 100 + int ?y = tm_year tm + 1900"
    using year by (auto simp: zdiv_int zmod_int div_le_mono)
  note f = tm_ok_fields [OF tm]
  let ?ns = "?c # ?y # time_nums tm"
  have "\<forall>j < 7. gen_min ! j \<le> int (?ns ! j) \<and> int (?ns ! j) \<le> gen_max ! j \<and> ?ns ! j < 100"
    unfolding less_cases using f c by (simp add: time_nums_def gen_min_def gen_max_def nat_less_iff)
  then have "gen_fields (pairs ?ns @ rest) l 0 (2 * 0) tm0 = Some (14, fold (\<lambda>j. gen_field j (int (?ns ! j))) [0..<7] tm0)"
    using assms(4) by (intro gen_fields_from) (simp_all add: time_nums_def)
  also have "[0..<7] = [0, 1, 2, 3, 4, 5, 6 :: nat]" by (simp add: upt_rec)
  also have "fold (\<lambda>j. gen_field j (int (?ns ! j))) [0, 1, 2, 3, 4, 5, 6 :: nat] tm0 = tm"
    using f c(3) by (intro tm.equality) (simp_all add: gen_field_def time_nums_def)
  finally show ?thesis by simp
qed

lemma utc_fields_time:
  assumes tm: "tm_ok tm" and year: "50 \<le> tm_year tm" "tm_year tm < 150" and "12 \<le> l"
  shows "utc_fields (pairs (nat (tm_year tm smod 100) # time_nums tm) @ rest) l 0 0 tm0 = Some (12, tm)"
proof -
  let ?y = "nat (tm_year tm smod 100)"
  have y: "int ?y = (if tm_year tm < 100 then tm_year tm else tm_year tm - 100)"
    using year by (auto simp: smod_nonneg) (presburger)
  note f = tm_ok_fields [OF tm]
  let ?ns = "?y # time_nums tm"
  have "\<forall>j < 6. utc_min ! j \<le> int (?ns ! j) \<and> int (?ns ! j) \<le> utc_max ! j \<and> ?ns ! j < 100"
    unfolding less_cases using f y year by (auto simp add: time_nums_def utc_min_def utc_max_def nat_less_iff split: if_splits)
  then have "utc_fields (pairs ?ns @ rest) l 0 (2 * 0) tm0 = Some (12, fold (\<lambda>j. utc_field j (int (?ns ! j))) [0..<6] tm0)"
    using assms(4) by (intro utc_fields_from) (simp_all add: time_nums_def)
  also have "[0..<6] = [0, 1, 2, 3, 4, 5 :: nat]" by (simp add: upt_rec)
  also have "fold (\<lambda>j. utc_field j (int (?ns ! j))) [0, 1, 2, 3, 4, 5 :: nat] tm0 = tm"
    using f y year by (intro tm.equality) (simp_all add: utc_field_def time_nums_def split: if_splits)
  finally show ?thesis by simp
qed

lemma nth_end: "length xs = n \<Longrightarrow> (xs @ y # ys) ! n = y" for n :: nat
  by (simp add: nth_append)

text \<open>The strings that are printed.\<close>

definition gen_text :: "tm \<Rightarrow> bytes" where
  "gen_text tm = pairs (nat (tm_year tm + 1900) div 100 # nat (tm_year tm + 1900) mod 100 # time_nums tm)"

definition utc_text :: "tm \<Rightarrow> bytes" where
  "utc_text tm = pairs (nat (tm_year tm smod 100) # time_nums tm)"

lemma length_texts [simp]: "length (gen_text tm) = 14" "length (utc_text tm) = 12"
  by (simp_all add: gen_text_def utc_text_def time_nums_def)

lemma gen_text_read:
  assumes "tm_ok tm" and "0 \<le> tm_year tm + 1900" "tm_year tm + 1900 \<le> 9999"
  shows "asn1_generalizedtime_to_tm want tm0 \<lparr>at_type = V_ASN1_GENERALIZEDTIME, at_data = gen_text tm @ [90]\<rparr> = Some (Some tm)"
proof -
  have "gen_fields (gen_text tm @ [90, 0]) 15 0 0 tm0 = Some (14, tm)"
    using gen_fields_time [OF assms] by (simp add: gen_text_def)
  moreover have "(gen_text tm @ [90, 0]) ! 14 = 90" by (rule nth_end) simp
  ultimately show ?thesis
    by (simp add: asn1_generalizedtime_to_tm_def terminated_def Let_def gen_fraction_def)
qed

lemma utc_text_read:
  assumes "tm_ok tm" and "50 \<le> tm_year tm" "tm_year tm < 150"
  shows "asn1_utctime_to_tm want tm0 \<lparr>at_type = V_ASN1_UTCTIME, at_data = utc_text tm @ [90]\<rparr> = Some (Some tm)"
proof -
  have "utc_fields (utc_text tm @ [90, 0]) 13 0 0 tm0 = Some (12, tm)"
    using utc_fields_time [OF assms] by (simp add: utc_text_def)
  moreover have "(utc_text tm @ [90, 0]) ! 12 = 90" by (rule nth_end) simp
  ultimately show ?thesis
    by (simp add: asn1_utctime_to_tm_def terminated_def Let_def)
qed

lemma print_gen:
  assumes "tm_ok tm" and "0 \<le> tm_year tm + 1900" "tm_year tm + 1900 \<le> 9999"
  shows "snprintf_20 (print_d 4 (tm_year tm + 1900) @ print_d 2 (tm_mon tm + 1) @ print_d 2 (tm_mday tm) @
    print_d 2 (tm_hour tm) @ print_d 2 (tm_min tm) @ print_d 2 (tm_sec tm) @ [90]) = gen_text tm @ [90]"
proof -
  have "tm_year tm + 1900 < 10000" using assms(3) by simp
  from print_four [OF assms(2) this] show ?thesis
    unfolding print_nums [OF assms(1)] by (simp add: snprintf_20_def gen_text_def pairs_def pair_def time_nums_def)
qed

lemma print_utc:
  assumes "tm_ok tm" and "50 \<le> tm_year tm" "tm_year tm < 150"
  shows "snprintf_20 (print_d 2 (tm_year tm smod 100) @ print_d 2 (tm_mon tm + 1) @ print_d 2 (tm_mday tm) @
    print_d 2 (tm_hour tm) @ print_d 2 (tm_min tm) @ print_d 2 (tm_sec tm) @ [90]) = utc_text tm @ [90]"
proof -
  have "0 \<le> tm_year tm smod 100" "tm_year tm smod 100 < 100" using assms by (simp_all add: smod_nonneg)
  from print_two [OF this] show ?thesis
    unfolding print_nums [OF assms(1)] by (simp add: snprintf_20_def utc_text_def pairs_def pair_def time_nums_def)
qed

text \<open>The time that is printed is the one asked for.\<close>

lemma adjusted_tm_secs:
  assumes t: "-62167219200 \<le> t" "t < 253402300800" and off: "offset_ok offset_day offset_sec"
  defines "T \<equiv> t + 86400 * 719528 + 86400 * offset_day + offset_sec"
  shows "\<exists>r. adjusted_tm t offset_day offset_sec = Some r \<and>
    (\<forall>tm. r = Some tm \<longrightarrow> tm_ok tm \<and> 0 \<le> tm_year tm + 1900 \<and> tm_year tm + 1900 \<le> 9999 \<and> tm_secs tm = T) \<and>
    (r = None \<longrightarrow> \<not> (\<exists>tm. tm_ok tm \<and> 1900 \<le> tm_year tm + 1900 \<and> tm_year tm + 1900 \<le> 9999 \<and> tm_secs tm = T))"
proof -
  obtain ts where ts: "gmtime_r t = Some ts" "tm_ok ts" "tm_secs ts = t + 86400 * 719528"
    "0 \<le> tm_year ts + 1900" "tm_year ts + 1900 \<le> 9999"
    using gmtime_r_correct [OF t] by blast
  show ?thesis
  proof (cases "offset_day \<noteq> 0 \<or> offset_sec \<noteq> 0")
    case True
    then have "adjusted_tm t offset_day offset_sec = OPENSSL_gmtime_adj ts offset_day offset_sec"
      by (simp add: adjusted_tm_def OPENSSL_gmtime_def ts)
    moreover obtain r where "OPENSSL_gmtime_adj ts offset_day offset_sec = Some r"
      and "\<forall>tm. r = Some tm \<longrightarrow> tm_ok tm \<and> 1900 \<le> tm_year tm + 1900 \<and> tm_year tm + 1900 \<le> 9999 \<and> tm_secs tm = T"
      and "r = None \<longrightarrow> \<not> (\<exists>tm. tm_ok tm \<and> 1900 \<le> tm_year tm + 1900 \<and> tm_year tm + 1900 \<le> 9999 \<and> tm_secs tm = T)"
      using gmtime_adj_secs [OF ts(2) off] unfolding T_def ts(3) by blast
    ultimately show ?thesis by (intro exI [of _ r]) auto
  next
    case False
    then show ?thesis using ts by (intro exI [of _ "Some ts"]) (simp add: adjusted_tm_def OPENSSL_gmtime_def T_def)
  qed
qed

lemma utc_adj_prints:
  assumes "adjusted_tm t offset_day offset_sec = Some (Some tm)" and tm: "tm_ok tm" "50 \<le> tm_year tm" "tm_year tm < 150"
    and "time_buffer malloc s"
  shows "ASN1_UTCTIME_adj malloc s t offset_day offset_sec =
    Some (Some (s\<lparr>at_type := V_ASN1_UTCTIME, at_data := utc_text tm @ [90]\<rparr>))"
  using assms(1,5) tm(2,3) tm_ok_fields [OF tm(1)] print_utc [OF tm] by (simp add: ASN1_UTCTIME_adj_def)

lemma gen_adj_prints:
  assumes "adjusted_tm t offset_day offset_sec = Some (Some tm)" and tm: "tm_ok tm" "0 \<le> tm_year tm + 1900" "tm_year tm + 1900 \<le> 9999"
    and "time_buffer malloc s"
  shows "ASN1_GENERALIZEDTIME_adj malloc s t offset_day offset_sec =
    Some (Some (s\<lparr>at_type := V_ASN1_GENERALIZEDTIME, at_data := gen_text tm @ [90]\<rparr>))"
  using assms(1,5) tm(2,3) tm_ok_fields [OF tm(1)] print_gen [OF tm] by (simp add: ASN1_GENERALIZEDTIME_adj_def)

text \<open>
  C39: \<open>ASN1_TIME_adj\<close> and the parser of times fit together. For every \<open>time_t\<close> of the years 0 to 9999
  and every offset within the bound that \<open>julian_adj\<close> needs (\<open>offset_ok\<close>: at most
  2147450000 days, and less than 24856 days in seconds), if the memory for the string is given or can be allocated, the string that
  \<open>ASN1_TIME_adj\<close> makes, of either type, is parsed to the time that is the offset later than the
  \<open>time_t\<close>, to the second; if it makes none, that time is not in the years 1900 to 9999.
\<close>

theorem asn1_time_adj_reads_back:
  assumes "-62167219200 \<le> t" "t < 253402300800" and "offset_ok offset_day offset_sec" and "time_buffer malloc s"
  shows "\<exists>r. ASN1_TIME_adj malloc s t offset_day offset_sec = Some r \<and>
    (\<forall>s'. r = Some s' \<longrightarrow> (\<exists>tm. asn1_time_to_tm now tm_zero (Some s') = Some (Some tm) \<and> tm_ok tm \<and>
      tm_secs tm = t + 86400 * 719528 + 86400 * offset_day + offset_sec)) \<and>
    (r = None \<longrightarrow> \<not> (\<exists>tm. tm_ok tm \<and> 1900 \<le> tm_year tm + 1900 \<and> tm_year tm + 1900 \<le> 9999 \<and>
      tm_secs tm = t + 86400 * 719528 + 86400 * offset_day + offset_sec))"
proof -
  obtain q where q: "adjusted_tm t offset_day offset_sec = Some q"
    and some: "\<And>tm. q = Some tm \<Longrightarrow> tm_ok tm \<and> 0 \<le> tm_year tm + 1900 \<and> tm_year tm + 1900 \<le> 9999 \<and>
      tm_secs tm = t + 86400 * 719528 + 86400 * offset_day + offset_sec"
    and none: "q = None \<Longrightarrow> \<not> (\<exists>tm. tm_ok tm \<and> 1900 \<le> tm_year tm + 1900 \<and> tm_year tm + 1900 \<le> 9999 \<and>
      tm_secs tm = t + 86400 * 719528 + 86400 * offset_day + offset_sec)"
    using adjusted_tm_secs [OF assms(1-3)] by blast
  show ?thesis
  proof (cases q)
    case None
    then show ?thesis using q none by (intro exI [of _ None]) (simp add: ASN1_TIME_adj_def)
  next
    case (Some tm)
    note ok = some [OF Some] and q = q [unfolded Some]
    show ?thesis
    proof (cases "50 \<le> tm_year tm \<and> tm_year tm < 150")
      case True
      then have "ASN1_TIME_adj malloc s t offset_day offset_sec =
          Some (Some (s\<lparr>at_type := V_ASN1_UTCTIME, at_data := utc_text tm @ [90]\<rparr>))"
        using utc_adj_prints [OF q _ _ _ assms(4)] ok q by (simp add: ASN1_TIME_adj_def)
      moreover have "asn1_time_to_tm now tm_zero (Some (s\<lparr>at_type := V_ASN1_UTCTIME, at_data := utc_text tm @ [90]\<rparr>)) = Some (Some tm)"
        using utc_text_read [of tm True tm_zero] True ok by (cases s) (simp add: asn1_time_to_tm_def)
      ultimately show ?thesis using ok by auto
    next
      case False
      then have "ASN1_TIME_adj malloc s t offset_day offset_sec =
          Some (Some (s\<lparr>at_type := V_ASN1_GENERALIZEDTIME, at_data := gen_text tm @ [90]\<rparr>))"
        using gen_adj_prints [OF q _ _ _ assms(4)] ok q by (auto simp: ASN1_TIME_adj_def)
      moreover have "asn1_time_to_tm now tm_zero (Some (s\<lparr>at_type := V_ASN1_GENERALIZEDTIME, at_data := gen_text tm @ [90]\<rparr>)) = Some (Some tm)"
        using gen_text_read [of tm True tm_zero] ok by (cases s) (simp add: asn1_time_to_tm_def)
      ultimately show ?thesis using ok by auto
    qed
  qed
qed

theorem asn1_time_adj_reads_back_witness:
  "\<exists>r. ASN1_TIME_adj (\<lambda>n. Some (replicate (unat n) 0)) \<lparr>at_type = V_ASN1_UTCTIME, at_data = []\<rparr> 1000000000 1 (-30) = Some r \<and>
    (\<forall>s'. r = Some s' \<longrightarrow> (\<exists>tm. asn1_time_to_tm 0 tm_zero (Some s') = Some (Some tm) \<and> tm_ok tm \<and>
      tm_secs tm = 1000000000 + 86400 * 719528 + 86400 * 1 + -30)) \<and>
    (r = None \<longrightarrow> \<not> (\<exists>tm. tm_ok tm \<and> 1900 \<le> tm_year tm + 1900 \<and> tm_year tm + 1900 \<le> 9999 \<and>
      tm_secs tm = 1000000000 + 86400 * 719528 + 86400 * 1 + -30))"
  by (rule asn1_time_adj_reads_back) (simp_all add: offset_ok_def time_buffer_def OPENSSL_malloc_def)

section \<open>Comparing with the clock\<close>

text \<open>\<open>ASN1_UTCTIME_cmp_time_t\<close> is the order of the two times.\<close>

theorem utctime_cmp_exact:
  assumes s: "asn1_utctime_to_tm True tm_zero s = Some (Some tm)" and tm: "tm_ok tm"
    and t: "-62167219200 \<le> t" "t < 253402300800"
  shows "ASN1_UTCTIME_cmp_time_t s t = Some (sgn (tm_secs tm - (t + 86400 * 719528)))"
proof -
  obtain ts where ts: "gmtime_r t = Some ts" "tm_ok ts" "tm_secs ts = t + 86400 * 719528"
    using gmtime_r_correct [OF t] by blast
  obtain days secs where diff: "OPENSSL_gmtime_diff ts tm = Some (Some (days, secs))"
    and sum: "86400 * days + secs = tm_secs tm - tm_secs ts" and small: "\<bar>secs\<bar> < 86400"
    and signs: "days < 0 \<longrightarrow> secs \<le> 0" "0 < days \<longrightarrow> 0 \<le> secs"
    using gmtime_diff_secs [OF ts(2) tm] by blast
  have "sgn (86400 * days + secs) = (if 0 < days then 1 else if days < 0 then -1 else if 0 < secs then 1 else if secs < 0 then -1 else 0)"
    using signs by (auto simp: sgn_if)
  then show ?thesis
    unfolding sum ts(3) by (simp add: ASN1_UTCTIME_cmp_time_t_def OPENSSL_gmtime_def s ts(1) diff split del: if_split)
qed

section \<open>Times that are accepted and should not be\<close>

text \<open>
  C40: a GeneralizedTime without a time zone is accepted, as if it were UTC. The comment in
  \<open>asn1_generalizedtime_to_tm\<close> calls the missing zone an error, but the branch is not taken at the end
  of the string, where the terminating zero is read.
\<close>

theorem gentime_missing_zone:
  assumes "tm_ok tm" and "0 \<le> tm_year tm + 1900" and "tm_year tm + 1900 \<le> 9999"
  shows "asn1_generalizedtime_to_tm want tm0 \<lparr>at_type = V_ASN1_GENERALIZEDTIME, at_data = gen_text tm\<rparr> = Some (Some tm)"
proof -
  have "gen_fields (gen_text tm @ [0]) 14 0 0 tm0 = Some (14, tm)"
    using gen_fields_time [OF assms] by (simp add: gen_text_def)
  moreover have "(gen_text tm @ [0]) ! 14 = 0" by (rule nth_end) simp
  ultimately show ?thesis
    by (simp add: asn1_generalizedtime_to_tm_def terminated_def Let_def gen_fraction_def)
qed

theorem gentime_missing_zone_witness:
  "asn1_generalizedtime_to_tm True tm_zero \<lparr>at_type = V_ASN1_GENERALIZEDTIME, at_data = gen_text sample_tm\<rparr> =
    Some (Some sample_tm)"
  by (rule gentime_missing_zone) (simp_all add: sample_tm_ok, simp_all add: sample_tm_def)

text \<open>
  \<open>ASN1_TIME_set\<close> does not look at the year when there is no offset: the first second of the year 10000
  makes a string that is no time.
\<close>

theorem time_set_year_10000:
  "\<exists>s'. ASN1_TIME_set (\<lambda>n. Some (replicate (unat n) 0)) \<lparr>at_type = V_ASN1_UTCTIME, at_data = []\<rparr> 253402300800 =
    Some (Some s') \<and> \<not> ASN1_TIME_check s'"
proof -
  let ?s = "\<lparr>at_type = V_ASN1_GENERALIZEDTIME, at_data =
    [49, 48, 48, 48, 48, 48, 49, 48, 49, 48, 48, 48, 48, 48, 48, 90]\<rparr>"
  have "ASN1_TIME_set (\<lambda>n. Some (replicate (unat n) 0)) \<lparr>at_type = V_ASN1_UTCTIME, at_data = []\<rparr> 253402300800 = Some (Some ?s)"
    by code_simp
  moreover have "\<not> ASN1_TIME_check ?s" by code_simp
  ultimately show ?thesis by blast
qed

text \<open>
  A check does not apply the offset of the zone. A time whose offset moves it out of the years 1900 to
  9999 passes the check and is then not converted.
\<close>

theorem checked_time_not_read:
  "\<exists>s. ASN1_TIME_check s \<and> asn1_time_to_tm now tm_zero (Some s) = Some None"
proof -
  let ?s = "\<lparr>at_type = V_ASN1_GENERALIZEDTIME, at_data =
    [49, 57, 48, 48, 48, 49, 48, 49, 48, 48, 48, 48, 48, 48, 43, 48, 49, 48, 48]\<rparr>"
  have "ASN1_TIME_check ?s" by code_simp
  moreover have "asn1_generalizedtime_to_tm True tm_zero ?s = Some None" by code_simp
  ultimately show ?thesis by (intro exI [of _ ?s]) (simp add: asn1_time_to_tm_def)
qed

text \<open>The day of the month is only checked against 31: 31 February is accepted.\<close>

theorem february_31_accepted:
  "ASN1_TIME_check \<lparr>at_type = V_ASN1_GENERALIZEDTIME, at_data =
    [50, 48, 50, 51, 48, 50, 51, 49, 49, 50, 51, 52, 53, 54, 90]\<rparr>"
  by code_simp

end
