(* ===== verification/Spec2Isabelle.thy ===== *)
theory Spec2Isabelle
  imports Const_Time Base64 Mem Cbs Cbs_Asn1 Cbb_Oid Unicode Ber Pb_Use Pb_Message_Use Pb_Safe Sha256 Asn1_Time
begin

text \<open>
  A model of the C libraries that carry the byte-level work of the convey app (\<open>src/convey/Pods\<close>):
  the base64, bytestring, ASN.1, Unicode and SHA-256 code of BoringSSL (\<open>BoringSSL-GRPC/src/crypto\<close>,
  under gRPC) and nanopb (\<open>nanopb\<close>), the protocol buffer codec under Firestore and GoogleDataTransport. The
  rest of the repository is an app in Swift over vendored Objective-C and C++ libraries.

  \<^bold>\<open>The parts, and the theories that model them.\<close>

  \<^item> \<open>Bytes\<close> is the prelude: the C types of the 64-bit targets as words (\<open>size_t\<close> is \<open>u64\<close>), big-endian
    octets, lists updated in place. \<open>Codec\<close> states what a self-delimiting code promises: the locales
    \<open>prefix_codec\<close> (what was encoded is decoded, with the rest behind it) and \<open>canonical_codec\<close> (and
    nothing else is accepted), with the facts that follow for sequences of values.
  \<^item> \<open>Const_Time\<close>: the masks of \<open>crypto/internal.h\<close>. \<open>Base64\<close>: \<open>crypto/base64/base64.c\<close>; the record
    \<open>EVP_ENCODE_CTX\<close> is the struct of that name, and a function that fills an output buffer returns what
    it wrote. \<open>Mem\<close>: \<open>crypto/mem.c\<close>, over the C library's \<open>malloc\<close> as an argument; a heap block is its
    contents and the size in its prefix.
  \<^item> \<open>Cbs\<close> and \<open>Cbs_Asn1\<close>: \<open>crypto/bytestring/cbs.c\<close>. A \<open>CBS\<close> is a length and the memory from its pointer
    on, so reading past the length would be seen. \<open>Der\<close> is the specification: tags, lengths, base-128
    integers and elements, each a \<open>canonical_codec\<close>. The locales \<open>cbs_parser\<close> and \<open>cbs_codec\<close> say that an
    operation refines a decoder, stays in its window and leaves the rest; every reader interprets one.
  \<^item> \<open>Cbb\<close>: \<open>crypto/bytestring/cbb.c\<close>. One buffer (\<open>cbb_buffer\<close>) is shared by a tree of \<open>CBB\<close>s, of which only
    one path is ever open: the list of children, each with the offset of its length prefix. The level of
    the \<open>CBB\<close> an operation is called on is an argument. \<open>CBB_did_write\<close> and \<open>CBB_discard_child\<close>, which use
    their pointers unchecked, are options (see there). \<open>Cbb_Spec\<close> has the abstraction \<open>cbb_rel\<close>, a stack of
    open strings, the contract of every operation on it, and the locales \<open>cbb_writer\<close> and
    \<open>cbb_round_trip\<close>; \<open>Cbb_Use\<close> and \<open>Cbb_Oid\<close> what follows for whole uses of the builder.
  \<^item> \<open>Unicode\<close>: \<open>crypto/bytestring/unicode.c\<close>. \<open>Ber\<close>: \<open>crypto/bytestring/ber.c\<close>. Both sit on \<open>CBS\<close> and \<open>CBB\<close>
    and use the interpretations of the locales above.
  \<^item> \<open>Pb_Stream\<close> and \<open>Pb_Wire\<close>: the input streams of \<open>nanopb/pb_decode.c\<close> and the readers on them; \<open>Pb_Out\<close>:
    the output streams of \<open>nanopb/pb_encode.c\<close>. A stream is a buffer or a user callback with a state.
    \<open>reads_as\<close> and \<open>puts\<close> are the contracts of readers and writers, \<open>pb_get\<close>, \<open>pb_codec\<close>, \<open>pb_put\<close> and
    \<open>pb_round_trip\<close> the locales; \<open>Pb_Use\<close> combines both sides.
  \<^item> \<open>Pb_Common\<close>: the message descriptors of \<open>pb.h\<close> and the iterator of \<open>pb_common.c\<close>. \<open>Pb_Memory\<close>: the memory
    of the process, a function from addresses to octets, with loads and stores.
  \<^item> \<open>Pb_Encode\<close>: the message encoder of \<open>pb_encode.c\<close>. \<open>Pb_Message\<close> is its specification, the wire format
    of the struct in memory (\<open>message_wire\<close>), and the proof that every function of the encoder
    \<open>writes_as\<close> it; \<open>Pb_Message_Use\<close> what that means for the caller.
  \<^item> \<open>Pb_Release\<close> and \<open>Pb_Decode\<close>: the message decoder of \<open>pb_decode.c\<close>, with defaults, allocation and
    release, over the memory and the blocks of the allocator. \<open>Pb_Tame\<close>, \<open>Pb_Static\<close> and \<open>Pb_Safe\<close> are its
    safety: which addresses a run may change, stage by stage, the message types without pointers and
    callbacks, and the theorem that on those every input returns and writes stay in the struct.
  \<^item> \<open>Md32\<close>: the collector of \<open>crypto/fipsmodule/digest/md32_common.h\<close>, with the block function of the digest
    as an argument; the locale \<open>md32_digest\<close> asks that it folds a compression function over blocks and
    gives that any pieces of a message are hashed like the whole. \<open>Sha256\<close>: \<open>crypto/fipsmodule/sha/sha256.c\<close>,
    FIPS 180-4 as the specification, and the interpretation of the locale.
  \<^item> \<open>Time_Support\<close>: \<open>crypto/asn1/time_support.c\<close>, and the Gregorian calendar as the specification. The
    locale \<open>julian_parts\<close> holds the steps of the day number's division and is interpreted on its functions.
    \<open>Asn1_Time\<close>: \<open>a_gentm.c\<close>, \<open>a_utctm.c\<close> and \<open>a_time.c\<close> of the same directory, the printers and parsers of
    UTCTime and GeneralizedTime on top of that arithmetic.

  \<^bold>\<open>Values of a model.\<close> A C function that fails is an option or a pair with a bool, and its state is
  returned changed in every case. In the message encoder and decoder \<open>None\<close> is separate from failure:
  the behaviour is undefined (a null function pointer called, a size of zero divided by), or the
  model's bound was exceeded. In the builder it is a null pointer used by \<open>CBB_did_write\<close>, or a discarded
  child that leaves an open child behind. In the calendar arithmetic \<open>None\<close> is a signed overflow, and the return
  value 0 an option inside.

  \<^bold>\<open>Bounds.\<close> Loops that consume input or a word recurse on what is left of it, with a measure. Messages
  nest and refer to each other through pointers in memory, so \<open>pb_encode\<close> and \<open>pb_decode\<close> take a depth:
  the nesting of submessages and of extension chains. More depth changes no outcome of the encoder, and
  \<open>pb_encode_returns\<close> gives a depth that is enough for every message type without recursion. The other
  loops with a number of rounds count to one that cannot be used up: the number of fields of a
  descriptor (\<open>find_loop\<close>, see \<open>find_loop_finds\<close>), or one more than the bytes left in a stream that every
  round shortens (\<open>message_loop\<close>, \<open>packed_static\<close>, \<open>packed_pointer\<close>).

  \<^bold>\<open>What the lemmas show.\<close> For the readers of \<open>CBS\<close>, Unicode and nanopb: they accept exactly the encodings
  of the specification, and read no further. For the builder: a simulation between the buffer and a stack
  of strings, an invariant over every sequence of calls with a result, errors that no call clears, and round
  trips through the readers. For base64:
  the streaming and the one-shot functions agree for every way of cutting the input. For the nanopb
  encoder: a refinement of the wire format for buffers, sizing streams and callbacks alike. For the nanopb
  decoder: memory safety on static message types, and two inputs to the contract that break it. For
  SHA-256: equality with the standard, its constants computed from roots of primes. For the calendar:
  round trips, exactness of sums and differences, and where the arithmetic overflows; for ASN.1 times, that
  what is printed is parsed to the same second.

  \<^bold>\<open>Not modelled.\<close> Pointers to freed or uninitialised memory, and alignment. What a failing callback of a
  stream leaves behind in the destination. The error queue of BoringSSL. In nanopb the configurations
  that the app does not build (\<open>PB_WITHOUT_64BIT\<close>, \<open>PB_BUFFER_ONLY\<close>, \<open>PB_OLD_CALLBACK_STYLE\<close>). Of the repository:
  the cryptography, X.509, TLS, gRPC, abseil, leveldb and Firebase libraries and the Swift code; their
  reasons are with the list of components in the manifest.
\<close>

end
